(* ===== verification/Eos_Prelude.thy ===== *)
theory Eos_Prelude
  imports "HOL-Library.Word"
begin

text \<open>
  Shared ground of the development: the machine types of the C code, the values a C function
  can end with (a result, or one of the ways the code stops or leaves the C semantics), the
  byte-array operations that stand for pointer reads and writes, and the generic lemmas on them.

  A C array is a list of bytes and a pointer into it is an offset. Every access goes through
  \<open>mem_get\<close>, \<open>mem_read\<close> or \<open>mem_write\<close>, which answer \<open>OutOfBounds\<close> outside
  the array, so that a theorem that a function returns \<open>Inr\<close> is also a memory-safety
  statement. Plain \<open>char\<close> is unsigned, as on the ARM targets of the application.
\<close>

unbundle bit_operations_syntax

named_theorems res_simps \<open>equations and inversions for results\<close>
named_theorems mem_simps \<open>equations for byte-array accesses\<close>

section \<open>Machine types\<close>

type_synonym u8 = "8 word"
type_synonym u16 = "16 word"
type_synonym u32 = "32 word"
type_synonym u64 = "64 word"
type_synonym bytes = "u8 list"

named_theorems word_nat \<open>machine words read as natural numbers\<close>

lemma unat_drop_bit [word_nat]: "unat (drop_bit n (w :: 'a::len word)) = unat w div 2 ^ n"
proof -
  have "take_bit LENGTH('a) (unat w) = unat w"
    by (simp add: take_bit_nat_eq_self)
  then show ?thesis
    by (simp only: unsigned_drop_bit_eq drop_bit_eq_div [where 'a = nat])
qed

lemma unat_and_mask [word_nat]: "unat ((w :: 'a::len word) AND mask n) = unat w mod 2 ^ n"
  by (simp only: unsigned_take_bit_eq take_bit_eq_mod [where 'a = nat] flip: take_bit_eq_mask)

lemma u8_and_15 [word_nat]: "unat ((w :: u8) AND 0xF) = unat w mod 16"
  using unat_and_mask [of w 4] by (simp add: mask_numeral)

lemma u8_and_127 [word_nat]: "unat ((w :: u8) AND 0x7F) = unat w mod 128"
  using unat_and_mask [of w 7] by (simp add: mask_numeral)

lemma unat_ucast_up:
  assumes "LENGTH('a) \<le> LENGTH('b)"
  shows "unat (ucast (w :: 'a::len word) :: 'b::len word) = unat w"
proof -
  have "unat w < 2 ^ LENGTH('a)" by (rule unsigned_less)
  also have "(2 :: nat) ^ LENGTH('a) \<le> 2 ^ LENGTH('b)" using assms by simp
  finally show ?thesis by (simp add: unsigned_ucast_eq take_bit_nat_eq_self)
qed

lemma unat_ucast_u8_u32 [word_nat, simp]: "unat (ucast (b :: u8) :: u32) = unat b"
  by (rule unat_ucast_up) simp

lemma unat_ucast_u8_u64 [word_nat, simp]: "unat (ucast (b :: u8) :: u64) = unat b"
  by (rule unat_ucast_up) simp

lemma unat_of_nat_u8_small: "n < 256 \<Longrightarrow> unat (of_nat n :: u8) = n"
  by (simp add: unat_of_nat take_bit_nat_eq_self)

lemma uint_of_nat_u8_small: "n < 256 \<Longrightarrow> uint (of_nat n :: u8) = int n"
  by (simp add: uint_nat unat_of_nat_u8_small del: of_nat_unat)

lemma unat_of_nat_u32_small: "n < 2 ^ 32 \<Longrightarrow> unat (of_nat n :: u32) = n"
  by (simp add: unat_of_nat take_bit_nat_eq_self)

lemma ucast_of_nat_u8: "n < 256 \<Longrightarrow> (ucast (of_nat n :: u8) :: u32) = of_nat n"
  by (simp add: word_unat_eq_iff unat_of_nat_u8_small unat_of_nat_u32_small)

lemma u8_and_128 [word_nat]: "((w :: u8) AND 0x80 = 0) \<longleftrightarrow> unat w < 128"
proof -
  have "(w AND push_bit 7 1 \<noteq> 0) \<longleftrightarrow> bit w 7"
    by (simp add: bit_iff_and_push_bit_not_eq_0)
  also have "\<dots> \<longleftrightarrow> bit (unat w) 7" by (simp add: bit_unsigned_iff)
  also have "\<dots> \<longleftrightarrow> odd (unat w div 128)" by (simp add: bit_iff_odd)
  also have "\<dots> \<longleftrightarrow> 128 \<le> unat w"
  proof (cases "128 \<le> unat w")
    case True
    have "unat w < 256" using unsigned_less [of w] by simp
    with True have "unat w div 128 = 1" by simp
    with True show ?thesis by simp
  qed simp
  finally have "w AND 0x80 \<noteq> 0 \<longleftrightarrow> 128 \<le> unat w" by (simp add: push_bit_eq_mult)
  then show ?thesis by (auto simp: not_less)
qed

lemma u8_and_1 [word_nat]: "((w :: u8) AND 1 = 0) \<longleftrightarrow> even (unat w)"
proof -
  have "unat (w AND 1) = unat w mod 2"
    using unat_and_mask [of w 1] by (simp add: mask_Suc_0)
  then show ?thesis by (simp add: even_iff_mod_2_eq_zero flip: unat_eq_0)
qed

lemma u8_eqI: "unat (a :: u8) = unat b \<Longrightarrow> a = b"
  by (simp add: word_unat_eq_iff)

section \<open>Results\<close>

text \<open>
  \<open>Assertion\<close> is a failed \<open>LEDGER_ASSERT\<close> with its message, \<open>CxError\<close> a failed
  \<open>CX_ASSERT\<close>: both stop the application. The others are the C behaviours that the standard
  leaves undefined, and \<open>OutOfFuel\<close> marks a bounded model of a loop that was cut short.
\<close>

datatype fail =
    Assertion string
  | CxError
  | OutOfBounds
  | SignedOverflow
  | DivisionByZero
  | OutOfFuel

type_synonym 'a result = "fail + 'a"

primrec andThen :: "'e + 'a \<Rightarrow> ('a \<Rightarrow> 'e + 'b) \<Rightarrow> 'e + 'b" where
  "andThen (Inl e) f = Inl e"
| "andThen (Inr x) f = f x"

definition LEDGER_ASSERT :: "bool \<Rightarrow> string \<Rightarrow> unit result" where
  "LEDGER_ASSERT b msg = (if b then Inr () else Inl (Assertion msg))"

definition CX_ASSERT :: "'a option \<Rightarrow> 'a result" where
  "CX_ASSERT r = (case r of None \<Rightarrow> Inl CxError | Some x \<Rightarrow> Inr x)"

lemma andThen_cong [fundef_cong]:
  "m = m' \<Longrightarrow> (\<And>x. m' = Inr x \<Longrightarrow> f x = g x) \<Longrightarrow> andThen m f = andThen m' g"
  by (cases m') auto

lemma andThen_eq_Inr [res_simps]:
  "andThen m f = Inr y \<longleftrightarrow> (\<exists>x. m = Inr x \<and> f x = Inr y)"
  by (cases m) auto

lemma andThen_eq_Inl:
  "andThen m f = Inl e \<longleftrightarrow> m = Inl e \<or> (\<exists>x. m = Inr x \<and> f x = Inl e)"
  by (cases m) auto

lemma andThen_assoc: "andThen (andThen m f) g = andThen m (\<lambda>x. andThen (f x) g)"
  by (cases m) auto

lemma andThen_Inr [simp]: "andThen m Inr = m"
  by (cases m) auto

lemma andThen_split:
  "P (andThen m f) \<longleftrightarrow> (\<forall>e. m = Inl e \<longrightarrow> P (Inl e)) \<and> (\<forall>x. m = Inr x \<longrightarrow> P (f x))"
  by (cases m) auto

lemma LEDGER_ASSERT_True [simp]: "b \<Longrightarrow> LEDGER_ASSERT b msg = Inr ()"
  by (simp add: LEDGER_ASSERT_def)

lemma LEDGER_ASSERT_False [simp]: "\<not> b \<Longrightarrow> LEDGER_ASSERT b msg = Inl (Assertion msg)"
  by (simp add: LEDGER_ASSERT_def)

lemma LEDGER_ASSERT_eq_Inr [res_simps]: "LEDGER_ASSERT b msg = Inr u \<longleftrightarrow> b"
  by (simp add: LEDGER_ASSERT_def)

lemma CX_ASSERT_simps [simp]: "CX_ASSERT None = Inl CxError" "CX_ASSERT (Some x) = Inr x"
  by (simp_all add: CX_ASSERT_def)

lemma CX_ASSERT_eq_Inr [res_simps]: "CX_ASSERT r = Inr x \<longleftrightarrow> r = Some x"
  by (cases r) auto

text \<open>A result that is not undefined behaviour: it returns, or it stops on an assertion.\<close>

fun stops_cleanly :: "'a result \<Rightarrow> bool" where
  "stops_cleanly (Inr x) \<longleftrightarrow> True"
| "stops_cleanly (Inl (Assertion m)) \<longleftrightarrow> True"
| "stops_cleanly (Inl CxError) \<longleftrightarrow> True"
| "stops_cleanly (Inl e) \<longleftrightarrow> False"

lemma stops_cleanly_andThen:
  "stops_cleanly m \<Longrightarrow> (\<And>x. m = Inr x \<Longrightarrow> stops_cleanly (f x)) \<Longrightarrow> stops_cleanly (andThen m f)"
  by (cases m rule: stops_cleanly.cases) auto

lemma stops_cleanly_LEDGER_ASSERT [simp]: "stops_cleanly (LEDGER_ASSERT b msg)"
  by (simp add: LEDGER_ASSERT_def)

lemma stops_cleanly_CX_ASSERT [simp]: "stops_cleanly (CX_ASSERT r)"
  by (cases r) auto

text \<open>
  The triple of the development: \<open>ends P r\<close> holds when \<open>r\<close> is not undefined behaviour and its
  value, if it returns one, satisfies \<open>P\<close>. The rules follow the shape of the code.
\<close>

definition ends :: "('a \<Rightarrow> bool) \<Rightarrow> 'a result \<Rightarrow> bool" where
  "ends P r \<longleftrightarrow> stops_cleanly r \<and> (\<forall>x. r = Inr x \<longrightarrow> P x)"

lemma ends_Inr [simp]: "ends P (Inr x) \<longleftrightarrow> P x"
  by (simp add: ends_def)

lemma ends_Assertion [simp]: "ends P (Inl (Assertion m))"
  by (simp add: ends_def)

lemma ends_CxError [simp]: "ends P (Inl CxError)"
  by (simp add: ends_def)

lemma ends_andThen: "ends Q m \<Longrightarrow> (\<And>x. Q x \<Longrightarrow> ends P (f x)) \<Longrightarrow> ends P (andThen m f)"
  by (cases m rule: stops_cleanly.cases) (simp_all add: ends_def)

lemma ends_mono: "ends Q m \<Longrightarrow> (\<And>x. Q x \<Longrightarrow> P x) \<Longrightarrow> ends P m"
  by (simp add: ends_def)

lemma ends_stops_cleanly: "ends P r \<Longrightarrow> stops_cleanly r"
  by (simp add: ends_def)

lemma ends_result: "ends P r \<Longrightarrow> r = Inr x \<Longrightarrow> P x"
  by (simp add: ends_def)

lemma ends_if: "(b \<Longrightarrow> ends P x) \<Longrightarrow> (\<not> b \<Longrightarrow> ends P y) \<Longrightarrow> ends P (if b then x else y)"
  by simp

lemma ends_assert: "(b \<Longrightarrow> ends P (f ())) \<Longrightarrow> ends P (andThen (LEDGER_ASSERT b m) f)"
  by (cases b) simp_all

lemma ends_CX: "(\<And>x. r = Some x \<Longrightarrow> ends P (f x)) \<Longrightarrow> ends P (andThen (CX_ASSERT r) f)"
  by (cases r) simp_all

section \<open>Byte arrays\<close>

definition mem_get :: "'a list \<Rightarrow> nat \<Rightarrow> 'a result" where
  "mem_get m i = (if i < length m then Inr (m ! i) else Inl OutOfBounds)"

definition mem_read :: "'a list \<Rightarrow> nat \<Rightarrow> nat \<Rightarrow> 'a list result" where
  "mem_read m off n =
     (if off + n \<le> length m then Inr (take n (drop off m)) else Inl OutOfBounds)"

definition mem_write :: "'a list \<Rightarrow> nat \<Rightarrow> 'a list \<Rightarrow> 'a list result" where
  "mem_write m off bs =
     (if off + length bs \<le> length m
      then Inr (take off m @ bs @ drop (off + length bs) m) else Inl OutOfBounds)"

lemma mem_get_in [mem_simps]: "i < length m \<Longrightarrow> mem_get m i = Inr (m ! i)"
  by (simp add: mem_get_def)

lemma mem_get_eq_Inr [res_simps]: "mem_get m i = Inr x \<longleftrightarrow> i < length m \<and> x = m ! i"
  by (auto simp: mem_get_def)

lemma mem_read_in [mem_simps]:
  "off + n \<le> length m \<Longrightarrow> mem_read m off n = Inr (take n (drop off m))"
  by (simp add: mem_read_def)

lemma mem_read_eq_Inr [res_simps]:
  "mem_read m off n = Inr bs \<longleftrightarrow> off + n \<le> length m \<and> bs = take n (drop off m)"
  by (auto simp: mem_read_def)

lemma length_mem_read: "mem_read m off n = Inr bs \<Longrightarrow> length bs = n"
  by (auto simp: res_simps)

lemma mem_read_append:
  "mem_read m off (a + b) =
     andThen (mem_read m off a) (\<lambda>xs. andThen (mem_read m (off + a) b) (\<lambda>ys. Inr (xs @ ys)))"
  by (auto simp: mem_read_def take_add drop_drop add.commute)

lemma mem_write_in [mem_simps]:
  "off + length bs \<le> length m \<Longrightarrow>
     mem_write m off bs = Inr (take off m @ bs @ drop (off + length bs) m)"
  by (simp add: mem_write_def)

lemma mem_write_eq_Inr [res_simps]:
  "mem_write m off bs = Inr m' \<longleftrightarrow>
     off + length bs \<le> length m \<and> m' = take off m @ bs @ drop (off + length bs) m"
  by (auto simp: mem_write_def)

lemma length_mem_write: "mem_write m off bs = Inr m' \<Longrightarrow> length m' = length m"
  by (auto simp: res_simps)

lemma mem_write_Nil: "off \<le> length m \<Longrightarrow> mem_write m off [] = Inr m"
  by (simp add: mem_write_def)

lemma mem_write_append:
  "mem_write m off (xs @ ys) =
     andThen (mem_write m off xs) (\<lambda>m'. mem_write m' (off + length xs) ys)"
proof (cases "off + length xs \<le> length m")
  case True
  then have "take (off + length xs) (take off m @ xs @ drop (off + length xs) m) = take off m @ xs"
    and "drop (off + length xs + length ys) (take off m @ xs @ drop (off + length xs) m)
           = drop (off + length xs + length ys) m"
    by (cases xs; auto simp: min_def ac_simps)+
  with True show ?thesis
    by (cases xs) (auto simp: mem_write_def min_def add.assoc)
qed (simp add: mem_write_def)

lemma mem_read_after_write:
  "mem_write m off bs = Inr m' \<Longrightarrow> mem_read m' off (length bs) = Inr bs"
  by (auto simp: res_simps min_def)

lemma ends_read:
  "off + n \<le> length m \<Longrightarrow> (\<And>bs. length bs = n \<Longrightarrow> ends P (f bs)) \<Longrightarrow> ends P (andThen (mem_read m off n) f)"
  by (simp add: mem_read_def)

lemma ends_write:
  "off + length bs \<le> length m \<Longrightarrow> (\<And>m'. length m' = length m \<Longrightarrow> ends P (f m')) \<Longrightarrow>
     ends P (andThen (mem_write m off bs) f)"
  by (simp add: mem_write_def)

text \<open>\<open>memset(p, 0, sizeof(array))\<close> on a whole array of the given size.\<close>

definition zeros :: "nat \<Rightarrow> bytes" where
  "zeros n = replicate n 0"

lemma length_zeros [simp]: "length (zeros n) = n"
  by (simp add: zeros_def)

lemma zeros_0 [simp]: "zeros 0 = []"
  by (simp add: zeros_def)

lemma drop_zeros [simp]: "drop k (zeros n) = zeros (n - k)"
  by (simp add: zeros_def)

lemma take_zeros [simp]: "take k (zeros n) = zeros (min k n)"
  by (simp add: zeros_def)

section \<open>Little-endian values\<close>

text \<open>
  \<open>memmove(&value, in, n)\<close> into an integer of \<open>n\<close> bytes on a little-endian target, and the
  byte image of such an integer.
\<close>

primrec le_nat :: "bytes \<Rightarrow> nat" where
  "le_nat [] = 0"
| "le_nat (b # bs) = unat b + 256 * le_nat bs"

primrec le_bytes :: "nat \<Rightarrow> nat \<Rightarrow> bytes" where
  "le_bytes 0 v = []"
| "le_bytes (Suc n) v = of_nat (v mod 256) # le_bytes n (v div 256)"

definition le_word :: "bytes \<Rightarrow> 'a::len word" where
  "le_word bs = of_nat (le_nat bs)"

lemma unat_u8_less [simp]: "unat (b :: u8) < 256"
  using unsigned_less [of b] by simp

lemma unat_of_nat_u8 [simp]: "unat (of_nat (n mod 256) :: u8) = n mod 256"
  by (simp add: unat_of_nat take_bit_eq_mod)

lemma length_le_bytes [simp]: "length (le_bytes n v) = n"
  by (induction n arbitrary: v) auto

lemma le_nat_less: "le_nat bs < 256 ^ length bs"
proof (induction bs)
  case (Cons b bs)
  have "unat b < 256" by simp
  then have "unat b + 256 * le_nat bs < 256 * (le_nat bs + 1)" by simp
  also from Cons have "256 * (le_nat bs + 1) \<le> 256 * 256 ^ length bs"
    by (intro mult_le_mono2) simp
  finally show ?case by simp
qed simp

lemma le_nat_le_bytes: "le_nat (le_bytes n v) = v mod 256 ^ n"
proof (induction n arbitrary: v)
  case (Suc n)
  have "v mod 256 + 256 * (v div 256 mod 256 ^ n) = v mod (256 * 256 ^ n)"
    by (simp add: mod_mult2_eq)
  with Suc show ?case by simp
qed simp

lemma le_bytes_le_nat: "length bs = n \<Longrightarrow> le_bytes n (le_nat bs) = bs"
proof (induction bs arbitrary: n)
  case (Cons b bs)
  have b: "unat b < 256" by simp
  then have "(unat b + 256 * le_nat bs) mod 256 = unat b"
    and "(unat b + 256 * le_nat bs) div 256 = le_nat bs"
    by simp_all
  with Cons show ?case by (auto simp del: of_nat_add of_nat_mult)
qed simp

lemma le_nat_append: "le_nat (xs @ ys) = le_nat xs + 256 ^ length xs * le_nat ys"
  by (induction xs) (auto simp: algebra_simps)

lemma le_word_64_inj:
  assumes "length xs = 8" and "length ys = 8" and "(le_word xs :: u64) = le_word ys"
  shows "xs = ys"
proof -
  have "unat (le_word zs :: u64) = le_nat zs" if "length zs = 8" for zs
    using le_nat_less [of zs] that by (simp add: le_word_def unat_of_nat take_bit_eq_mod)
  with assms have "le_nat xs = le_nat ys" by metis
  with assms(1,2) show ?thesis by (metis le_bytes_le_nat)
qed

section \<open>C strings\<close>

definition cstr :: "string \<Rightarrow> bytes" where
  "cstr s = map of_char s"

lemma length_cstr [simp]: "length (cstr s) = length s"
  by (simp add: cstr_def)

text \<open>\<open>strlen\<close>: the distance to the first zero byte, which must exist.\<close>

definition strlen :: "bytes \<Rightarrow> nat result" where
  "strlen m = (if 0 \<in> set m then Inr (length (takeWhile (\<lambda>b. b \<noteq> 0) m)) else Inl OutOfBounds)"

definition c_string :: "bytes \<Rightarrow> bytes" where
  "c_string m = takeWhile (\<lambda>b. b \<noteq> 0) m"

lemma strlen_eq_Inr [res_simps]:
  "strlen m = Inr n \<longleftrightarrow> 0 \<in> set m \<and> n = length (c_string m)"
  by (auto simp: strlen_def c_string_def)

lemma c_string_append_zero:
  "0 \<notin> set s \<Longrightarrow> c_string (s @ 0 # r) = s"
  unfolding c_string_def by (induction s) auto

lemma strlen_append_zero:
  "0 \<notin> set s \<Longrightarrow> strlen (s @ 0 # r) = Inr (length s)"
  by (simp add: strlen_eq_Inr c_string_append_zero)

text \<open>A string at the start of a buffer whose rest is zero: the state of every display buffer.\<close>

definition padded :: "nat \<Rightarrow> bytes \<Rightarrow> bytes" where
  "padded n s = s @ zeros (n - length s)"

lemma length_padded: "length s \<le> n \<Longrightarrow> length (padded n s) = n"
  by (simp add: padded_def)

lemma mem_write_zeros:
  "length s \<le> n \<Longrightarrow> mem_write (zeros n) 0 s = Inr (padded n s)"
  by (simp add: mem_write_def padded_def zeros_def)

lemma zeros_split: "m < n \<Longrightarrow> zeros (n - m) = 0 # zeros (n - Suc m)"
  by (simp add: zeros_def flip: replicate_Suc)

lemma c_string_padded:
  "0 \<notin> set s \<Longrightarrow> length s < n \<Longrightarrow> c_string (padded n s) = s"
  by (simp add: padded_def zeros_split c_string_append_zero)

lemma strlen_padded:
  "0 \<notin> set s \<Longrightarrow> length s < n \<Longrightarrow> strlen (padded n s) = Inr (length s)"
  by (simp add: padded_def zeros_split strlen_append_zero)

lemma mem_write_padded:
  assumes "length s + length t \<le> n"
  shows "mem_write (padded n s) (length s) t = Inr (padded n (s @ t))"
proof -
  have "drop (length t) (zeros (n - length s)) = zeros (n - length s - length t)"
    by (simp add: zeros_def)
  with assms show ?thesis by (simp add: mem_write_def padded_def)
qed

end
