(* ===== verification/Eos_Radix.thy ===== *)
theory Eos_Radix
  imports Eos_Prelude
begin

text \<open>
  Positional notation, the mathematics behind every text the device displays: the value of a
  digit sequence in a base, the reading of characters through an alphabet, and the interface
  (\<open>alphabet\<close>) that an alphabet table of the C code has to satisfy for what it prints to be
  readable back. The tables of the code are interpreted in the theories that define them.
\<close>

section \<open>Values of digit sequences\<close>

definition be_val :: "nat \<Rightarrow> nat list \<Rightarrow> nat" where
  "be_val b ds = foldl (\<lambda>a d. b * a + d) 0 ds"

abbreviation be_nat :: "bytes \<Rightarrow> nat" where
  "be_nat bs \<equiv> be_val 256 (map unat bs)"

lemma be_val_Nil [simp]: "be_val b [] = 0"
  by (simp add: be_val_def)

lemma be_val_foldl: "foldl (\<lambda>a d. b * a + d) a ds = a * b ^ length ds + be_val b ds"
proof (induction ds arbitrary: a)
  case (Cons d ds)
  have "foldl (\<lambda>a d. b * a + d) a (d # ds) = (b * a + d) * b ^ length ds + be_val b ds"
    by (simp add: Cons.IH)
  moreover have "be_val b (d # ds) = d * b ^ length ds + be_val b ds"
    using Cons.IH [of d] by (simp add: be_val_def)
  ultimately show ?case by (simp add: algebra_simps)
qed simp

lemma be_val_Cons: "be_val b (d # ds) = d * b ^ length ds + be_val b ds"
  using be_val_foldl [of b d ds] by (simp add: be_val_def)

lemma be_val_snoc [simp]: "be_val b (ds @ [d]) = b * be_val b ds + d"
  by (simp add: be_val_def)

lemma be_val_append: "be_val b (xs @ ys) = be_val b xs * b ^ length ys + be_val b ys"
  using be_val_foldl [of b "be_val b xs" ys] by (simp add: be_val_def)

lemma be_val_replicate_0 [simp]: "be_val b (replicate n 0) = 0"
  by (induction n) (auto simp: be_val_Cons)

lemma be_val_less:
  assumes "\<forall>d \<in> set ds. d < b"
  shows "be_val b ds < b ^ length ds"
  using assms
proof (induction ds)
  case (Cons d ds)
  then have "be_val b ds < b ^ length ds" by simp
  then have "be_val b (d # ds) < (d + 1) * b ^ length ds" by (simp add: be_val_Cons)
  also have "\<dots> \<le> b * b ^ length ds"
    using Cons.prems by (intro mult_le_mono1) simp
  finally show ?case by simp
qed simp

lemma be_val_ge:
  assumes "0 < d" shows "b ^ length ds \<le> be_val b (d # ds)"
proof -
  have "1 * b ^ length ds \<le> d * b ^ length ds"
    using assms by (intro mult_le_mono1) simp
  then show ?thesis unfolding be_val_Cons by linarith
qed

lemma be_val_inj:
  assumes "length xs = length ys" and "\<forall>d \<in> set xs. d < b" and "\<forall>d \<in> set ys. d < b"
    and "be_val b xs = be_val b ys"
  shows "xs = ys"
  using assms
proof (induction xs ys rule: list_induct2)
  case (Cons x xs y ys)
  let ?p = "b ^ length ys"
  have lt: "be_val b xs < ?p" "be_val b ys < ?p"
    using be_val_less [of xs b] be_val_less [of ys b] Cons by auto
  have eq: "x * ?p + be_val b xs = y * ?p + be_val b ys"
    using Cons.prems(3) Cons.hyps by (simp add: be_val_Cons)
  have quot: "(z * p + r) div p = z" if "r < p" for z r p :: nat
    using that by (cases "p = 0") simp_all
  from lt have "(x * ?p + be_val b xs) div ?p = x" "(y * ?p + be_val b ys) div ?p = y"
    by (simp_all only: quot)
  with eq have "x = y" by simp
  with eq Cons show ?case by simp
qed simp

text \<open>Two numerals without a leading zero are equal when their values are.\<close>

lemma be_val_inj_no_leading_zero:
  assumes "be_val b xs = be_val b ys"
    and "\<forall>d \<in> set xs. d < b" and "\<forall>d \<in> set ys. d < b"
    and "xs \<noteq> [] \<Longrightarrow> hd xs \<noteq> 0" and "ys \<noteq> [] \<Longrightarrow> hd ys \<noteq> 0" and "1 < b"
  shows "xs = ys"
proof -
  have le: "length us \<le> length vs"
    if v: "be_val b us = be_val b vs" and d: "\<forall>d \<in> set vs. d < b"
      and h: "us \<noteq> [] \<Longrightarrow> hd us \<noteq> 0" for us vs
  proof (cases us)
    case (Cons u us')
    have "b ^ length us' \<le> be_val b us"
      using be_val_ge [of u b us'] h Cons by simp
    also have "\<dots> < b ^ length vs"
      using v be_val_less [OF d] by simp
    finally have "b ^ length us' < b ^ length vs" .
    with \<open>1 < b\<close> have "length us' < length vs"
      by (rule power_less_imp_less_exp)
    with Cons show ?thesis by simp
  qed simp
  have "length xs \<le> length ys"
    by (rule le [OF assms(1,3,4)])
  moreover have "length ys \<le> length xs"
    by (rule le [OF assms(1) [symmetric] assms(2,5)])
  ultimately have "length xs = length ys" by (rule le_antisym)
  then show ?thesis using assms(2,3,1) by (rule be_val_inj)
qed

lemma be_nat_less: "be_nat bs < 256 ^ length bs"
  using be_val_less [of "map unat bs" 256] by auto

lemma be_nat_inj:
  "length xs = length ys \<Longrightarrow> be_nat xs = be_nat ys \<Longrightarrow> xs = ys"
  using be_val_inj [of "map unat xs" "map unat ys" 256]
  by (auto dest!: map_injective intro!: injI)

text \<open>A number written with a fixed count of digits, leading zeros included.\<close>

primrec fixed_digits :: "nat \<Rightarrow> nat \<Rightarrow> nat \<Rightarrow> nat list" where
  "fixed_digits b 0 w = []"
| "fixed_digits b (Suc n) w = fixed_digits b n (w div b) @ [w mod b]"

lemma fixed_digits_numeral:
  "fixed_digits b (numeral k) w = fixed_digits b (pred_numeral k) (w div b) @ [w mod b]"
  by (simp only: numeral_eq_Suc fixed_digits.simps)

lemma length_fixed_digits [simp]: "length (fixed_digits b n w) = n"
  by (induction n arbitrary: w) auto

lemma fixed_digits_less: "0 < b \<Longrightarrow> \<forall>d \<in> set (fixed_digits b n w). d < b"
  by (induction n arbitrary: w) auto

lemma be_val_fixed_digits: "be_val b (fixed_digits b n w) = w mod b ^ n"
proof (induction n arbitrary: w)
  case (Suc n)
  have "w mod (b * b ^ n) = b * (w div b mod b ^ n) + w mod b"
    by (rule mod_mult2_eq)
  with Suc show ?case by simp
qed simp

lemma fixed_digits_map: "fixed_digits b n w = map (\<lambda>k. w div b ^ (n - 1 - k) mod b) [0..<n]"
proof (induction n arbitrary: w)
  case (Suc n)
  have "w div b div b ^ (n - 1 - k) = w div b ^ (n - k)" if "k < n" for k
  proof -
    have e: "n - k = Suc (n - 1 - k)" using that by simp
    show ?thesis unfolding e power_Suc div_mult2_eq ..
  qed
  then have "map (\<lambda>k. w div b div b ^ (n - 1 - k) mod b) [0..<n]
      = map (\<lambda>k. w div b ^ (n - k) mod b) [0..<n]"
    by (intro map_cong) auto
  with Suc show ?case by simp
qed simp

section \<open>Alphabets\<close>

text \<open>The position of a character in a table, and the value of a text read through it.\<close>

definition digit_of :: "bytes \<Rightarrow> u8 \<Rightarrow> nat" where
  "digit_of chars c = length (takeWhile (\<lambda>x. x \<noteq> c) chars)"

definition decode :: "bytes \<Rightarrow> bytes \<Rightarrow> nat" where
  "decode chars s = be_val (length chars) (map (digit_of chars) s)"

locale alphabet =
  fixes chars :: bytes
  assumes distinct_chars: "distinct chars"
    and printable: "0 \<notin> set chars"
begin

lemma digit_of_nth: "i < length chars \<Longrightarrow> digit_of chars (chars ! i) = i"
  using distinct_chars unfolding digit_of_def
proof (induction chars arbitrary: i)
  case (Cons c cs)
  show ?case
  proof (cases i)
    case (Suc j)
    with Cons.prems have "cs ! j \<in> set cs" by simp
    with Cons.prems(2) have "c \<noteq> cs ! j" by auto
    with Cons Suc show ?thesis by simp
  qed simp
qed simp

lemma map_digit_of_nth:
  "\<forall>d \<in> set ds. d < length chars \<Longrightarrow> map (digit_of chars) (map (nth chars) ds) = ds"
  by (induction ds) (auto simp: digit_of_nth)

lemma decode_nth:
  "\<forall>d \<in> set ds. d < length chars \<Longrightarrow> decode chars (map (nth chars) ds) = be_val (length chars) ds"
  unfolding decode_def by (simp only: map_digit_of_nth)

lemma nth_printable: "i < length chars \<Longrightarrow> chars ! i \<noteq> 0"
  using printable by (metis nth_mem)

lemma nth_inj: "i < length chars \<Longrightarrow> j < length chars \<Longrightarrow> chars ! i = chars ! j \<longleftrightarrow> i = j"
  using distinct_chars by (simp add: nth_eq_iff_index_eq)

lemma map_nth_inj:
  assumes "\<forall>d \<in> set ds. d < length chars" and "\<forall>d \<in> set es. d < length chars"
    and "map (nth chars) ds = map (nth chars) es"
  shows "ds = es"
  using assms map_digit_of_nth by metis

lemma printable_text: "\<forall>d \<in> set ds. d < length chars \<Longrightarrow> 0 \<notin> set (map (nth chars) ds)"
  by (auto simp: nth_printable)

end

end
