(* ===== verification/Eos_Utils.thy ===== *)
theory Eos_Utils
  imports Eos_Radix
begin

text \<open>
  The routines of \<^verbatim>\<open>src/eos_utils.c\<close> but for Base58 (theory \<open>Eos_Base58\<close>) and the nonce
  generator: decimal and hexadecimal text, the decoder of a DER tag and length, the EOS
  canonical-signature test and the conversion of a DER signature to 64 bytes.
\<close>

section \<open>Decimal text: i64toa and ui64toa\<close>

definition digit :: bytes where
  "digit = cstr ''0123456789''"

text \<open>
  Both C functions first move \<open>p\<close> to the end of the representation, then write the digits
  backwards. The loop variables are never negative there and only divided, so \<open>nat\<close> is exact
  for both \<open>int64_t\<close> and \<open>uint64_t\<close>.
\<close>

fun toa_count :: "nat \<Rightarrow> nat \<Rightarrow> nat" where
  "toa_count p shifter =
     (let p' = Suc p; shifter' = shifter div 10
      in if shifter' \<noteq> 0 then toa_count p' shifter' else p')"

fun toa_fill :: "nat \<Rightarrow> nat \<Rightarrow> bytes \<Rightarrow> bytes result" where
  "toa_fill i p b =
     andThen (if p = 0 then Inl OutOfBounds else mem_write b (p - 1) [digit ! (i mod 10)])
       (\<lambda>b'. if i div 10 \<noteq> 0 then toa_fill (i div 10) (p - 1) b' else Inr b')"

declare toa_count.simps [simp del] toa_fill.simps [simp del]

definition ui64toa :: "u64 \<Rightarrow> bytes \<Rightarrow> bytes result" where
  "ui64toa i b =
     (let p = toa_count 0 (unat i)
      in andThen (mem_write b p [0]) (toa_fill (unat i) p))"

text \<open>
  \<open>i\<close> is an \<open>int64_t\<close>; negating the least one overflows. \<open>int64_range\<close> is the range of
  the type.
\<close>

definition int64_range :: "int \<Rightarrow> bool" where
  "int64_range i \<longleftrightarrow> - (2 ^ 63) \<le> i \<and> i < 2 ^ 63"

definition i64toa :: "int \<Rightarrow> bytes \<Rightarrow> bytes result" where
  "i64toa i b =
     (if i < 0
      then andThen (mem_write b 0 (cstr ''-''))
             (\<lambda>b. if int64_range (i * -1)
                  then (let p = toa_count 1 (nat (i * -1))
                        in andThen (mem_write b p [0]) (toa_fill (nat (i * -1)) p))
                  else Inl SignedOverflow)
      else (let p = toa_count 0 (nat i)
            in andThen (mem_write b p [0]) (toa_fill (nat i) p)))"

text \<open>The specification: the decimal numeral of a number, most significant digit first.\<close>

fun dec_digits :: "nat \<Rightarrow> nat list" where
  "dec_digits n = (if n < 10 then [n] else dec_digits (n div 10) @ [n mod 10])"

declare dec_digits.simps [simp del]

definition dec_string :: "nat \<Rightarrow> bytes" where
  "dec_string n = map (nth digit) (dec_digits n)"

interpretation dec: alphabet digit
  by unfold_locales (simp_all add: digit_def cstr_def)

lemma length_digit [simp]: "length digit = 10"
  by (simp add: digit_def)

lemma dec_digits_less: "\<forall>d \<in> set (dec_digits n). d < 10"
proof (induction n rule: dec_digits.induct)
  case (1 n)
  then show ?case by (subst dec_digits.simps) auto
qed

lemma be_val_dec_digits: "be_val 10 (dec_digits n) = n"
proof (induction n rule: dec_digits.induct)
  case (1 n)
  then show ?case by (subst dec_digits.simps) (auto simp: be_val_Cons)
qed

lemma hd_dec_digits: "n \<noteq> 0 \<Longrightarrow> hd (dec_digits n) \<noteq> 0"
proof (induction n rule: dec_digits.induct)
  case (1 n)
  have ne: "dec_digits m \<noteq> []" for m by (subst dec_digits.simps) simp
  show ?case
  proof (cases "n < 10")
    case True
    with "1.prems" show ?thesis by (subst dec_digits.simps) simp
  next
    case False
    with "1.IH" have "hd (dec_digits (n div 10)) \<noteq> 0" by simp
    with False ne show ?thesis by (subst dec_digits.simps) simp
  qed
qed

lemma decode_dec_string: "decode digit (dec_string n) = n"
  using dec.decode_nth [of "dec_digits n"] dec_digits_less [of n]
  by (simp add: dec_string_def be_val_dec_digits)

lemma dec_string_inj: "dec_string m = dec_string n \<Longrightarrow> m = n"
  by (metis decode_dec_string)

lemma dec_string_printable: "0 \<notin> set (dec_string n)"
  using dec.printable_text [of "dec_digits n"] dec_digits_less [of n] by (simp add: dec_string_def)

lemma dec_string_nonempty [simp]: "dec_string n \<noteq> []"
  by (simp add: dec_string_def dec_digits.simps [of n])

lemma dec_string_rec:
  "dec_string n = (if n < 10 then [digit ! n] else dec_string (n div 10) @ [digit ! (n mod 10)])"
  by (simp add: dec_string_def dec_digits.simps [of n])

lemma length_dec_string: "n < 10 ^ k \<Longrightarrow> 0 < k \<Longrightarrow> length (dec_string n) \<le> k"
proof (induction k arbitrary: n)
  case (Suc k)
  show ?case
  proof (cases "n < 10")
    case False
    with Suc.prems have "n div 10 < 10 ^ k" and "0 < k"
      by (auto simp: less_mult_imp_div_less intro!: gr0I)
    with Suc.IH have "length (dec_string (n div 10)) \<le> k" by blast
    with False show ?thesis by (subst dec_string_rec) simp
  qed (subst dec_string_rec, simp)
qed simp

lemma toa_count_eq: "toa_count p n = p + length (dec_string n)"
proof (induction p n rule: toa_count.induct)
  case (1 p n)
  show ?case
  proof (cases "n < 10")
    case True
    then show ?thesis by (subst toa_count.simps, subst dec_string_rec) simp
  next
    case False
    then have "n div 10 \<noteq> 0" by auto
    with "1" have "toa_count (Suc p) (n div 10) = Suc p + length (dec_string (n div 10))" by simp
    with False \<open>n div 10 \<noteq> 0\<close> show ?thesis
      by (subst toa_count.simps, subst dec_string_rec) simp
  qed
qed

lemma toa_fill_eq:
  assumes "length gap = length (dec_string n)" and "p = length pre + length gap"
    and "b = pre @ gap @ post"
  shows "toa_fill n p b = Inr (pre @ dec_string n @ post)"
  using assms
proof (induction n p b arbitrary: gap post rule: toa_fill.induct)
  case (1 n p b)
  then have "gap \<noteq> []" by auto
  then obtain front c where gap: "gap = front @ [c]" by (meson rev_exhaust)
  with "1.prems" have p: "p = length pre + length front + 1" by simp
  have wr: "mem_write b (p - 1) [digit ! (n mod 10)]
              = Inr (pre @ front @ digit ! (n mod 10) # post)"
    by (simp add: mem_write_def gap p "1.prems"(3))
  show ?case
  proof (cases "n < 10")
    case True
    with "1.prems" gap have "front = []" by (simp add: dec_string_rec [of n])
    with True wr p show ?thesis by (subst toa_fill.simps) (simp add: dec_string_rec [of n])
  next
    case False
    then have nz: "n div 10 \<noteq> 0" by auto
    from False "1.prems" gap have len: "length front = length (dec_string (n div 10))"
      by (simp add: dec_string_rec [of n])
    have "toa_fill (n div 10) (p - 1) (pre @ front @ digit ! (n mod 10) # post)
            = Inr (pre @ dec_string (n div 10) @ digit ! (n mod 10) # post)"
      using "1.IH" [of "pre @ front @ digit ! (n mod 10) # post" front
          "digit ! (n mod 10) # post"] wr nz p len by simp
    with nz wr p False show ?thesis
      by (subst toa_fill.simps) (simp add: dec_string_rec [of n])
  qed
qed

text \<open>The shared tail of the two functions: terminator, then digits.\<close>

lemma toa_write:
  assumes "length pre + length (dec_string n) < length b" and "length pre \<le> length b"
    and "take (length pre) b = pre"
  shows "(let p = toa_count (length pre) n in andThen (mem_write b p [0]) (toa_fill n p))
           = Inr (pre @ dec_string n @ 0 # drop (length pre + length (dec_string n) + 1) b)"
proof -
  let ?p = "length pre + length (dec_string n)"
  have wr: "mem_write b ?p [0] = Inr (take ?p b @ 0 # drop (?p + 1) b)"
    using assms by (simp add: mem_write_def)
  have "take ?p b = pre @ take (length (dec_string n)) (drop (length pre) b)"
    using assms by (simp add: take_add)
  with wr assms(1) show ?thesis
    using toa_fill_eq [of "take (length (dec_string n)) (drop (length pre) b)" n ?p pre
        "take ?p b @ 0 # drop (?p + 1) b" "0 # drop (?p + 1) b"]
    by (simp add: toa_count_eq Let_def)
qed

lemma ui64toa_eq:
  assumes "length (dec_string (unat i)) < length b"
  shows "ui64toa i b = Inr (dec_string (unat i) @ 0 # drop (Suc (length (dec_string (unat i)))) b)"
  using toa_write [of "[]" "unat i" b] assms by (simp add: ui64toa_def)

lemma length_dec_string_u64: "length (dec_string (unat (i :: u64))) \<le> 20"
proof (rule length_dec_string)
  have "unat i < 2 ^ 64" using unsigned_less [of i] by simp
  then show "unat i < 10 ^ 20" by simp
qed simp

lemma i64toa_nonneg:
  assumes "0 \<le> i" and "length (dec_string (nat i)) < length b"
  shows "i64toa i b = Inr (dec_string (nat i) @ 0 # drop (Suc (length (dec_string (nat i)))) b)"
  using toa_write [of "[]" "nat i" b] assms by (simp add: i64toa_def)

lemma i64toa_neg:
  assumes "i < 0" and "- (2 ^ 63) < i" and "Suc (length (dec_string (nat (- i)))) < length b"
  shows "i64toa i b =
    Inr (cstr ''-'' @ dec_string (nat (- i)) @ 0 # drop (2 + length (dec_string (nat (- i)))) b)"
proof -
  have wr: "mem_write b 0 (cstr ''-'') = Inr (cstr ''-'' @ drop 1 b)"
    using assms(3) by (simp add: mem_write_def)
  have "int64_range (- i)" using assms(1,2) by (simp add: int64_range_def)
  with wr assms show ?thesis
    using toa_write [of "cstr ''-''" "nat (- i)" "cstr ''-'' @ drop 1 b"]
    by (simp add: i64toa_def)
qed

lemma i64toa_min: "0 < length b \<Longrightarrow> i64toa (- (2 ^ 63)) b = Inl SignedOverflow"
  by (cases b) (simp_all add: i64toa_def mem_write_def int64_range_def cstr_def)

section \<open>Hexadecimal text: array\_hexstr\<close>

definition hex_digits :: bytes where
  "hex_digits = cstr ''0123456789abcdef''"

text \<open>\<open>p\<close> and \<open>q\<close> are the positions of \<open>strbuf\<close> and \<open>bin\<close>.\<close>

fun array_hexstr_loop :: "bytes \<Rightarrow> nat \<Rightarrow> bytes \<Rightarrow> nat \<Rightarrow> nat \<Rightarrow> bytes result" where
  "array_hexstr_loop strbuf p bin q 0 = mem_write strbuf p [0]"
| "array_hexstr_loop strbuf p bin q (Suc len) =
     andThen (mem_get bin q)
       (\<lambda>c. andThen (mem_write strbuf p [hex_digits ! unat (drop_bit 4 c AND 0xF)])
       (\<lambda>strbuf. andThen (mem_write strbuf (p + 1) [hex_digits ! unat (c AND 0xF)])
       (\<lambda>strbuf. array_hexstr_loop strbuf (p + 2) bin (q + 1) len)))"

definition array_hexstr :: "bytes \<Rightarrow> bytes \<Rightarrow> nat \<Rightarrow> bytes result" where
  "array_hexstr strbuf bin len = array_hexstr_loop strbuf 0 bin 0 len"

interpretation hex: alphabet hex_digits
  by unfold_locales (simp_all add: hex_digits_def cstr_def)

lemma length_hex_digits [simp]: "length hex_digits = 16"
  by (simp add: hex_digits_def)

definition nibbles :: "u8 \<Rightarrow> nat list" where
  "nibbles c = [unat c div 16, unat c mod 16]"

definition hex_string :: "bytes \<Rightarrow> bytes" where
  "hex_string bin = concat (map (\<lambda>c. map (nth hex_digits) (nibbles c)) bin)"

lemma hi_nibble: "unat (drop_bit 4 (c :: u8)) mod 16 = unat c div 16"
  using unsigned_less [of c] by (simp add: unat_drop_bit less_mult_imp_div_less)

lemma nibbles_less: "\<forall>d \<in> set (nibbles c). d < 16"
  using unsigned_less [of c] by (simp add: nibbles_def less_mult_imp_div_less)

lemma length_hex_string [simp]: "length (hex_string bin) = 2 * length bin"
  by (induction bin) (simp_all add: hex_string_def nibbles_def)

lemma hex_string_printable: "0 \<notin> set (hex_string bin)"
  using hex.printable_text [of "nibbles c" for c] nibbles_less
  by (fastforce simp: hex_string_def)

lemma nibbles_inj: "nibbles c = nibbles d \<Longrightarrow> c = d"
proof -
  assume "nibbles c = nibbles d"
  then have "unat c div 16 * 16 + unat c mod 16 = unat d div 16 * 16 + unat d mod 16"
    by (simp add: nibbles_def)
  then show "c = d" by (simp add: u8_eqI)
qed

lemma hex_string_inj: "hex_string xs = hex_string ys \<Longrightarrow> xs = ys"
proof (induction xs arbitrary: ys)
  case Nil
  then have "length (hex_string ys) = 0" by (simp add: hex_string_def)
  then show ?case by simp
next
  case (Cons x xs)
  then have "length (hex_string (x # xs)) = length (hex_string ys)" by simp
  then obtain y ys' where ys: "ys = y # ys'" by (cases ys) auto
  with Cons.prems have split: "map (nth hex_digits) (nibbles x) @ hex_string xs
      = map (nth hex_digits) (nibbles y) @ hex_string ys'"
    by (simp add: hex_string_def)
  then have "map (nth hex_digits) (nibbles x) = map (nth hex_digits) (nibbles y)"
    and rest: "hex_string xs = hex_string ys'"
    by (auto simp: nibbles_def append_eq_append_conv)
  then have "nibbles x = nibbles y"
    using hex.map_nth_inj nibbles_less by simp
  with rest Cons.IH ys show ?case by (auto dest: nibbles_inj)
qed

lemma array_hexstr_loop_eq:
  assumes "q + len \<le> length bin" and "length gap = 2 * len"
  shows "array_hexstr_loop (pre @ gap @ x # post) (length pre) bin q len
           = Inr (pre @ hex_string (take len (drop q bin)) @ 0 # post)"
  using assms
proof (induction len arbitrary: q pre gap)
  case 0
  then show ?case by (simp add: mem_write_def hex_string_def)
next
  case (Suc len)
  from Suc.prems(2) obtain a b gap' where gap: "gap = a # b # gap'" and len: "length gap' = 2 * len"
    by (auto simp: length_Suc_conv)
  let ?c = "bin ! q"
  let ?hi = "hex_digits ! (unat ?c div 16)" and ?lo = "hex_digits ! (unat ?c mod 16)"
  have step: "array_hexstr_loop ((pre @ [?hi, ?lo]) @ gap' @ x # post) (length (pre @ [?hi, ?lo])) bin
      (q + 1) len
      = Inr ((pre @ [?hi, ?lo]) @ hex_string (take len (drop (q + 1) bin)) @ 0 # post)"
    by (rule Suc.IH) (use Suc.prems(1) len in simp_all)
  have tk: "take (Suc len) (drop q bin) = ?c # take len (drop (q + 1) bin)"
    using Suc.prems(1) by (simp add: Cons_nth_drop_Suc [symmetric])
  with step gap Suc.prems(1) show ?case
    by (simp add: mem_get_def mem_write_def u8_and_15 hi_nibble hex_string_def nibbles_def del: unat_div)
qed

lemma array_hexstr_eq:
  assumes "len \<le> length bin" and "2 * len < length strbuf"
  shows "array_hexstr strbuf bin len
           = Inr (hex_string (take len bin) @ 0 # drop (2 * len + 1) strbuf)"
proof -
  have "[] @ take (2 * len) strbuf @ strbuf ! (2 * len) # drop (2 * len + 1) strbuf = strbuf"
    using assms(2) by (simp add: id_take_nth_drop [symmetric])
  with array_hexstr_loop_eq [of 0 len bin "take (2 * len) strbuf" "[]" "strbuf ! (2 * len)"
      "drop (2 * len + 1) strbuf"] assms
  show ?thesis by (simp add: array_hexstr_def)
qed

section \<open>DER tag and length: decodeTag and tlvTryDecode\<close>

definition decodeTag :: "u8 \<Rightarrow> u8 \<times> u8 \<times> u8" where
  "decodeTag byte = (byte AND 0xc0, byte AND 0x20, byte AND 0x1f)"

abbreviation (input) NUMBER_OCTET_STRING :: u8 where
  "NUMBER_OCTET_STRING \<equiv> 0x04"

text \<open>
  The result is the returned flag, the new content of \<open>*fieldLenght\<close> (left alone unless
  the header is decoded) and \<open>*valid\<close>.
\<close>

definition tlv_read_length :: "bytes \<Rightarrow> u32" where
  "tlv_read_length bs = foldl (\<lambda>length b. push_bit 8 length OR ucast b) 0 bs"

definition tlvTryDecode :: "bytes \<Rightarrow> u32 \<Rightarrow> u32 \<Rightarrow> (bool \<times> u32 \<times> bool) result" where
  "tlvTryDecode buffer bufferLength fieldLenght =
     andThen (mem_get buffer 0) (\<lambda>tag. case decodeTag tag of (cls, type, number) \<Rightarrow>
       if number \<noteq> NUMBER_OCTET_STRING then Inr (False, fieldLenght, False)
       else if bufferLength < 2 then Inr (False, fieldLenght, True)
       else
         let bufferLength = bufferLength - 1 in
         andThen (mem_get buffer 1) (\<lambda>byte.
           if byte AND 0x80 \<noteq> 0 then
             let count = byte AND 0x7f in
             if count > 4 then Inr (False, fieldLenght, False)
             else if ucast count \<ge> bufferLength then Inr (False, fieldLenght, True)
             else andThen (mem_read buffer 2 (unat count))
                    (\<lambda>bs. Inr (True, tlv_read_length bs, True))
           else Inr (True, ucast byte, True)))"

text \<open>The specification: the DER header of an octet string of \<open>n\<close> bytes.\<close>

definition tlv_header :: "nat \<Rightarrow> bytes" where
  "tlv_header n =
     (if n < 128 then [0x04, of_nat n]
      else if n < 256 then [0x04, 0x81, of_nat n]
      else if n < 65536 then [0x04, 0x82, of_nat (n div 256), of_nat (n mod 256)]
      else [0x04, 0x83, of_nat (n div 65536), of_nat (n div 256 mod 256), of_nat (n mod 256)])"

lemma length_tlv_header: "2 \<le> length (tlv_header n) \<and> length (tlv_header n) \<le> 5"
  by (simp add: tlv_header_def)

lemma tlv_header_nonempty [simp]: "tlv_header n \<noteq> []"
  by (simp add: tlv_header_def)

lemma shift_or_byte: "(push_bit 8 (x :: u32) OR ucast (b :: u8)) = x * 256 + ucast b"
proof -
  have "push_bit 8 x + (ucast b :: u32) = (push_bit 8 x OR ucast b)"
    by (rule disjunctive_add_eq_or) (auto simp: bit_eq_iff bit_simps not_less dest: bit_imp_le_length)
  then show ?thesis by (simp add: push_bit_eq_mult mult.commute)
qed

lemma tlv_read_length_eq: "tlv_read_length bs = of_nat (be_nat bs)"
proof (induction bs rule: rev_induct)
  case (snoc b bs)
  have "tlv_read_length (bs @ [b]) = tlv_read_length bs * 256 + ucast b"
    by (simp add: tlv_read_length_def shift_or_byte)
  with snoc show ?case by simp
qed (simp add: tlv_read_length_def)

lemma tlvTryDecode_safe:
  assumes "unat n \<le> length buffer" and "0 < n"
  shows "\<exists>d l v. tlvTryDecode buffer n fl = Inr (d, l, v)"
proof -
  have "0 < unat n" using assms(2) by (simp add: unat_gt_0)
  then have ne: "0 < length buffer" using assms(1) by linarith
  show ?thesis
    using ne assms
    by (auto simp: tlvTryDecode_def mem_get_def mem_read_def decodeTag_def Let_def not_less
        word_le_nat_alt unat_sub)
qed

text \<open>The two length forms, in terms of the bytes of the header.\<close>

lemma tlvTryDecode_short:
  assumes "unat l < 128" and "2 \<le> n"
  shows "tlvTryDecode (0x04 # l # rest) n fl = Inr (True, ucast l, True)"
  using assms by (simp add: tlvTryDecode_def mem_get_def decodeTag_def Let_def u8_and_128 not_less)

lemma tlvTryDecode_long:
  assumes "unat l = 128 + length bs" and "length bs \<le> 4" and "unat n = 2 + length bs"
  shows "tlvTryDecode (0x04 # l # bs @ rest) n fl = Inr (True, of_nat (be_nat bs), True)"
proof -
  have cnt: "unat (l AND 0x7f) = length bs" using assms(1,2) by (simp add: u8_and_127)
  have "\<not> n < 2" using assms(3) by (simp add: word_less_nat_alt)
  moreover have "l AND 0x80 \<noteq> 0" using assms(1) by (simp add: u8_and_128)
  moreover have "\<not> l AND 0x7f > 4" using cnt assms(2) by (simp add: word_less_nat_alt)
  moreover have "\<not> ucast (l AND 0x7f) \<ge> n - 1"
    using cnt assms(3) by (simp add: word_le_nat_alt unat_sub)
  ultimately show ?thesis
    using cnt by (simp add: tlvTryDecode_def mem_get_def mem_read_def decodeTag_def Let_def
        tlv_read_length_eq)
qed

text \<open>Reading a header back, with every byte of it present.\<close>

lemma tlvTryDecode_header:
  assumes n: "n < 2 ^ 24"
  shows "tlvTryDecode (tlv_header n @ rest) (of_nat (length (tlv_header n))) fl
           = Inr (True, of_nat n, True)"
proof -
  consider "n < 128" | "128 \<le> n" "n < 256" | "256 \<le> n" "n < 65536" | "65536 \<le> n" by linarith
  then show ?thesis
  proof cases
    case 1
    then show ?thesis
      by (simp add: tlv_header_def tlvTryDecode_short unat_of_nat_u8_small ucast_of_nat_u8)
  next
    case 2
    then show ?thesis
      using tlvTryDecode_long [of "0x81" "[of_nat n]" 3 rest fl]
      by (simp add: tlv_header_def be_val_Cons unat_of_nat_u8_small)
  next
    case 3
    then have "n div 256 < 256" by (simp add: less_mult_imp_div_less)
    with 3 show ?thesis
      using tlvTryDecode_long [of "0x82" "[of_nat (n div 256), of_nat (n mod 256)]" 4 rest fl]
      by (simp add: tlv_header_def be_val_Cons unat_of_nat_u8_small)
  next
    case 4
    with n have "n div 65536 < 256" by (simp add: less_mult_imp_div_less)
    moreover have "n div 65536 * 65536 + (n div 256 mod 256 * 256 + n mod 256) = n"
    proof -
      have "n div 65536 = n div 256 div 256" by (simp flip: div_mult2_eq)
      moreover have "n div 256 div 256 * 256 + n div 256 mod 256 = n div 256" by simp
      moreover have "n div 256 * 256 + n mod 256 = n" by simp
      ultimately show ?thesis by linarith
    qed
    ultimately show ?thesis
      using 4 tlvTryDecode_long [of "0x83"
          "[of_nat (n div 65536), of_nat (n div 256 mod 256), of_nat (n mod 256)]" 5 rest fl]
      by (simp add: tlv_header_def be_val_Cons unat_of_nat_u8_small)
  qed
qed

lemma tlv_header_long:
  "128 \<le> n \<Longrightarrow> \<exists>l bs. tlv_header n = 0x04 # l # bs \<and> unat l = 128 + length bs \<and> length bs \<le> 4"
  by (simp add: tlv_header_def)

lemma tlvTryDecode_wait1: "tlvTryDecode (0x04 # bs) 1 fl = Inr (False, fl, True)"
  by (simp add: tlvTryDecode_def mem_get_def decodeTag_def)

lemma tlvTryDecode_wait:
  assumes "unat l = 128 + c" and "c \<le> 4" and "2 \<le> unat m" and "unat m < 2 + c"
  shows "tlvTryDecode (0x04 # l # bs) m fl = Inr (False, fl, True)"
proof -
  have cnt: "unat (l AND 0x7f) = c" using assms(1,2) by (simp add: u8_and_127)
  have "\<not> m < 2" using assms(3) by (simp add: word_less_nat_alt)
  moreover have "l AND 0x80 \<noteq> 0" using assms(1) by (simp add: u8_and_128)
  moreover have "\<not> l AND 0x7f > 4" using cnt assms(2) by (simp add: word_less_nat_alt)
  moreover have "ucast (l AND 0x7f) \<ge> m - 1"
    using cnt assms(3,4) by (simp add: word_le_nat_alt unat_sub)
  ultimately show ?thesis
    by (simp add: tlvTryDecode_def mem_get_def decodeTag_def Let_def)
qed

text \<open>With only a part of a header present the decoder asks for more, whatever follows it.\<close>

lemma tlvTryDecode_prefix:
  assumes k: "0 < k" "k < length (tlv_header n)"
  shows "tlvTryDecode (take k (tlv_header n) @ rest) (of_nat k) fl = Inr (False, fl, True)"
proof (cases "k = 1")
  case True
  have "take 1 (tlv_header n) = [0x04]" by (simp add: tlv_header_def)
  with True show ?thesis by (simp add: tlvTryDecode_wait1)
next
  case False
  with k have "\<not> n < 128" by (intro notI) (simp add: tlv_header_def)
  then have "128 \<le> n" by simp
  then obtain l bs where h: "tlv_header n = 0x04 # l # bs" "unat l = 128 + length bs" "length bs \<le> 4"
    using tlv_header_long by blast
  from False k have k': "k = Suc (Suc (k - 2))" by simp
  have "unat (of_nat k :: u32) = k"
    using k length_tlv_header [of n] by (intro unat_of_nat_u32_small) simp
  then have "tlvTryDecode (0x04 # l # take (k - 2) bs @ rest) (of_nat k) fl = Inr (False, fl, True)"
    by (intro tlvTryDecode_wait [of _ "length bs"]) (use h k k' in simp_all)
  moreover have "take k (tlv_header n) = 0x04 # l # take (k - 2) bs"
    by (subst k') (simp add: h)
  ultimately show ?thesis by simp
qed

section \<open>Signatures: check\_canonical and ecdsa\_der\_to\_sig\<close>

definition check_canonical :: "bytes \<Rightarrow> bool result" where
  "check_canonical rs =
     andThen (mem_get rs 0) (\<lambda>r0. andThen (mem_get rs 1) (\<lambda>r1.
     andThen (mem_get rs 32) (\<lambda>r32. andThen (mem_get rs 33) (\<lambda>r33.
       Inr (r0 AND 0x80 = 0 \<and> \<not> (r0 = 0 \<and> r1 AND 0x80 = 0) \<and>
            r32 AND 0x80 = 0 \<and> \<not> (r32 = 0 \<and> r33 AND 0x80 = 0))))))"

text \<open>
  The length and the start of the content of the integer whose tag is at \<open>offset\<close>, with a
  leading zero byte skipped.
\<close>

definition der_integer_at :: "bytes \<Rightarrow> nat \<Rightarrow> (int \<times> nat) result" where
  "der_integer_at der offset =
     andThen (mem_get der (offset + 2)) (\<lambda>b. andThen (mem_get der (offset + 1)) (\<lambda>l.
       Inr (if b = 0 then (int (unat l) - 1, offset + 3) else (int (unat l), offset + 2))))"

text \<open>\<open>length\<close> content bytes, right-aligned in the 32 bytes of \<open>sig\<close> at \<open>base\<close>.\<close>

definition sig_store :: "bytes \<Rightarrow> nat \<Rightarrow> bytes \<Rightarrow> nat \<Rightarrow> nat \<Rightarrow> bytes result" where
  "sig_store sig base der offset len =
     (let delta = 32 - len in
      andThen (mem_write sig base (zeros delta)) (\<lambda>sig.
      andThen (mem_read der offset len) (\<lambda>bs. mem_write sig (base + delta) bs)))"

definition ecdsa_der_to_sig :: "bytes \<Rightarrow> bytes \<Rightarrow> (int \<times> bytes) result" where
  "ecdsa_der_to_sig der sig =
     andThen (der_integer_at der 2) (\<lambda>(len, offset).
       if len < 0 \<or> len > 32 then Inr (0, sig)
       else andThen (sig_store sig 0 der offset (nat len)) (\<lambda>sig.
         andThen (der_integer_at der (offset + nat len)) (\<lambda>(len, offset).
           if len < 0 \<or> len > 32 then Inr (0, sig)
           else andThen (sig_store sig 32 der offset (nat len)) (\<lambda>sig. Inr (1, sig)))))"

text \<open>What canonical means: both halves, as 256-bit numbers, lie in this range.\<close>

definition canonical_half :: "nat \<Rightarrow> bool" where
  "canonical_half v \<longleftrightarrow> 2 ^ 247 \<le> v \<and> v < 2 ^ 255"

lemma canonical_half_bytes:
  assumes "length bs = 32"
  shows "canonical_half (be_nat bs) \<longleftrightarrow>
    bs ! 0 AND 0x80 = 0 \<and> \<not> (bs ! 0 = 0 \<and> bs ! 1 AND 0x80 = 0)"
proof -
  obtain a b r where bs: "bs = a # b # r" and r: "length r = 30"
    using assms by (auto simp: length_Suc_conv numeral_eq_Suc)
  let ?p = "256 ^ 30 :: nat"
  have v: "be_nat bs = unat a * (256 * ?p) + unat b * ?p + be_nat r"
    using r by (simp add: bs be_val_Cons)
  have lt: "be_nat r < ?p" using be_nat_less [of r] r by simp
  have b: "unat b < 256" by simp
  have p: "(2 :: nat) ^ 247 = 128 * ?p" "(2 :: nat) ^ 255 = 128 * (256 * ?p)" by simp_all
  have bp: "unat b * ?p + be_nat r < 256 * ?p"
  proof -
    have "unat b * ?p + be_nat r < (unat b + 1) * ?p" using lt by simp
    also have "\<dots> \<le> 256 * ?p" using b by (intro mult_le_mono1) linarith
    finally show ?thesis .
  qed
  have hi: "be_nat bs < 2 ^ 255 \<longleftrightarrow> unat a < 128"
  proof
    assume "be_nat bs < 2 ^ 255"
    then have "unat a * (256 * ?p) < 128 * (256 * ?p)" using v p by linarith
    then show "unat a < 128" by simp
  next
    assume "unat a < 128"
    then have "(unat a + 1) * (256 * ?p) \<le> 128 * (256 * ?p)" by (intro mult_le_mono1) simp
    then show "be_nat bs < 2 ^ 255" using v p bp by (simp only: distrib_right mult_1)
  qed
  have lo: "2 ^ 247 \<le> be_nat bs \<longleftrightarrow> \<not> (unat a = 0 \<and> unat b < 128)"
  proof (cases "unat a = 0")
    case True
    show ?thesis
    proof
      assume "2 ^ 247 \<le> be_nat bs"
      then have "128 * ?p < (unat b + 1) * ?p" using v p lt True by (simp only: distrib_right mult_1)
      then show "\<not> (unat a = 0 \<and> unat b < 128)" by simp
    next
      assume "\<not> (unat a = 0 \<and> unat b < 128)"
      then have "128 * ?p \<le> unat b * ?p" using True by (intro mult_le_mono1) simp
      then show "2 ^ 247 \<le> be_nat bs" using v p by linarith
    qed
  next
    case False
    then have "1 * (256 * ?p) \<le> unat a * (256 * ?p)" by (intro mult_le_mono1) simp
    then have "2 ^ 247 \<le> be_nat bs" using v p by linarith
    with False show ?thesis by simp
  qed
  show ?thesis
    unfolding canonical_half_def hi lo by (auto simp: bs u8_and_128 unat_eq_0)
qed

lemma check_canonical_eq:
  assumes "length r = 32" and "length s = 32"
  shows "check_canonical (r @ s @ rest) = Inr (canonical_half (be_nat r) \<and> canonical_half (be_nat s))"
  using assms
  by (simp add: check_canonical_def mem_get_def nth_append canonical_half_bytes conj_assoc)

text \<open>The DER form of a positive integer and of a signature, and the 32-byte form wanted.\<close>

definition der_integer :: "bytes \<Rightarrow> bytes" where
  "der_integer n =
     (if hd n AND 0x80 = 0 then [0x02, of_nat (length n)] @ n
      else [0x02, of_nat (length n + 1), 0] @ n)"

definition der_signature :: "bytes \<Rightarrow> bytes \<Rightarrow> bytes" where
  "der_signature r s =
     (let body = der_integer r @ der_integer s in [0x30, of_nat (length body)] @ body)"

definition magnitude :: "bytes \<Rightarrow> bool" where
  "magnitude n \<longleftrightarrow> n \<noteq> [] \<and> length n \<le> 32 \<and> hd n \<noteq> 0"

definition pad32 :: "bytes \<Rightarrow> bytes" where
  "pad32 n = zeros (32 - length n) @ n"

lemma length_pad32 [simp]: "length n \<le> 32 \<Longrightarrow> length (pad32 n) = 32"
  by (simp add: pad32_def)

lemma be_nat_pad32 [simp]: "be_nat (pad32 n) = be_nat n"
  by (simp add: pad32_def zeros_def be_val_append)

text \<open>Where the content of a DER integer starts, from its tag.\<close>

definition der_skip :: "bytes \<Rightarrow> nat" where
  "der_skip n = length (der_integer n) - length n"

lemma length_der_integer: "length (der_integer n) = der_skip n + length n"
  by (simp add: der_skip_def der_integer_def)

lemma drop_der_integer: "drop (der_skip n) (der_integer n) = n"
  by (simp add: der_skip_def der_integer_def)

lemma der_integer_at_eq:
  assumes "magnitude n" and "length pre = p"
  shows "der_integer_at (pre @ der_integer n @ rest) p = Inr (int (length n), p + der_skip n)"
proof -
  obtain a n' where n: "n = a # n'" using assms(1) by (cases n) (auto simp: magnitude_def)
  have "length n' < 32" and "a \<noteq> 0" using assms(1) n by (auto simp: magnitude_def)
  then show ?thesis
    using assms(2)
    by (simp add: der_integer_at_def der_integer_def der_skip_def n mem_get_def nth_append
        uint_of_nat_u8_small del: of_nat_Suc)
qed

lemma sig_store_eq:
  assumes "length n \<le> 32" and "length pre = base" and "length old = 32"
    and "take (length n) (drop off der) = n" and "off + length n \<le> length der"
  shows "sig_store (pre @ old @ post) base der off (length n) = Inr (pre @ pad32 n @ post)"
  using assms by (simp add: sig_store_def mem_write_def mem_read_def Let_def pad32_def)

text \<open>The two bytes in front of the integers are not looked at.\<close>

lemma ecdsa_der_to_sig_any:
  assumes r: "magnitude r" and s: "magnitude s" and sig: "64 \<le> length sig"
  shows "ecdsa_der_to_sig ([a, l] @ der_integer r @ der_integer s @ rest) sig = Inr (1, pad32 r @ pad32 s @ drop 64 sig)"
proof -
  let ?hd = "[a, l] :: bytes"
  define d where "d = [a, l] @ der_integer r @ der_integer s @ rest"
  have der: "d = ?hd @ der_integer r @ (der_integer s @ rest)" by (simp add: d_def)
  have der': "d = (?hd @ der_integer r) @ der_integer s @ rest" by (simp add: d_def)
  have lr: "length r \<le> 32" and ls: "length s \<le> 32" using r s by (auto simp: magnitude_def)
  have f1: "der_integer_at d 2 = Inr (int (length r), 2 + der_skip r)"
    unfolding der by (rule der_integer_at_eq [OF r]) simp
  have f2: "der_integer_at d (2 + der_skip r + length r)
      = Inr (int (length s), 2 + der_skip r + length r + der_skip s)"
    unfolding der' by (rule der_integer_at_eq [OF s]) (simp add: length_der_integer)
  have c1: "take (length r) (drop (2 + der_skip r) d) = r"
    unfolding der by (simp add: drop_der_integer length_der_integer)
  have c2: "take (length s) (drop (2 + der_skip r + length r + der_skip s) d) = s"
    unfolding der' by (simp add: drop_der_integer length_der_integer)
  have len: "length d = 2 + der_skip r + length r + der_skip s + length s + length rest"
    unfolding der by (simp add: length_der_integer)
  have split: "sig = [] @ take 32 sig @ take 32 (drop 32 sig) @ drop 64 sig"
    by (metis append_Nil append_take_drop_id drop_drop numeral_Bit0)
  have s1: "sig_store sig 0 d (2 + der_skip r) (length r)
      = Inr ([] @ pad32 r @ take 32 (drop 32 sig) @ drop 64 sig)"
    by (subst split, rule sig_store_eq) (use lr sig c1 len in auto)
  have s2: "sig_store (pad32 r @ take 32 (drop 32 sig) @ drop 64 sig) 32 d
      (2 + der_skip r + length r + der_skip s) (length s) = Inr (pad32 r @ pad32 s @ drop 64 sig)"
    by (rule sig_store_eq) (use lr ls sig c2 len in auto)
  show ?thesis
    using f1 f2 s1 s2 lr ls unfolding d_def [symmetric] by (simp add: ecdsa_der_to_sig_def ac_simps)
qed

lemma ecdsa_der_to_sig_eq:
  assumes "magnitude r" and "magnitude s" and "64 \<le> length sig"
  shows "ecdsa_der_to_sig (der_signature r s @ rest) sig = Inr (1, pad32 r @ pad32 s @ drop 64 sig)"
  using ecdsa_der_to_sig_any [OF assms] by (simp add: der_signature_def Let_def)

end
