(* ===== verification/Eos_Base58.thy ===== *)
theory Eos_Base58
  imports Eos_Utils
begin

text \<open>
  \<open>b58enc\<close> of \<^verbatim>\<open>src/eos_utils.c\<close>: the Base58 encoder that renders public keys. The C code
  multiplies a big-endian base-58 accumulator by 256 in place, skipping the digits above the
  highest one written so far; the theorems relate it to the value of its input.
\<close>

section \<open>The encoder\<close>

definition BASE58ALPHABET :: bytes where
  "BASE58ALPHABET = cstr ''123456789ABCDEFGHJKLMNPQRSTUVWXYZabcdefghijkmnopqrstuvwxyz''"

text \<open>
  The inner loop, from \<open>j\<close> downwards; the value it ends with becomes the next \<open>high\<close>.
\<close>

fun b58_carry :: "nat \<Rightarrow> nat \<Rightarrow> nat \<Rightarrow> bytes \<Rightarrow> nat \<times> bytes" where
  "b58_carry high j carry buf =
     (if j > high \<or> carry \<noteq> 0 then
        let carry = carry + 256 * unat (buf ! j);
            buf = buf[j := of_nat (carry mod 58)];
            carry = carry div 58
        in if j = 0 then (j, buf) else b58_carry high (j - 1) carry buf
      else (j, buf))"

declare b58_carry.simps [simp del]

text \<open>The outer loop over the input from \<open>zcount\<close> on.\<close>

fun b58_digits :: "bytes \<Rightarrow> nat \<Rightarrow> bytes \<Rightarrow> bytes" where
  "b58_digits [] high buf = buf"
| "b58_digits (x # xs) high buf =
     (case b58_carry high (length buf - 1) (unat x) buf of (j, buf) \<Rightarrow> b58_digits xs j buf)"

text \<open>
  \<open>b58\<close> is the output array, \<open>b58sz\<close> the value of \<open>*b58sz\<close> on entry; the result holds the
  returned flag, the array and the value of \<open>*b58sz\<close> on return. The multiplication in the size
  is 32 bits wide.
\<close>

definition b58_size :: "nat \<Rightarrow> nat" where
  "b58_size n = (n * 138 mod 2 ^ 32) div 100 + 1"

definition b58enc :: "bytes \<Rightarrow> nat \<Rightarrow> bytes \<Rightarrow> nat \<Rightarrow> (bool \<times> bytes \<times> nat) result" where
  "b58enc bin binsz b58 b58sz =
     andThen (mem_read bin 0 binsz) (\<lambda>bin.
       let zcount = length (takeWhile (\<lambda>x. x = 0) bin);
           size = b58_size (binsz - zcount);
           buf = b58_digits (drop zcount bin) (size - 1) (zeros size);
           j = length (takeWhile (\<lambda>x. x = 0) buf)
       in if b58sz \<le> zcount + size - j then Inr (False, b58, zcount + size - j + 1)
          else andThen (mem_write b58 0 (replicate zcount (of_char CHR ''1'')))
                 (\<lambda>b58. andThen (mem_write b58 zcount
                           (map (\<lambda>d. BASE58ALPHABET ! unat d) (drop j buf)))
                 (\<lambda>b58. let i = zcount + (size - j) in
                   andThen (mem_write b58 i [0]) (\<lambda>b58. Inr (True, b58, i + 1)))))"

section \<open>The text it stands for\<close>

interpretation b58: alphabet BASE58ALPHABET
  by unfold_locales (simp_all add: BASE58ALPHABET_def cstr_def)

lemma length_BASE58ALPHABET [simp]: "length BASE58ALPHABET = 58"
  by (simp add: BASE58ALPHABET_def)

text \<open>
  The specification: one \<open>1\<close> for each leading zero byte, then the base-58 numeral of the
  rest without a leading zero.
\<close>

fun b58_numeral :: "nat \<Rightarrow> nat list" where
  "b58_numeral n = (if n = 0 then [] else b58_numeral (n div 58) @ [n mod 58])"

declare b58_numeral.simps [simp del]

definition leading_zeros :: "bytes \<Rightarrow> nat" where
  "leading_zeros bin = length (takeWhile (\<lambda>x. x = 0) bin)"

definition b58_string :: "bytes \<Rightarrow> bytes" where
  "b58_string bin = replicate (leading_zeros bin) (of_char CHR ''1'')
     @ map (nth BASE58ALPHABET) (b58_numeral (be_nat bin))"

lemma b58_numeral_less: "\<forall>d \<in> set (b58_numeral n). d < 58"
proof (induction n rule: b58_numeral.induct)
  case (1 n)
  then show ?case by (subst b58_numeral.simps) auto
qed

lemma be_val_b58_numeral: "be_val 58 (b58_numeral n) = n"
proof (induction n rule: b58_numeral.induct)
  case (1 n)
  then show ?case by (subst b58_numeral.simps) auto
qed

lemma b58_numeral_Nil: "b58_numeral n = [] \<longleftrightarrow> n = 0"
  by (subst b58_numeral.simps) simp

lemma hd_b58_numeral: "b58_numeral n \<noteq> [] \<Longrightarrow> hd (b58_numeral n) \<noteq> 0"
proof (induction n rule: b58_numeral.induct)
  case (1 n)
  then have "n \<noteq> 0" by (simp add: b58_numeral_Nil)
  show ?case
  proof (cases "n div 58 = 0")
    case True
    then have "n mod 58 \<noteq> 0" using \<open>n \<noteq> 0\<close> by (metis add_0 mult_0_right div_mult_mod_eq mult.commute)
    with True \<open>n \<noteq> 0\<close> show ?thesis
      by (subst b58_numeral.simps) (simp add: b58_numeral.simps [of 0])
  next
    case False
    then have "b58_numeral (n div 58) \<noteq> []" by (simp add: b58_numeral_Nil)
    with "1.IH" \<open>n \<noteq> 0\<close> show ?thesis by (subst b58_numeral.simps) simp
  qed
qed

lemma b58_numeral_unique:
  assumes "\<forall>d \<in> set ds. d < 58" and "ds \<noteq> [] \<Longrightarrow> hd ds \<noteq> 0"
  shows "ds = b58_numeral (be_val 58 ds)"
  using assms b58_numeral_less be_val_b58_numeral hd_b58_numeral
  by (intro be_val_inj_no_leading_zero [where b = 58]) auto

section \<open>The accumulator holds the value of the bytes consumed\<close>

abbreviation b58_val :: "bytes \<Rightarrow> nat" where
  "b58_val buf \<equiv> be_val 58 (map unat buf)"

definition b58_valid :: "bytes \<Rightarrow> bool" where
  "b58_valid buf \<longleftrightarrow> (\<forall>d \<in> set buf. unat d < 58)"

lemma b58_carry_correct:
  assumes "j < length buf" and "b58_valid buf" and "\<forall>k \<le> j. k \<le> high \<longrightarrow> buf ! k = 0"
    and "256 * b58_val (take (Suc j) buf) + carry < 58 ^ Suc j"
    and "b58_carry high j carry buf = (j', buf')"
  shows "length buf' = length buf \<and> b58_valid buf' \<and> drop (Suc j) buf' = drop (Suc j) buf
    \<and> b58_val (take (Suc j) buf') = 256 * b58_val (take (Suc j) buf) + carry
    \<and> j' \<le> j \<and> (j' = 0 \<or> (\<forall>k \<le> j'. buf' ! k = 0))"
  using assms
proof (induction high j carry buf rule: b58_carry.induct)
  case (1 high j carry buf)
  let ?b = "unat (buf ! j)" and ?P = "b58_val (take j buf)"
  have tk: "take (Suc j) buf = take j buf @ [buf ! j]"
    using "1.prems"(1) by (rule take_Suc_conv_app_nth)
  show ?case
  proof (cases "j > high \<or> carry \<noteq> 0")
    case False
    then have res: "j' = j" "buf' = buf" using "1.prems"(5) by (auto simp: b58_carry.simps)
    from False "1.prems"(3) have zero: "\<forall>k \<le> j. buf ! k = 0" by auto
    then have "\<forall>x \<in> set (take (Suc j) buf). x = 0"
      by (auto simp: in_set_conv_nth)
    then have "map unat (take (Suc j) buf) = replicate (length (take (Suc j) buf)) 0"
      by (intro replicate_eqI) auto
    then have "b58_val (take (Suc j) buf) = 0" by (metis be_val_replicate_0)
    with res zero False "1.prems" show ?thesis by simp
  next
    case True
    define c where "c = carry + 256 * ?b"
    define buf1 where "buf1 = buf[j := of_nat (c mod 58)]"
    have d: "unat (of_nat (c mod 58) :: u8) = c mod 58"
      by (rule unat_of_nat_u8_small) (simp add: less_trans [of _ 58])
    have len1: "length buf1 = length buf" by (simp add: buf1_def)
    have valid1: "b58_valid buf1"
      using "1.prems"(2) d set_update_subset_insert [of buf j "of_nat (c mod 58)"]
      by (auto simp: b58_valid_def buf1_def)
    have tk1: "take j buf1 = take j buf" by (simp add: buf1_def)
    have dr1: "drop (Suc j) buf1 = drop (Suc j) buf" by (simp add: buf1_def)
    have at1: "buf1 ! j = of_nat (c mod 58)" using "1.prems"(1) by (simp add: buf1_def)
    have split: "256 * b58_val (take (Suc j) buf) + carry = 58 * (256 * ?P + c div 58) + c mod 58"
    proof -
      have "256 * b58_val (take (Suc j) buf) + carry = 58 * (256 * ?P) + c"
        by (simp add: tk c_def)
      also have "\<dots> = 58 * (256 * ?P + c div 58) + c mod 58" by (simp add: add.assoc)
      finally show ?thesis .
    qed
    have bound: "256 * ?P + c div 58 < 58 ^ j"
    proof -
      have "58 * (256 * ?P + c div 58) < 58 * 58 ^ j" using split "1.prems"(4) by simp
      then show ?thesis by simp
    qed
    show ?thesis
    proof (cases "j = 0")
      case True
      with \<open>j > high \<or> carry \<noteq> 0\<close> "1.prems"(5) have res: "j' = 0" "buf' = buf1"
        by (auto simp: b58_carry.simps [of high 0] Let_def buf1_def c_def)
      have "take (Suc j) buf1 = [buf1 ! j]"
        using "1.prems"(1) len1 True by (cases buf1) auto
      with res True bound split len1 valid1 dr1 at1 d show ?thesis by (simp add: be_val_Cons)
    next
      case False
      then have Suc: "Suc (j - 1) = j" by simp
      have run: "b58_carry high (j - 1) (c div 58) buf1 = (j', buf')"
        using "1.prems"(5) False \<open>j > high \<or> carry \<noteq> 0\<close>
        by (simp add: b58_carry.simps [of high j] Let_def buf1_def c_def)
      have zero1: "\<forall>k \<le> j - 1. k \<le> high \<longrightarrow> buf1 ! k = 0"
        using "1.prems"(3) False by (auto simp: buf1_def)
      have IH: "length buf' = length buf1 \<and> b58_valid buf' \<and> drop j buf' = drop j buf1
        \<and> b58_val (take j buf') = 256 * ?P + c div 58
        \<and> j' \<le> j - 1 \<and> (j' = 0 \<or> (\<forall>k \<le> j'. buf' ! k = 0))"
        using "1.IH" [OF True c_def buf1_def refl False] run zero1 valid1 len1 bound tk1 Suc
          "1.prems"(1) by simp
      have lt': "j < length buf'" using IH len1 "1.prems"(1) by simp
      then have "buf' ! j = buf1 ! j"
        using IH len1 by (metis Cons_nth_drop_Suc nth_Cons_0)
      then have "take (Suc j) buf' = take j buf' @ [of_nat (c mod 58)]"
        using lt' at1 by (simp add: take_Suc_conv_app_nth)
      moreover have "drop (Suc j) buf' = drop (Suc j) buf"
        using IH dr1 by (metis drop_drop plus_1_eq_Suc)
      ultimately show ?thesis using IH d split len1 by auto
    qed
  qed
qed


text \<open>
  One input byte per pass. While bytes are left the accumulator keeps a zero in front, so that
  no digit is ever skipped or lost; this is what the size of the array is for.
\<close>

lemma hd_zero_if_small:
  assumes "b58_val buf < 58 ^ (length buf - 1)" and "buf \<noteq> []"
  shows "buf ! 0 = 0"
proof (rule ccontr)
  assume "buf ! 0 \<noteq> 0"
  then have "0 < unat (buf ! 0)" by (simp add: unat_gt_0)
  moreover obtain d ds where "buf = d # ds" using assms(2) by (cases buf) auto
  ultimately show False
    using assms(1) be_val_ge [of "unat d" 58 "map unat ds"] by simp
qed

lemma b58_digits_correct:
  assumes "buf \<noteq> []" and "b58_valid buf"
    and "xs \<noteq> [] \<Longrightarrow> \<forall>k \<le> high. k < length buf \<longrightarrow> buf ! k = 0"
    and "b58_val buf * 256 ^ length xs + be_nat xs < 58 ^ length buf"
    and "\<forall>n < length xs. b58_val buf * 256 ^ n + be_nat (take n xs) < 58 ^ (length buf - 1)"
  shows "length (b58_digits xs high buf) = length buf \<and> b58_valid (b58_digits xs high buf)
    \<and> b58_val (b58_digits xs high buf) = b58_val buf * 256 ^ length xs + be_nat xs"
  using assms
proof (induction xs arbitrary: high buf)
  case (Cons x xs)
  let ?n = "length buf - 1"
  obtain j buf1 where run: "b58_carry high ?n (unat x) buf = (j, buf1)" by fastforce
  have n: "Suc ?n = length buf" using Cons.prems(1) by simp
  have small: "256 * b58_val buf + unat x < 58 ^ length buf"
  proof -
    have "(256 * b58_val buf + unat x) * 1 \<le> (256 * b58_val buf + unat x) * 256 ^ length xs"
      by (intro mult_le_mono2) simp
    also have "\<dots> \<le> b58_val buf * 256 ^ length (x # xs) + be_nat (x # xs)"
      by (simp add: be_val_Cons algebra_simps)
    finally show ?thesis using Cons.prems(4) by simp
  qed
  have pass: "length buf1 = length buf \<and> b58_valid buf1
    \<and> b58_val buf1 = 256 * b58_val buf + unat x \<and> (j = 0 \<or> (\<forall>k \<le> j. buf1 ! k = 0))"
    using b58_carry_correct [of ?n buf high "unat x" j buf1] run n small Cons.prems(1,2,3)
    by auto
  have front: "xs \<noteq> [] \<Longrightarrow> buf1 ! 0 = 0"
  proof (rule hd_zero_if_small)
    assume "xs \<noteq> []"
    then have "b58_val buf * 256 ^ 1 + be_nat (take 1 (x # xs)) < 58 ^ ?n"
      using Cons.prems(5) [rule_format, of 1] by simp
    then show "b58_val buf1 < 58 ^ (length buf1 - 1)" using pass by (simp add: be_val_Cons)
  qed (use pass Cons.prems(1) in auto)
  have "length (b58_digits xs j buf1) = length buf1 \<and> b58_valid (b58_digits xs j buf1)
    \<and> b58_val (b58_digits xs j buf1) = b58_val buf1 * 256 ^ length xs + be_nat xs"
  proof (rule Cons.IH)
    show "buf1 \<noteq> []" using pass Cons.prems(1) by auto
    show "xs \<noteq> [] \<Longrightarrow> \<forall>k \<le> j. k < length buf1 \<longrightarrow> buf1 ! k = 0" using pass front by auto
    show "b58_val buf1 * 256 ^ length xs + be_nat xs < 58 ^ length buf1"
      using pass Cons.prems(4) by (simp add: be_val_Cons algebra_simps)
    show "\<forall>n < length xs. b58_val buf1 * 256 ^ n + be_nat (take n xs) < 58 ^ (length buf1 - 1)"
    proof (intro allI impI)
      fix n assume "n < length xs"
      then show "b58_val buf1 * 256 ^ n + be_nat (take n xs) < 58 ^ (length buf1 - 1)"
        using pass Cons.prems(5) [rule_format, of "Suc n"] by (simp add: be_val_Cons algebra_simps)
    qed
  qed (use pass in simp)
  with run pass show ?case by (simp add: be_val_Cons algebra_simps)
qed simp

text \<open>138/100 is a little more than the digits that a byte needs: log 256 / log 58.\<close>

lemma power_256_58: "69 * m \<le> 50 * k \<Longrightarrow> (256 :: nat) ^ m \<le> 58 ^ k"
proof -
  assume le: "69 * m \<le> 50 * k"
  have "(256 :: nat) ^ 50 \<le> 58 ^ 69" by simp
  then have "((256 :: nat) ^ 50) ^ m \<le> (58 ^ 69) ^ m" by (rule power_mono) simp
  also have "\<dots> \<le> 58 ^ (50 * k)"
    unfolding power_mult [symmetric] using le by (intro power_increasing) simp_all
  finally have "((256 :: nat) ^ m) ^ 50 \<le> (58 ^ k) ^ 50"
    by (simp only: power_mult [symmetric] mult.commute)
  then show ?thesis by (simp only: power_mono_iff zero_less_numeral zero_le)
qed

lemma b58_size_enough:
  assumes "n * 138 < 2 ^ 32"
  shows "256 ^ n \<le> (58 :: nat) ^ b58_size n"
    and "0 < n \<Longrightarrow> (256 :: nat) ^ (n - 1) \<le> 58 ^ (b58_size n - 1)"
proof -
  have "b58_size n = n * 138 div 100 + 1" using assms by (simp add: b58_size_def)
  moreover have "n * 138 < 100 * (n * 138 div 100 + 1)" by (simp add: dividend_less_times_div)
  ultimately have "n * 138 < 100 * b58_size n" by simp
  then show "256 ^ n \<le> (58 :: nat) ^ b58_size n"
    and "0 < n \<Longrightarrow> (256 :: nat) ^ (n - 1) \<le> 58 ^ (b58_size n - 1)"
    by (auto intro!: power_256_58)
qed

section \<open>The encoder computes the specification\<close>

lemma split_leading_zeros:
  "bin = zeros (leading_zeros bin) @ drop (leading_zeros bin) bin"
proof -
  let ?w = "takeWhile (\<lambda>x. x = 0) bin"
  have "?w = zeros (leading_zeros bin)"
    unfolding zeros_def leading_zeros_def by (rule replicate_eqI) (auto dest: set_takeWhileD)
  then show ?thesis
    by (metis leading_zeros_def dropWhile_eq_drop takeWhile_dropWhile_id)
qed

lemma no_leading_zero:
  "drop (leading_zeros bin) bin \<noteq> [] \<Longrightarrow> hd (drop (leading_zeros bin) bin) \<noteq> 0"
  unfolding leading_zeros_def dropWhile_eq_drop [symmetric] by (rule hd_dropWhile)

lemma leading_zeros_le: "leading_zeros bin \<le> length bin"
  by (simp add: leading_zeros_def length_takeWhile_le)

lemma be_val_zeros_append: "be_val b (map unat (zeros n @ bs)) = be_val b (map unat bs)"
  by (simp add: zeros_def be_val_append)

lemma be_nat_drop_leading_zeros: "be_nat (drop (leading_zeros bin) bin) = be_nat bin"
  by (metis split_leading_zeros be_val_zeros_append)

text \<open>The accumulator after the outer loop, without its leading zeros, is the numeral.\<close>

lemma b58_digits_numeral:
  assumes "length xs * 138 < 2 ^ 32"
    and "buf = b58_digits xs (b58_size (length xs) - 1) (zeros (b58_size (length xs)))"
  shows "map unat (drop (leading_zeros buf) buf) = b58_numeral (be_nat xs)"
proof -
  let ?size = "b58_size (length xs)"
  have val0: "b58_val (zeros n) = 0" for n by (simp add: zeros_def)
  have pos: "0 < ?size" by (simp add: b58_size_def)
  have fin: "be_nat xs < 58 ^ ?size"
    using be_nat_less [of xs] b58_size_enough(1) [OF assms(1)] by linarith
  have part: "be_nat (take n xs) < 58 ^ (?size - 1)" if "n < length xs" for n
  proof -
    have "be_nat (take n xs) < 256 ^ n" using be_nat_less [of "take n xs"] that by simp
    also have "(256 :: nat) ^ n \<le> 256 ^ (length xs - 1)"
      using that by (intro power_increasing) simp_all
    also have "\<dots> \<le> 58 ^ (?size - 1)"
      using that by (intro b58_size_enough(2) assms(1)) auto
    finally show ?thesis .
  qed
  have "b58_valid buf \<and> b58_val buf = be_nat xs"
    unfolding assms(2)
    using b58_digits_correct [of "zeros ?size" xs "?size - 1"] fin part pos
    by (auto simp: val0 b58_valid_def zeros_def)
  then have valid: "\<forall>d \<in> set (map unat (drop (leading_zeros buf) buf)). d < 58"
    and v: "b58_val buf = be_nat xs"
    by (auto simp: b58_valid_def dest: in_set_dropD)
  have val: "be_val 58 (map unat (drop (leading_zeros buf) buf)) = be_nat xs"
    using v be_val_zeros_append [of 58 "leading_zeros buf" "drop (leading_zeros buf) buf"]
    by (simp only: split_leading_zeros [symmetric])
  have "map unat (drop (leading_zeros buf) buf) = b58_numeral (be_val 58 (map unat (drop (leading_zeros buf) buf)))"
    using valid no_leading_zero [of buf] by (intro b58_numeral_unique) (auto simp: hd_map unat_eq_0)
  with val show ?thesis by simp
qed

lemma length_b58_carry: "length (snd (b58_carry h j c buf)) = length buf"
proof (induction h j c buf rule: b58_carry.induct)
  case (1 h j c buf)
  then show ?case by (subst b58_carry.simps) (simp add: Let_def)
qed

lemma length_b58_digits [simp]: "length (b58_digits xs h buf) = length buf"
proof (induction xs h buf rule: b58_digits.induct)
  case (2 x xs h buf)
  then show ?case
    using length_b58_carry [of h "length buf - 1" "unat x" buf]
    by (cases "b58_carry h (length buf - 1) (unat x) buf") simp
qed simp

text \<open>The numeral and the digits it leaves over fit the array exactly.\<close>

lemma b58_digits_leading_zeros:
  assumes "length xs * 138 < 2 ^ 32"
    and "buf = b58_digits xs (b58_size (length xs) - 1) (zeros (b58_size (length xs)))"
  shows "length (b58_numeral (be_nat xs)) = b58_size (length xs) - leading_zeros buf"
  using arg_cong [OF b58_digits_numeral [OF assms], of length] assms(2) by simp

lemma length_b58_string: "length (b58_string bin) = leading_zeros bin + length (b58_numeral (be_nat bin))"
  by (simp add: b58_string_def)

lemma length_b58_string_le:
  assumes "length bin * 138 < 2 ^ 32"
  shows "length (b58_string bin) \<le> leading_zeros bin + b58_size (length bin - leading_zeros bin)"
  using b58_digits_leading_zeros [of "drop (leading_zeros bin) bin", OF _ refl] assms
  by (simp add: length_b58_string be_nat_drop_leading_zeros)

lemma b58enc_eq:
  assumes "bin = take binsz mem" and "binsz \<le> length mem" and "binsz * 138 < 2 ^ 32"
    and "length (b58_string bin) < length b58"
  shows "b58enc mem binsz b58 b58sz =
    Inr (if b58sz \<le> length (b58_string bin) then (False, b58, length (b58_string bin) + 1)
         else (True, b58_string bin @ 0 # drop (length (b58_string bin) + 1) b58,
               length (b58_string bin) + 1))"
proof -
  let ?z = "leading_zeros bin"
  let ?xs = "drop ?z bin"
  define buf where "buf = b58_digits ?xs (b58_size (length ?xs) - 1) (zeros (b58_size (length ?xs)))"
  let ?num = "b58_numeral (be_nat bin)"
  have bin: "length bin = binsz" and small: "length ?xs * 138 < 2 ^ 32" using assms by simp_all
  have num: "map unat (drop (leading_zeros buf) buf) = ?num"
    using b58_digits_numeral [OF small buf_def] by (simp add: be_nat_drop_leading_zeros)
  have chars: "map (\<lambda>d. BASE58ALPHABET ! unat d) (drop (leading_zeros buf) buf)
      = map (nth BASE58ALPHABET) ?num"
    unfolding num [symmetric] by simp
  have len: "b58_size (binsz - ?z) - leading_zeros buf = length ?num"
    using b58_digits_leading_zeros [OF small buf_def] bin by (simp add: be_nat_drop_leading_zeros)
  have "leading_zeros buf \<le> b58_size (binsz - ?z)"
    using leading_zeros_le [of buf] bin by (simp add: buf_def)
  then have total: "?z + b58_size (binsz - ?z) - leading_zeros buf = length (b58_string bin)"
    using len by (simp add: length_b58_string)
  have w: "mem_write b58 0 (replicate ?z (of_char CHR ''1''))
      = Inr (replicate ?z (of_char CHR ''1'') @ drop ?z b58)"
    using assms(4) by (simp add: mem_write_def length_b58_string)
  show ?thesis
    unfolding b58enc_def mem_read_def
    using assms(2,4) bin w total len chars
    by (simp add: Let_def buf_def leading_zeros_def [symmetric] assms(1) [symmetric]
        mem_write_def b58_string_def add.commute [of "length (b58_numeral (be_nat bin))"])
qed

section \<open>Two inputs never share an encoding\<close>

lemma leading_ones:
  assumes "\<forall>d \<in> set ds. d < 58" and "ds \<noteq> [] \<Longrightarrow> hd ds \<noteq> 0"
  shows "takeWhile (\<lambda>c. c = of_char CHR ''1'') (replicate n (of_char CHR ''1'') @ map (nth BASE58ALPHABET) ds)
    = replicate n (of_char CHR ''1'')"
proof -
  have one: "of_char CHR ''1'' = BASE58ALPHABET ! 0" by (simp add: BASE58ALPHABET_def cstr_def)
  have "takeWhile (\<lambda>c. c = of_char CHR ''1'') (map (nth BASE58ALPHABET) ds) = []"
    unfolding one using assms by (cases ds) (auto simp: b58.nth_inj)
  then show ?thesis by (simp add: takeWhile_append)
qed

lemma b58_string_inj:
  assumes "b58_string xs = b58_string ys"
  shows "xs = ys"
proof -
  let ?one = "of_char CHR ''1'' :: u8"
  have tw: "takeWhile (\<lambda>c. c = ?one) (b58_string zs) = replicate (leading_zeros zs) ?one" for zs
    unfolding b58_string_def using b58_numeral_less hd_b58_numeral by (rule leading_ones)
  from assms tw [of xs] tw [of ys] have z: "leading_zeros xs = leading_zeros ys"
    by (metis length_replicate)
  with assms have "map (nth BASE58ALPHABET) (b58_numeral (be_nat xs))
      = map (nth BASE58ALPHABET) (b58_numeral (be_nat ys))"
    by (simp add: b58_string_def)
  then have "b58_numeral (be_nat xs) = b58_numeral (be_nat ys)"
    using b58_numeral_less by (intro b58.map_nth_inj) simp_all
  then have v: "be_nat (drop (leading_zeros xs) xs) = be_nat (drop (leading_zeros ys) ys)"
    by (metis be_nat_drop_leading_zeros be_val_b58_numeral)
  then have "map unat (drop (leading_zeros xs) xs) = map unat (drop (leading_zeros ys) ys)"
    using no_leading_zero [of xs] no_leading_zero [of ys]
    by (intro be_val_inj_no_leading_zero [where b = 256]) (auto simp: hd_map unat_eq_0)
  then have "drop (leading_zeros xs) xs = drop (leading_zeros ys) ys"
    by (rule map_injective) (simp add: inj_def word_unat_eq_iff)
  with z show ?thesis by (metis split_leading_zeros)
qed

end
