(* ===== verification/Eos_Types.thy ===== *)
theory Eos_Types
  imports Eos_Base58 "HOL-Library.Signed_Division"
begin

text \<open>
  \<^verbatim>\<open>src/eos_types.c\<close>: the EOS data types and their text. Variable-length integers, account
  names, symbols, assets and public keys, each with the specification of what it denotes and
  the theorem that the C routine computes it.
\<close>

section \<open>Sizes of the C types\<close>

abbreviation (input) sizeof_name :: nat where "sizeof_name \<equiv> 8"
abbreviation (input) sizeof_asset :: nat where "sizeof_asset \<equiv> 16"
abbreviation (input) sizeof_public_key :: nat where "sizeof_public_key \<equiv> 33"
abbreviation (input) sizeof_permission_level :: nat where "sizeof_permission_level \<equiv> 16"

text \<open>\<open>amount\<close> is the bit pattern of an \<open>int64_t\<close>.\<close>

record asset_t =
  amount :: u64
  symbol :: u64

section \<open>Variable-length integers: unpack\_variant32\<close>

text \<open>
  The loop of the decoder: \<open>p\<close> is the read pointer, \<open>i\<close> the bytes read, \<open>v\<close> the 64-bit
  accumulator and \<open>by\<close> the shift of the next group. The shift itself is 32 bits wide.
\<close>

function variant32_loop :: "bytes \<Rightarrow> nat \<Rightarrow> u32 \<Rightarrow> nat \<Rightarrow> u64 \<Rightarrow> nat \<Rightarrow> (nat \<times> u32) result" where
  "variant32_loop mem p len i v by =
     andThen (mem_get mem p) (\<lambda>b.
       let i = i + 1;
           v = v OR ucast (push_bit by (ucast (b AND 0x7f) :: u32));
           by = by + 7
       in if b AND 0x80 \<noteq> 0 \<and> by < 32 \<and> i < unat len
          then variant32_loop mem (p + 1) len i v by
          else Inr (i, ucast v))"
  by pat_completeness auto
termination
  by (relation "measure (\<lambda>(mem, p, len, i, v, by). 32 - by)") auto

declare variant32_loop.simps [simp del]

definition unpack_variant32 :: "bytes \<Rightarrow> nat \<Rightarrow> u32 \<Rightarrow> (nat \<times> u32) result" where
  "unpack_variant32 mem off len = variant32_loop mem off len 0 0 0"

text \<open>The specification: little-endian groups of seven bits, all but the last one marked.\<close>

primrec leb_nat :: "bytes \<Rightarrow> nat" where
  "leb_nat [] = 0"
| "leb_nat (b # bs) = unat b mod 128 + 128 * leb_nat bs"

fun leb_bytes :: "nat \<Rightarrow> bytes" where
  "leb_bytes n = (if n < 128 then [of_nat n] else of_nat (n mod 128 + 128) # leb_bytes (n div 128))"

declare leb_bytes.simps [simp del]

text \<open>The bytes that the decoder consumes: up to the first unmarked one, at most \<open>n\<close>.\<close>

fun leb_prefix :: "nat \<Rightarrow> bytes \<Rightarrow> bytes" where
  "leb_prefix 0 bs = []"
| "leb_prefix n [] = []"
| "leb_prefix (Suc n) (b # bs) = (if unat b < 128 then [b] else b # leb_prefix n bs)"

lemma leb_nat_append: "leb_nat (xs @ ys) = leb_nat xs + 128 ^ length xs * leb_nat ys"
  by (induction xs) (auto simp: algebra_simps)

lemma leb_nat_less: "leb_nat bs < 128 ^ length bs"
proof (induction bs)
  case (Cons b bs)
  have "unat b mod 128 < 128" by simp
  then have "unat b mod 128 + 128 * leb_nat bs < 128 * (leb_nat bs + 1)" by simp
  also from Cons have "128 * (leb_nat bs + 1) \<le> 128 * 128 ^ length bs"
    by (intro mult_le_mono2) simp
  finally show ?case by simp
qed simp

lemma or_shifted_group:
  assumes "unat (w :: u32) < 2 ^ n"
  shows "(w OR push_bit n x) = w + push_bit n x"
proof -
  have "\<not> bit w k" if "n \<le> k" for k
  proof
    assume "bit w k"
    then have "bit (unat w) k" by (simp add: bit_unsigned_iff)
    then have "2 ^ k \<le> unat w" by (metis bit_iff_odd div_less even_zero not_le)
    with that assms show False
      by (metis le_less_trans linorder_not_less one_le_numeral power_increasing)
  qed
  then show ?thesis
    by (intro disjunctive_add_eq_or [symmetric]) (auto simp: bit_eq_iff bit_simps)
qed

lemma variant32_group:
  assumes "length pre \<le> 4"
  shows "(ucast (of_nat (leb_nat pre) :: u32) :: u64)
      OR ucast (push_bit (7 * length pre) (ucast (b AND 0x7f) :: u32))
    = ucast (of_nat (leb_nat (pre @ [b])) :: u32)"
proof -
  let ?w = "of_nat (leb_nat pre) :: u32" and ?g = "ucast (b AND 0x7f) :: u32"
  have p128: "(128 :: nat) ^ n = 2 ^ (7 * n)" for n by (simp add: power_mult)
  have "leb_nat pre < 128 ^ length pre" by (rule leb_nat_less)
  moreover have "(2 :: nat) ^ (7 * length pre) \<le> 2 ^ 28"
    using assms by (intro power_increasing) simp_all
  ultimately have "unat ?w < 2 ^ (7 * length pre)"
    by (subst unat_of_nat_u32_small) (simp_all add: p128)
  then have "(?w OR push_bit (7 * length pre) ?g) = ?w + push_bit (7 * length pre) ?g"
    by (rule or_shifted_group)
  moreover have "?g = of_nat (unat b mod 128)"
    by (simp add: word_unat_eq_iff u8_and_127 unat_of_nat_u32_small less_trans [of _ 128])
  ultimately have "(?w OR push_bit (7 * length pre) ?g) = of_nat (leb_nat (pre @ [b]))"
    by (simp add: leb_nat_append push_bit_eq_mult p128 mult.commute)
  then show ?thesis by (simp flip: unsigned_or_eq)
qed

lemma ucast_u32_u64_u32 [simp]: "ucast (ucast (x :: u32) :: u64) = x"
  by (rule bit_word_eqI) (simp add: bit_simps)

lemma variant32_loop_eq:
  assumes "length pre \<le> 4" and "p + n \<le> length mem"
    and "n = min (5 - length pre) (max 1 (unat len - length pre))"
  shows "variant32_loop mem p len (length pre) (ucast (of_nat (leb_nat pre) :: u32)) (7 * length pre)
    = (let bs = leb_prefix n (drop p mem)
       in Inr (length pre + length bs, of_nat (leb_nat (pre @ bs))))"
  using assms
proof (induction "4 - length pre" arbitrary: pre p n)
  case 0
  then have n: "n = 1" and pre: "length pre = 4" by auto
  with 0 have p: "p < length mem" by simp
  then have "leb_prefix n (drop p mem) = [mem ! p]"
    by (simp add: n Cons_nth_drop_Suc [symmetric])
  with p pre show ?case
    using variant32_group [of pre "mem ! p"]
    by (subst variant32_loop.simps) (simp add: mem_get_def Let_def)
next
  case (Suc k)
  have n: "0 < n" using Suc.prems(3) Suc.hyps(2) by (auto simp: max_def min_def)
  then obtain m where m: "n = Suc m" by (cases n) auto
  have p: "p < length mem" using n Suc.prems(2) by simp
  let ?b = "mem ! p"
  have dr: "drop p mem = ?b # drop (p + 1) mem"
    using p by (simp add: Cons_nth_drop_Suc)
  show ?case
  proof (cases "?b AND 0x80 \<noteq> 0 \<and> length pre + 1 < unat len")
    case True
    then have b: "\<not> unat ?b < 128" by (simp add: u8_and_128)
    have "variant32_loop mem (p + 1) len (length (pre @ [?b]))
        (ucast (of_nat (leb_nat (pre @ [?b])) :: u32)) (7 * length (pre @ [?b]))
      = (let bs = leb_prefix m (drop (p + 1) mem)
         in Inr (length (pre @ [?b]) + length bs, of_nat (leb_nat ((pre @ [?b]) @ bs))))"
    proof (rule Suc.hyps(1))
      show "m = min (5 - length (pre @ [?b])) (max 1 (unat len - length (pre @ [?b])))"
        using Suc.prems(3) m True Suc.hyps(2) by (auto simp: min_def max_def split: if_splits)
    qed (use Suc.hyps(2) Suc.prems(2) m in auto)
    moreover have "7 * length pre + 7 < 32" using Suc.hyps(2) by simp
    ultimately show ?thesis
      using variant32_group [of pre ?b] Suc.prems(1) True b dr m p
      by (subst variant32_loop.simps) (simp add: mem_get_def Let_def algebra_simps)
  next
    case False
    then have "leb_prefix n (drop p mem) = [?b]"
    proof (cases "unat ?b < 128")
      case False
      with \<open>\<not> (?b AND 0x80 \<noteq> 0 \<and> length pre + 1 < unat len)\<close> have "n = 1"
        using Suc.prems(3) Suc.hyps(2) by (auto simp: u8_and_128)
      with dr show ?thesis by simp
    qed (simp add: dr m)
    with False p show ?thesis
      using variant32_group [of pre ?b] Suc.prems(1)
      by (subst variant32_loop.simps) (auto simp: mem_get_def Let_def)
  qed
qed

lemma unpack_variant32_eq:
  assumes "off + min 5 (max 1 (unat len)) \<le> length mem"
  shows "unpack_variant32 mem off len =
    (let bs = leb_prefix (min 5 (max 1 (unat len))) (drop off mem)
     in Inr (length bs, of_nat (leb_nat bs)))"
  using variant32_loop_eq [of "[]" off "min 5 (max 1 (unat len))" mem len] assms
  by (simp add: unpack_variant32_def)

lemma length_leb_prefix: "length (leb_prefix n bs) \<le> n"
  by (induction n bs rule: leb_prefix.induct) auto

lemma leb_prefix_nonempty: "0 < n \<Longrightarrow> bs \<noteq> [] \<Longrightarrow> 0 < length (leb_prefix n bs)"
  by (cases n; cases bs) auto

text \<open>Encoding then decoding is the identity on 32-bit values.\<close>

lemma length_leb_bytes: "n < 128 ^ k \<Longrightarrow> 0 < k \<Longrightarrow> length (leb_bytes n) \<le> k"
proof (induction n arbitrary: k rule: leb_bytes.induct)
  case (1 n)
  show ?case
  proof (cases "n < 128")
    case True
    with "1.prems" show ?thesis by (subst leb_bytes.simps) simp
  next
    case False
    from "1.prems" obtain k' where k: "k = Suc k'" by (cases k) auto
    have "0 < k'" using "1.prems" False k by (cases k') auto
    have "n div 128 < 128 ^ k'"
      using "1.prems" k by (intro less_mult_imp_div_less) (simp add: mult.commute)
    with "1.IH" False \<open>0 < k'\<close> have "length (leb_bytes (n div 128)) \<le> k'" by blast
    with False k show ?thesis by (subst leb_bytes.simps) simp
  qed
qed

lemma leb_prefix_leb_bytes:
  "length (leb_bytes n) \<le> k \<Longrightarrow> leb_prefix k (leb_bytes n @ rest) = leb_bytes n"
proof (induction n arbitrary: k rule: leb_bytes.induct)
  case (1 n)
  show ?case
  proof (cases "n < 128")
    case True
    then have "leb_bytes n = [of_nat n]" by (subst leb_bytes.simps) simp
    with True "1.prems" show ?thesis by (cases k) (simp_all add: unat_of_nat_u8_small)
  next
    case False
    then have e: "leb_bytes n = of_nat (n mod 128 + 128) # leb_bytes (n div 128)"
      by (subst leb_bytes.simps) simp
    with "1.prems" obtain k' where k: "k = Suc k'" by (cases k) auto
    have "n mod 128 + 128 < 256" by simp
    then have "\<not> unat (of_nat (n mod 128 + 128) :: u8) < 128"
      by (subst unat_of_nat_u8_small) simp_all
    moreover have "leb_prefix k' (leb_bytes (n div 128) @ rest) = leb_bytes (n div 128)"
      using "1.IH" [OF False] "1.prems" e k by simp
    ultimately show ?thesis by (simp add: e k)
  qed
qed

lemma leb_nat_leb_bytes: "leb_nat (leb_bytes n) = n"
proof (induction n rule: leb_bytes.induct)
  case (1 n)
  show ?case
  proof (cases "n < 128")
    case True
    then show ?thesis by (subst leb_bytes.simps) (simp add: unat_of_nat_u8_small)
  next
    case False
    have "unat (of_nat (n mod 128 + 128) :: u8) = n mod 128 + 128"
      by (rule unat_of_nat_u8_small) simp
    with False "1.IH" show ?thesis
      by (subst leb_bytes.simps) (simp del: of_nat_add)
  qed
qed

lemma unpack_variant32_leb_bytes:
  assumes "v < 2 ^ 32" and "drop off mem = leb_bytes v @ rest"
    and "length (leb_bytes v) \<le> unat len" and "off + min 5 (max 1 (unat len)) \<le> length mem"
  shows "unpack_variant32 mem off len = Inr (length (leb_bytes v), of_nat v)"
proof -
  have "length (leb_bytes v) \<le> 5" using assms(1) by (intro length_leb_bytes) simp_all
  with assms(3) have "length (leb_bytes v) \<le> min 5 (max 1 (unat len))" by simp
  then show ?thesis
    using assms by (simp add: unpack_variant32_eq leb_prefix_leb_bytes leb_nat_leb_bytes Let_def)
qed

section \<open>Account names: name\_to\_string\<close>

definition charmap :: bytes where
  "charmap = cstr ''.12345abcdefghijklmnopqrstuvwxyz''"

text \<open>The character \<open>.\<close>.\<close>

abbreviation dot :: u8 where "dot \<equiv> 46"

definition buffer_to_name_type :: "bytes \<Rightarrow> nat \<Rightarrow> u32 \<Rightarrow> u64 result" where
  "buffer_to_name_type mem off sz =
     andThen (LEDGER_ASSERT (sz \<ge> 8) ''buffer_to_name_type Overflow'')
       (\<lambda>_. andThen (mem_read mem off 8) (\<lambda>bs. Inr (le_word bs)))"

function name_chars :: "nat \<Rightarrow> u64 \<Rightarrow> bytes \<Rightarrow> bytes" where
  "name_chars i tmp str =
     (if i \<le> 12 then
        let c = charmap ! unat (tmp AND (if i = 0 then 0x0f else 0x1f))
        in name_chars (i + 1) (drop_bit (if i = 0 then 4 else 5) tmp) (str[12 - i := c])
      else str)"
  by pat_completeness auto
termination
  by (relation "measure (\<lambda>(i, tmp, str). 13 - i)") auto

declare name_chars.simps [simp del]

text \<open>The length of \<open>str\<close> without its trailing dots, from \<open>actual_size\<close> downwards.\<close>

fun name_actual_size :: "nat \<Rightarrow> bytes \<Rightarrow> nat" where
  "name_actual_size 0 str = 0"
| "name_actual_size (Suc n) str = (if str ! n = dot then name_actual_size n str else Suc n)"

text \<open>\<open>out\<close> is the array and \<open>off\<close> the position in it that the C pointer points to.\<close>

definition name_to_string :: "u64 \<Rightarrow> bytes \<Rightarrow> nat \<Rightarrow> u32 \<Rightarrow> (nat \<times> bytes) result" where
  "name_to_string v out off sz =
     andThen (LEDGER_ASSERT (sz \<ge> 13) ''name_to_string Overflow'') (\<lambda>_.
       let str = name_chars 0 v (replicate 13 dot);
           actual_size = name_actual_size 13 str
       in andThen (mem_write out off (take actual_size str)) (\<lambda>out. Inr (actual_size, out)))"

text \<open>
  The specification. A name is thirteen digits, twelve of base 32 and a last one of base 16,
  written through \<open>charmap\<close>; trailing dots are dropped.
\<close>

definition name_digits :: "u64 \<Rightarrow> nat list" where
  "name_digits v = fixed_digits 32 12 (unat v div 16) @ [unat v mod 16]"

definition rstrip :: "'a \<Rightarrow> 'a list \<Rightarrow> 'a list" where
  "rstrip c s = rev (dropWhile (\<lambda>x. x = c) (rev s))"

definition name_text :: "u64 \<Rightarrow> bytes" where
  "name_text v = rstrip dot (map (nth charmap) (name_digits v))"

definition name_value :: "bytes \<Rightarrow> u64" where
  "name_value s =
     (let ds = map (digit_of charmap) s @ replicate (13 - length s) 0
      in of_nat (be_val 32 (take 12 ds) * 16 + ds ! 12))"

interpretation nm: alphabet charmap
  by unfold_locales (simp_all add: charmap_def cstr_def)

lemma length_charmap [simp]: "length charmap = 32"
  by (simp add: charmap_def)

lemma charmap_0: "charmap ! 0 = dot"
  by (simp add: charmap_def cstr_def)

text \<open>From the second round on the loop fills the array downwards, five bits at a time.\<close>

lemma name_chars_from:
  assumes "1 \<le> i" and "i \<le> 13" and "length str = 13"
  shows "name_chars i tmp str
    = map (\<lambda>k. charmap ! (unat tmp div 2 ^ (5 * (12 - i - k)) mod 32)) [0..<13 - i] @ drop (13 - i) str"
  using assms
proof (induction i tmp str rule: name_chars.induct)
  case (1 i tmp str)
  show ?case
  proof (cases "i \<le> 12")
    case False
    with "1.prems" show ?thesis by (subst name_chars.simps) simp
  next
    case True
    let ?c = "charmap ! (unat tmp mod 32)"
    let ?f = "\<lambda>k. charmap ! (unat tmp div 2 ^ (5 * (12 - i - k)) mod 32)"
    let ?g = "\<lambda>k. charmap ! (unat (drop_bit 5 tmp) div 2 ^ (5 * (12 - (i + 1) - k)) mod 32)"
    have and31: "unat (tmp AND 0x1F) = unat tmp mod 32"
      using unat_and_mask [of tmp 5] by (simp add: mask_numeral)
    have Suc: "Suc (12 - i) = 13 - i" and eq: "13 - (i + 1) = 12 - i" using True by simp_all
    have "name_chars i tmp str = name_chars (i + 1) (drop_bit 5 tmp) (str[12 - i := ?c])"
      using True "1.prems" by (subst name_chars.simps) (simp add: and31)
    also have "\<dots> = map ?g [0..<12 - i] @ drop (12 - i) (str[12 - i := ?c])"
      using "1.IH" [OF True refl] "1.prems" True by (simp add: and31 eq)
    also have "map ?g [0..<12 - i] = map ?f [0..<12 - i]"
    proof (rule map_cong)
      fix k assume "k \<in> set [0..<12 - i]"
      then have e: "5 * (12 - i - k) = 5 + 5 * (12 - (i + 1) - k)" by auto
      show "?g k = ?f k"
        unfolding unat_drop_bit e power_add div_mult2_eq ..
    qed simp
    also have "drop (12 - i) (str[12 - i := ?c]) = ?c # drop (13 - i) str"
      using "1.prems" True Suc by (simp add: upd_conv_take_nth_drop)
    also have "map ?f [0..<12 - i] @ ?c # drop (13 - i) str
        = map ?f [0..<Suc (12 - i)] @ drop (13 - i) str"
      by simp
    finally show ?thesis unfolding Suc .
  qed
qed

lemma name_chars_eq: "name_chars 0 v (replicate 13 dot) = map (nth charmap) (name_digits v)"
proof -
  have and15: "unat (v AND 0xF) = unat v mod 16"
    using unat_and_mask [of v 4] by (simp add: mask_numeral)
  let ?str = "(replicate 13 dot)[12 := charmap ! (unat v mod 16)]"
  have "name_chars 0 v (replicate 13 dot) = name_chars 1 (drop_bit 4 v) ?str"
    by (subst name_chars.simps) (simp add: and15)
  also have "\<dots> = map (\<lambda>k. charmap ! (unat (drop_bit 4 v) div 2 ^ (5 * (12 - 1 - k)) mod 32)) [0..<13 - 1]
      @ drop (13 - 1) ?str"
    by (rule name_chars_from) simp_all
  also have "drop (13 - 1) ?str = [charmap ! (unat v mod 16)]"
    by (simp add: drop_update_swap)
  also have "map (\<lambda>k. charmap ! (unat (drop_bit 4 v) div 2 ^ (5 * (12 - 1 - k)) mod 32)) [0..<13 - 1]
      = map (nth charmap) (fixed_digits 32 12 (unat v div 16))"
    by (simp add: fixed_digits_map unat_drop_bit power_mult del: unat_div upt_rec_numeral)
  finally show ?thesis by (simp add: name_digits_def)
qed

lemma name_digits_less: "\<forall>d \<in> set (name_digits v). d < 32"
  using fixed_digits_less [of 32 12 "unat v div 16"] by (auto simp: name_digits_def)

lemma length_name_digits [simp]: "length (name_digits v) = 13"
  by (simp add: name_digits_def)

lemma name_actual_size_le: "name_actual_size n str \<le> n"
  by (induction n) auto

lemma take_name_actual_size:
  "n \<le> length str \<Longrightarrow> take (name_actual_size n str) str = rstrip dot (take n str)"
  by (induction n) (auto simp: rstrip_def take_Suc_conv_app_nth)

lemma length_rstrip: "length (rstrip c s) \<le> length s"
  by (simp add: rstrip_def) (metis length_dropWhile_le length_rev)

lemma rstrip_pad: "s = rstrip c s @ replicate (length s - length (rstrip c s)) c"
proof (induction s rule: rev_induct)
  case (snoc x s)
  show ?case
  proof (cases "x = c")
    case True
    then have "rstrip c (s @ [x]) = rstrip c s" by (simp add: rstrip_def)
    with snoc True show ?thesis
      by (metis append.assoc append_replicate_commute diff_Suc_1 Suc_diff_le length_append_singleton
          length_rstrip replicate_Suc replicate_append_same)
  qed (simp add: rstrip_def)
qed (simp add: rstrip_def)

lemma length_name_text: "length (name_text v) \<le> 13"
  unfolding name_text_def by (rule order_trans [OF length_rstrip]) simp

lemma set_rstrip: "set (rstrip c s) \<subseteq> set s"
  by (auto simp: rstrip_def dest: set_dropWhileD)

lemma name_text_printable: "0 \<notin> set (name_text v)"
proof -
  have "set (name_text v) \<subseteq> set (map (nth charmap) (name_digits v))"
    unfolding name_text_def by (rule set_rstrip)
  moreover have "0 \<notin> set (map (nth charmap) (name_digits v))"
    by (rule nm.printable_text) (use name_digits_less in simp)
  ultimately show ?thesis by blast
qed

lemma name_value_name_text: "name_value (name_text v) = v"
proof -
  let ?s = "map (nth charmap) (name_digits v)"
  have d0: "digit_of charmap dot = 0"
    using nm.digit_of_nth [of 0] by (simp add: charmap_0)
  have "map (digit_of charmap) (name_text v) @ replicate (13 - length (name_text v)) 0
      = map (digit_of charmap) (name_text v @ replicate (13 - length (name_text v)) dot)"
    by (simp add: d0)
  also have "name_text v @ replicate (13 - length (name_text v)) dot = ?s"
    using rstrip_pad [of ?s dot] by (simp add: name_text_def)
  also have "map (digit_of charmap) ?s = name_digits v"
    by (rule nm.map_digit_of_nth) (use name_digits_less in simp)
  finally have ds: "map (digit_of charmap) (name_text v) @ replicate (13 - length (name_text v)) 0
      = name_digits v" .
  have "unat v < 2 ^ 64" using unsigned_less [of v] by simp
  then have "unat v div 16 < 32 ^ 12" by (simp add: less_mult_imp_div_less)
  then have "be_val 32 (take 12 (name_digits v)) * 16 + name_digits v ! 12 = unat v"
    by (simp add: name_digits_def be_val_fixed_digits nth_append)
  then show ?thesis unfolding name_value_def Let_def ds by simp
qed

lemma name_text_inj: "name_text v = name_text w \<Longrightarrow> v = w"
  by (metis name_value_name_text)

lemma name_to_string_eq:
  assumes "13 \<le> sz" and "off + 13 \<le> length out"
  shows "name_to_string v out off sz = Inr (length (name_text v),
    take off out @ name_text v @ drop (off + length (name_text v)) out)"
proof -
  let ?str = "map (nth charmap) (name_digits v)"
  have tk: "take (name_actual_size 13 ?str) ?str = name_text v"
    using take_name_actual_size [of 13 ?str] by (simp add: name_text_def)
  moreover have "name_actual_size 13 ?str = length (name_text v)"
    using arg_cong [OF tk, of length] name_actual_size_le [of 13 ?str] by simp
  ultimately show ?thesis
    using assms length_name_text [of v]
    by (simp add: name_to_string_def name_chars_eq Let_def mem_write_def)
qed

section \<open>Symbols\<close>

text \<open>
  The letters of a symbol are the seven bytes above its precision byte. The two loops of
  \<open>is_valid_symbol\<close> share the counter \<open>i\<close>.
\<close>

function symbol_tail_zero :: "nat \<Rightarrow> u64 \<Rightarrow> bool" where
  "symbol_tail_zero i sy =
     (let sy = drop_bit 8 sy
      in if sy AND 0xff \<noteq> 0 then False
         else if i + 1 < 7 then symbol_tail_zero (i + 1) sy
         else True)"
  by pat_completeness auto
termination
  by (relation "measure (\<lambda>(i, sy). 7 - i)") auto

function valid_symbol_from :: "nat \<Rightarrow> u64 \<Rightarrow> bool" where
  "valid_symbol_from i sy =
     (if i < 7 then
        let c = sy AND 0xff
        in if \<not> (of_char CHR ''A'' \<le> c \<and> c \<le> of_char CHR ''Z'') then False
           else let sy = drop_bit 8 sy
                in if sy AND 0xff = 0 then symbol_tail_zero i sy
                   else valid_symbol_from (i + 1) sy
      else True)"
  by pat_completeness auto
termination
  by (relation "measure (\<lambda>(i, sy). 7 - i)") auto

declare symbol_tail_zero.simps [simp del] valid_symbol_from.simps [simp del]

definition is_valid_symbol :: "u64 \<Rightarrow> bool" where
  "is_valid_symbol sy = valid_symbol_from 0 (drop_bit 8 sy)"

function symbol_length_from :: "nat \<Rightarrow> u64 \<Rightarrow> nat" where
  "symbol_length_from len tmp =
     (if tmp AND 0xff \<noteq> 0 \<and> len \<le> 7 then symbol_length_from (len + 1) (drop_bit 8 tmp) else len)"
  by pat_completeness auto
termination
  by (relation "measure (\<lambda>(len, tmp). 8 - len)") auto

declare symbol_length_from.simps [simp del]

definition symbol_length :: "u64 \<Rightarrow> nat" where
  "symbol_length tmp = symbol_length_from 0 (drop_bit 8 tmp)"

definition symbol_precision :: "u64 \<Rightarrow> u64" where
  "symbol_precision sy = sy AND 0xff"

text \<open>The bytes that the loop of \<open>symbol_to_string\<close> stores, from index \<open>i\<close> on.\<close>

function symbol_chars :: "nat \<Rightarrow> u64 \<Rightarrow> bytes" where
  "symbol_chars i sy =
     (if i < 7 then
        let c = ucast (sy AND 0xff)
        in if c = 0 then [] else c # symbol_chars (i + 1) (drop_bit 8 sy)
      else [])"
  by pat_completeness auto
termination
  by (relation "measure (\<lambda>(i, sy). 7 - i)") auto

declare symbol_chars.simps [simp del]

definition symbol_to_string :: "u64 \<Rightarrow> bytes \<Rightarrow> u32 \<Rightarrow> (nat \<times> bytes) result" where
  "symbol_to_string sy out sz =
     andThen (LEDGER_ASSERT (sz \<ge> 8) ''symbol_to_string Overflow'') (\<lambda>_.
       let tmp = symbol_chars 0 (drop_bit 8 sy)
       in andThen (mem_write out 0 tmp) (\<lambda>out. Inr (length tmp, out)))"

text \<open>The specification: the seven letter bytes, up to the first zero one.\<close>

definition symbol_bytes :: "u64 \<Rightarrow> bytes" where
  "symbol_bytes sy = le_bytes 7 (unat sy div 256)"

definition symbol_text :: "u64 \<Rightarrow> bytes" where
  "symbol_text sy = c_string (symbol_bytes sy)"

lemma u64_and_255: "unat ((w :: u64) AND 0xff) = unat w mod 256"
  using unat_and_mask [of w 8] by (simp add: mask_numeral)

lemma symbol_chars_eq:
  "i \<le> 7 \<Longrightarrow> symbol_chars i sy = c_string (le_bytes (7 - i) (unat sy))"
proof (induction i sy rule: symbol_chars.induct)
  case (1 i sy)
  show ?case
  proof (cases "i < 7")
    case False
    with "1.prems" show ?thesis by (subst symbol_chars.simps) (simp add: c_string_def)
  next
    case True
    then have e: "7 - i = Suc (7 - (i + 1))" by simp
    have c: "(ucast (sy AND 0xff) :: u8) = of_nat (unat sy mod 256)"
      by (simp add: word_unat_eq_iff unsigned_ucast_eq take_bit_eq_mod u64_and_255)
    show ?thesis
    proof (cases "(of_nat (unat sy mod 256) :: u8) = 0")
      case True
      with \<open>i < 7\<close> show ?thesis
        by (subst symbol_chars.simps) (simp add: c e c_string_def)
    next
      case False
      have "symbol_chars (i + 1) (drop_bit 8 sy) = c_string (le_bytes (7 - (i + 1)) (unat (drop_bit 8 sy)))"
        using "1.IH" [OF True refl] False True by (simp add: c)
      with False True show ?thesis
        by (subst symbol_chars.simps) (simp add: c e c_string_def unat_drop_bit del: unat_div)
    qed
  qed
qed

lemma length_symbol_text: "length (symbol_text sy) \<le> 7"
proof -
  have "length (symbol_text sy) \<le> length (symbol_bytes sy)"
    unfolding symbol_text_def c_string_def by (rule length_takeWhile_le)
  then show ?thesis by (simp add: symbol_bytes_def)
qed

lemma symbol_text_printable: "0 \<notin> set (symbol_text sy)"
  unfolding symbol_text_def c_string_def by (auto dest: set_takeWhileD)

lemma symbol_to_string_eq:
  assumes "8 \<le> sz" and "7 \<le> length out"
  shows "symbol_to_string sy out sz
    = Inr (length (symbol_text sy), symbol_text sy @ drop (length (symbol_text sy)) out)"
proof -
  have "symbol_chars 0 (drop_bit 8 sy) = symbol_text sy"
    by (simp add: symbol_chars_eq symbol_text_def symbol_bytes_def unat_drop_bit del: unat_div)
  then show ?thesis
    using assms length_symbol_text [of sy]
    by (simp add: symbol_to_string_def Let_def mem_write_def)
qed

text \<open>What \<open>is_valid_symbol\<close> accepts: one to seven capital letters, then only zero bytes.\<close>

definition capital :: "u8 \<Rightarrow> bool" where
  "capital c \<longleftrightarrow> of_char CHR ''A'' \<le> c \<and> c \<le> of_char CHR ''Z''"

definition valid_symbol_bytes :: "bytes \<Rightarrow> bool" where
  "valid_symbol_bytes bs \<longleftrightarrow> c_string bs \<noteq> [] \<and> list_all capital (c_string bs)
     \<and> list_all (\<lambda>c. c = 0) (drop (length (c_string bs)) bs)"

lemma symbol_tail_zero_eq:
  "i < 7 \<Longrightarrow> symbol_tail_zero i sy \<longleftrightarrow> unat sy div 256 mod 256 ^ (7 - i) = 0"
proof (induction i sy rule: symbol_tail_zero.induct)
  case (1 i sy)
  have z: "drop_bit 8 sy AND 0xff = 0 \<longleftrightarrow> unat sy div 256 mod 256 = 0"
    by (simp add: u64_and_255 unat_drop_bit del: unat_div flip: unat_eq_0)
  have e: "(256 :: nat) ^ (7 - i) = 256 * 256 ^ (7 - (i + 1))"
    using "1.prems" by (simp add: Suc_diff_Suc flip: power_Suc)
  have m: "unat sy div 256 mod 256 ^ (7 - i) = 0
      \<longleftrightarrow> unat sy div 256 mod 256 = 0 \<and> unat sy div 256 div 256 mod 256 ^ (7 - (i + 1)) = 0"
    unfolding e mod_mult2_eq by auto
  show ?case
  proof (cases "drop_bit 8 sy AND 0xff = 0")
    case False
    then show ?thesis using z m by (subst symbol_tail_zero.simps) (simp add: Let_def)
  next
    case True
    show ?thesis
    proof (cases "i + 1 < 7")
      case True
      with \<open>drop_bit 8 sy AND 0xff = 0\<close> "1.IH" z m show ?thesis
        by (subst symbol_tail_zero.simps) (simp add: Let_def unat_drop_bit del: unat_div)
    next
      case False
      with "1.prems" have "i = 6" by simp
      with True z m show ?thesis by (subst symbol_tail_zero.simps) (simp add: Let_def)
    qed
  qed
qed

lemma le_bytes_zero: "list_all (\<lambda>c. c = 0) (le_bytes n v) \<longleftrightarrow> v mod 256 ^ n = 0"
proof (induction n arbitrary: v)
  case (Suc n)
  have "(of_nat (v mod 256) :: u8) = 0 \<longleftrightarrow> v mod 256 = 0"
    using unat_of_nat_u8 [of v] by (metis unat_eq_0)
  then show ?case using Suc by (auto simp: mod_mult2_eq)
qed simp

lemma capital_and: "of_char CHR ''A'' \<le> (w :: u64) AND 0xff \<and> w AND 0xff \<le> of_char CHR ''Z''
    \<longleftrightarrow> capital (of_nat (unat w mod 256))"
  by (simp add: capital_def word_le_nat_alt u64_and_255)

lemma valid_symbol_from_eq:
  assumes "i < 7" and "unat sy < 256 ^ (7 - i)"
  shows "valid_symbol_from i sy \<longleftrightarrow> valid_symbol_bytes (le_bytes (7 - i) (unat sy))"
  using assms
proof (induction i sy rule: valid_symbol_from.induct)
  case (1 i sy)
  define n where "n = 7 - (i + 1)"
  have n: "7 - i = Suc n" using "1.prems"(1) by (simp add: n_def)
  let ?c = "of_nat (unat sy mod 256) :: u8" and ?v = "unat sy div 256"
  have v: "?v < 256 ^ n" using "1.prems"(2) by (simp add: n less_mult_imp_div_less)
  have bs: "le_bytes (7 - i) (unat sy) = ?c # le_bytes n ?v" by (simp add: n)
  have unfold: "valid_symbol_from i sy \<longleftrightarrow>
      capital ?c \<and> (if ?v mod 256 = 0 then symbol_tail_zero i (drop_bit 8 sy)
                     else valid_symbol_from (i + 1) (drop_bit 8 sy))"
    using "1.prems"(1)
    by (subst valid_symbol_from.simps)
      (auto simp: Let_def capital_and [symmetric] u64_and_255 unat_drop_bit simp del: unat_div simp flip: unat_eq_0)
  show ?case
  proof (cases "capital ?c")
    case False
    then show ?thesis by (auto simp: unfold bs valid_symbol_bytes_def c_string_def)
  next
    case True
    then have nz: "?c \<noteq> 0" by (auto simp: capital_def)
    show ?thesis
    proof (cases "?v mod 256 = 0")
      case z: True
      have "symbol_tail_zero i (drop_bit 8 sy) \<longleftrightarrow> ?v div 256 = 0"
      proof -
        have "?v div 256 < 256 ^ (7 - i)"
          using v by (simp add: n)
        then show ?thesis
          using "1.prems"(1) by (simp add: symbol_tail_zero_eq unat_drop_bit del: unat_div)
      qed
      also have "\<dots> \<longleftrightarrow> ?v = 0" using z by (metis div_0 div_mult_mod_eq add_0 mult_0)
      also have "\<dots> \<longleftrightarrow> list_all (\<lambda>c. c = 0) (le_bytes n ?v)"
        using v by (simp add: le_bytes_zero)
      finally have tail: "symbol_tail_zero i (drop_bit 8 sy) \<longleftrightarrow> list_all (\<lambda>c. c = 0) (le_bytes n ?v)" .
      have "c_string (le_bytes n ?v) = []" using z by (cases n) (simp_all add: c_string_def)
      then have "c_string (?c # le_bytes n ?v) = [?c]" using nz by (simp add: c_string_def)
      with tail z True show ?thesis by (simp add: unfold bs valid_symbol_bytes_def)
    next
      case nz2: False
      then have "i + 1 < 7" using v by (cases n) (auto simp: n_def)
      have "valid_symbol_from (i + 1) (drop_bit 8 sy) \<longleftrightarrow> valid_symbol_bytes (le_bytes n ?v)"
      proof -
        have "\<not> \<not> (of_char CHR ''A'' \<le> sy AND 0xff \<and> sy AND 0xff \<le> of_char CHR ''Z'')"
          using True unfolding capital_and by simp
        from "1.IH" [OF "1.prems"(1) refl this refl] nz2 v \<open>i + 1 < 7\<close> show ?thesis
          by (simp add: u64_and_255 unat_drop_bit n_def del: unat_div flip: unat_eq_0)
      qed
      moreover have "c_string (?c # le_bytes n ?v) = ?c # c_string (le_bytes n ?v)"
        using nz by (simp add: c_string_def)
      moreover have "c_string (le_bytes n ?v) \<noteq> []"
      proof -
        have "(of_nat (?v mod 256) :: u8) \<noteq> 0" using nz2 unat_of_nat_u8 [of ?v] by (metis unsigned_0)
        then show ?thesis using \<open>i + 1 < 7\<close> by (cases n) (auto simp: n_def c_string_def)
      qed
      ultimately show ?thesis using True nz2 by (simp add: unfold bs valid_symbol_bytes_def)
    qed
  qed
qed

lemma is_valid_symbol_eq: "is_valid_symbol sy \<longleftrightarrow> valid_symbol_bytes (symbol_bytes sy)"
proof -
  have "unat sy < 2 ^ 64" using unsigned_less [of sy] by simp
  then have "unat (drop_bit 8 sy) < 256 ^ 7"
    by (simp add: unat_drop_bit less_mult_imp_div_less del: unat_div)
  then show ?thesis
    using valid_symbol_from_eq [of 0 "drop_bit 8 sy"]
    by (simp add: is_valid_symbol_def symbol_bytes_def unat_drop_bit del: unat_div)
qed

section \<open>Assets: asset\_to\_string\<close>

text \<open>\<open>while (p > 0) { p10 *= 10; --p; }\<close> on \<open>int64_t\<close>.\<close>

fun asset_pow10 :: "nat \<Rightarrow> int \<Rightarrow> int result" where
  "asset_pow10 0 p10 = Inr p10"
| "asset_pow10 (Suc p) p10 =
     (if int64_range (p10 * 10) then asset_pow10 p (p10 * 10) else Inl SignedOverflow)"

text \<open>The fraction digits from index \<open>i - 1\<close> down to 0; the division is C's, towards zero.\<close>

fun asset_fraction :: "nat \<Rightarrow> int \<Rightarrow> bytes \<Rightarrow> bytes" where
  "asset_fraction 0 change fraction = fraction"
| "asset_fraction (Suc i) change fraction =
     asset_fraction i (change sdiv 10)
       (fraction[i := of_int (change smod 10 + of_char CHR ''0'')])"

text \<open>The three parts put together in \<open>tmp\<close>, which the integer part already fills, and copied.\<close>

definition asset_join :: "bytes \<Rightarrow> bytes \<Rightarrow> bytes \<Rightarrow> bytes \<Rightarrow> (nat \<times> bytes) result" where
  "asset_join tmp fraction sy out =
     andThen (strlen tmp) (\<lambda>n.
     andThen (mem_write tmp n (cstr ''.'')) (\<lambda>tmp.
     andThen (strlen fraction) (\<lambda>flen.
     andThen (mem_write tmp (n + 1) (take flen fraction)) (\<lambda>tmp.
     andThen (strlen tmp) (\<lambda>n.
     andThen (mem_write tmp n (cstr '' '')) (\<lambda>tmp.
     andThen (strlen sy) (\<lambda>slen.
     andThen (mem_write tmp (n + 1) (take slen sy)) (\<lambda>tmp.
     andThen (strlen tmp) (\<lambda>n.
     andThen (mem_write out 0 (take n tmp)) (\<lambda>out. Inr (n, out)))))))))))"

definition asset_to_string :: "asset_t \<Rightarrow> bytes \<Rightarrow> (nat \<times> bytes) result" where
  "asset_to_string asset out =
     (let p = unat (symbol_precision (symbol asset)) in
      andThen (asset_pow10 p 1) (\<lambda>p10.
      if p10 = 0 then Inl DivisionByZero else
      let change = sint (amount asset) smod p10;
          fraction = asset_fraction p change (zeros (p + 1))
      in andThen (symbol_to_string (symbol asset) (zeros 9) 8) (\<lambda>(_, sy).
         andThen (i64toa (sint (amount asset) sdiv p10) (zeros 64)) (\<lambda>tmp.
           asset_join tmp fraction sy out))))"

text \<open>
  The specification for an amount that is not negative and a precision of at most 18: the
  integer part, a point, exactly \<open>p\<close> fraction digits, a space and the letters of the symbol.
\<close>

definition fraction_text :: "nat \<Rightarrow> nat \<Rightarrow> bytes" where
  "fraction_text p n = map (nth digit) (fixed_digits 10 p n)"

definition asset_text :: "nat \<Rightarrow> nat \<Rightarrow> bytes \<Rightarrow> bytes" where
  "asset_text p n sy = dec_string (n div 10 ^ p) @ cstr ''.'' @ fraction_text p n @ cstr '' '' @ sy"

lemma asset_pow10_run: "k + q \<le> 18 \<Longrightarrow> asset_pow10 (q + m) (10 ^ k) = asset_pow10 m (10 ^ (k + q))"
proof (induction q arbitrary: k)
  case (Suc q)
  have "(10 :: int) ^ Suc k \<le> 10 ^ 18" using Suc.prems by (intro power_increasing) simp_all
  then have "(10 :: int) ^ Suc k < 2 ^ 63" by (rule le_less_trans) simp
  moreover have "- (2 ^ 63) \<le> (10 :: int) ^ Suc k" by (rule order_trans [of _ 0]) simp_all
  ultimately have "int64_range (10 ^ Suc k)" unfolding int64_range_def by blast
  then have "int64_range (10 ^ k * 10)" by (simp add: mult.commute)
  with Suc.prems Suc.IH [of "Suc k"] show ?case by (simp add: mult.commute)
qed simp

lemma asset_pow10_eq: "p \<le> 18 \<Longrightarrow> asset_pow10 p 1 = Inr (10 ^ p)"
  using asset_pow10_run [of 0 p 0] by simp

lemma asset_pow10_overflow: "18 < p \<Longrightarrow> asset_pow10 p 1 = Inl SignedOverflow"
proof -
  assume "18 < p"
  then have p: "p = 18 + Suc (p - 19)" by simp
  have "asset_pow10 p 1 = asset_pow10 (Suc (p - 19)) (10 ^ 18)"
    using asset_pow10_run [of 0 18 "Suc (p - 19)"] p by simp
  then show ?thesis by (simp add: int64_range_def)
qed

lemma digit_char: "d < 10 \<Longrightarrow> (of_int (int d + of_char CHR ''0'') :: u8) = digit ! d"
proof -
  assume "d < 10"
  then have "d \<in> set [0..<10]" by simp
  then show ?thesis by (simp add: upt_rec) (elim disjE; simp add: digit_def cstr_def)
qed

lemma asset_fraction_eq:
  assumes "i < length fraction"
  shows "asset_fraction i (int n) fraction = fraction_text i n @ drop i fraction"
  using assms
proof (induction i "int n" fraction arbitrary: n rule: asset_fraction.induct)
  case (2 i fraction)
  have q: "int n sdiv 10 = int (n div 10)" and r: "int n smod 10 = int (n mod 10)"
    by (cases "n = 0"; simp add: signed_divide_int_def signed_modulo_int_def zdiv_int zmod_int
        minus_div_mult_eq_mod)+
  have c: "(of_int (int n smod 10 + of_char CHR ''0'') :: u8) = digit ! (n mod 10)"
    unfolding r by (rule digit_char) simp
  have "asset_fraction i (int (n div 10)) (fraction[i := digit ! (n mod 10)])
      = fraction_text i (n div 10) @ drop i (fraction[i := digit ! (n mod 10)])"
    using "2.hyps" [OF q] "2.prems" unfolding c by simp
  moreover have "drop i (fraction[i := digit ! (n mod 10)]) = digit ! (n mod 10) # drop (Suc i) fraction"
    using "2.prems" by (simp add: upd_conv_take_nth_drop)
  ultimately show ?case unfolding asset_fraction.simps q c by (simp add: fraction_text_def)
qed (simp add: fraction_text_def)

lemma length_fraction_text [simp]: "length (fraction_text p n) = p"
  by (simp add: fraction_text_def)

lemma fraction_text_printable: "0 \<notin> set (fraction_text p n)"
  unfolding fraction_text_def by (rule dec.printable_text) (use fixed_digits_less [of 10 p n] in simp)

text \<open>Every digit of the amount is on the screen: the text reads back as the amount.\<close>

lemma decode_asset_digits:
  "decode digit (dec_string (n div 10 ^ p) @ fraction_text p n) = n"
proof -
  let ?ds = "dec_digits (n div 10 ^ p) @ fixed_digits 10 p n"
  have "\<forall>d \<in> set ?ds. d < length digit"
    using dec_digits_less [of "n div 10 ^ p"] fixed_digits_less [of 10 p n] by auto
  then have "decode digit (map (nth digit) ?ds) = be_val 10 ?ds"
    using dec.decode_nth [of ?ds] by simp
  also have "\<dots> = n"
    by (simp add: be_val_append be_val_dec_digits be_val_fixed_digits div_mult_mod_eq)
  finally show ?thesis by (simp add: dec_string_def fraction_text_def)
qed

lemma printable_append: "0 \<notin> set (s :: bytes) \<Longrightarrow> 0 \<notin> set t \<Longrightarrow> 0 \<notin> set (s @ t)"
  by simp

lemma take_padded: "take (length s) (padded n s) = s"
  by (simp add: padded_def)

lemma asset_join_eq:
  assumes pr: "0 \<notin> set a" "0 \<notin> set f" "0 \<notin> set y"
    and len: "length a + length f + length y + 2 < 64" "length y < 9"
    and out: "length a + length f + length y + 2 \<le> length out"
  defines "D \<equiv> a @ cstr ''.'' @ f @ cstr '' '' @ y"
  shows "asset_join (padded 64 a) (f @ [0]) (padded 9 y) out
    = Inr (length D, D @ drop (length D) out)"
proof -
  define A where "A = a @ cstr ''.''"
  define B where "B = A @ f"
  define C where "C = B @ cstr '' ''"
  have D: "D = C @ y" by (simp add: A_def B_def C_def D_def)
  have lA: "length A = Suc (length a)" and lB: "length B = length A + length f"
    and lC: "length C = Suc (length B)" and lD: "length D = length C + length y"
    by (simp_all add: A_def B_def C_def D)
  have "mem_write (padded 64 a) (length a) (cstr ''.'') = Inr (padded 64 A)"
    unfolding A_def by (rule mem_write_padded) (use len in simp)
  moreover have "mem_write (padded 64 A) (Suc (length a)) f = Inr (padded 64 B)"
    unfolding B_def lA [symmetric] by (rule mem_write_padded) (use len lA in simp)
  moreover have "mem_write (padded 64 B) (length B) (cstr '' '') = Inr (padded 64 C)"
    unfolding C_def by (rule mem_write_padded) (use len lA lB in simp)
  moreover have "mem_write (padded 64 C) (Suc (length B)) y = Inr (padded 64 D)"
    unfolding D lC [symmetric] by (rule mem_write_padded) (use len lA lB lC in simp)
  moreover have "0 \<notin> set B" and "0 \<notin> set D"
    using pr by (simp_all add: A_def B_def D_def cstr_def)
  then have "strlen (padded 64 B) = Inr (length B)" and "strlen (padded 64 D) = Inr (length D)"
    using len lA lB lC lD strlen_padded [of B 64] strlen_padded [of D 64] by auto
  moreover have "strlen (padded 64 a) = Inr (length a)" and "strlen (padded 9 y) = Inr (length y)"
    using pr len by (auto intro!: strlen_padded)
  moreover have "strlen (f @ [0]) = Inr (length f)"
    using strlen_append_zero [of f "[]"] pr by simp
  moreover have "mem_write out 0 D = Inr (D @ drop (length D) out)"
    using out lA lB lC lD by (simp add: mem_write_def)
  ultimately show ?thesis by (simp add: asset_join_def take_padded)
qed

lemma zeros_1: "zeros (Suc 0) = [0]"
  by (simp add: zeros_def)

lemma smod_nat: "int n smod 10 ^ p = int (n mod 10 ^ p)"
  by (cases "n = 0"; simp add: signed_divide_int_def signed_modulo_int_def zdiv_int zmod_int
    minus_div_mult_eq_mod)

lemma sdiv_nat: "int n sdiv 10 ^ p = int (n div 10 ^ p)"
  by (cases "n = 0"; simp add: signed_divide_int_def zdiv_int)

lemma asset_fraction_digits:
  "asset_fraction p (int n smod 10 ^ p) (zeros (p + 1)) = fraction_text p n @ [0]"
proof -
  have "fixed_digits 10 p (n mod 10 ^ p) = fixed_digits 10 p n"
    using be_val_fixed_digits [of 10 p "n mod 10 ^ p"] be_val_fixed_digits [of 10 p n]
      fixed_digits_less [of 10 p] by (intro be_val_inj [of _ _ 10]) simp_all
  then show ?thesis
    using asset_fraction_eq [of p "zeros (p + 1)" "n mod 10 ^ p"]
    by (simp add: fraction_text_def smod_nat zeros_1)
qed

lemma asset_to_string_eq:
  assumes p: "p = unat (symbol_precision (symbol asset))" "p \<le> 18"
    and n: "sint (amount asset) = int n"
    and out: "length (asset_text p n (symbol_text (symbol asset))) \<le> length out"
  shows "asset_to_string asset out =
    Inr (length (asset_text p n (symbol_text (symbol asset))),
         asset_text p n (symbol_text (symbol asset))
           @ drop (length (asset_text p n (symbol_text (symbol asset)))) out)"
proof -
  let ?sy = "symbol_text (symbol asset)" and ?int = "dec_string (n div 10 ^ p)"
  have "n < 2 ^ 63" using sint_lt [of "amount asset"] n by simp
  then have "n div 10 ^ p < 10 ^ 19" by (intro le_less_trans [OF div_le_dividend]) simp
  then have len: "length ?int \<le> 19" by (rule length_dec_string) simp
  have int: "i64toa (int (n div 10 ^ p)) (zeros 64) = Inr (padded 64 ?int)"
    using i64toa_nonneg [of "int (n div 10 ^ p)" "zeros 64"] len
    by (simp add: padded_def) (simp add: zeros_def flip: replicate_Suc)
  have sy: "symbol_to_string (symbol asset) (zeros 9) 8 = Inr (length ?sy, padded 9 ?sy)"
    using length_symbol_text [of "symbol asset"]
    by (simp add: symbol_to_string_eq padded_def zeros_def)
  have join: "asset_join (padded 64 ?int) (fraction_text p n @ [0]) (padded 9 ?sy) out
    = Inr (length (asset_text p n ?sy), asset_text p n ?sy @ drop (length (asset_text p n ?sy)) out)"
    unfolding asset_text_def
    by (rule asset_join_eq) (use len p(2) out length_symbol_text [of "symbol asset"] in
      \<open>simp_all add: asset_text_def dec_string_printable fraction_text_printable symbol_text_printable\<close>)
  show ?thesis
    unfolding asset_to_string_def Let_def p(1) [symmetric]
    by (simp add: asset_pow10_eq [OF p(2)] n asset_fraction_digits [simplified] sdiv_nat sy int join)
qed

section \<open>Public keys: the EOS wallet import format\<close>

text \<open>
  RIPEMD-160 belongs to the device's library and is a parameter: \<open>None\<close> is an error code of
  \<open>cx_hash_no_throw\<close>, on which \<open>CX_ASSERT\<close> stops. \<open>out\<close> is the array that \<open>out\<close> points
  to, of which \<open>outLength\<close> bytes are the caller's.
\<close>

definition compressed_public_key_to_wif ::
  "(bytes \<Rightarrow> bytes option) \<Rightarrow> bytes \<Rightarrow> nat \<Rightarrow> nat \<Rightarrow> bytes \<Rightarrow> nat \<Rightarrow> (nat \<times> bytes) result" where
  "compressed_public_key_to_wif ripemd160 mem off keyLength out outLength =
     andThen (LEDGER_ASSERT (keyLength \<ge> 33) ''compressed_public_key_to_wif Invalid Parameter'') (\<lambda>_.
     andThen (LEDGER_ASSERT (outLength \<ge> 40) ''compressed_public_key_to_wif Overflow'') (\<lambda>_.
     andThen (mem_read mem off 33) (\<lambda>key.
     andThen (CX_ASSERT (ripemd160 key)) (\<lambda>check.
     andThen (mem_read check 0 4) (\<lambda>check4.
     let temp = key @ check4 in
     andThen (mem_write out 0 (zeros outLength)) (\<lambda>out.
     andThen (mem_write out 0 (cstr ''EOS'')) (\<lambda>out.
     andThen (b58enc temp 37 (drop 3 out) (outLength - 3)) (\<lambda>(_, b58, addressLen).
     andThen (LEDGER_ASSERT (addressLen + 3 < outLength) ''compressed_public_key_to_wif Overflow'')
       (\<lambda>_. Inr (addressLen + 3, take 3 out @ b58))))))))))"

definition public_key_to_wif ::
  "(bytes \<Rightarrow> bytes option) \<Rightarrow> bytes \<Rightarrow> nat \<Rightarrow> bytes \<Rightarrow> nat \<Rightarrow> (nat \<times> bytes) result" where
  "public_key_to_wif ripemd160 publicKey keyLength out outLength =
     andThen (LEDGER_ASSERT (keyLength \<ge> 33) ''public_key_to_wif Invalid Parameter'') (\<lambda>_.
     andThen (LEDGER_ASSERT (outLength \<ge> 40) ''public_key_to_wif Overflow'') (\<lambda>_.
     andThen (mem_get publicKey 64) (\<lambda>last.
     andThen (mem_read publicKey 1 32) (\<lambda>x.
       let temp = (if last AND 0x1 \<noteq> 0 then 0x03 else 0x02) # x
       in compressed_public_key_to_wif ripemd160 temp 0 33 out outLength))))"

text \<open>The specification: the prefix and the Base58 text of the key and its checksum.\<close>

definition wif_text :: "bytes \<Rightarrow> bytes \<Rightarrow> bytes" where
  "wif_text key check = cstr ''EOS'' @ b58_string (key @ take 4 check)"

lemma leading_zeros_b58_size:
  "z \<le> 37 \<Longrightarrow> z + b58_size (37 - z) \<le> 52"
proof -
  assume "z \<le> 37"
  then have "b58_size (37 - z) = (37 - z) * 138 div 100 + 1"
    by (simp add: b58_size_def)
  moreover have "(37 - z) * 138 div 100 \<le> 51 - z" using \<open>z \<le> 37\<close> by arith
  ultimately show ?thesis using \<open>z \<le> 37\<close> by linarith
qed

lemma length_wif_text:
  assumes "length key = 33" and "4 \<le> length check"
  shows "length (wif_text key check) \<le> 55"
proof -
  let ?bin = "key @ take 4 check"
  have len: "length ?bin = 37" using assms by simp
  then have "leading_zeros ?bin \<le> 37" by (metis leading_zeros_le)
  then have "length (b58_string ?bin) \<le> 52"
    using length_b58_string_le [of ?bin] leading_zeros_b58_size len by fastforce
  then show ?thesis by (simp add: wif_text_def)
qed

lemma compressed_public_key_to_wif_eq:
  assumes key: "take 33 (drop off mem) = key" "off + 33 \<le> length mem" and kl: "33 \<le> keyLength"
    and check: "ripemd160 key = Some check" "4 \<le> length check"
    and out: "57 \<le> outLength" "outLength \<le> length out" "outLength * 138 < 2 ^ 32"
  shows "compressed_public_key_to_wif ripemd160 mem off keyLength out outLength
    = Inr (length (wif_text key check) + 1, padded outLength (wif_text key check) @ drop outLength out)"
proof -
  let ?bin = "key @ take 4 check"
  let ?s = "b58_string ?bin"
  have eos: "length (cstr ''EOS'') = 3" by simp
  have lk: "length key = 33" using key by auto
  have ls: "length ?s + 3 \<le> 55" using length_wif_text [OF lk check(2)] by (simp add: wif_text_def)
  have "b58enc ?bin 37 (zeros (outLength - 3) @ drop outLength out) (outLength - 3)
      = Inr (True, ?s @ 0 # drop (length ?s + 1) (zeros (outLength - 3) @ drop outLength out),
          length ?s + 1)"
    using b58enc_eq [of ?bin 37 ?bin "zeros (outLength - 3) @ drop outLength out" "outLength - 3"]
      lk check(2) ls out by simp
  moreover have "drop 3 (cstr ''EOS'' @ drop 3 (zeros outLength @ drop outLength out))
      = zeros (outLength - 3) @ drop outLength out"
    using out by (simp add: zeros_def)
  moreover have "?s @ 0 # drop (length ?s + 1) (zeros (outLength - 3) @ drop outLength out)
      = padded (outLength - 3) ?s @ drop outLength out"
    using ls out by (simp add: padded_def zeros_def flip: replicate_Suc)
  ultimately show ?thesis
    using key kl check out ls
    by (simp add: compressed_public_key_to_wif_def mem_read_def mem_write_def wif_text_def Let_def
        padded_def min_absorb2 eos del: length_cstr)
qed

text \<open>Keys with different bytes are displayed differently.\<close>

lemma wif_text_inj:
  assumes "length k = 33" and "length k' = 33" and "wif_text k c = wif_text k' c'"
  shows "k = k'"
proof -
  have "k @ take 4 c = k' @ take 4 c'"
    using assms(3) b58_string_inj unfolding wif_text_def by blast
  with assms(1,2) show ?thesis by simp
qed

text \<open>An uncompressed key \<open>04 || X || Y\<close> is shown as its compressed form.\<close>

lemma public_key_to_wif_eq:
  assumes len: "length X = 32" "length Y = 32" and kl: "33 \<le> keyLength" and "40 \<le> outLength"
  shows "public_key_to_wif ripemd160 (0x04 # X @ Y) keyLength out outLength
    = compressed_public_key_to_wif ripemd160 ((if odd (be_nat Y) then 0x03 else 0x02) # X) 0 33 out outLength"
proof -
  obtain Y' y where Y: "Y = Y' @ [y]" using len(2) by (cases Y rule: rev_cases) auto
  then have l: "length Y' = 31" using len(2) by simp
  have "odd (be_nat Y) \<longleftrightarrow> odd (unat y)" by (simp add: Y)
  also have "\<dots> \<longleftrightarrow> y AND 1 \<noteq> 0" by (simp add: u8_and_1)
  finally show ?thesis
    using assms by (simp add: public_key_to_wif_def mem_get_def mem_read_def nth_append Y l)
qed

end
