(* ===== verification/Eos_Parse.thy ===== *)
theory Eos_Parse
  imports Eos_Types
begin

text \<open>
  \<^verbatim>\<open>src/eos_parse.c\<close>: the field parsers. Each one reads a value of fixed width from the action
  data and renders it, with its label, into the argument that the screen shows. The interface
  \<open>field_parser\<close> states what a parser of a fixed-width field promises to the action parsers
  built on it; every fixed-width parser of the file is an interpretation.
\<close>

section \<open>The argument shown\<close>

record actionArgument_t =
  label :: bytes
  data :: bytes

abbreviation (input) sizeof_label :: nat where "sizeof_label \<equiv> 32"
abbreviation (input) sizeof_data :: nat where "sizeof_data \<equiv> 128"

text \<open>Both arrays cleared, the label copied: the start of every parser.\<close>

definition arg_with_label :: "bytes \<Rightarrow> actionArgument_t \<Rightarrow> actionArgument_t result" where
  "arg_with_label fieldName arg =
     andThen (mem_write (zeros sizeof_label) 0 fieldName)
       (\<lambda>l. Inr (arg\<lparr>label := l, data := zeros sizeof_data\<rparr>))"

text \<open>A text and its label on the screen.\<close>

definition shown :: "bytes \<Rightarrow> bytes \<Rightarrow> actionArgument_t" where
  "shown fieldName txt = \<lparr>label = padded sizeof_label fieldName, data = padded sizeof_data txt\<rparr>"

lemma arg_with_label_eq:
  "length fieldName \<le> 32 \<Longrightarrow>
     arg_with_label fieldName arg = Inr \<lparr>label = padded 32 fieldName, data = zeros 128\<rparr>"
  by (simp add: arg_with_label_def mem_write_zeros)

lemma length_label_shown: "length f \<le> 32 \<Longrightarrow> length (label (shown f t)) = 32"
  and length_data_shown: "length t \<le> 128 \<Longrightarrow> length (data (shown f t)) = 128"
  by (simp_all add: shown_def length_padded)

section \<open>Library text functions\<close>

text \<open>
  \<open>snprintf(buf, n, "%d", v)\<close> and \<open>strlcat(dst, src, size)\<close> of the C library: the decimal
  text of an \<open>int\<close>, cut to \<open>n - 1\<close> characters and terminated, and appending likewise.
\<close>

definition int_text :: "int \<Rightarrow> bytes" where
  "int_text v = (if v < 0 then cstr ''-'' @ dec_string (nat (- v)) else dec_string (nat v))"

definition snprintf :: "bytes \<Rightarrow> nat \<Rightarrow> bytes \<Rightarrow> bytes result" where
  "snprintf buf n txt = (if n = 0 then Inr buf else mem_write buf 0 (take (n - 1) txt @ [0]))"

definition strlcat :: "bytes \<Rightarrow> bytes \<Rightarrow> nat \<Rightarrow> bytes result" where
  "strlcat dst src n =
     andThen (strlen dst)
       (\<lambda>k. if n \<le> k then Inr dst else mem_write dst k (take (n - k - 1) src @ [0]))"

lemma snprintf_zeros:
  assumes "length txt < n" and "n \<le> m"
  shows "snprintf (zeros m) n txt = Inr (padded m txt)"
proof -
  have "0 # zeros (m - Suc (length txt)) = zeros (m - length txt)"
    using assms by (simp add: zeros_split)
  with assms show ?thesis by (simp add: snprintf_def mem_write_def padded_def)
qed

lemma strlcat_padded:
  assumes "0 \<notin> set s" and "length s + length t < n" and "n \<le> m"
  shows "strlcat (padded m s) t n = Inr (padded m (s @ t))"
proof -
  have "strlen (padded m s) = Inr (length s)" using assms by (intro strlen_padded) simp_all
  moreover have "mem_write (padded m s) (length s) (t @ [0]) = Inr (padded m (s @ t @ [0]))"
    using assms by (intro mem_write_padded) simp
  moreover have "padded m (s @ t @ [0]) = padded m (s @ t)"
    using assms by (simp add: padded_def zeros_split)
  ultimately show ?thesis using assms by (simp add: strlcat_def)
qed

section \<open>The parsers\<close>

definition printString :: "bytes \<Rightarrow> bytes \<Rightarrow> actionArgument_t \<Rightarrow> actionArgument_t result" where
  "printString in_text fieldName arg =
     andThen (arg_with_label fieldName arg)
       (\<lambda>arg. andThen (mem_write (data arg) 0 in_text) (\<lambda>d. Inr (arg\<lparr>data := d\<rparr>)))"

text \<open>
  The parsers take the array and the position that \<open>in\<close> points to; the result holds the
  argument and the values stored to \<open>*read\<close> and \<open>*written\<close>.
\<close>

type_synonym parser =
  "bytes \<Rightarrow> nat \<Rightarrow> u32 \<Rightarrow> bytes \<Rightarrow> actionArgument_t \<Rightarrow> (actionArgument_t \<times> nat \<times> nat) result"

definition parseNameField :: parser where
  "parseNameField mem off inLength fieldName arg =
     andThen (LEDGER_ASSERT (inLength \<ge> 8) ''parseActionData Insufficient buffer'') (\<lambda>_.
     andThen (LEDGER_ASSERT (length fieldName \<le> sizeof_label) ''parseActionData Label too long'') (\<lambda>_.
     andThen (arg_with_label fieldName arg) (\<lambda>arg.
     andThen (buffer_to_name_type mem off 8) (\<lambda>name.
     andThen (name_to_string name (data arg) 0 (of_nat (sizeof_data - 1))) (\<lambda>(writtenToBuff, d).
       Inr (arg\<lparr>data := d\<rparr>, sizeof_name, writtenToBuff))))))"

definition parsePublicKeyField :: "(bytes \<Rightarrow> bytes option) \<Rightarrow> parser" where
  "parsePublicKeyField ripemd160 mem off inLength fieldName arg =
     andThen (LEDGER_ASSERT (inLength \<ge> 33) ''parseActionData Insufficient buffer'') (\<lambda>_.
     andThen (LEDGER_ASSERT (length fieldName \<le> sizeof_label) ''parseActionData Label too long'') (\<lambda>_.
     andThen (arg_with_label fieldName arg) (\<lambda>arg.
     andThen (compressed_public_key_to_wif ripemd160 mem off 33 (data arg) (sizeof_data - 1))
       (\<lambda>(writtenToBuff, d). Inr (arg\<lparr>data := d\<rparr>, 33, writtenToBuff)))))"

definition parseUint16Field :: parser where
  "parseUint16Field mem off inLength fieldName arg =
     andThen (LEDGER_ASSERT (inLength \<ge> 2) ''parseActionData Insufficient buffer'') (\<lambda>_.
     andThen (LEDGER_ASSERT (length fieldName \<le> sizeof_label) ''parseActionData Label too long'') (\<lambda>_.
     andThen (arg_with_label fieldName arg) (\<lambda>arg.
     andThen (mem_read mem off 2) (\<lambda>bs.
       let v = le_word bs :: u16
       in andThen (snprintf (data arg) (sizeof_data - 1) (int_text (uint v))) (\<lambda>d.
          andThen (strlen d) (\<lambda>n. Inr (arg\<lparr>data := d\<rparr>, 2, n)))))))"

text \<open>\<open>%d\<close> reads its \<open>uint32_t\<close> argument as an \<open>int\<close>.\<close>

definition parseUint32Field :: parser where
  "parseUint32Field mem off inLength fieldName arg =
     andThen (LEDGER_ASSERT (inLength \<ge> 4) ''parseActionData Insufficient buffer'') (\<lambda>_.
     andThen (LEDGER_ASSERT (length fieldName \<le> sizeof_label) ''parseActionData Label too long'') (\<lambda>_.
     andThen (arg_with_label fieldName arg) (\<lambda>arg.
     andThen (mem_read mem off 4) (\<lambda>bs.
       let v = le_word bs :: u32
       in andThen (snprintf (data arg) (sizeof_data - 1) (int_text (sint v))) (\<lambda>d.
          andThen (strlen d) (\<lambda>n. Inr (arg\<lparr>data := d\<rparr>, 4, n)))))))"

definition parseUInt64Field :: parser where
  "parseUInt64Field mem off inLength fieldName arg =
     andThen (LEDGER_ASSERT (inLength \<ge> 8) ''parseActionData Insufficient buffer'') (\<lambda>_.
     andThen (LEDGER_ASSERT (length fieldName \<le> sizeof_label) ''parseActionData Label too long'') (\<lambda>_.
     andThen (arg_with_label fieldName arg) (\<lambda>arg.
     andThen (mem_read mem off 8) (\<lambda>bs.
     andThen (ui64toa (le_word bs) (data arg)) (\<lambda>d.
     andThen (strlen d) (\<lambda>n. Inr (arg\<lparr>data := d\<rparr>, 8, n)))))))"

definition asset_of_bytes :: "bytes \<Rightarrow> asset_t" where
  "asset_of_bytes bs = \<lparr>amount = le_word (take 8 bs), symbol = le_word (drop 8 bs)\<rparr>"

definition parseAssetField :: parser where
  "parseAssetField mem off inLength fieldName arg =
     andThen (LEDGER_ASSERT (inLength \<ge> 16) ''parseActionData Insufficient buffer'') (\<lambda>_.
     andThen (LEDGER_ASSERT (length fieldName \<le> sizeof_label) ''parseActionData Label too long'') (\<lambda>_.
     andThen (arg_with_label fieldName arg) (\<lambda>arg.
     andThen (mem_read mem off sizeof_asset) (\<lambda>bs.
     andThen (asset_to_string (asset_of_bytes bs) (data arg))
       (\<lambda>(writtenToBuff, d). Inr (arg\<lparr>data := d\<rparr>, sizeof_asset, writtenToBuff))))))"

definition parseStringField :: parser where
  "parseStringField mem off inLength fieldName arg =
     andThen (LEDGER_ASSERT (length fieldName \<le> sizeof_label) ''parseActionData Label too long'') (\<lambda>_.
     andThen (arg_with_label fieldName arg) (\<lambda>arg.
     andThen (unpack_variant32 mem off inLength) (\<lambda>(readFromBuffer, fieldLength).
     andThen (LEDGER_ASSERT (fieldLength \<le> of_nat (sizeof_data - 1)) ''parseActionData Insufficient buffer'') (\<lambda>_.
     andThen (LEDGER_ASSERT (inLength \<ge> fieldLength) ''parseActionData Insufficient buffer'') (\<lambda>_.
     andThen (mem_read mem (off + readFromBuffer) (unat fieldLength)) (\<lambda>bs.
     andThen (mem_write (data arg) 0 bs) (\<lambda>d.
       Inr (arg\<lparr>data := d\<rparr>, readFromBuffer + unat fieldLength, unat fieldLength))))))))"

definition parsePermissionField :: parser where
  "parsePermissionField mem off inLength fieldName arg =
     andThen (parseNameField mem off inLength fieldName arg) (\<lambda>(arg, read, accountWrittenLength).
     andThen (strlcat (data arg) (cstr ''@'') sizeof_data) (\<lambda>d.
     let off = off + read;
         inLength = inLength - of_nat read
     in andThen (LEDGER_ASSERT (inLength \<ge> 8) ''parseActionData Insufficient buffer'') (\<lambda>_.
        andThen (buffer_to_name_type mem off 8) (\<lambda>name.
        andThen (name_to_string name d (accountWrittenLength + 1)
                   (of_nat (sizeof_data - accountWrittenLength - 1)))
          (\<lambda>(written, d). Inr (arg\<lparr>data := d\<rparr>, read + sizeof_name, written + accountWrittenLength))))))"

section \<open>The contract of a fixed-width field parser\<close>

text \<open>
  The promise of every parser of a field of \<open>width\<close> bytes: it stops when the declared length is
  too short; otherwise the argument that it leaves has the label and the value that \<open>render\<close> finds
  in those bytes, whatever the argument held before, and the read count is the width.
\<close>

type_synonym render = "bytes \<Rightarrow> (nat \<times> bytes) result"

locale field_parser =
  fixes parse :: parser and width :: nat and render :: render
  assumes too_short: "unat inLength < width \<Longrightarrow> length fieldName \<le> 32 \<Longrightarrow> off + width \<le> length mem \<Longrightarrow>
      parse mem off inLength fieldName arg = Inl (Assertion ''parseActionData Insufficient buffer'')"
    and parses: "width \<le> unat inLength \<Longrightarrow> length fieldName \<le> 32 \<Longrightarrow> off + width \<le> length mem \<Longrightarrow>
      parse mem off inLength fieldName arg =
        andThen (render (take width (drop off mem)))
          (\<lambda>(written, d). Inr (\<lparr>label = padded 32 fieldName, data = d\<rparr>, width, written))"
begin

text \<open>Nothing of the previous argument stays on the screen.\<close>

lemma arg_irrelevant:
  assumes "length fieldName \<le> 32" and "off + width \<le> length mem"
  shows "parse mem off inLength fieldName arg = parse mem off inLength fieldName arg'"
  using assms by (cases "unat inLength < width") (simp_all add: too_short parses)

text \<open>Only the bytes of the field matter.\<close>

lemma reads_only_field:
  assumes "length fieldName \<le> 32" and "off + width \<le> length mem" and "off' + width \<le> length mem'"
    and "take width (drop off mem) = take width (drop off' mem')"
  shows "parse mem off inLength fieldName arg = parse mem' off' inLength fieldName arg"
  using assms by (cases "unat inLength < width") (simp_all add: too_short parses)

lemma returns_width:
  assumes "parse mem off inLength fieldName arg = Inr (arg', read, written)"
    and "length fieldName \<le> 32" and "off + width \<le> length mem"
  shows "read = width \<and> width \<le> unat inLength \<and> label arg' = padded 32 fieldName"
proof (cases "unat inLength < width")
  case True
  with assms show ?thesis by (simp add: too_short)
next
  case False
  with assms show ?thesis by (auto simp: parses res_simps)
qed

lemma stops_cleanly_parse:
  assumes "length fieldName \<le> 32" and "off + width \<le> length mem"
    and "stops_cleanly (render (take width (drop off mem)))"
  shows "stops_cleanly (parse mem off inLength fieldName arg)"
proof (cases "unat inLength < width")
  case True
  with assms show ?thesis by (simp add: too_short)
next
  case False
  with assms show ?thesis by (auto simp: parses intro!: stops_cleanly_andThen)
qed

end

text \<open>
  A parser whose values have a text: the text is on the screen, terminated, for every field
  whose bytes satisfy \<open>ok\<close>.
\<close>

locale text_field = field_parser parse width render
  for parse :: parser and width :: nat and render :: render +
  fixes ok :: "bytes \<Rightarrow> bool" and field_text :: "bytes \<Rightarrow> bytes"
  assumes render_text: "length bs = width \<Longrightarrow> ok bs \<Longrightarrow>
      \<exists>written. render bs = Inr (written, padded 128 (field_text bs))"
    and text_fits: "length bs = width \<Longrightarrow> ok bs \<Longrightarrow> length (field_text bs) < 128"
    and text_printable: "length bs = width \<Longrightarrow> ok bs \<Longrightarrow> 0 \<notin> set (field_text bs)"
begin

lemma on_screen:
  assumes "width \<le> unat inLength" and "length fieldName \<le> 32" and "off + width \<le> length mem"
    and "ok (take width (drop off mem))"
  shows "\<exists>written. parse mem off inLength fieldName arg =
    Inr (shown fieldName (field_text (take width (drop off mem))), width, written)"
proof -
  have "length (take width (drop off mem)) = width" using assms(3) by simp
  then obtain w where "render (take width (drop off mem))
      = Inr (w, padded 128 (field_text (take width (drop off mem))))"
    using render_text assms(4) by blast
  with assms show ?thesis by (simp add: parses shown_def)
qed

lemma screen_text:
  assumes "width \<le> unat inLength" and "length fieldName \<le> 32" and "off + width \<le> length mem"
    and "ok (take width (drop off mem))"
    and "parse mem off inLength fieldName arg = Inr (arg', read, written)"
  shows "c_string (data arg') = field_text (take width (drop off mem))"
proof -
  have "length (take width (drop off mem)) = width" using assms(3) by simp
  then have "c_string (padded 128 (field_text (take width (drop off mem))))
      = field_text (take width (drop off mem))"
    using text_fits text_printable assms(4) by (intro c_string_padded) blast+
  moreover obtain w where "parse mem off inLength fieldName arg =
      Inr (shown fieldName (field_text (take width (drop off mem))), width, w)"
    using on_screen assms(1-4) by blast
  ultimately show ?thesis using assms(5) by (simp add: shown_def)
qed

end

section \<open>The parsers of the file keep the contract\<close>

definition render_name :: render where
  "render_name bs = Inr (length (name_text (le_word bs)), padded 128 (name_text (le_word bs)))"

definition render_key :: "(bytes \<Rightarrow> bytes option) \<Rightarrow> render" where
  "render_key ripemd160 bs = compressed_public_key_to_wif ripemd160 bs 0 33 (zeros 128) 127"

definition render_int :: "int \<Rightarrow> render" where
  "render_int v bs = Inr (length (int_text v), padded 128 (int_text v))"

definition render_asset :: render where
  "render_asset bs = asset_to_string (asset_of_bytes bs) (zeros 128)"

definition permission_text :: "bytes \<Rightarrow> bytes" where
  "permission_text bs = name_text (le_word (take 8 bs)) @ cstr ''@'' @ name_text (le_word (drop 8 bs))"

definition render_permission :: render where
  "render_permission bs = Inr (length (permission_text bs) - 1, padded 128 (permission_text bs))"

lemma name_to_string_zeros:
  "name_to_string v (zeros 128) 0 127 = Inr (length (name_text v), padded 128 (name_text v))"
  by (simp add: name_to_string_eq padded_def)

interpretation name_field: field_parser parseNameField 8 render_name
proof
  fix inLength :: u32 and fieldName mem :: bytes and off :: nat and arg
  assume "unat inLength < 8" "length fieldName \<le> 32" "off + 8 \<le> length mem"
  then have "\<not> 8 \<le> inLength" by (simp add: word_le_nat_alt)
  then show "parseNameField mem off inLength fieldName arg
      = Inl (Assertion ''parseActionData Insufficient buffer'')"
    by (simp add: parseNameField_def)
next
  fix inLength :: u32 and fieldName mem :: bytes and off :: nat and arg
  assume "8 \<le> unat inLength" and *: "length fieldName \<le> 32" "off + 8 \<le> length mem"
  then have "8 \<le> inLength" by (simp add: word_le_nat_alt)
  with * show "parseNameField mem off inLength fieldName arg =
        andThen (render_name (take 8 (drop off mem)))
          (\<lambda>(written, d). Inr (\<lparr>label = padded 32 fieldName, data = d\<rparr>, 8, written))"
    by (simp add: parseNameField_def arg_with_label_eq buffer_to_name_type_def mem_read_def
        name_to_string_zeros render_name_def)
qed

lemma u32_short: "unat (n :: u32) < k \<Longrightarrow> k < 2 ^ 32 \<Longrightarrow> \<not> of_nat k \<le> n"
  and u32_long: "k \<le> unat (n :: u32) \<Longrightarrow> k < 2 ^ 32 \<Longrightarrow> of_nat k \<le> n"
  by (simp_all add: word_le_nat_alt unat_of_nat take_bit_nat_eq_self)

interpretation key_field: field_parser "parsePublicKeyField ripemd160" 33 "render_key ripemd160"
proof
  fix inLength :: u32 and fieldName mem :: bytes and off :: nat and arg
  assume "unat inLength < 33" "length fieldName \<le> 32" "off + 33 \<le> length mem"
  then show "parsePublicKeyField ripemd160 mem off inLength fieldName arg
      = Inl (Assertion ''parseActionData Insufficient buffer'')"
    using u32_short [of inLength 33] by (simp add: parsePublicKeyField_def)
next
  fix inLength :: u32 and fieldName mem :: bytes and off :: nat and arg
  assume "33 \<le> unat inLength" and *: "length fieldName \<le> 32" "off + 33 \<le> length mem"
  moreover have "compressed_public_key_to_wif ripemd160 mem off 33 (zeros 128) 127
      = compressed_public_key_to_wif ripemd160 (take 33 (drop off mem)) 0 33 (zeros 128) 127"
    using * by (simp add: compressed_public_key_to_wif_def mem_read_def)
  ultimately show "parsePublicKeyField ripemd160 mem off inLength fieldName arg =
        andThen (render_key ripemd160 (take 33 (drop off mem)))
          (\<lambda>(written, d). Inr (\<lparr>label = padded 32 fieldName, data = d\<rparr>, 33, written))"
    using u32_long [of 33 inLength]
    by (simp add: parsePublicKeyField_def arg_with_label_eq render_key_def)
qed

lemma length_int_text_nat: "n < 10 ^ 20 \<Longrightarrow> length (int_text (int n)) \<le> 20"
  using length_dec_string [of n 20] by (simp add: int_text_def)

lemma int_text_printable: "0 \<notin> set (int_text v)"
  by (simp add: int_text_def dec_string_printable cstr_def)

lemma length_int_text:
  assumes "\<bar>v\<bar> < 10 ^ 10"
  shows "length (int_text v) \<le> 11"
proof (cases "v < 0")
  case True
  with assms have "length (dec_string (nat (- v))) \<le> 10" by (intro length_dec_string) auto
  with True show ?thesis by (simp add: int_text_def)
next
  case False
  with assms have "length (dec_string (nat v)) \<le> 10" by (intro length_dec_string) auto
  with False show ?thesis by (simp add: int_text_def)
qed

lemma snprintf_int:
  assumes "\<bar>v\<bar> < 10 ^ 10"
  shows "snprintf (zeros 128) 127 (int_text v) = Inr (padded 128 (int_text v))"
    and "strlen (padded 128 (int_text v)) = Inr (length (int_text v))"
  using length_int_text [OF assms]
  by (simp_all add: snprintf_zeros strlen_padded int_text_printable)

lemma u16_bound: "\<bar>uint (w :: u16)\<bar> < 10 ^ 10"
  using uint_lt2p [of w] by simp

lemma u32_bound: "\<bar>sint (w :: u32)\<bar> < 10 ^ 10"
  using sint_greater_eq [of w] sint_less [of w] by simp

interpretation uint16_field:
  field_parser parseUint16Field 2 "\<lambda>bs. render_int (uint (le_word bs :: u16)) bs"
proof
  fix inLength :: u32 and fieldName mem :: bytes and off :: nat and arg
  assume "unat inLength < 2" "length fieldName \<le> 32" "off + 2 \<le> length mem"
  then show "parseUint16Field mem off inLength fieldName arg
      = Inl (Assertion ''parseActionData Insufficient buffer'')"
    using u32_short [of inLength 2] by (simp add: parseUint16Field_def)
next
  fix inLength :: u32 and fieldName mem :: bytes and off :: nat and arg
  assume "2 \<le> unat inLength" "length fieldName \<le> 32" "off + 2 \<le> length mem"
  then show "parseUint16Field mem off inLength fieldName arg =
        andThen (render_int (uint (le_word (take 2 (drop off mem)) :: u16)) (take 2 (drop off mem)))
          (\<lambda>(written, d). Inr (\<lparr>label = padded 32 fieldName, data = d\<rparr>, 2, written))"
    using u32_long [of 2 inLength]
    by (simp add: parseUint16Field_def arg_with_label_eq mem_read_def Let_def render_int_def
        snprintf_int [OF u16_bound] del: One_nat_def)
qed

interpretation uint32_field:
  field_parser parseUint32Field 4 "\<lambda>bs. render_int (sint (le_word bs :: u32)) bs"
proof
  fix inLength :: u32 and fieldName mem :: bytes and off :: nat and arg
  assume "unat inLength < 4" "length fieldName \<le> 32" "off + 4 \<le> length mem"
  then show "parseUint32Field mem off inLength fieldName arg
      = Inl (Assertion ''parseActionData Insufficient buffer'')"
    using u32_short [of inLength 4] by (simp add: parseUint32Field_def)
next
  fix inLength :: u32 and fieldName mem :: bytes and off :: nat and arg
  assume "4 \<le> unat inLength" "length fieldName \<le> 32" "off + 4 \<le> length mem"
  then show "parseUint32Field mem off inLength fieldName arg =
        andThen (render_int (sint (le_word (take 4 (drop off mem)) :: u32)) (take 4 (drop off mem)))
          (\<lambda>(written, d). Inr (\<lparr>label = padded 32 fieldName, data = d\<rparr>, 4, written))"
    using u32_long [of 4 inLength]
    by (simp add: parseUint32Field_def arg_with_label_eq mem_read_def Let_def render_int_def
        snprintf_int [OF u32_bound])
qed

lemma ui64toa_zeros:
  "ui64toa v (zeros 128) = Inr (padded 128 (dec_string (unat v)))"
proof -
  have "length (dec_string (unat v)) \<le> 20" by (rule length_dec_string_u64)
  then show ?thesis by (simp add: ui64toa_eq padded_def zeros_split)
qed

lemma strlen_u64:
  "strlen (padded 128 (dec_string (unat (v :: u64)))) = Inr (length (dec_string (unat v)))"
  using length_dec_string_u64 [of v] by (intro strlen_padded) (simp_all add: dec_string_printable)

lemma int_text_uint: "int_text (uint v) = dec_string (unat v)"
  by (simp add: int_text_def)

interpretation uint64_field:
  field_parser parseUInt64Field 8 "\<lambda>bs. render_int (uint (le_word bs :: u64)) bs"
proof
  fix inLength :: u32 and fieldName mem :: bytes and off :: nat and arg
  assume "unat inLength < 8" "length fieldName \<le> 32" "off + 8 \<le> length mem"
  then show "parseUInt64Field mem off inLength fieldName arg
      = Inl (Assertion ''parseActionData Insufficient buffer'')"
    using u32_short [of inLength 8] by (simp add: parseUInt64Field_def)
next
  fix inLength :: u32 and fieldName mem :: bytes and off :: nat and arg
  assume "8 \<le> unat inLength" "length fieldName \<le> 32" "off + 8 \<le> length mem"
  then show "parseUInt64Field mem off inLength fieldName arg =
        andThen (render_int (uint (le_word (take 8 (drop off mem)) :: u64)) (take 8 (drop off mem)))
          (\<lambda>(written, d). Inr (\<lparr>label = padded 32 fieldName, data = d\<rparr>, 8, written))"
    using u32_long [of 8 inLength]
    by (simp add: parseUInt64Field_def arg_with_label_eq mem_read_def Let_def render_int_def
        ui64toa_zeros strlen_u64 int_text_uint)
qed

interpretation asset_field: field_parser parseAssetField 16 render_asset
proof
  fix inLength :: u32 and fieldName mem :: bytes and off :: nat and arg
  assume "unat inLength < 16" "length fieldName \<le> 32" "off + 16 \<le> length mem"
  then show "parseAssetField mem off inLength fieldName arg
      = Inl (Assertion ''parseActionData Insufficient buffer'')"
    using u32_short [of inLength 16] by (simp add: parseAssetField_def)
next
  fix inLength :: u32 and fieldName mem :: bytes and off :: nat and arg
  assume "16 \<le> unat inLength" "length fieldName \<le> 32" "off + 16 \<le> length mem"
  then show "parseAssetField mem off inLength fieldName arg =
        andThen (render_asset (take 16 (drop off mem)))
          (\<lambda>(written, d). Inr (\<lparr>label = padded 32 fieldName, data = d\<rparr>, 16, written))"
    using u32_long [of 16 inLength]
    by (simp add: parseAssetField_def arg_with_label_eq mem_read_def render_asset_def)
qed

text \<open>The permission: a second name written behind the first one and the \<open>@\<close>.\<close>

lemma permission_strlcat:
  "strlcat (padded 128 (name_text a)) (cstr ''@'') 128 = Inr (padded 128 (name_text a @ cstr ''@''))"
  using length_name_text [of a] by (intro strlcat_padded) (simp_all add: name_text_printable)

lemma permission_name_to_string:
  assumes "k = length (name_text a) + 1"
  shows "name_to_string v (padded 128 (name_text a @ cstr ''@'')) k (of_nat (128 - (k - 1) - 1))
    = Inr (length (name_text v), padded 128 (name_text a @ cstr ''@'' @ name_text v))"
proof -
  have a: "length (name_text a) \<le> 13" and v: "length (name_text v) \<le> 13"
    by (rule length_name_text)+
  have "mem_write (padded 128 (name_text a @ cstr ''@'')) k (name_text v)
      = Inr (padded 128 ((name_text a @ cstr ''@'') @ name_text v))"
    using mem_write_padded [of "name_text a @ cstr ''@''" "name_text v" 128] a v assms by simp
  moreover have "(13 :: u32) \<le> of_nat (128 - (k - 1) - 1)"
  proof -
    have "unat (of_nat (128 - (k - 1) - 1) :: u32) = 128 - (k - 1) - 1"
      by (rule unat_of_nat_u32_small) simp
    moreover have "13 \<le> 128 - (k - 1) - 1" using a assms by simp
    ultimately show ?thesis by (simp only: word_le_nat_alt) simp
  qed
  moreover have "k + 13 \<le> length (padded 128 (name_text a @ cstr ''@''))"
    using a assms by (simp add: length_padded)
  ultimately show ?thesis
    using a assms by (auto simp: name_to_string_eq mem_write_def split: if_splits)
qed

lemma sub_8_le: "8 \<le> unat (n :: u32) \<Longrightarrow> 8 \<le> n - 8 \<longleftrightarrow> 16 \<le> unat n"
  by (auto simp: word_le_nat_alt unat_sub_if')

interpretation permission_field: field_parser parsePermissionField 16 render_permission
proof
  fix inLength :: u32 and fieldName mem :: bytes and off :: nat and arg
  assume *: "unat inLength < 16" "length fieldName \<le> 32" "off + 16 \<le> length mem"
  show "parsePermissionField mem off inLength fieldName arg
      = Inl (Assertion ''parseActionData Insufficient buffer'')"
  proof (cases "unat inLength < 8")
    case True
    with * show ?thesis by (simp add: parsePermissionField_def name_field.too_short)
  next
    case False
    then have "\<not> 8 \<le> inLength - 8" using * by (simp add: sub_8_le)
    with * False show ?thesis
      by (simp add: parsePermissionField_def name_field.parses render_name_def permission_strlcat
          Let_def)
  qed
next
  fix inLength :: u32 and fieldName mem :: bytes and off :: nat and arg
  assume *: "16 \<le> unat inLength" "length fieldName \<le> 32" "off + 16 \<le> length mem"
  let ?bs = "take 16 (drop off mem)"
  have "8 \<le> inLength - 8" using * by (simp add: sub_8_le)
  moreover have "take 8 (drop off mem) = take 8 ?bs"
    and "take 8 (drop (off + 8) mem) = drop 8 ?bs"
    by (simp_all add: drop_take add.commute)
  moreover have "of_nat (127 - length (name_text (le_word (take 8 ?bs))))
      = (of_nat (128 - (length (name_text (le_word (take 8 ?bs))) + 1 - 1) - 1) :: u32)"
    by simp
  ultimately show "parsePermissionField mem off inLength fieldName arg =
        andThen (render_permission ?bs)
          (\<lambda>(written, d). Inr (\<lparr>label = padded 32 fieldName, data = d\<rparr>, 16, written))"
    using * permission_name_to_string [of _ "le_word (take 8 ?bs)" "le_word (drop 8 ?bs)", OF refl]
    by (simp add: parsePermissionField_def name_field.parses render_name_def permission_strlcat
        buffer_to_name_type_def mem_read_def render_permission_def permission_text_def Let_def
        add.commute)
qed

section \<open>What the screen shows\<close>

text \<open>The names shown are never longer than 13 characters and a permission than 27.\<close>

lemma length_permission_text: "length (permission_text bs) \<le> 27"
  using length_name_text [of "le_word (take 8 bs)"] length_name_text [of "le_word (drop 8 bs)"]
  by (simp add: permission_text_def)

definition asset_ok :: "bytes \<Rightarrow> bool" where
  "asset_ok bs \<longleftrightarrow> unat (symbol_precision (symbol (asset_of_bytes bs))) \<le> 18
     \<and> 0 \<le> sint (amount (asset_of_bytes bs))"

definition asset_bytes_text :: "bytes \<Rightarrow> bytes" where
  "asset_bytes_text bs = (let a = asset_of_bytes bs in
     asset_text (unat (symbol_precision (symbol a))) (nat (sint (amount a))) (symbol_text (symbol a)))"

definition key_ok :: "(bytes \<Rightarrow> bytes option) \<Rightarrow> bytes \<Rightarrow> bool" where
  "key_ok ripemd160 bs \<longleftrightarrow> (case ripemd160 bs of None \<Rightarrow> False | Some check \<Rightarrow> 4 \<le> length check)"

definition key_text :: "(bytes \<Rightarrow> bytes option) \<Rightarrow> bytes \<Rightarrow> bytes" where
  "key_text ripemd160 bs = (case ripemd160 bs of None \<Rightarrow> [] | Some check \<Rightarrow> wif_text bs check)"

lemma length_asset_text:
  assumes "p \<le> 18" and "n < 10 ^ 19"
  shows "length (asset_text p n (symbol_text sy)) \<le> 46"
proof -
  have "n div 10 ^ p < 10 ^ 19" using div_le_dividend assms(2) by (rule le_less_trans)
  then have "length (dec_string (n div 10 ^ p)) \<le> 19" by (intro length_dec_string) simp_all
  with assms show ?thesis using length_symbol_text [of sy] by (simp add: asset_text_def)
qed

lemma asset_text_printable: "0 \<notin> set (asset_text p n (symbol_text sy))"
  by (simp add: asset_text_def dec_string_printable fraction_text_printable symbol_text_printable
      cstr_def)

lemma amount_bound: "nat (sint (w :: u64)) < 10 ^ 19"
  using sint_less [of w] by simp

lemma wif_text_printable: "0 \<notin> set (wif_text key check)"
  using b58.printable_text b58_numeral_less
  by (auto simp: wif_text_def b58_string_def cstr_def)

interpretation name_screen:
  text_field parseNameField 8 render_name "\<lambda>_. True" "\<lambda>bs. name_text (le_word bs)"
proof
  fix bs :: bytes
  have "length (name_text (le_word bs)) \<le> 13" by (rule length_name_text)
  then show "length (name_text (le_word bs)) < 128" by simp
qed (simp_all add: render_name_def name_text_printable)

interpretation permission_screen:
  text_field parsePermissionField 16 render_permission "\<lambda>_. True" permission_text
proof
  fix bs :: bytes
  have "length (permission_text bs) \<le> 27" by (rule length_permission_text)
  then show "length (permission_text bs) < 128" by simp
qed (simp_all add: render_permission_def permission_text_def name_text_printable cstr_def)

interpretation uint16_screen: text_field parseUint16Field 2
  "\<lambda>bs. render_int (uint (le_word bs :: u16)) bs" "\<lambda>_. True" "\<lambda>bs. int_text (uint (le_word bs :: u16))"
proof
  fix bs :: bytes
  show "length (int_text (uint (le_word bs :: u16))) < 128"
    using length_int_text [OF u16_bound, of "le_word bs"] by simp
qed (simp_all add: render_int_def int_text_printable)

interpretation uint32_screen: text_field parseUint32Field 4
  "\<lambda>bs. render_int (sint (le_word bs :: u32)) bs" "\<lambda>_. True" "\<lambda>bs. int_text (sint (le_word bs :: u32))"
proof
  fix bs :: bytes
  show "length (int_text (sint (le_word bs :: u32))) < 128"
    using length_int_text [OF u32_bound, of "le_word bs"] by simp
qed (simp_all add: render_int_def int_text_printable)

interpretation uint64_screen: text_field parseUInt64Field 8
  "\<lambda>bs. render_int (uint (le_word bs :: u64)) bs" "\<lambda>_. True" "\<lambda>bs. int_text (uint (le_word bs :: u64))"
proof
  fix bs :: bytes
  show "length (int_text (uint (le_word bs :: u64))) < 128"
    using length_dec_string_u64 [of "le_word bs"] by (simp add: int_text_uint)
qed (simp_all add: render_int_def int_text_printable)

interpretation asset_screen: text_field parseAssetField 16 render_asset asset_ok asset_bytes_text
proof
  fix bs :: bytes
  assume ok: "asset_ok bs"
  let ?a = "asset_of_bytes bs"
  let ?p = "unat (symbol_precision (symbol ?a))" and ?n = "nat (sint (amount ?a))"
  have len: "length (asset_text ?p ?n (symbol_text (symbol ?a))) \<le> 46"
    using ok amount_bound by (intro length_asset_text) (simp_all add: asset_ok_def)
  then show "length (asset_bytes_text bs) < 128" by (simp add: asset_bytes_text_def Let_def)
  show "\<exists>written. render_asset bs = Inr (written, padded 128 (asset_bytes_text bs))"
    using asset_to_string_eq [of ?p ?a ?n "zeros 128"] ok len
    by (simp add: render_asset_def asset_ok_def asset_bytes_text_def Let_def padded_def)
qed (simp add: asset_bytes_text_def Let_def asset_text_printable)

interpretation key_screen: text_field "parsePublicKeyField ripemd160" 33 "render_key ripemd160"
  "key_ok ripemd160" "key_text ripemd160"
proof
  fix bs :: bytes
  assume len: "length bs = 33" and ok: "key_ok ripemd160 bs"
  then obtain c where c: "ripemd160 bs = Some c" "4 \<le> length c"
    by (auto simp: key_ok_def split: option.splits)
  have l: "length (wif_text bs c) \<le> 55" using len c by (intro length_wif_text)
  then show "length (key_text ripemd160 bs) < 128" by (simp add: key_text_def c)
  have "padded 127 (wif_text bs c) @ drop 127 (zeros 128) = padded 128 (wif_text bs c)"
    using l zeros_split [of "length (wif_text bs c)" 128]
    by (simp add: padded_def zeros_def replicate_append_same)
  then show "\<exists>written. render_key ripemd160 bs = Inr (written, padded 128 (key_text ripemd160 bs))"
    using compressed_public_key_to_wif_eq [of 0 bs bs 33 ripemd160 c 127 "zeros 128"] len c
    by (simp add: render_key_def key_text_def)
next
  fix bs :: bytes
  show "0 \<notin> set (key_text ripemd160 bs)"
    by (simp add: key_text_def wif_text_printable split: option.splits)
qed

text \<open>A string field: its length as a variable-length integer, then its bytes.\<close>

lemma parseStringField_eq:
  assumes s: "length s \<le> 127" and m: "drop off mem = leb_bytes (length s) @ s @ rest"
    and len: "length (leb_bytes (length s)) + length s \<le> unat inLength"
    and mem: "off + unat inLength \<le> length mem" and f: "length fieldName \<le> 32"
  shows "parseStringField mem off inLength fieldName arg =
    Inr (shown fieldName s, length (leb_bytes (length s)) + length s, length s)"
proof -
  let ?n = "length s"
  have nz: "0 < length (leb_bytes ?n)" by (simp add: leb_bytes.simps [of ?n])
  have le: "off + min 5 (max 1 (unat inLength)) \<le> length mem"
    using nz len mem by linarith
  have u: "unat (word_of_nat ?n :: u32) = ?n" using s by (simp add: unat_of_nat_u32_small)
  have "unpack_variant32 mem off inLength = Inr (length (leb_bytes ?n), of_nat ?n)"
    using s m len le by (intro unpack_variant32_leb_bytes [where rest = "s @ rest"]) simp_all
  moreover have "(of_nat ?n :: u32) \<le> 127" and "(of_nat ?n :: u32) \<le> inLength"
    using s len by (simp_all add: word_le_nat_alt u)
  moreover have "drop (off + length (leb_bytes ?n)) mem = s @ rest"
    using m by (metis append_eq_conv_conj drop_drop add.commute)
  moreover have "mem_read mem (off + length (leb_bytes ?n)) ?n = Inr s"
    using calculation(4) len mem by (simp add: mem_read_def)
  ultimately show ?thesis
    using s f by (simp add: parseStringField_def arg_with_label_eq shown_def mem_write_zeros u)
qed

end
