(* ===== verification/Eos_Actions.thy ===== *)
theory Eos_Actions
  imports Eos_Parse
begin

text \<open>
  \<^verbatim>\<open>src/eos_parse_token.c\<close>, \<^verbatim>\<open>src/eos_parse_eosio.c\<close> and \<^verbatim>\<open>src/eos_parse_unknown.c\<close>: one
  function per contract action, which renders argument number \<open>argNum\<close> of the action data.
  Each function takes the array and the position that \<open>buffer\<close> points to, the length still
  unread as the \<open>uint32_t\<close> it is (its subtractions wrap), and the argument to fill. A function that
  has no branch for \<open>argNum\<close> leaves the argument as it was.

  The second half is the specification: \<open>eos_action\<close> is an action as its author means it,
  \<open>action_bytes\<close> its serialisation and \<open>action_screens\<close> the labelled texts a user must
  see; the theorems show that the functions render exactly those.
\<close>

type_synonym action_parser =
  "bytes \<Rightarrow> nat \<Rightarrow> u32 \<Rightarrow> u8 \<Rightarrow> actionArgument_t \<Rightarrow> actionArgument_t result"

text \<open>The calls below drop \<open>read\<close> and \<open>written\<close>.\<close>

definition arg_of :: "(actionArgument_t \<times> nat \<times> nat) result \<Rightarrow> actionArgument_t result" where
  "arg_of r = andThen r (\<lambda>(arg, _). Inr arg)"

lemma arg_of_Inr [simp]: "arg_of (Inr (a, r)) = Inr a"
  and arg_of_Inl [simp]: "arg_of (Inl e) = Inl e"
  by (simp_all add: arg_of_def)

section \<open>Token transfer\<close>

definition parseTokenTransfer :: action_parser where
  "parseTokenTransfer mem buffer bufferLength argNum arg =
     (if argNum = 0 then arg_of (parseNameField mem buffer bufferLength (cstr ''From'') arg)
      else if argNum = 1 then
        arg_of (parseNameField mem (buffer + sizeof_name) (bufferLength - of_nat sizeof_name)
          (cstr ''To'') arg)
      else if argNum = 2 then
        arg_of (parseAssetField mem (buffer + 2 * sizeof_name) (bufferLength - of_nat (2 * sizeof_name))
          (cstr ''Quantity'') arg)
      else if argNum = 3 then
        arg_of (parseStringField mem (buffer + (2 * sizeof_name + sizeof_asset))
          (bufferLength - of_nat (2 * sizeof_name + sizeof_asset)) (cstr ''Memo'') arg)
      else Inr arg)"

section \<open>System contract\<close>

definition parseDelegate :: action_parser where
  "parseDelegate mem buffer bufferLength argNum arg =
     (if argNum = 0 then arg_of (parseNameField mem buffer bufferLength (cstr ''From'') arg)
      else if argNum = 1 then
        arg_of (parseNameField mem (buffer + sizeof_name) (bufferLength - of_nat sizeof_name)
          (cstr ''Receiver'') arg)
      else if argNum = 2 then
        arg_of (parseAssetField mem (buffer + 2 * sizeof_name) (bufferLength - of_nat (2 * sizeof_name))
          (cstr ''NET'') arg)
      else if argNum = 3 then
        arg_of (parseAssetField mem (buffer + (2 * sizeof_name + sizeof_asset))
          (bufferLength - of_nat (2 * sizeof_name + sizeof_asset)) (cstr ''CPU'') arg)
      else if argNum = 4 then printString (cstr ''Yes'') (cstr ''Transfer Stake'') arg
      else Inr arg)"

definition parseUndelegate :: action_parser where
  "parseUndelegate mem buffer bufferLength argNum arg =
     (if argNum = 0 then arg_of (parseNameField mem buffer bufferLength (cstr ''From'') arg)
      else if argNum = 1 then
        arg_of (parseNameField mem (buffer + sizeof_name) (bufferLength - of_nat sizeof_name)
          (cstr ''Receiver'') arg)
      else if argNum = 2 then
        arg_of (parseAssetField mem (buffer + 2 * sizeof_name) (bufferLength - of_nat (2 * sizeof_name))
          (cstr ''NET'') arg)
      else if argNum = 3 then
        arg_of (parseAssetField mem (buffer + (2 * sizeof_name + sizeof_asset))
          (bufferLength - of_nat (2 * sizeof_name + sizeof_asset)) (cstr ''CPU'') arg)
      else Inr arg)"

definition parseRefund :: action_parser where
  "parseRefund mem buffer bufferLength argNum arg =
     (if argNum = 0 then arg_of (parseNameField mem buffer bufferLength (cstr ''Account'') arg)
      else Inr arg)"

definition parseBuyRam :: action_parser where
  "parseBuyRam mem buffer bufferLength argNum arg =
     (if argNum = 0 then arg_of (parseNameField mem buffer bufferLength (cstr ''Buyer'') arg)
      else if argNum = 1 then
        arg_of (parseNameField mem (buffer + sizeof_name) (bufferLength - of_nat sizeof_name)
          (cstr ''Receiver'') arg)
      else if argNum = 2 then
        arg_of (parseAssetField mem (buffer + 2 * sizeof_name) (bufferLength - of_nat (2 * sizeof_name))
          (cstr ''Tokens'') arg)
      else Inr arg)"

definition parseBuyRamBytes :: action_parser where
  "parseBuyRamBytes mem buffer bufferLength argNum arg =
     (if argNum = 0 then arg_of (parseNameField mem buffer bufferLength (cstr ''Buyer'') arg)
      else if argNum = 1 then
        arg_of (parseNameField mem (buffer + sizeof_name) (bufferLength - of_nat sizeof_name)
          (cstr ''Receiver'') arg)
      else if argNum = 2 then
        arg_of (parseUint32Field mem (buffer + 2 * sizeof_name) (bufferLength - of_nat (2 * sizeof_name))
          (cstr ''Bytes'') arg)
      else Inr arg)"

definition parseSellRam :: action_parser where
  "parseSellRam mem buffer bufferLength argNum arg =
     (if argNum = 0 then arg_of (parseNameField mem buffer bufferLength (cstr ''Receiver'') arg)
      else if argNum = 1 then
        arg_of (parseUInt64Field mem (buffer + sizeof_name) (bufferLength - of_nat sizeof_name)
          (cstr ''Bytes'') arg)
      else Inr arg)"

text \<open>The label is cut to the 12 characters that fit the buffer.\<close>

definition parseVoteProducer :: action_parser where
  "parseVoteProducer mem buffer bufferLength argNum arg =
     (if argNum = 0 then arg_of (parseNameField mem buffer bufferLength (cstr ''Account'') arg)
      else
        let proxyBuffer = buffer + sizeof_name in
        andThen (mem_read mem proxyBuffer sizeof_name) (\<lambda>bs.
        let proxy = le_word bs :: u64 in
        if proxy \<noteq> 0 \<and> argNum = 1 then
          arg_of (parseNameField mem proxyBuffer (of_nat sizeof_name) (cstr ''Proxy'') arg)
        else
          let buffer = buffer + 2 * sizeof_name;
              bufferLength = bufferLength - of_nat (2 * sizeof_name)
          in andThen (unpack_variant32 mem buffer bufferLength) (\<lambda>(read, totalProducers).
             let buffer = buffer + read;
                 bufferLength = bufferLength - of_nat read;
                 producerIndex = ucast argNum - 1 :: u32;
                 buffer = buffer + unat (producerIndex * of_nat sizeof_name);
                 bufferLength = bufferLength - producerIndex * of_nat sizeof_name
             in andThen (snprintf (zeros 14) 13
                  (cstr ''Producer #'' @ int_text (uint argNum) @ cstr '' [''
                     @ int_text (sint totalProducers) @ cstr '']'')) (\<lambda>label.
                arg_of (parseNameField mem buffer bufferLength (c_string label) arg)))))"

text \<open>
  The three loops of \<open>parseUpdateAuth\<close>. Each returns the argument when it reaches
  \<open>argNum\<close>, or else the position and the length where the loop ends. The loop counters are
  eight-bit and the totals are not, so the loops are bounded by fuel; \<open>Eos_Loops\<close>
  shows that 256 rounds are enough.
\<close>

fun updateAuth_keys :: "(bytes \<Rightarrow> bytes option) \<Rightarrow> nat \<Rightarrow> u8 \<Rightarrow> u8 \<Rightarrow> u32 \<Rightarrow> bytes \<Rightarrow> nat \<Rightarrow> u32 \<Rightarrow> u8
    \<Rightarrow> actionArgument_t \<Rightarrow> (actionArgument_t + nat \<times> u32) result" where
  "updateAuth_keys ripemd160 0 i argIndex totalKeys mem keys keyBufferLength argNum arg = Inl OutOfFuel"
| "updateAuth_keys ripemd160 (Suc fuel) i argIndex totalKeys mem keys keyBufferLength argNum arg =
     (if \<not> ucast i < totalKeys then Inr (Inr (keys, keyBufferLength))
      else
        let keys = keys + 1;
            keyBufferLength = keyBufferLength - 1
        in if argIndex = argNum then
             andThen (snprintf (zeros 32) 32 (cstr ''Key #'' @ int_text (uint i + 1))) (\<lambda>label.
             andThen (arg_of (parsePublicKeyField ripemd160 mem keys keyBufferLength (c_string label) arg))
               (\<lambda>arg. Inr (Inl arg)))
           else
             let keys = keys + sizeof_public_key;
                 keyBufferLength = keyBufferLength - of_nat sizeof_public_key
             in if uint argIndex + 1 = uint argNum then
                  andThen (snprintf (zeros 32) 32 (cstr ''Key #'' @ int_text (uint i + 1) @ cstr '' Weight''))
                    (\<lambda>label.
                  andThen (arg_of (parseUint16Field mem keys keyBufferLength (c_string label) arg))
                    (\<lambda>arg. Inr (Inl arg)))
                else updateAuth_keys ripemd160 fuel (i + 1) (argIndex + 2) totalKeys mem
                       (keys + 2) (keyBufferLength - 2) argNum arg)"

fun updateAuth_accounts :: "nat \<Rightarrow> u8 \<Rightarrow> u8 \<Rightarrow> u32 \<Rightarrow> bytes \<Rightarrow> nat \<Rightarrow> u32 \<Rightarrow> u8
    \<Rightarrow> actionArgument_t \<Rightarrow> (actionArgument_t + nat \<times> u32) result" where
  "updateAuth_accounts 0 i argIndex totalAccounts mem accounts accountsBufferLen argNum arg = Inl OutOfFuel"
| "updateAuth_accounts (Suc fuel) i argIndex totalAccounts mem accounts accountsBufferLen argNum arg =
     (if \<not> ucast i < totalAccounts then Inr (Inr (accounts, accountsBufferLen))
      else if argIndex = argNum then
        andThen (snprintf (zeros 32) 32 (cstr ''Account #'' @ int_text (uint i + 1))) (\<lambda>label.
        andThen (arg_of (parsePermissionField mem accounts accountsBufferLen (c_string label) arg))
          (\<lambda>arg. Inr (Inl arg)))
      else
        let accounts = accounts + sizeof_permission_level;
            accountsBufferLen = accountsBufferLen - of_nat sizeof_permission_level
        in if uint argIndex + 1 = uint argNum then
             andThen (snprintf (zeros 32) 32 (cstr ''Account #'' @ int_text (uint i + 1) @ cstr '' Weight''))
               (\<lambda>label.
             andThen (arg_of (parseUint16Field mem accounts accountsBufferLen (c_string label) arg))
               (\<lambda>arg. Inr (Inl arg)))
           else updateAuth_accounts fuel (i + 1) (argIndex + 2) totalAccounts mem
                  (accounts + 2) (accountsBufferLen - 2) argNum arg)"

fun updateAuth_delays :: "nat \<Rightarrow> u8 \<Rightarrow> u8 \<Rightarrow> u32 \<Rightarrow> bytes \<Rightarrow> nat \<Rightarrow> u32 \<Rightarrow> u8
    \<Rightarrow> actionArgument_t \<Rightarrow> (actionArgument_t + nat \<times> u32) result" where
  "updateAuth_delays 0 i argIndex totalDelays mem delays delayBufferLen argNum arg = Inl OutOfFuel"
| "updateAuth_delays (Suc fuel) i argIndex totalDelays mem delays delayBufferLen argNum arg =
     (if \<not> ucast i < totalDelays then Inr (Inr (delays, delayBufferLen))
      else if argIndex = argNum then
        andThen (snprintf (zeros 32) 32 (cstr ''Delay #'' @ int_text (uint i + 1))) (\<lambda>label.
        andThen (arg_of (parseUint32Field mem delays delayBufferLen (c_string label) arg))
          (\<lambda>arg. Inr (Inl arg)))
      else
        let delays = delays + 4;
            delayBufferLen = delayBufferLen - 4
        in if uint argIndex + 1 = uint argNum then
             andThen (snprintf (zeros 32) 32 (cstr ''Delay #'' @ int_text (uint i + 1) @ cstr '' Weight''))
               (\<lambda>label.
             andThen (arg_of (parseUint16Field mem delays delayBufferLen (c_string label) arg))
               (\<lambda>arg. Inr (Inl arg)))
           else updateAuth_delays fuel (i + 1) (argIndex + 2) totalDelays mem
                  (delays + 2) (delayBufferLen - 2) argNum arg)"

text \<open>The three sections of \<open>parseUpdateAuth\<close>, from the last to the first.\<close>

definition updateAuth_delay_section :: "u32 \<Rightarrow> u32 \<Rightarrow> bytes \<Rightarrow> nat \<Rightarrow> u32 \<Rightarrow> u8
    \<Rightarrow> actionArgument_t \<Rightarrow> actionArgument_t result" where
  "updateAuth_delay_section totalKeys totalAccounts mem accounts accountsBufferLen argNum arg =
     (let accountStep = of_nat (sizeof_permission_level + 2) :: u32;
          delays = accounts + unat (accountStep * totalAccounts);
          delayBufferLen = accountsBufferLen - accountStep * totalAccounts
      in andThen (unpack_variant32 mem delays delayBufferLen) (\<lambda>(read, totalDelays).
         let delays = delays + read;
             delayBufferLen = delayBufferLen - of_nat read;
             delaysArgStart = 3 + totalKeys * 2 + totalAccounts * 2
         in if delaysArgStart < ucast argNum \<and> ucast argNum \<le> delaysArgStart + totalDelays * 2 then
              andThen (updateAuth_delays 256 0 (ucast (delaysArgStart + 1)) totalDelays mem
                         delays delayBufferLen argNum arg)
                (\<lambda>r. case r of Inl arg \<Rightarrow> Inr arg | Inr _ \<Rightarrow> Inr arg)
            else Inr arg))"

definition updateAuth_account_section :: "u32 \<Rightarrow> bytes \<Rightarrow> nat \<Rightarrow> u32 \<Rightarrow> u8
    \<Rightarrow> actionArgument_t \<Rightarrow> actionArgument_t result" where
  "updateAuth_account_section totalKeys mem keys keyBufferLength argNum arg =
     (let keyStep = of_nat (1 + sizeof_public_key + 2) :: u32;
          accounts = keys + unat (keyStep * totalKeys);
          accountsBufferLen = keyBufferLength - keyStep * totalKeys
      in andThen (unpack_variant32 mem accounts accountsBufferLen) (\<lambda>(read, totalAccounts).
         let accounts = accounts + read;
             accountsBufferLen = accountsBufferLen - of_nat read;
             accountsArgStart = 3 + totalKeys * 2
         in andThen
              (if accountsArgStart < ucast argNum \<and> ucast argNum \<le> accountsArgStart + totalAccounts * 2
               then updateAuth_accounts 256 0 (ucast (accountsArgStart + 1)) totalAccounts mem
                      accounts accountsBufferLen argNum arg
               else Inr (Inr (accounts, accountsBufferLen)))
              (\<lambda>r. case r of Inl arg \<Rightarrow> Inr arg
                 | Inr (accounts, accountsBufferLen) \<Rightarrow>
                     updateAuth_delay_section totalKeys totalAccounts mem accounts accountsBufferLen
                       argNum arg)))"

definition updateAuth_key_section :: "(bytes \<Rightarrow> bytes option) \<Rightarrow> bytes \<Rightarrow> nat \<Rightarrow> u32 \<Rightarrow> u8
    \<Rightarrow> actionArgument_t \<Rightarrow> actionArgument_t result" where
  "updateAuth_key_section ripemd160 mem keys keyBufferLength argNum arg =
     andThen (unpack_variant32 mem keys keyBufferLength) (\<lambda>(read, totalKeys).
       let keys = keys + read;
           keyBufferLength = keyBufferLength - of_nat read;
           keysArgStart = 3 :: u32
       in andThen
            (if keysArgStart < ucast argNum \<and> ucast argNum \<le> keysArgStart + totalKeys * 2
             then updateAuth_keys ripemd160 256 0 (ucast keysArgStart + 1) totalKeys mem
                    keys keyBufferLength argNum arg
             else Inr (Inr (keys, keyBufferLength)))
            (\<lambda>r. case r of Inl arg \<Rightarrow> Inr arg
               | Inr (keys, keyBufferLength) \<Rightarrow>
                   updateAuth_account_section totalKeys mem keys keyBufferLength argNum arg))"

definition parseUpdateAuth :: "(bytes \<Rightarrow> bytes option) \<Rightarrow> action_parser" where
  "parseUpdateAuth ripemd160 mem buffer bufferLength argNum arg =
     (if argNum = 0 then arg_of (parseNameField mem buffer bufferLength (cstr ''Account'') arg)
      else if argNum = 1 then
        arg_of (parseNameField mem (buffer + sizeof_name) (bufferLength - of_nat sizeof_name)
          (cstr ''Permission'') arg)
      else
        let parentBuffer = buffer + 2 * sizeof_name in
        andThen (mem_read mem parentBuffer sizeof_name) (\<lambda>bs.
        let parent = le_word bs :: u64 in
        if parent \<noteq> 0 \<and> argNum = 2 then
          arg_of (parseNameField mem parentBuffer (of_nat sizeof_name) (cstr ''Parent'') arg)
        else if argNum = 2 then
          arg_of (parseStringField (4 # cstr ''NULL'') 0 5 (cstr ''Parent'') arg)
        else if argNum = 3 then
          arg_of (parseUint32Field mem (buffer + 3 * sizeof_name) (bufferLength - of_nat (3 * sizeof_name))
            (cstr ''Threshold'') arg)
        else
          let prefixLength = 3 * sizeof_name + 4
          in updateAuth_key_section ripemd160 mem (buffer + prefixLength)
               (bufferLength - of_nat prefixLength) argNum arg))"

definition parseDeleteAuth :: action_parser where
  "parseDeleteAuth mem buffer bufferLength argNum arg =
     (if argNum = 0 then arg_of (parseNameField mem buffer bufferLength (cstr ''Account'') arg)
      else if argNum = 1 then
        arg_of (parseNameField mem (buffer + sizeof_name) (bufferLength - of_nat sizeof_name)
          (cstr ''Permission'') arg)
      else Inr arg)"

definition parseLinkAuth :: action_parser where
  "parseLinkAuth mem buffer bufferLength argNum arg =
     (if argNum = 0 then arg_of (parseNameField mem buffer bufferLength (cstr ''Account'') arg)
      else if argNum = 1 then
        arg_of (parseNameField mem (buffer + sizeof_name) (bufferLength - of_nat sizeof_name)
          (cstr ''Contract'') arg)
      else if argNum = 2 then
        arg_of (parseNameField mem (buffer + 2 * sizeof_name) (bufferLength - of_nat (2 * sizeof_name))
          (cstr ''Action'') arg)
      else if argNum = 3 then
        arg_of (parseNameField mem (buffer + 3 * sizeof_name) (bufferLength - of_nat (3 * sizeof_name))
          (cstr ''Permission'') arg)
      else Inr arg)"

definition parseUnlinkAuth :: action_parser where
  "parseUnlinkAuth mem buffer bufferLength argNum arg =
     (if argNum = 0 then arg_of (parseNameField mem buffer bufferLength (cstr ''Account'') arg)
      else if argNum = 1 then
        arg_of (parseNameField mem (buffer + sizeof_name) (bufferLength - of_nat sizeof_name)
          (cstr ''Contract'') arg)
      else if argNum = 2 then
        arg_of (parseNameField mem (buffer + 2 * sizeof_name) (bufferLength - of_nat (2 * sizeof_name))
          (cstr ''Action'') arg)
      else Inr arg)"

text \<open>
  The keys of the two authorities are found at fixed positions: each authority is a threshold, a
  key counter of one byte, the key type, the key, its weight and the two counters of accounts and
  delays.
\<close>

definition parseNewAccount :: "(bytes \<Rightarrow> bytes option) \<Rightarrow> action_parser" where
  "parseNewAccount ripemd160 mem buffer bufferLength argNum arg =
     (if argNum = 0 then arg_of (parseNameField mem buffer bufferLength (cstr ''Creator'') arg)
      else if argNum = 1 then
        arg_of (parseNameField mem (buffer + sizeof_name) (bufferLength - of_nat sizeof_name)
          (cstr ''Account'') arg)
      else
        let buffer = buffer + 2 * sizeof_name;
            bufferLength = bufferLength - of_nat (2 * sizeof_name);
            buffer = buffer + 4;
            bufferLength = bufferLength - 4;
            buffer = buffer + 2;
            bufferLength = bufferLength - 2
        in if argNum = 2 then
             arg_of (parsePublicKeyField ripemd160 mem buffer bufferLength (cstr ''Owner key'') arg)
           else
             let buffer = buffer + (sizeof_public_key + 2);
                 bufferLength = bufferLength - of_nat (sizeof_public_key + 2);
                 buffer = buffer + 2;
                 bufferLength = bufferLength - 2;
                 buffer = buffer + 4;
                 bufferLength = bufferLength - 4;
                 buffer = buffer + 2;
                 bufferLength = bufferLength - 2
             in if argNum = 3 then
                  arg_of (parsePublicKeyField ripemd160 mem buffer bufferLength (cstr ''Active key'') arg)
                else Inr arg)"

section \<open>Unknown actions\<close>

text \<open>The checksum buffer is the 32-byte \<open>dataChecksum\<close> of the context.\<close>

definition parseUnknownAction :: action_parser where
  "parseUnknownAction mem buffer bufferLength argNum arg =
     (if argNum = 0 then printString (cstr ''Arbitrary Data'') (cstr ''WARNING'') arg
      else if argNum = 1 then printString (cstr ''Verify checksum'') (cstr ''WARNING'') arg
      else if argNum = 2 then
        andThen (array_hexstr (zeros 65) (drop buffer mem) (unat bufferLength)) (\<lambda>checksum.
          printString (c_string checksum) (cstr ''Checksum'') arg)
      else Inr arg)"

section \<open>The fields of an action and what they show\<close>

lemma le_word_le_bytes:
  assumes "LENGTH('a::len) = 8 * n"
  shows "(le_word (le_bytes n (unat (v :: 'a word))) :: 'a word) = v"
proof -
  have "unat v < 2 ^ LENGTH('a)" by (rule unsigned_less)
  also have "(2 :: nat) ^ LENGTH('a) = 256 ^ n" using assms by (simp add: power_mult)
  finally show ?thesis by (simp add: le_word_def le_nat_le_bytes)
qed

abbreviation (input) u64_bytes :: "u64 \<Rightarrow> bytes" where "u64_bytes v \<equiv> le_bytes 8 (unat v)"
abbreviation (input) u32_bytes :: "u32 \<Rightarrow> bytes" where "u32_bytes v \<equiv> le_bytes 4 (unat v)"
abbreviation (input) u16_bytes :: "u16 \<Rightarrow> bytes" where "u16_bytes v \<equiv> le_bytes 2 (unat v)"

lemma le_word_bytes [simp]:
  "le_word (le_bytes 8 (unat (a :: u64))) = a"
  "le_word (le_bytes 4 (unat (b :: u32))) = b"
  "le_word (le_bytes 2 (unat (c :: u16))) = c"
  by (rule le_word_le_bytes; simp)+

text \<open>An amount of tokens: \<open>n\<close> units of the symbol \<open>sy\<close>.\<close>

definition asset_bytes :: "nat \<Rightarrow> u64 \<Rightarrow> bytes" where
  "asset_bytes n sy = le_bytes 8 n @ le_bytes 8 (unat sy)"

definition asset_fine :: "nat \<Rightarrow> u64 \<Rightarrow> bool" where
  "asset_fine n sy \<longleftrightarrow> n < 2 ^ 63 \<and> unat (symbol_precision sy) \<le> 18"

definition asset_shown :: "nat \<Rightarrow> u64 \<Rightarrow> bytes" where
  "asset_shown n sy = asset_text (unat (symbol_precision sy)) n (symbol_text sy)"

lemma length_asset_bytes [simp]: "length (asset_bytes n sy) = 16"
  by (simp add: asset_bytes_def)

lemma sint_of_nat_u64: "n < 2 ^ 63 \<Longrightarrow> sint (of_nat n :: u64) = int n"
  by (simp add: signed_of_nat signed_take_bit_int_eq_self)

lemma asset_of_asset_bytes:
  assumes "n < 2 ^ 63"
  shows "asset_of_bytes (asset_bytes n sy) = \<lparr>amount = of_nat n, symbol = sy\<rparr>"
proof -
  have "(le_word (le_bytes 8 n) :: u64) = of_nat n"
    using assms by (simp add: le_word_def le_nat_le_bytes)
  then show ?thesis by (simp add: asset_of_bytes_def asset_bytes_def)
qed

lemma asset_ok_asset_bytes:
  assumes "asset_fine n sy"
  shows "asset_ok (asset_bytes n sy)" and "asset_bytes_text (asset_bytes n sy) = asset_shown n sy"
  using assms
  by (simp_all add: asset_fine_def asset_ok_def asset_bytes_text_def asset_of_asset_bytes
      asset_shown_def sint_of_nat_u64)

text \<open>
  What each call of a field parser leaves, with the field's bytes in the array: the bundle
  \<open>field_shown\<close> carries the proofs of the actions.
\<close>

lemma name_shown:
  assumes "8 \<le> unat len" and "length f \<le> 32" and "off + 8 \<le> length mem"
  shows "arg_of (parseNameField mem off len f arg)
    = Inr (shown f (name_text (le_word (take 8 (drop off mem)))))"
  using name_screen.on_screen [where arg = arg, OF assms] by auto

lemma asset_shown:
  assumes "16 \<le> unat len" and "length f \<le> 32" and "off + 16 \<le> length mem"
    and "asset_ok (take 16 (drop off mem))"
  shows "arg_of (parseAssetField mem off len f arg)
    = Inr (shown f (asset_bytes_text (take 16 (drop off mem))))"
  using asset_screen.on_screen [where arg = arg, OF assms] by auto

lemma uint16_shown:
  assumes "2 \<le> unat len" and "length f \<le> 32" and "off + 2 \<le> length mem"
  shows "arg_of (parseUint16Field mem off len f arg)
    = Inr (shown f (int_text (uint (le_word (take 2 (drop off mem)) :: u16))))"
  using uint16_screen.on_screen [where arg = arg, OF assms] by auto

lemma uint32_shown:
  assumes "4 \<le> unat len" and "length f \<le> 32" and "off + 4 \<le> length mem"
  shows "arg_of (parseUint32Field mem off len f arg)
    = Inr (shown f (int_text (sint (le_word (take 4 (drop off mem)) :: u32))))"
  using uint32_screen.on_screen [where arg = arg, OF assms] by auto

lemma uint64_shown:
  assumes "8 \<le> unat len" and "length f \<le> 32" and "off + 8 \<le> length mem"
  shows "arg_of (parseUInt64Field mem off len f arg)
    = Inr (shown f (int_text (uint (le_word (take 8 (drop off mem)) :: u64))))"
  using uint64_screen.on_screen [where arg = arg, OF assms] by auto

lemma permission_shown:
  assumes "16 \<le> unat len" and "length f \<le> 32" and "off + 16 \<le> length mem"
  shows "arg_of (parsePermissionField mem off len f arg)
    = Inr (shown f (permission_text (take 16 (drop off mem))))"
  using permission_screen.on_screen [where arg = arg, OF assms] by auto

lemma key_shown:
  assumes "33 \<le> unat len" and "length f \<le> 32" and "off + 33 \<le> length mem"
    and "key_ok ripemd160 (take 33 (drop off mem))"
  shows "arg_of (parsePublicKeyField ripemd160 mem off len f arg)
    = Inr (shown f (key_text ripemd160 (take 33 (drop off mem))))"
  using key_screen.on_screen [where arg = arg, OF assms] by auto

lemma string_shown:
  assumes "length s \<le> 127" and "drop off mem = leb_bytes (length s) @ s @ rest"
    and "length (leb_bytes (length s)) + length s \<le> unat len"
    and "off + unat len \<le> length mem" and "length f \<le> 32"
  shows "arg_of (parseStringField mem off len f arg) = Inr (shown f s)"
  using parseStringField_eq [OF assms] by simp

lemma text_shown:
  "length f \<le> 32 \<Longrightarrow> length s \<le> 128 \<Longrightarrow> printString s f arg = Inr (shown f s)"
  by (simp add: printString_def arg_with_label_eq mem_write_zeros shown_def)

lemmas field_shown = name_shown asset_shown uint16_shown uint32_shown uint64_shown permission_shown
  key_shown text_shown

text \<open>An unsigned value below \<open>2 ^ 31\<close> keeps its value under \<open>%d\<close>; a larger one becomes negative.\<close>

lemma sint_small: "unat (v :: u32) < 2 ^ 31 \<Longrightarrow> sint v = uint v"
  and sint_large: "2 ^ 31 \<le> unat (v :: u32) \<Longrightarrow> sint v = uint v - 2 ^ 32"
proof -
  define x where "x = uint v"
  have s: "sint v = signed_take_bit 31 x" by (simp add: sint_uint x_def)
  have b: "0 \<le> x" "x < 2 ^ 32" using uint_lt2p [of v] by (simp_all add: x_def)
  have u: "unat v = nat x" by (simp add: x_def)
  show "unat v < 2 ^ 31 \<Longrightarrow> sint v = uint v"
    using b unfolding s u x_def [symmetric] by (intro signed_take_bit_int_eq_self) auto
  show "2 ^ 31 \<le> unat v \<Longrightarrow> sint v = uint v - 2 ^ 32"
  proof -
    assume "2 ^ 31 \<le> unat v"
    then have "2 ^ 31 \<le> x" using u by simp
    then have "signed_take_bit 31 x = signed_take_bit 31 (x - 2 ^ 32)"
      by (simp add: signed_take_bit_eq_iff_take_bit_eq take_bit_eq_mod)
    also have "\<dots> = x - 2 ^ 32"
      using \<open>2 ^ 31 \<le> x\<close> b by (intro signed_take_bit_int_eq_self) auto
    finally show ?thesis unfolding s x_def .
  qed
qed

section \<open>The loops of parseUpdateAuth\<close>

text \<open>
  The contract of a loop over entries of \<open>width\<close> bytes that own two arguments each: it shows
  \<open>first\<close> or \<open>second\<close> of the entry reached, skips the entry otherwise, and ends at the
  total.
\<close>

type_synonym entry_shower =
  "u8 \<Rightarrow> bytes \<Rightarrow> nat \<Rightarrow> u32 \<Rightarrow> actionArgument_t \<Rightarrow> actionArgument_t result"

locale argument_loop =
  fixes loop :: "nat \<Rightarrow> u8 \<Rightarrow> u8 \<Rightarrow> u32 \<Rightarrow> bytes \<Rightarrow> nat \<Rightarrow> u32 \<Rightarrow> u8 \<Rightarrow> actionArgument_t
      \<Rightarrow> (actionArgument_t + nat \<times> u32) result"
    and width :: nat and first second :: entry_shower
  assumes rounds: "loop (Suc fuel) i argIndex tot mem p len argNum arg =
      (if \<not> ucast i < tot then Inr (Inr (p, len))
       else if argIndex = argNum then andThen (first i mem p len arg) (\<lambda>a. Inr (Inl a))
       else if uint argIndex + 1 = uint argNum then andThen (second i mem p len arg) (\<lambda>a. Inr (Inl a))
       else loop fuel (i + 1) (argIndex + 2) tot mem (p + width) (len - of_nat width) argNum arg)"
begin

text \<open>The loop shows argument \<open>e\<close> of entry \<open>d\<close>, counted from where it stands.\<close>

lemma reaches:
  assumes "unat argNum = unat argIndex + 2 * d + e" and "e < 2" and "unat i + d < 256"
    and "unat i + d < unat tot" and "d < fuel"
  shows "loop fuel i argIndex tot mem p len argNum arg =
    andThen ((if e = 0 then first else second) (i + of_nat d) mem (p + d * width)
      (len - of_nat (d * width)) arg) (\<lambda>a. Inr (Inl a))"
  using assms
proof (induction d arbitrary: fuel i argIndex p len)
  case 0
  then obtain fuel' where f: "fuel = Suc fuel'" by (cases fuel) auto
  have i: "ucast i < tot" using 0 by (simp add: word_less_nat_alt)
  show ?case
  proof (cases "e = 0")
    case True
    then have "argIndex = argNum" using 0 by (intro u8_eqI) simp
    with True i f show ?thesis by (simp add: rounds)
  next
    case False
    then have "unat argNum = unat argIndex + 1" using 0 by simp
    then have "argIndex \<noteq> argNum" and "uint argIndex + 1 = uint argNum"
      by (auto simp: uint_nat simp del: of_nat_unat)
    with False i f show ?thesis by (simp add: rounds)
  qed
next
  case (Suc d)
  then obtain fuel' where f: "fuel = Suc fuel'" by (cases fuel) auto
  have i: "ucast i < tot" using Suc.prems by (simp add: word_less_nat_alt)
  have ne: "argIndex \<noteq> argNum" "uint argIndex + 1 \<noteq> uint argNum"
    using Suc.prems(1) by (auto simp: uint_nat simp del: of_nat_unat)
  have lt: "unat argNum < 256" by simp
  have a2: "unat (argIndex + 2) = unat argIndex + 2"
    using Suc.prems(1) lt by (simp add: unat_word_ariths)
  have i1: "unat (i + 1) = unat i + 1"
    using Suc.prems(3) by (simp add: unat_word_ariths)
  have "loop fuel i argIndex tot mem p len argNum arg
      = loop fuel' (i + 1) (argIndex + 2) tot mem (p + width) (len - of_nat width) argNum arg"
    using f i ne by (simp add: rounds)
  also have "\<dots> = andThen ((if e = 0 then first else second) (i + 1 + of_nat d) mem (p + width + d * width)
      (len - of_nat width - of_nat (d * width)) arg) (\<lambda>a. Inr (Inl a))"
    using Suc.prems f a2 i1 by (intro Suc.IH) simp_all
  finally show ?case by (simp add: algebra_simps)
qed

end

definition key_first :: "(bytes \<Rightarrow> bytes option) \<Rightarrow> entry_shower" where
  "key_first ripemd160 i mem p len arg =
     arg_of (parsePublicKeyField ripemd160 mem (p + 1) (len - 1) (cstr ''Key #'' @ int_text (uint i + 1)) arg)"

definition key_second :: entry_shower where
  "key_second i mem p len arg =
     arg_of (parseUint16Field mem (p + 34) (len - 34) (cstr ''Key #'' @ int_text (uint i + 1) @ cstr '' Weight'') arg)"

definition account_first :: entry_shower where
  "account_first i mem p len arg =
     arg_of (parsePermissionField mem p len (cstr ''Account #'' @ int_text (uint i + 1)) arg)"

definition account_second :: entry_shower where
  "account_second i mem p len arg =
     arg_of (parseUint16Field mem (p + 16) (len - 16) (cstr ''Account #'' @ int_text (uint i + 1) @ cstr '' Weight'') arg)"

definition delay_first :: entry_shower where
  "delay_first i mem p len arg =
     arg_of (parseUint32Field mem p len (cstr ''Delay #'' @ int_text (uint i + 1)) arg)"

definition delay_second :: entry_shower where
  "delay_second i mem p len arg =
     arg_of (parseUint16Field mem (p + 4) (len - 4) (cstr ''Delay #'' @ int_text (uint i + 1) @ cstr '' Weight'') arg)"

lemma length_index_text: "length (int_text (uint (i :: u8) + 1)) \<le> 3"
proof -
  have "uint i < 256" using uint_lt2p [of i] by simp
  then have "length (dec_string (nat (uint i + 1))) \<le> 3" by (intro length_dec_string) auto
  moreover have "\<not> uint i + 1 < 0" using uint_ge_0 [of i] by linarith
  ultimately show ?thesis by (simp add: int_text_def)
qed

lemma index_label:
  fixes i :: u8
  assumes "length pre < 20" and "0 \<notin> set pre"
  shows "snprintf (zeros 32) 32 (pre @ int_text (uint i + 1)) = Inr (padded 32 (pre @ int_text (uint i + 1)))"
    and "c_string (padded 32 (pre @ int_text (uint i + 1))) = pre @ int_text (uint i + 1)"
  using assms length_index_text [of i]
  by (simp_all add: snprintf_zeros c_string_padded int_text_printable)

lemma index_label_weight:
  fixes i :: u8
  assumes "length pre < 20" and "0 \<notin> set pre" and "length post < 8" and "0 \<notin> set post"
  shows "snprintf (zeros 32) 32 (pre @ int_text (uint i + 1) @ post)
      = Inr (padded 32 (pre @ int_text (uint i + 1) @ post))"
    and "c_string (padded 32 (pre @ int_text (uint i + 1) @ post)) = pre @ int_text (uint i + 1) @ post"
  using assms length_index_text [of i]
  by (simp_all add: snprintf_zeros c_string_padded int_text_printable)

lemma label_printable:
  "0 \<notin> set (cstr ''Key #'')" "0 \<notin> set (cstr ''Account #'')" "0 \<notin> set (cstr ''Delay #'')"
  "0 \<notin> set (cstr '' Weight'')" "0 \<notin> set (cstr ''Producer #'')" "0 \<notin> set (cstr '' ['')" "0 \<notin> set (cstr '']'')"
  by (simp_all add: cstr_def)

lemmas index_labels = index_label index_label_weight label_printable

interpretation keys_loop: argument_loop "updateAuth_keys ripemd160" 36 "key_first ripemd160" key_second
  by unfold_locales (simp add: index_labels Let_def key_first_def key_second_def diff_diff_eq add.commute [where 'a = nat])

interpretation accounts_loop: argument_loop updateAuth_accounts 18 account_first account_second
  by unfold_locales (simp add: index_labels Let_def account_first_def account_second_def diff_diff_eq add.commute [where 'a = nat])

interpretation delays_loop: argument_loop updateAuth_delays 6 delay_first delay_second
  by unfold_locales (simp add: index_labels Let_def delay_first_def delay_second_def diff_diff_eq add.commute [where 'a = nat])

section \<open>Actions as their author means them\<close>

text \<open>
  An authority: a threshold and the weighted keys, permissions and delays that count towards it.
\<close>

record authority =
  threshold :: u32
  auth_keys :: "(bytes \<times> u16) list"
  auth_accounts :: "(u64 \<times> u64 \<times> u16) list"
  auth_delays :: "(u32 \<times> u16) list"

type_synonym quantity = "nat \<times> u64"

datatype eos_action =
    Transfer u64 u64 quantity bytes
  | Delegate u64 u64 quantity quantity u8
  | Undelegate u64 u64 quantity quantity
  | Refund u64
  | BuyRam u64 u64 quantity
  | BuyRamBytes u64 u64 u32
  | SellRam u64 u64
  | VoteProducer u64 u64 "u64 list"
  | UpdateAuth u64 u64 u64 authority
  | DeleteAuth u64 u64
  | LinkAuth u64 u64 u64 u64
  | UnlinkAuth u64 u64 u64
  | NewAccount u64 u64 bytes bytes

text \<open>The serialisation that is signed.\<close>

definition quantity_bytes :: "quantity \<Rightarrow> bytes" where
  "quantity_bytes q = asset_bytes (fst q) (snd q)"

definition key_entry :: "bytes \<times> u16 \<Rightarrow> bytes" where
  "key_entry e = 0 # fst e @ u16_bytes (snd e)"

definition account_entry :: "u64 \<times> u64 \<times> u16 \<Rightarrow> bytes" where
  "account_entry e = u64_bytes (fst e) @ u64_bytes (fst (snd e)) @ u16_bytes (snd (snd e))"

definition delay_entry :: "u32 \<times> u16 \<Rightarrow> bytes" where
  "delay_entry e = u32_bytes (fst e) @ u16_bytes (snd e)"

definition list_bytes :: "('a \<Rightarrow> bytes) \<Rightarrow> 'a list \<Rightarrow> bytes" where
  "list_bytes f xs = leb_bytes (length xs) @ concat (map f xs)"

definition authority_lists_bytes :: "authority \<Rightarrow> bytes" where
  "authority_lists_bytes a = list_bytes key_entry (auth_keys a)
     @ list_bytes account_entry (auth_accounts a) @ list_bytes delay_entry (auth_delays a)"

definition one_key :: "bytes \<Rightarrow> authority" where
  "one_key k = \<lparr>threshold = 1, auth_keys = [(k, 1)], auth_accounts = [], auth_delays = []\<rparr>"

definition authority_bytes :: "authority \<Rightarrow> bytes" where
  "authority_bytes a = u32_bytes (threshold a) @ authority_lists_bytes a"

fun action_bytes :: "eos_action \<Rightarrow> bytes" where
  "action_bytes (Transfer from to q memo) =
     u64_bytes from @ u64_bytes to @ quantity_bytes q @ leb_bytes (length memo) @ memo"
| "action_bytes (Delegate from receiver net cpu transfer) =
     u64_bytes from @ u64_bytes receiver @ quantity_bytes net @ quantity_bytes cpu @ [transfer]"
| "action_bytes (Undelegate from receiver net cpu) =
     u64_bytes from @ u64_bytes receiver @ quantity_bytes net @ quantity_bytes cpu"
| "action_bytes (Refund owner) = u64_bytes owner"
| "action_bytes (BuyRam payer receiver q) = u64_bytes payer @ u64_bytes receiver @ quantity_bytes q"
| "action_bytes (BuyRamBytes payer receiver n) = u64_bytes payer @ u64_bytes receiver @ u32_bytes n"
| "action_bytes (SellRam account n) = u64_bytes account @ u64_bytes n"
| "action_bytes (VoteProducer voter proxy producers) =
     u64_bytes voter @ u64_bytes proxy @ list_bytes u64_bytes producers"
| "action_bytes (UpdateAuth account permission parent auth) =
     u64_bytes account @ u64_bytes permission @ u64_bytes parent @ authority_bytes auth"
| "action_bytes (DeleteAuth account permission) = u64_bytes account @ u64_bytes permission"
| "action_bytes (LinkAuth account code act requirement) =
     u64_bytes account @ u64_bytes code @ u64_bytes act @ u64_bytes requirement"
| "action_bytes (UnlinkAuth account code act) = u64_bytes account @ u64_bytes code @ u64_bytes act"
| "action_bytes (NewAccount creator name owner active) =
     u64_bytes creator @ u64_bytes name @ authority_bytes (one_key owner) @ authority_bytes (one_key active)"

text \<open>What the user must see: labels and texts, in order.\<close>

type_synonym screen = "bytes \<times> bytes"

definition quantity_shown :: "quantity \<Rightarrow> bytes" where
  "quantity_shown q = asset_shown (fst q) (snd q)"

definition two_screens :: "(nat \<Rightarrow> 'a \<Rightarrow> screen) \<Rightarrow> (nat \<Rightarrow> 'a \<Rightarrow> screen) \<Rightarrow> 'a list \<Rightarrow> screen list" where
  "two_screens f g xs = concat (map (\<lambda>(i, x). [f i x, g i x]) (enumerate 0 xs))"

definition nth_label :: "string \<Rightarrow> nat \<Rightarrow> string \<Rightarrow> bytes" where
  "nth_label pre i post = cstr pre @ dec_string (i + 1) @ cstr post"

definition key_screens :: "(bytes \<Rightarrow> bytes option) \<Rightarrow> (bytes \<times> u16) list \<Rightarrow> screen list" where
  "key_screens ripemd160 = two_screens
     (\<lambda>i e. (nth_label ''Key #'' i '''', key_text ripemd160 (fst e)))
     (\<lambda>i e. (nth_label ''Key #'' i '' Weight'', dec_string (unat (snd e))))"

definition account_screens :: "(u64 \<times> u64 \<times> u16) list \<Rightarrow> screen list" where
  "account_screens = two_screens
     (\<lambda>i e. (nth_label ''Account #'' i '''', name_text (fst e) @ cstr ''@'' @ name_text (fst (snd e))))
     (\<lambda>i e. (nth_label ''Account #'' i '' Weight'', dec_string (unat (snd (snd e)))))"

definition delay_screens :: "(u32 \<times> u16) list \<Rightarrow> screen list" where
  "delay_screens = two_screens
     (\<lambda>i e. (nth_label ''Delay #'' i '''', dec_string (unat (fst e))))
     (\<lambda>i e. (nth_label ''Delay #'' i '' Weight'', dec_string (unat (snd e))))"

text \<open>The label of a producer is cut after twelve characters.\<close>

definition producer_label :: "nat \<Rightarrow> nat \<Rightarrow> bytes" where
  "producer_label i n = take 12 (cstr ''Producer #'' @ dec_string (i + 1) @ cstr '' ['' @ dec_string n @ cstr '']'')"

fun action_screens :: "(bytes \<Rightarrow> bytes option) \<Rightarrow> eos_action \<Rightarrow> screen list" where
  "action_screens h (Transfer from to q memo) =
     [(cstr ''From'', name_text from), (cstr ''To'', name_text to), (cstr ''Quantity'', quantity_shown q)]
     @ (if memo = [] then [] else [(cstr ''Memo'', memo)])"
| "action_screens h (Delegate from receiver net cpu transfer) =
     [(cstr ''From'', name_text from), (cstr ''Receiver'', name_text receiver),
      (cstr ''NET'', quantity_shown net), (cstr ''CPU'', quantity_shown cpu)]
     @ (if transfer = 0 then [] else [(cstr ''Transfer Stake'', cstr ''Yes'')])"
| "action_screens h (Undelegate from receiver net cpu) =
     [(cstr ''From'', name_text from), (cstr ''Receiver'', name_text receiver),
      (cstr ''NET'', quantity_shown net), (cstr ''CPU'', quantity_shown cpu)]"
| "action_screens h (Refund owner) = [(cstr ''Account'', name_text owner)]"
| "action_screens h (BuyRam payer receiver q) =
     [(cstr ''Buyer'', name_text payer), (cstr ''Receiver'', name_text receiver),
      (cstr ''Tokens'', quantity_shown q)]"
| "action_screens h (BuyRamBytes payer receiver n) =
     [(cstr ''Buyer'', name_text payer), (cstr ''Receiver'', name_text receiver),
      (cstr ''Bytes'', dec_string (unat n))]"
| "action_screens h (SellRam account n) =
     [(cstr ''Receiver'', name_text account), (cstr ''Bytes'', dec_string (unat n))]"
| "action_screens h (VoteProducer voter proxy producers) =
     (cstr ''Account'', name_text voter)
     # (if proxy \<noteq> 0 then [(cstr ''Proxy'', name_text proxy)]
        else map (\<lambda>(i, p). (producer_label i (length producers), name_text p)) (enumerate 0 producers))"
| "action_screens h (UpdateAuth account permission parent auth) =
     [(cstr ''Account'', name_text account), (cstr ''Permission'', name_text permission),
      (cstr ''Parent'', if parent = 0 then cstr ''NULL'' else name_text parent),
      (cstr ''Threshold'', dec_string (unat (threshold auth)))]
     @ key_screens h (auth_keys auth) @ account_screens (auth_accounts auth)
     @ delay_screens (auth_delays auth)"
| "action_screens h (DeleteAuth account permission) =
     [(cstr ''Account'', name_text account), (cstr ''Permission'', name_text permission)]"
| "action_screens h (LinkAuth account code act requirement) =
     [(cstr ''Account'', name_text account), (cstr ''Contract'', name_text code),
      (cstr ''Action'', name_text act), (cstr ''Permission'', name_text requirement)]"
| "action_screens h (UnlinkAuth account code act) =
     [(cstr ''Account'', name_text account), (cstr ''Contract'', name_text code),
      (cstr ''Action'', name_text act)]"
| "action_screens h (NewAccount creator name owner active) =
     [(cstr ''Creator'', name_text creator), (cstr ''Account'', name_text name),
      (cstr ''Owner key'', key_text h owner), (cstr ''Active key'', key_text h active)]"

text \<open>
  The actions that the screen can carry: amounts that are not negative with at most 18 digits of
  precision, 32-bit numbers below \<open>2 ^ 31\<close>, keys of 33 bytes that the hash accepts, a memo that fits
  the argument, and data that fits the buffer.
\<close>

definition quantity_fine :: "quantity \<Rightarrow> bool" where
  "quantity_fine q \<longleftrightarrow> asset_fine (fst q) (snd q)"

definition key_fine :: "(bytes \<Rightarrow> bytes option) \<Rightarrow> bytes \<Rightarrow> bool" where
  "key_fine h k \<longleftrightarrow> length k = 33 \<and> key_ok h k"

definition authority_fine :: "(bytes \<Rightarrow> bytes option) \<Rightarrow> authority \<Rightarrow> bool" where
  "authority_fine h a \<longleftrightarrow> unat (threshold a) < 2 ^ 31 \<and> list_all (\<lambda>e. key_fine h (fst e)) (auth_keys a)
     \<and> list_all (\<lambda>e. unat (fst e) < 2 ^ 31) (auth_delays a)"

fun action_fine :: "(bytes \<Rightarrow> bytes option) \<Rightarrow> eos_action \<Rightarrow> bool" where
  "action_fine h (Transfer from to q memo) \<longleftrightarrow> quantity_fine q \<and> length memo \<le> 127"
| "action_fine h (Delegate from receiver net cpu transfer) \<longleftrightarrow> quantity_fine net \<and> quantity_fine cpu"
| "action_fine h (Undelegate from receiver net cpu) \<longleftrightarrow> quantity_fine net \<and> quantity_fine cpu"
| "action_fine h (BuyRam payer receiver q) \<longleftrightarrow> quantity_fine q"
| "action_fine h (BuyRamBytes payer receiver n) \<longleftrightarrow> unat n < 2 ^ 31"
| "action_fine h (UpdateAuth account permission parent auth) \<longleftrightarrow>
     authority_fine h auth \<and> length (authority_bytes auth) \<le> 487"
| "action_fine h (VoteProducer voter proxy producers) \<longleftrightarrow>
     (proxy \<noteq> 0 \<longrightarrow> producers = []) \<and> length producers \<le> 60"
| "action_fine h (NewAccount creator name owner active) \<longleftrightarrow> key_fine h owner \<and> key_fine h active"
| "action_fine h _ \<longleftrightarrow> True"

definition show_screen :: "screen \<Rightarrow> actionArgument_t" where
  "show_screen s = shown (fst s) (snd s)"

section \<open>The functions show exactly the screens\<close>

lemma length_quantity_bytes [simp]: "length (quantity_bytes q) = 16"
  by (simp add: quantity_bytes_def)

lemma quantity_screen:
  assumes "quantity_fine q"
  shows "asset_ok (quantity_bytes q)" and "asset_bytes_text (quantity_bytes q) = quantity_shown q"
  using assms asset_ok_asset_bytes
  by (simp_all add: quantity_fine_def quantity_bytes_def quantity_shown_def)

lemma int_text_uint_sint:
  "int_text (uint (v :: 'a::len word)) = dec_string (unat v)"
  "unat (w :: u32) < 2 ^ 31 \<Longrightarrow> int_text (sint w) = dec_string (unat w)"
  using int_text_uint by (auto simp: sint_small)

lemmas screen_simps = field_shown show_screen_def quantity_screen int_text_uint_sint

lemma less_3_cases: "i < 3 \<Longrightarrow> i = 0 \<or> i = 1 \<or> i = (2 :: nat)"
  and less_4_cases: "i < 4 \<Longrightarrow> i = 0 \<or> i = 1 \<or> i = 2 \<or> i = (3 :: nat)"
  and less_5_cases: "i < 5 \<Longrightarrow> i = 0 \<or> i = 1 \<or> i = 2 \<or> i = 3 \<or> i = (4 :: nat)"
  by linarith+

text \<open>
  A function shows an action when, run on its bytes with anything behind them, it leaves the
  screen of every argument, whatever was on the screen before.
\<close>

definition shows_action :: "(bytes \<Rightarrow> bytes option) \<Rightarrow> action_parser \<Rightarrow> eos_action \<Rightarrow> bool" where
  "shows_action h parse a \<longleftrightarrow> (\<forall>rest i arg. i < length (action_screens h a) \<longrightarrow>
     parse (action_bytes a @ rest) 0 (of_nat (length (action_bytes a))) (of_nat i) arg
       = Inr (show_screen (action_screens h a ! i)))"

lemma shows_actionI:
  assumes "\<And>rest i arg. i < length (action_screens h a) \<Longrightarrow>
      parse (action_bytes a @ rest) 0 (of_nat (length (action_bytes a))) (of_nat i) arg
        = Inr (show_screen (action_screens h a ! i))"
  shows "shows_action h parse a"
  using assms by (simp add: shows_action_def)

lemma less_2_cases_nat: "i < 2 \<Longrightarrow> i = 0 \<or> i = (1 :: nat)"
  by linarith

lemma parseDelegate_shows:
  assumes "action_fine h (Delegate from receiver net cpu transfer)"
  shows "shows_action h parseDelegate (Delegate from receiver net cpu transfer)"
proof (rule shows_actionI)
  fix rest i arg
  assume i: "i < length (action_screens h (Delegate from receiver net cpu transfer))"
  then have "i < 5" by (simp split: if_splits)
  then have "i = 0 \<or> i = 1 \<or> i = 2 \<or> i = 3 \<or> i = 4" by (rule less_5_cases)
  with assms i show "parseDelegate (action_bytes (Delegate from receiver net cpu transfer) @ rest) 0
      (of_nat (length (action_bytes (Delegate from receiver net cpu transfer)))) (of_nat i) arg
    = Inr (show_screen (action_screens h (Delegate from receiver net cpu transfer) ! i))"
    by (elim disjE) (simp_all add: parseDelegate_def screen_simps split: if_splits)
qed

lemma parseUndelegate_shows:
  assumes "action_fine h (Undelegate from receiver net cpu)"
  shows "shows_action h parseUndelegate (Undelegate from receiver net cpu)"
proof (rule shows_actionI)
  fix rest i arg
  assume i: "i < length (action_screens h (Undelegate from receiver net cpu))"
  then have "i < 4" by (simp split: if_splits)
  then have "i = 0 \<or> i = 1 \<or> i = 2 \<or> i = 3" by (rule less_4_cases)
  with assms i show "parseUndelegate (action_bytes (Undelegate from receiver net cpu) @ rest) 0
      (of_nat (length (action_bytes (Undelegate from receiver net cpu)))) (of_nat i) arg
    = Inr (show_screen (action_screens h (Undelegate from receiver net cpu) ! i))"
    by (elim disjE) (simp_all add: parseUndelegate_def screen_simps split: if_splits)
qed

lemma parseRefund_shows:
  assumes "action_fine h (Refund owner)"
  shows "shows_action h parseRefund (Refund owner)"
proof (rule shows_actionI)
  fix rest i arg
  assume i: "i < length (action_screens h (Refund owner))"
  then have "i = 0" by simp
  with assms show "parseRefund (action_bytes (Refund owner) @ rest) 0
      (of_nat (length (action_bytes (Refund owner)))) (of_nat i) arg
    = Inr (show_screen (action_screens h (Refund owner) ! i))"
    by (simp add: parseRefund_def screen_simps)
qed

lemma parseBuyRam_shows:
  assumes "action_fine h (BuyRam payer receiver q)"
  shows "shows_action h parseBuyRam (BuyRam payer receiver q)"
proof (rule shows_actionI)
  fix rest i arg
  assume i: "i < length (action_screens h (BuyRam payer receiver q))"
  then have "i < 3" by (simp split: if_splits)
  then have "i = 0 \<or> i = 1 \<or> i = 2" by (rule less_3_cases)
  with assms i show "parseBuyRam (action_bytes (BuyRam payer receiver q) @ rest) 0
      (of_nat (length (action_bytes (BuyRam payer receiver q)))) (of_nat i) arg
    = Inr (show_screen (action_screens h (BuyRam payer receiver q) ! i))"
    by (elim disjE) (simp_all add: parseBuyRam_def screen_simps split: if_splits)
qed

lemma parseBuyRamBytes_shows:
  assumes "action_fine h (BuyRamBytes payer receiver n)"
  shows "shows_action h parseBuyRamBytes (BuyRamBytes payer receiver n)"
proof (rule shows_actionI)
  fix rest i arg
  assume i: "i < length (action_screens h (BuyRamBytes payer receiver n))"
  then have "i < 3" by (simp split: if_splits)
  then have "i = 0 \<or> i = 1 \<or> i = 2" by (rule less_3_cases)
  with assms i show "parseBuyRamBytes (action_bytes (BuyRamBytes payer receiver n) @ rest) 0
      (of_nat (length (action_bytes (BuyRamBytes payer receiver n)))) (of_nat i) arg
    = Inr (show_screen (action_screens h (BuyRamBytes payer receiver n) ! i))"
    by (elim disjE) (simp_all add: parseBuyRamBytes_def screen_simps split: if_splits)
qed

lemma parseSellRam_shows:
  assumes "action_fine h (SellRam account n)"
  shows "shows_action h parseSellRam (SellRam account n)"
proof (rule shows_actionI)
  fix rest i arg
  assume i: "i < length (action_screens h (SellRam account n))"
  then have "i < 2" by (simp split: if_splits)
  then have "i = 0 \<or> i = 1" by (rule less_2_cases_nat)
  with assms i show "parseSellRam (action_bytes (SellRam account n) @ rest) 0
      (of_nat (length (action_bytes (SellRam account n)))) (of_nat i) arg
    = Inr (show_screen (action_screens h (SellRam account n) ! i))"
    by (elim disjE) (simp_all add: parseSellRam_def screen_simps split: if_splits)
qed

lemma parseDeleteAuth_shows:
  assumes "action_fine h (DeleteAuth account permission)"
  shows "shows_action h parseDeleteAuth (DeleteAuth account permission)"
proof (rule shows_actionI)
  fix rest i arg
  assume i: "i < length (action_screens h (DeleteAuth account permission))"
  then have "i < 2" by (simp split: if_splits)
  then have "i = 0 \<or> i = 1" by (rule less_2_cases_nat)
  with assms i show "parseDeleteAuth (action_bytes (DeleteAuth account permission) @ rest) 0
      (of_nat (length (action_bytes (DeleteAuth account permission)))) (of_nat i) arg
    = Inr (show_screen (action_screens h (DeleteAuth account permission) ! i))"
    by (elim disjE) (simp_all add: parseDeleteAuth_def screen_simps split: if_splits)
qed

lemma parseLinkAuth_shows:
  assumes "action_fine h (LinkAuth account code act requirement)"
  shows "shows_action h parseLinkAuth (LinkAuth account code act requirement)"
proof (rule shows_actionI)
  fix rest i arg
  assume i: "i < length (action_screens h (LinkAuth account code act requirement))"
  then have "i < 4" by (simp split: if_splits)
  then have "i = 0 \<or> i = 1 \<or> i = 2 \<or> i = 3" by (rule less_4_cases)
  with assms i show "parseLinkAuth (action_bytes (LinkAuth account code act requirement) @ rest) 0
      (of_nat (length (action_bytes (LinkAuth account code act requirement)))) (of_nat i) arg
    = Inr (show_screen (action_screens h (LinkAuth account code act requirement) ! i))"
    by (elim disjE) (simp_all add: parseLinkAuth_def screen_simps split: if_splits)
qed

lemma parseUnlinkAuth_shows:
  assumes "action_fine h (UnlinkAuth account code act)"
  shows "shows_action h parseUnlinkAuth (UnlinkAuth account code act)"
proof (rule shows_actionI)
  fix rest i arg
  assume i: "i < length (action_screens h (UnlinkAuth account code act))"
  then have "i < 3" by (simp split: if_splits)
  then have "i = 0 \<or> i = 1 \<or> i = 2" by (rule less_3_cases)
  with assms i show "parseUnlinkAuth (action_bytes (UnlinkAuth account code act) @ rest) 0
      (of_nat (length (action_bytes (UnlinkAuth account code act)))) (of_nat i) arg
    = Inr (show_screen (action_screens h (UnlinkAuth account code act) ! i))"
    by (elim disjE) (simp_all add: parseUnlinkAuth_def screen_simps split: if_splits)
qed

text \<open>Lengths counted down as \<open>uint32_t\<close>, while they do not wrap.\<close>

lemma u32_sub: "k \<le> unat (len :: u32) \<Longrightarrow> unat (len - of_nat k) = unat len - k"
proof -
  assume k: "k \<le> unat len"
  have "unat len < 2 ^ 32" using unsigned_less [of len] by simp
  with k have "unat (of_nat k :: u32) = k" by (intro unat_of_nat_u32_small) simp
  with k show ?thesis by (simp add: unat_sub word_le_nat_alt)
qed

lemma u32_sub_numeral:
  "numeral k \<le> unat (len :: u32) \<Longrightarrow> unat (len - numeral k) = unat len - numeral k"
  "1 \<le> unat (len :: u32) \<Longrightarrow> unat (len - 1) = unat len - 1"
  using u32_sub [of "numeral k" len] u32_sub [of 1 len] by simp_all

lemma leb_bytes_small: "n < 128 \<Longrightarrow> leb_bytes n = [of_nat n]"
  by (simp add: leb_bytes.simps [of n])

lemma le_bytes_numeral:
  "le_bytes (numeral k) v = of_nat (v mod 256) # le_bytes (pred_numeral k) (v div 256)"
  using le_bytes.simps(2) [of "pred_numeral k" v] by (simp only: numeral_eq_Suc [of k])

lemma le_bytes_1 [simp]: "le_bytes 4 (Suc 0) = [1, 0, 0, 0]" "le_bytes 2 (Suc 0) = [1, 0]"
  by (simp_all add: le_bytes_numeral)

lemma authority_one_key:
  "authority_bytes (one_key k) = [1, 0, 0, 0, 1, 0] @ k @ [1, 0, 0, 0]"
  by (simp add: authority_bytes_def one_key_def authority_lists_bytes_def list_bytes_def key_entry_def
      leb_bytes_small)

lemma parseNewAccount_shows:
  assumes "action_fine h (NewAccount creator name owner active)"
  shows "shows_action h (parseNewAccount h) (NewAccount creator name owner active)"
proof (rule shows_actionI)
  fix rest i arg
  assume i: "i < length (action_screens h (NewAccount creator name owner active))"
  have k: "length owner = 33" "length active = 33" "key_ok h owner" "key_ok h active"
    using assms by (simp_all add: key_fine_def)
  from i have "i < 4" by simp
  then have "i = 0 \<or> i = 1 \<or> i = 2 \<or> i = 3" by (rule less_4_cases)
  with k show "parseNewAccount h (action_bytes (NewAccount creator name owner active) @ rest) 0
      (of_nat (length (action_bytes (NewAccount creator name owner active)))) (of_nat i) arg
    = Inr (show_screen (action_screens h (NewAccount creator name owner active) ! i))"
    by (elim disjE) (simp_all add: parseNewAccount_def Let_def screen_simps authority_one_key)
qed

lemma parseTokenTransfer_shows:
  assumes "action_fine h (Transfer from to q memo)"
  shows "shows_action h parseTokenTransfer (Transfer from to q memo)"
proof (rule shows_actionI)
  fix rest i arg
  let ?a = "Transfer from to q memo"
  let ?m = "leb_bytes (length memo) @ memo"
  define len :: u32 where "len = of_nat (length (action_bytes ?a))"
  assume i: "i < length (action_screens h ?a)"
  have q: "quantity_fine q" and m: "length memo \<le> 127" using assms by simp_all
  have "length (leb_bytes (length memo)) \<le> 1" using m by (intro length_leb_bytes) simp_all
  then have small: "32 + length ?m < 2 ^ 32" using m by simp
  have "len = of_nat (32 + length ?m)" unfolding len_def by simp
  then have len: "unat len = 32 + length ?m" using small by (simp only: unat_of_nat_u32_small)
  note sub = len u32_sub_numeral
  have "parseTokenTransfer (action_bytes ?a @ rest) 0 len (of_nat i) arg
      = Inr (show_screen (action_screens h ?a ! i))"
  proof (cases "i = 3")
    case True
    have "arg_of (parseStringField (action_bytes ?a @ rest) 32 (len - 32) (cstr ''Memo'') arg)
        = Inr (shown (cstr ''Memo'') memo)"
      using m sub by (intro string_shown [where rest = rest]) simp_all
    then show ?thesis using True i by (simp add: parseTokenTransfer_def show_screen_def split: if_splits)
  next
    case False
    then have "i = 0 \<or> i = 1 \<or> i = 2" using i by (auto split: if_splits)
    then show ?thesis
      using q by (elim disjE) (simp_all add: parseTokenTransfer_def screen_simps nth_append sub)
  qed
  then show "parseTokenTransfer (action_bytes ?a @ rest) 0 (of_nat (length (action_bytes ?a))) (of_nat i) arg
      = Inr (show_screen (action_screens h ?a ! i))"
    by (simp only: len_def)
qed

lemma drop_entries:
  assumes "d < length xs" and "\<And>x. x \<in> set xs \<Longrightarrow> length (f x) = w"
  shows "\<exists>r. drop (d * w) (concat (map f xs) @ rs) = f (xs ! d) @ r"
  using assms
proof (induction xs arbitrary: d)
  case (Cons x xs)
  show ?case
  proof (cases d)
    case 0
    then show ?thesis by simp
  next
    case (Suc d')
    have "drop (d * w) (concat (map f (x # xs)) @ rs) = drop (d' * w) (concat (map f xs) @ rs)"
      using Suc Cons.prems(2) [of x] by (simp add: add.commute)
    with Cons.IH [of d'] Cons.prems Suc show ?thesis by simp
  qed
qed simp

lemma length_entries:
  "(\<And>x. x \<in> set xs \<Longrightarrow> length (f x) = w) \<Longrightarrow> length (concat (map f xs)) = length xs * w"
  by (induction xs) simp_all

lemma take_entry:
  assumes "drop p mem = concat (map f xs) @ rs" and "d < length xs"
    and "\<And>x. x \<in> set xs \<Longrightarrow> length (f x) = w"
  shows "\<exists>r. drop (p + d * w) mem = f (xs ! d) @ r"
proof -
  have "drop (p + d * w) mem = drop (d * w) (concat (map f xs) @ rs)"
    using assms(1) by (metis drop_drop add.commute)
  then show ?thesis using drop_entries [OF assms(2,3)] by simp
qed

lemma snprintf_cut:
  assumes "0 < n" and "n \<le> m" and "0 \<notin> set tx"
  shows "snprintf (zeros m) n tx = Inr (padded m (take (n - 1) tx))"
    and "c_string (padded m (take (n - 1) tx)) = take (n - 1) tx"
proof -
  have "snprintf (zeros m) n tx = snprintf (zeros m) n (take (n - 1) tx)"
    by (simp add: snprintf_def)
  also have "\<dots> = Inr (padded m (take (n - 1) tx))"
    using assms by (intro snprintf_zeros) simp_all
  finally show "snprintf (zeros m) n tx = Inr (padded m (take (n - 1) tx))" .
  have "0 \<notin> set (take (n - 1) tx)" using assms(3) by (meson in_set_takeD)
  then show "c_string (padded m (take (n - 1) tx)) = take (n - 1) tx"
    using assms by (intro c_string_padded) simp_all
qed

lemma int_text_u8: "i < 256 \<Longrightarrow> int_text (uint (of_nat i :: u8)) = dec_string i"
  by (simp add: int_text_uint unat_of_nat_u8_small)

lemma int_text_count: "n < 2 ^ 31 \<Longrightarrow> int_text (sint (of_nat n :: u32)) = dec_string n"
  using int_text_uint_sint(2) [of "of_nat n"] by (simp add: unat_of_nat_u32_small)

lemma producer_label_printed:
  assumes "Suc j < 256" and "n < 2 ^ 31"
  defines "tx \<equiv> cstr ''Producer #'' @ int_text (uint (of_nat (Suc j) :: u8)) @ cstr '' [''
      @ int_text (sint (of_nat n :: u32)) @ cstr '']''"
  shows "snprintf (zeros 14) 13 tx = Inr (padded 14 (producer_label j n))"
    and "c_string (padded 14 (producer_label j n)) = producer_label j n"
proof -
  have "0 \<notin> set tx" using label_printable by (simp add: tx_def int_text_printable)
  moreover have "take 12 tx = producer_label j n"
    unfolding tx_def producer_label_def int_text_u8 [OF assms(1)] int_text_count [OF assms(2)] by simp
  ultimately show "snprintf (zeros 14) 13 tx = Inr (padded 14 (producer_label j n))"
    and "c_string (padded 14 (producer_label j n)) = producer_label j n"
    using snprintf_cut [of 13 14 tx] by simp_all
qed

lemma length_producer_label: "length (producer_label j n) \<le> 12"
  by (simp add: producer_label_def)

lemma producer_offset:
  assumes "Suc j < 256"
  shows "(ucast (of_nat (Suc j) :: u8) - 1 :: u32) = of_nat j"
    and "unat ((of_nat j :: u32) * 8) = j * 8"
proof -
  show "(ucast (of_nat (Suc j) :: u8) - 1 :: u32) = of_nat j"
    using ucast_of_nat_u8 [OF assms] by simp
  have "(of_nat j :: u32) * 8 = of_nat (j * 8)" by simp
  then show "unat ((of_nat j :: u32) * 8) = j * 8"
    using assms by (simp only:) (rule unat_of_nat_u32_small, simp)
qed

lemma of_nat_Suc_u8: "Suc j < 256 \<Longrightarrow> (of_nat (Suc j) :: u8) \<noteq> 0"
  using unat_of_nat_u8_small [of "Suc j"] by (metis nat.simps(3) unat_0)

lemma parseVoteProducer_producer:
  assumes rd: "mem_read mem 8 8 = Inr bs" "(le_word bs :: u64) = 0"
    and up: "unpack_variant32 mem 16 (len - 16) = Inr (1, of_nat n)"
    and j: "Suc j < 256" and n: "n < 2 ^ 31"
  shows "parseVoteProducer mem 0 len (of_nat (Suc j)) arg
    = arg_of (parseNameField mem (17 + j * 8) (len - 16 - 1 - of_nat j * 8) (producer_label j n) arg)"
proof -
  have nz: "(of_nat (Suc j) :: u8) \<noteq> 0" using j by (rule of_nat_Suc_u8)
  show ?thesis
    using rd up nz producer_label_printed [OF j n] producer_offset [OF j]
    by (simp add: parseVoteProducer_def Let_def of_nat_Suc [of 0] del: of_nat_Suc)
qed

lemma parseVoteProducer_shows:
  assumes fine: "action_fine h (VoteProducer voter proxy producers)"
  shows "shows_action h parseVoteProducer (VoteProducer voter proxy producers)"
proof (rule shows_actionI)
  fix rest i arg
  let ?a = "VoteProducer voter proxy producers"
  let ?n = "length producers" and ?mem = "action_bytes ?a @ rest"
  define len :: u32 where "len = of_nat (length (action_bytes ?a))"
  assume i: "i < length (action_screens h ?a)"
  have n: "?n \<le> 60" using fine by simp
  have leb: "leb_bytes ?n = [of_nat ?n]" using n by (intro leb_bytes_small) simp
  have lp: "length (concat (map (\<lambda>v. le_bytes 8 (unat v)) producers)) = ?n * 8"
    by (rule length_entries) simp
  have "len = of_nat (17 + ?n * 8)" unfolding len_def by (simp add: list_bytes_def leb lp)
  moreover have "17 + ?n * 8 < 2 ^ 32" using n by simp
  ultimately have len: "unat len = 17 + ?n * 8" by (simp only: unat_of_nat_u32_small)
  have mem: "length ?mem = 17 + ?n * 8 + length rest" by (simp add: list_bytes_def leb lp)
  have "parseVoteProducer ?mem 0 len (of_nat i) arg = Inr (show_screen (action_screens h ?a ! i))"
  proof (cases "i = 0")
    case True
    then show ?thesis using len by (simp add: parseVoteProducer_def screen_simps)
  next
    case False
    then obtain j where j: "i = Suc j" by (cases i) simp_all
    have rd: "mem_read ?mem 8 8 = Inr (u64_bytes proxy)" by (simp add: mem_read_def)
    have j60: "j < 60" using i j n by (auto split: if_splits)
    show ?thesis
    proof (cases "proxy = 0")
      case False
      then have "j = 0" using i j by simp
      then have "parseVoteProducer ?mem 0 len (of_nat i) arg = arg_of (parseNameField ?mem 8 8 (cstr ''Proxy'') arg)"
        using False j rd by (simp add: parseVoteProducer_def Let_def del: action_bytes.simps)
      also have "\<dots> = Inr (shown (cstr ''Proxy'') (name_text proxy))"
        by (subst name_shown) simp_all
      finally show ?thesis using False j \<open>j = 0\<close> by (simp add: show_screen_def)
    next
      case True
      have jn: "j < ?n" using i j True by simp
      have z: "le_word (u64_bytes proxy) = (0 :: u64)" using True by (simp only: le_word_bytes)
      have up: "unpack_variant32 ?mem 16 (len - 16) = Inr (1, of_nat ?n)"
        using unpack_variant32_leb_bytes [of ?n 16 ?mem "concat (map (\<lambda>v. le_bytes 8 (unat v)) producers) @ rest"
          "len - 16"] n len mem leb by (simp add: list_bytes_def u32_sub_numeral)
      have "drop 17 ?mem = concat (map (\<lambda>v. le_bytes 8 (unat v)) producers) @ rest"
        by (simp add: list_bytes_def leb)
      then have "\<exists>r. drop (17 + j * 8) ?mem = u64_bytes (producers ! j) @ r"
        using jn by (rule take_entry) simp
      then obtain r where r: "drop (17 + j * 8) ?mem = u64_bytes (producers ! j) @ r" ..
      have l: "unat (len - 16 - 1 - of_nat j * 8) = (?n - j) * 8"
        using u32_sub [of "j * 8" "len - 16 - 1"] len jn by (simp add: u32_sub_numeral)
      have "arg_of (parseNameField ?mem (17 + j * 8) (len - 16 - 1 - of_nat j * 8) (producer_label j ?n) arg)
          = Inr (shown (producer_label j ?n) (name_text (producers ! j)))"
        using jn l r mem length_producer_label [of j ?n] by (subst name_shown) simp_all
      moreover have "parseVoteProducer ?mem 0 len (of_nat (Suc j)) arg
          = arg_of (parseNameField ?mem (17 + j * 8) (len - 16 - 1 - of_nat j * 8) (producer_label j ?n) arg)"
        using j60 n by (intro parseVoteProducer_producer [OF rd z up]) simp_all
      moreover have "action_screens h ?a ! Suc j = (producer_label j ?n, name_text (producers ! j))"
        using True jn by (simp add: nth_enumerate_eq)
      ultimately show ?thesis using j by (simp only: show_screen_def fst_conv snd_conv)
    qed
  qed
  then show "parseVoteProducer ?mem 0 (of_nat (length (action_bytes ?a))) (of_nat i) arg
      = Inr (show_screen (action_screens h ?a ! i))"
    by (simp only: len_def)
qed

text \<open>Every entry of a list owns two screens.\<close>

lemma two_screens_from:
  "d < length xs \<Longrightarrow> e < 2 \<Longrightarrow>
     concat (map (\<lambda>(i, x). [f i x, g i x]) (enumerate n xs)) ! (2 * d + e)
       = (if e = 0 then f (n + d) (xs ! d) else g (n + d) (xs ! d))"
proof (induction xs arbitrary: d n)
  case (Cons x xs)
  show ?case
  proof (cases d)
    case 0
    then have "2 * d + e = 0 \<or> 2 * d + e = Suc 0" using Cons.prems by arith
    with 0 show ?thesis by auto
  next
    case (Suc d')
    with Cons.IH [of d' "Suc n"] Cons.prems show ?thesis by simp
  qed
qed simp

lemma nth_two_screens:
  "d < length xs \<Longrightarrow> e < 2 \<Longrightarrow>
     two_screens f g xs ! (2 * d + e) = (if e = 0 then f d (xs ! d) else g d (xs ! d))"
  using two_screens_from [of d xs e f g 0] by (simp add: two_screens_def)

lemma length_two_screens_from:
  "length (concat (map (\<lambda>(i, x). [f i x, g i x]) (enumerate n xs))) = 2 * length xs"
  by (induction xs arbitrary: n) simp_all

lemma length_two_screens [simp]: "length (two_screens f g xs) = 2 * length xs"
  by (simp add: two_screens_def length_two_screens_from)

lemma length_section_screens [simp]:
  "length (key_screens h ks) = 2 * length ks"
  "length (account_screens as) = 2 * length as"
  "length (delay_screens ds) = 2 * length ds"
  by (simp_all add: key_screens_def account_screens_def delay_screens_def)

lemma index_text: "d < 256 \<Longrightarrow> int_text (uint (of_nat d :: u8) + 1) = dec_string (d + 1)"
proof -
  assume "d < 256"
  then have "uint (of_nat d :: u8) = int d" by (rule uint_of_nat_u8_small)
  moreover have "nat (int d + 1) = d + 1" by simp
  ultimately show ?thesis by (simp add: int_text_def)
qed

lemma drop_more: "drop p mem = xs @ r \<Longrightarrow> drop (p + length xs + k) mem = drop k r"
  by (metis append_eq_conv_conj drop_drop add.commute)

lemma key_entry_shown:
  assumes at: "drop p mem = key_entry x @ r" and k: "key_fine h (fst x)"
    and len: "36 \<le> unat len" and mem: "p + 36 \<le> length mem" and d: "d < 256"
  shows "key_first h (of_nat d) mem p len arg
      = Inr (shown (nth_label ''Key #'' d '''') (key_text h (fst x)))"
    and "key_second (of_nat d) mem p len arg
      = Inr (shown (nth_label ''Key #'' d '' Weight'') (dec_string (unat (snd x))))"
proof -
  have lab: "length (dec_string (d + 1)) \<le> 3" using d by (intro length_dec_string) auto
  have k33: "length (fst x) = 33" using k by (simp add: key_fine_def)
  have "take 33 (drop (p + 1) mem) = fst x"
    using drop_more [of p mem "[0]" "fst x @ u16_bytes (snd x) @ r" 0] at k33 by (simp add: key_entry_def)
  moreover have "take 2 (drop (p + 34) mem) = u16_bytes (snd x)"
    using drop_more [of p mem "0 # fst x" "u16_bytes (snd x) @ r" 0] at k33 by (simp add: key_entry_def)
  ultimately show "key_first h (of_nat d) mem p len arg
      = Inr (shown (nth_label ''Key #'' d '''') (key_text h (fst x)))"
    and "key_second (of_nat d) mem p len arg
      = Inr (shown (nth_label ''Key #'' d '' Weight'') (dec_string (unat (snd x))))"
    using k len mem lab index_text [OF d]
    by (simp_all add: key_first_def key_second_def key_shown uint16_shown key_fine_def u32_sub_numeral
        nth_label_def int_text_uint cstr_def del: of_nat_Suc)
qed

lemma account_entry_shown:
  assumes at: "drop p mem = account_entry x @ r"
    and len: "18 \<le> unat len" and mem: "p + 18 \<le> length mem" and d: "d < 256"
  shows "account_first (of_nat d) mem p len arg
      = Inr (shown (nth_label ''Account #'' d '''') (name_text (fst x) @ cstr ''@'' @ name_text (fst (snd x))))"
    and "account_second (of_nat d) mem p len arg
      = Inr (shown (nth_label ''Account #'' d '' Weight'') (dec_string (unat (snd (snd x)))))"
proof -
  have lab: "length (dec_string (d + 1)) \<le> 3" using d by (intro length_dec_string) auto
  have "take 16 (drop p mem) = u64_bytes (fst x) @ u64_bytes (fst (snd x))"
    using at by (simp add: account_entry_def)
  moreover have "take 2 (drop (p + 16) mem) = u16_bytes (snd (snd x))"
    using drop_more [of p mem "u64_bytes (fst x) @ u64_bytes (fst (snd x))" "u16_bytes (snd (snd x)) @ r" 0] at
    by (simp add: account_entry_def)
  ultimately show "account_first (of_nat d) mem p len arg
      = Inr (shown (nth_label ''Account #'' d '''') (name_text (fst x) @ cstr ''@'' @ name_text (fst (snd x))))"
    and "account_second (of_nat d) mem p len arg
      = Inr (shown (nth_label ''Account #'' d '' Weight'') (dec_string (unat (snd (snd x)))))"
    using len mem lab index_text [OF d]
    by (simp_all add: account_first_def account_second_def permission_shown uint16_shown
        u32_sub_numeral nth_label_def int_text_uint permission_text_def cstr_def del: of_nat_Suc)
qed

lemma delay_entry_shown:
  assumes at: "drop p mem = delay_entry x @ r" and small: "unat (fst x) < 2 ^ 31"
    and len: "6 \<le> unat len" and mem: "p + 6 \<le> length mem" and d: "d < 256"
  shows "delay_first (of_nat d) mem p len arg
      = Inr (shown (nth_label ''Delay #'' d '''') (dec_string (unat (fst x))))"
    and "delay_second (of_nat d) mem p len arg
      = Inr (shown (nth_label ''Delay #'' d '' Weight'') (dec_string (unat (snd x))))"
proof -
  have lab: "length (dec_string (d + 1)) \<le> 3" using d by (intro length_dec_string) auto
  have "take 4 (drop p mem) = u32_bytes (fst x)" using at by (simp add: delay_entry_def)
  moreover have "take 2 (drop (p + 4) mem) = u16_bytes (snd x)"
    using drop_more [of p mem "u32_bytes (fst x)" "u16_bytes (snd x) @ r" 0] at by (simp add: delay_entry_def)
  ultimately show "delay_first (of_nat d) mem p len arg
      = Inr (shown (nth_label ''Delay #'' d '''') (dec_string (unat (fst x))))"
    and "delay_second (of_nat d) mem p len arg
      = Inr (shown (nth_label ''Delay #'' d '' Weight'') (dec_string (unat (snd x))))"
    using len mem lab index_text [OF d] int_text_uint_sint(2) [OF small]
    by (simp_all add: delay_first_def delay_second_def uint32_shown uint16_shown
        u32_sub_numeral nth_label_def int_text_uint cstr_def del: of_nat_Suc)
qed

text \<open>
  The contract with the entries known: a loop whose two functions show the screens of the entry
  they stand on shows, from the first entry of a list, the screens of the list in order.
\<close>

locale entry_loop = argument_loop loop width first second
  for loop :: "nat \<Rightarrow> u8 \<Rightarrow> u8 \<Rightarrow> u32 \<Rightarrow> bytes \<Rightarrow> nat \<Rightarrow> u32 \<Rightarrow> u8 \<Rightarrow> actionArgument_t
      \<Rightarrow> (actionArgument_t + nat \<times> u32) result"
    and width :: nat and first second :: entry_shower +
  fixes entry :: "'a \<Rightarrow> bytes" and fine :: "'a \<Rightarrow> bool" and screen1 screen2 :: "nat \<Rightarrow> 'a \<Rightarrow> screen"
  assumes entry_width: "fine x \<Longrightarrow> length (entry x) = width"
    and width_small: "width < 2 ^ 16"
    and shows_first: "drop p mem = entry x @ r \<Longrightarrow> fine x \<Longrightarrow> width \<le> unat len \<Longrightarrow>
      p + width \<le> length mem \<Longrightarrow> d < 256 \<Longrightarrow> first (of_nat d) mem p len arg = Inr (show_screen (screen1 d x))"
    and shows_second: "drop p mem = entry x @ r \<Longrightarrow> fine x \<Longrightarrow> width \<le> unat len \<Longrightarrow>
      p + width \<le> length mem \<Longrightarrow> d < 256 \<Longrightarrow> second (of_nat d) mem p len arg = Inr (show_screen (screen2 d x))"
begin

lemma shows_entries:
  assumes at: "drop p mem = concat (map entry xs) @ r" and fine: "list_all fine xs"
    and len: "length xs * width \<le> unat len" and mem: "p + length xs * width \<le> length mem"
    and lo: "unat argIndex \<le> unat argNum" and hi: "unat argNum < unat argIndex + 2 * length xs"
    and tot: "unat tot = length xs"
  shows "loop 256 0 argIndex tot mem p len argNum arg
    = Inr (Inl (show_screen (two_screens screen1 screen2 xs ! (unat argNum - unat argIndex))))"
proof -
  define d e where "d = (unat argNum - unat argIndex) div 2" and "e = (unat argNum - unat argIndex) mod 2"
  have lt: "unat argNum < 256" by simp
  have idx: "unat argNum - unat argIndex = 2 * d + e" and e: "e < 2" by (simp_all add: d_def e_def)
  have a: "unat argNum = unat argIndex + 2 * d + e" using idx lo by simp
  have d: "d < length xs" "d < 256" using a hi lt by linarith+
  have f: "fine (xs ! d)" using fine d by (simp add: list_all_length)
  have "\<exists>r'. drop (p + d * width) mem = entry (xs ! d) @ r'"
    using at d(1)
  proof (rule take_entry)
    fix x assume "x \<in> set xs"
    with fine show "length (entry x) = width" by (auto simp: list_all_iff intro: entry_width)
  qed
  then obtain r' where r': "drop (p + d * width) mem = entry (xs ! d) @ r'" ..
  have dw: "d * width + width \<le> length xs * width"
    using d(1) by (metis add.commute mult_Suc mult_le_mono1 Suc_leI)
  then have l: "width \<le> unat (len - of_nat (d * width))" and m: "p + d * width + width \<le> length mem"
    using len mem u32_sub [of "d * width" len] by simp_all
  have "loop 256 0 argIndex tot mem p len argNum arg = andThen ((if e = 0 then first else second)
      (0 + of_nat d) mem (p + d * width) (len - of_nat (d * width)) arg) (\<lambda>a. Inr (Inl a))"
    using a e d tot by (intro reaches) simp_all
  then show ?thesis
    using shows_first [OF r' f l m d(2)] shows_second [OF r' f l m d(2)] d e
    by (simp add: idx nth_two_screens)
qed

end

lemma length_key_entry: "key_fine h (fst x) \<Longrightarrow> length (key_entry x) = 36"
  and length_account_entry: "length (account_entry y) = 18"
  and length_delay_entry: "length (delay_entry z) = 6"
  by (simp_all add: key_fine_def key_entry_def account_entry_def delay_entry_def)

interpretation key_entries: entry_loop "updateAuth_keys ripemd160" 36 "key_first ripemd160" key_second
  key_entry "\<lambda>e. key_fine ripemd160 (fst e)"
  "\<lambda>i e. (nth_label ''Key #'' i '''', key_text ripemd160 (fst e))"
  "\<lambda>i e. (nth_label ''Key #'' i '' Weight'', dec_string (unat (snd e)))"
  by unfold_locales (simp_all add: length_key_entry key_entry_shown show_screen_def)

interpretation account_entries: entry_loop updateAuth_accounts 18 account_first account_second
  account_entry "\<lambda>_. True"
  "\<lambda>i e. (nth_label ''Account #'' i '''', name_text (fst e) @ cstr ''@'' @ name_text (fst (snd e)))"
  "\<lambda>i e. (nth_label ''Account #'' i '' Weight'', dec_string (unat (snd (snd e))))"
  by unfold_locales (simp_all add: length_account_entry account_entry_shown show_screen_def)

interpretation delay_entries: entry_loop updateAuth_delays 6 delay_first delay_second
  delay_entry "\<lambda>e. unat (fst e) < 2 ^ 31"
  "\<lambda>i e. (nth_label ''Delay #'' i '''', dec_string (unat (fst e)))"
  "\<lambda>i e. (nth_label ''Delay #'' i '' Weight'', dec_string (unat (snd e)))"
  by unfold_locales (simp_all add: length_delay_entry delay_entry_shown show_screen_def)

section \<open>Updating an authority\<close>

lemma section_guard:
  assumes "n < 256" and "m < 256" and "a < 256"
  shows "(of_nat (3 + 2 * m) < (ucast (of_nat a :: u8) :: u32)
      \<and> ucast (of_nat a :: u8) \<le> (of_nat (3 + 2 * m) + of_nat n * 2 :: u32)) \<longleftrightarrow> 3 + 2 * m < a \<and> a \<le> 3 + 2 * m + 2 * n"
proof -
  have u: "(ucast (of_nat a :: u8) :: u32) = of_nat a" using assms by (intro ucast_of_nat_u8)
  have s: "(of_nat (3 + 2 * m) + of_nat n * 2 :: u32) = of_nat (3 + 2 * m + 2 * n)" by simp
  have "unat (of_nat k :: u32) = k" if "k < 1024" for k using that by (intro unat_of_nat_u32_small) simp
  then have "unat (of_nat a :: u32) = a" and "unat (of_nat (3 + 2 * m) :: u32) = 3 + 2 * m"
    and "unat (of_nat (3 + 2 * m + 2 * n) :: u32) = 3 + 2 * m + 2 * n"
    using assms by (auto simp del: of_nat_add of_nat_mult)
  then show ?thesis by (simp only: u s word_less_nat_alt word_le_nat_alt)
qed

lemma section_start:
  assumes "3 + 2 * m < 256"
  shows "unat (ucast (of_nat (3 + 2 * m) + 1 :: u32) :: u8) = (4 + 2 * m) mod 256"
proof -
  have "(of_nat (3 + 2 * m) + 1 :: u32) = of_nat (4 + 2 * m)" by simp
  moreover have "(ucast (of_nat (4 + 2 * m) :: u32) :: u8) = of_nat (4 + 2 * m)"
    unfolding unsigned_of_nat using assms by (subst take_bit_nat_eq_self) simp_all
  ultimately show ?thesis by (simp only: unat_of_nat take_bit_eq_mod) simp
qed

lemma step_product:
  assumes "n < 256" and "w < 256"
  shows "(of_nat w * of_nat n :: u32) = of_nat (n * w)" and "unat (of_nat (n * w) :: u32) = n * w"
proof -
  show "(of_nat w * of_nat n :: u32) = of_nat (n * w)" by simp
  have "n * w \<le> 255 * 255" using assms by (intro mult_le_mono) simp_all
  then show "unat (of_nat (n * w) :: u32) = n * w" by (intro unat_of_nat_u32_small) simp
qed

lemma length_list_bytes:
  assumes "length xs < 128" and "\<And>x. x \<in> set xs \<Longrightarrow> length (f x) = w"
  shows "length (list_bytes f xs) = 1 + length xs * w"
  using assms length_entries [of xs f w] by (simp add: list_bytes_def leb_bytes_small)

text \<open>The list at \<open>p\<close>: the counter is read, the entries stand behind it.\<close>

lemma list_counter:
  assumes at: "drop p mem = list_bytes f xs @ r" and n: "length xs < 128"
    and len: "0 < unat len" and mem: "p + unat len \<le> length mem"
  shows "unpack_variant32 mem p len = Inr (1, of_nat (length xs))"
    and "drop (p + 1) mem = concat (map f xs) @ r"
proof -
  have at': "drop p mem = leb_bytes (length xs) @ concat (map f xs) @ r"
    using at by (simp add: list_bytes_def)
  have leb: "leb_bytes (length xs) = [of_nat (length xs)]" using n by (rule leb_bytes_small)
  have "p + min 5 (max 1 (unat len)) \<le> length mem" using len mem by linarith
  then show "unpack_variant32 mem p len = Inr (1, of_nat (length xs))"
    using unpack_variant32_leb_bytes [OF _ at'] n len leb by simp
  show "drop (p + 1) mem = concat (map f xs) @ r"
    using drop_more [of p mem "[of_nat (length xs)]" "concat (map f xs) @ r" 0] at' leb by simp
qed

lemma drop_entries_all:
  assumes "drop p mem = concat (map f xs) @ r" and "\<And>x. x \<in> set xs \<Longrightarrow> length (f x) = w"
  shows "drop (p + length xs * w) mem = r"
  using drop_more [OF assms(1), of 0] length_entries [OF assms(2), of xs] by simp

lemma nth_append_skip:
  "c + length xs \<le> a \<Longrightarrow> (xs @ ys) ! (a - c) = ys ! (a - (c + length xs))"
proof -
  assume a: "c + length xs \<le> a"
  then obtain k where "a = c + length xs + k" by (metis le_Suc_ex)
  then show ?thesis by (simp add: nth_append)
qed

lemma delay_section_shows:
  assumes at: "drop p mem = concat (map account_entry as) @ list_bytes delay_entry ds @ r"
    and len: "length as * 18 + length (list_bytes delay_entry ds) \<le> unat len"
    and mem: "p + unat len \<le> length mem"
    and small: "nk + length as + length ds < 120"
    and fine: "list_all (\<lambda>e. unat (fst e) < 2 ^ 31) ds"
    and a: "4 + 2 * (nk + length as) \<le> a" "a < 4 + 2 * (nk + length as) + 2 * length ds"
  shows "updateAuth_delay_section (of_nat nk) (of_nat (length as)) mem p len (of_nat a) arg
    = Inr (show_screen (delay_screens ds ! (a - (4 + 2 * (nk + length as)))))"
proof -
  let ?na = "length as" and ?nd = "length ds"
  let ?p = "p + ?na * 18" and ?len = "len - of_nat (?na * 18)"
  let ?start = "of_nat (3 + 2 * (nk + ?na)) :: u32"
  have ld: "length (list_bytes delay_entry ds) = 1 + ?nd * 6"
    using small by (intro length_list_bytes) (simp_all add: length_delay_entry)
  have l: "unat ?len = unat len - ?na * 18" and l1: "unat (?len - 1) = unat len - ?na * 18 - 1"
    using len ld u32_sub [of "?na * 18" len] u32_sub_numeral(2) [of ?len] by simp_all
  have at': "drop ?p mem = list_bytes delay_entry ds @ r"
    using at by (rule drop_entries_all) (rule length_account_entry)
  have c: "unpack_variant32 mem ?p ?len = Inr (1, of_nat ?nd)"
    and e: "drop (?p + 1) mem = concat (map delay_entry ds) @ r"
    using list_counter [OF at', of ?len] small len ld l mem by simp_all
  have g: "?start < ucast (of_nat a :: u8)" "ucast (of_nat a :: u8) \<le> ?start + of_nat ?nd * 2"
    using section_guard [of ?nd "nk + ?na" a] a small by simp_all
  have ua: "unat (of_nat a :: u8) = a" using a small by (intro unat_of_nat_u8_small) simp
  have us: "unat (ucast (?start + 1) :: u8) = 4 + 2 * (nk + ?na)"
    using section_start [of "nk + ?na"] small by simp
  have lp: "updateAuth_delays 256 0 (ucast (?start + 1)) (of_nat ?nd) mem (?p + 1) (?len - 1) (of_nat a) arg
      = Inr (Inl (show_screen (delay_screens ds ! (a - (4 + 2 * (nk + ?na))))))"
    unfolding delay_screens_def
    using delay_entries.shows_entries [OF e fine, of "?len - 1" "ucast (?start + 1)" "of_nat a" "of_nat ?nd"]
      l1 len ld mem a small ua us by (simp add: unat_of_nat_u32_small del: of_nat_add of_nat_mult)
  have st: "(3 + of_nat nk * 2 + of_nat ?na * 2 :: u32) = ?start" by simp
  have d1: "?p = p + unat ((of_nat (sizeof_permission_level + 2) :: u32) * of_nat ?na)"
    and d2: "?len = len - (of_nat (sizeof_permission_level + 2) :: u32) * of_nat ?na"
    using step_product [of ?na 18] small by (simp_all add: mult.commute)
  show ?thesis
    unfolding updateAuth_delay_section_def Let_def st d1 [symmetric] d2 [symmetric]
    using c g lp by (simp add: of_nat_Suc [of 0] del: of_nat_add of_nat_mult of_nat_Suc)
qed

text \<open>The account section: its own screens, or on to the delays.\<close>

lemma account_section_shows:
  assumes at: "drop p mem = concat (map key_entry ks) @ list_bytes account_entry as @ list_bytes delay_entry ds @ r"
    and len: "length ks * 36 + length (list_bytes account_entry as) + length (list_bytes delay_entry ds) \<le> unat len"
    and mem: "p + unat len \<le> length mem"
    and small: "length ks + length as + length ds < 120"
    and keys: "list_all (\<lambda>e. key_fine h (fst e)) ks"
    and fine: "list_all (\<lambda>e. unat (fst e) < 2 ^ 31) ds"
    and a: "4 + 2 * length ks \<le> a" "a < 4 + 2 * (length ks + length as + length ds)"
  shows "updateAuth_account_section (of_nat (length ks)) mem p len (of_nat a) arg
    = Inr (show_screen ((account_screens as @ delay_screens ds) ! (a - (4 + 2 * length ks))))"
proof -
  let ?nk = "length ks" and ?na = "length as"
  let ?p = "p + ?nk * 36" and ?len = "len - of_nat (?nk * 36)"
  let ?start = "of_nat (3 + 2 * ?nk) :: u32"
  have la: "length (list_bytes account_entry as) = 1 + ?na * 18"
    using small by (intro length_list_bytes) (simp_all add: length_account_entry)
  have l: "unat ?len = unat len - ?nk * 36" and l1: "unat (?len - 1) = unat len - ?nk * 36 - 1"
    using len la u32_sub [of "?nk * 36" len] u32_sub_numeral(2) [of ?len] by simp_all
  have w: "length (key_entry x) = 36" if "x \<in> set ks" for x
    using that keys by (auto simp: list_all_iff intro: length_key_entry)
  have at': "drop ?p mem = list_bytes account_entry as @ list_bytes delay_entry ds @ r"
    using at w by (rule drop_entries_all)
  have c: "unpack_variant32 mem ?p ?len = Inr (1, of_nat ?na)"
    and e: "drop (?p + 1) mem = concat (map account_entry as) @ list_bytes delay_entry ds @ r"
    using list_counter [OF at', of ?len] small len la l mem by simp_all
  have ua: "unat (of_nat a :: u8) = a" using a small by (intro unat_of_nat_u8_small) simp
  have guard: "(?start < ucast (of_nat a :: u8) \<and> ucast (of_nat a :: u8) \<le> ?start + of_nat ?na * 2)
      \<longleftrightarrow> a \<le> 3 + 2 * ?nk + 2 * ?na"
    using section_guard [of ?na ?nk a] a small by simp
  have st: "(3 + of_nat ?nk * 2 :: u32) = ?start" by simp
  have d1: "?p = p + unat ((of_nat (1 + sizeof_public_key + 2) :: u32) * of_nat ?nk)"
    and d2: "?len = len - (of_nat (1 + sizeof_public_key + 2) :: u32) * of_nat ?nk"
    using step_product [of ?nk 36] small by (simp_all add: mult.commute)
  have sec: "updateAuth_account_section (of_nat ?nk) mem p len (of_nat a) arg =
      andThen (if a \<le> 3 + 2 * ?nk + 2 * ?na
        then updateAuth_accounts 256 0 (ucast (?start + 1)) (of_nat ?na) mem (?p + 1) (?len - 1) (of_nat a) arg
        else Inr (Inr (?p + 1, ?len - 1)))
      (\<lambda>r. case r of Inl arg \<Rightarrow> Inr arg | Inr (accounts, accountsBufferLen) \<Rightarrow>
         updateAuth_delay_section (of_nat ?nk) (of_nat ?na) mem accounts accountsBufferLen (of_nat a) arg)"
    unfolding updateAuth_account_section_def Let_def st d1 [symmetric] d2 [symmetric]
    using c guard by (simp add: of_nat_Suc [of 0] del: of_nat_add of_nat_mult of_nat_Suc)
  show ?thesis
  proof (cases "a \<le> 3 + 2 * ?nk + 2 * ?na")
    case True
    have us: "unat (ucast (?start + 1) :: u8) = 4 + 2 * ?nk"
      using section_start [of ?nk] small by simp
    have "list_all (\<lambda>_. True) as" by (simp add: list_all_iff)
    then have "updateAuth_accounts 256 0 (ucast (?start + 1)) (of_nat ?na) mem (?p + 1) (?len - 1) (of_nat a) arg
        = Inr (Inl (show_screen (account_screens as ! (a - (4 + 2 * ?nk)))))"
      unfolding account_screens_def
      using account_entries.shows_entries [OF e, of "?len - 1" "ucast (?start + 1)" "of_nat a" "of_nat ?na"]
        l1 len la mem a small ua us True by (simp add: unat_of_nat_u32_small del: of_nat_add of_nat_mult)
    then show ?thesis using True a unfolding sec by (simp add: nth_append)
  next
    case False
    have "updateAuth_delay_section (of_nat ?nk) (of_nat ?na) mem (?p + 1) (?len - 1) (of_nat a) arg
        = Inr (show_screen (delay_screens ds ! (a - (4 + 2 * (?nk + ?na)))))"
      using e len la l1 mem small fine a False by (intro delay_section_shows) simp_all
    moreover have "(account_screens as @ delay_screens ds) ! (a - (4 + 2 * ?nk))
        = delay_screens ds ! (a - (4 + 2 * (?nk + ?na)))"
      using False nth_append_skip [of "4 + 2 * ?nk" "account_screens as" a] by (simp add: distrib_left add.assoc)
    ultimately show ?thesis using False unfolding sec by simp
  qed
qed

lemma key_section_shows:
  assumes at: "drop p mem = list_bytes key_entry ks @ list_bytes account_entry as @ list_bytes delay_entry ds @ r"
    and len: "length (list_bytes key_entry ks) + length (list_bytes account_entry as)
      + length (list_bytes delay_entry ds) \<le> unat len"
    and mem: "p + unat len \<le> length mem"
    and small: "length ks + length as + length ds < 120"
    and keys: "list_all (\<lambda>e. key_fine h (fst e)) ks"
    and fine: "list_all (\<lambda>e. unat (fst e) < 2 ^ 31) ds"
    and a: "4 \<le> a" "a < 4 + 2 * (length ks + length as + length ds)"
  shows "updateAuth_key_section h mem p len (of_nat a) arg
    = Inr (show_screen ((key_screens h ks @ account_screens as @ delay_screens ds) ! (a - 4)))"
proof -
  let ?nk = "length ks"
  have w: "length (key_entry x) = 36" if "x \<in> set ks" for x
    using that keys by (auto simp: list_all_iff intro: length_key_entry)
  then have lk: "length (list_bytes key_entry ks) = 1 + ?nk * 36"
    using small by (intro length_list_bytes) simp_all
  have l1: "unat (len - 1) = unat len - 1" using len lk by (simp add: u32_sub_numeral)
  have c: "unpack_variant32 mem p len = Inr (1, of_nat ?nk)"
    and e: "drop (p + 1) mem = concat (map key_entry ks) @ list_bytes account_entry as
      @ list_bytes delay_entry ds @ r"
    using list_counter [OF at, of len] small len lk mem by simp_all
  have ua: "unat (of_nat a :: u8) = a" using a small by (intro unat_of_nat_u8_small) simp
  have guard: "(3 < (ucast (of_nat a :: u8) :: u32) \<and> ucast (of_nat a :: u8) \<le> (3 + of_nat ?nk * 2 :: u32))
      \<longleftrightarrow> a \<le> 3 + 2 * ?nk"
    using section_guard [of ?nk 0 a] a small by simp
  have sec: "updateAuth_key_section h mem p len (of_nat a) arg =
      andThen (if a \<le> 3 + 2 * ?nk
        then updateAuth_keys h 256 0 4 (of_nat ?nk) mem (p + 1) (len - 1) (of_nat a) arg
        else Inr (Inr (p + 1, len - 1)))
      (\<lambda>r. case r of Inl arg \<Rightarrow> Inr arg | Inr (keys, keyBufferLength) \<Rightarrow>
         updateAuth_account_section (of_nat ?nk) mem keys keyBufferLength (of_nat a) arg)"
    unfolding updateAuth_key_section_def Let_def
    using c guard by (simp add: of_nat_Suc [of 0] del: of_nat_Suc)
  show ?thesis
  proof (cases "a \<le> 3 + 2 * ?nk")
    case True
    have "updateAuth_keys h 256 0 4 (of_nat ?nk) mem (p + 1) (len - 1) (of_nat a) arg
        = Inr (Inl (show_screen (key_screens h ks ! (a - 4))))"
      unfolding key_screens_def
      using key_entries.shows_entries [OF e keys, of "len - 1" "4" "of_nat a" "of_nat ?nk"]
        l1 len lk mem a small ua True by (simp add: unat_of_nat_u32_small)
    then show ?thesis using True a unfolding sec by (simp add: nth_append)
  next
    case False
    have "updateAuth_account_section (of_nat ?nk) mem (p + 1) (len - 1) (of_nat a) arg
        = Inr (show_screen ((account_screens as @ delay_screens ds) ! (a - (4 + 2 * ?nk))))"
      using e len lk l1 mem small keys fine a False by (intro account_section_shows) simp_all
    moreover have "(key_screens h ks @ account_screens as @ delay_screens ds) ! (a - 4)
        = (account_screens as @ delay_screens ds) ! (a - (4 + 2 * ?nk))"
      using False nth_append_skip [of 4 "key_screens h ks" a] by simp
    ultimately show ?thesis using False unfolding sec by simp
  qed
qed

lemma null_parent_shown:
  "arg_of (parseStringField (4 # cstr ''NULL'') 0 5 (cstr ''Parent'') arg)
    = Inr (shown (cstr ''Parent'') (cstr ''NULL''))"
  by (rule string_shown [where rest = "[]"]) (simp_all add: leb_bytes_small)

text \<open>The sizes of an authority whose bytes fit the buffer.\<close>

lemma authority_sizes:
  assumes "authority_fine h auth" and "length (authority_bytes auth) \<le> 487"
  shows "length (auth_keys auth) + length (auth_accounts auth) + length (auth_delays auth) < 120"
proof -
  have "length (concat (map key_entry (auth_keys auth))) = length (auth_keys auth) * 36"
    using assms(1) by (intro length_entries length_key_entry [of h]) (auto simp: authority_fine_def list_all_iff)
  moreover have "length (concat (map account_entry (auth_accounts auth))) = length (auth_accounts auth) * 18"
    by (intro length_entries length_account_entry)
  moreover have "length (concat (map delay_entry (auth_delays auth))) = length (auth_delays auth) * 6"
    by (intro length_entries length_delay_entry)
  ultimately show ?thesis
    using assms(2) by (simp add: authority_bytes_def authority_lists_bytes_def list_bytes_def)
qed

lemma parseUpdateAuth_shows:
  assumes fine: "action_fine h (UpdateAuth account permission parent auth)"
  shows "shows_action h (parseUpdateAuth h) (UpdateAuth account permission parent auth)"
proof (rule shows_actionI)
  fix rest i arg
  let ?a = "UpdateAuth account permission parent auth"
  let ?mem = "action_bytes ?a @ rest"
  define len :: u32 where "len = of_nat (length (action_bytes ?a))"
  assume i: "i < length (action_screens h ?a)"
  have auth: "authority_fine h auth" "length (authority_bytes auth) \<le> 487" using fine by simp_all
  note small = authority_sizes [OF auth]
  have "24 + length (authority_bytes auth) < 2 ^ 32" using auth(2) by simp
  moreover have "len = of_nat (24 + length (authority_bytes auth))" unfolding len_def by simp
  ultimately have len: "unat len = 24 + length (authority_bytes auth)" by (simp only: unat_of_nat_u32_small)
  have la: "4 \<le> length (authority_bytes auth)" by (simp add: authority_bytes_def)
  have rd: "mem_read ?mem 16 8 = Inr (u64_bytes parent)" by (simp add: mem_read_def)
  have "parseUpdateAuth h ?mem 0 len (of_nat i) arg = Inr (show_screen (action_screens h ?a ! i))"
  proof (cases "i < 4")
    case True
    then have "i = 0 \<or> i = 1 \<or> i = 2 \<or> i = 3" by (rule less_4_cases)
    then show ?thesis
      using len la auth(1) rd null_parent_shown
      by (elim disjE) (simp_all add: parseUpdateAuth_def Let_def screen_simps u32_sub_numeral
          authority_bytes_def authority_fine_def)
  next
    case False
    have at: "drop 28 ?mem = list_bytes key_entry (auth_keys auth)
        @ list_bytes account_entry (auth_accounts auth) @ list_bytes delay_entry (auth_delays auth) @ rest"
      by (simp add: authority_bytes_def authority_lists_bytes_def)
    have "unat (of_nat i :: u8) = i" using i small by (intro unat_of_nat_u8_small) simp
    then have "(of_nat i :: u8) \<noteq> 0" "(of_nat i :: u8) \<noteq> 1" "(of_nat i :: u8) \<noteq> 2" "(of_nat i :: u8) \<noteq> 3"
      using False by auto
    then have "parseUpdateAuth h ?mem 0 len (of_nat i) arg
        = updateAuth_key_section h ?mem 28 (len - 28) (of_nat i) arg"
      using rd by (simp add: parseUpdateAuth_def Let_def del: action_bytes.simps)
    also have "\<dots> = Inr (show_screen ((key_screens h (auth_keys auth)
        @ account_screens (auth_accounts auth) @ delay_screens (auth_delays auth)) ! (i - 4)))"
      using at small i len la auth(1) False
      by (intro key_section_shows)
        (simp_all add: u32_sub_numeral authority_bytes_def authority_lists_bytes_def authority_fine_def)
    also have "i = Suc (Suc (Suc (Suc (i - 4))))" using False by simp
    then obtain k where "i = Suc (Suc (Suc (Suc k)))" ..
    then have "(key_screens h (auth_keys auth) @ account_screens (auth_accounts auth)
        @ delay_screens (auth_delays auth)) ! (i - 4) = action_screens h ?a ! i" by simp
    finally show ?thesis .
  qed
  then show "parseUpdateAuth h ?mem 0 (of_nat (length (action_bytes ?a))) (of_nat i) arg
      = Inr (show_screen (action_screens h ?a ! i))"
    by (simp only: len_def)
qed

end
