(* ===== verification/Eos_Context.thy ===== *)
theory Eos_Context
  imports Eos_Actions
begin

text \<open>
  The first part of \<^verbatim>\<open>src/eos_stream.c\<close> with \<^verbatim>\<open>src/eos_stream.h\<close>: the parser's context, the
  functions that count the arguments of a complete action (\<open>process...\<close>), the choice of the
  function that prints an argument (\<open>printArgument\<close>) and the test for a known action.

  SHA-256 belongs to the device's library. It is a parameter, \<open>'h hash_ops\<close>: the fresh state,
  feeding bytes and finishing, the last two fallible as \<open>cx_hash_no_throw\<close> is. The pointers
  \<open>sha256\<close>, \<open>dataSha256\<close> and \<open>content\<close> of the context always point to the same globals, which
  are fields of the record here. \<open>workBuffer\<close> is a position in the array that \<open>buffer\<close> of
  \<open>parseTx\<close> points into, or \<open>None\<close> for \<open>NULL\<close>; that array is an argument of every function
  that reads through it, because the host's next command overwrites it.
\<close>

section \<open>State\<close>

record 'h hash_ops =
  hash_init :: 'h
  hash_update :: "'h \<Rightarrow> bytes \<Rightarrow> 'h option"
  hash_final :: "'h \<Rightarrow> (bytes \<times> 'h) option"

record txProcessingContent_t =
  argumentCount :: u8
  contract :: bytes
  action :: bytes
  arg :: actionArgument_t

datatype txProcessingState_e =
    TLV_NONE
  | TLV_CHAIN_ID
  | TLV_HEADER_EXPITATION
  | TLV_HEADER_REF_BLOCK_NUM
  | TLV_HEADER_REF_BLOCK_PREFIX
  | TLV_HEADER_MAX_NET_USAGE_WORDS
  | TLV_HEADER_MAX_CPU_USAGE_MS
  | TLV_HEADER_DELAY_SEC
  | TLV_CFA_LIST_SIZE
  | TLV_ACTION_LIST_SIZE
  | TLV_ACTION_ACCOUNT
  | TLV_ACTION_NAME
  | TLV_AUTHORIZATION_LIST_SIZE
  | TLV_AUTHORIZATION_ACTOR
  | TLV_AUTHORIZATION_PERMISSION
  | TLV_ACTION_DATA_SIZE
  | TLV_ACTION_DATA
  | TLV_TX_EXTENSION_LIST_SIZE
  | TLV_CONTEXT_FREE_DATA
  | TLV_DONE

datatype parserStatus_e =
    STREAM_FAULT
  | STREAM_PROCESSING
  | STREAM_ACTION_READY
  | STREAM_CONFIRM_PROCESSING
  | STREAM_FINISHED

record 'h txProcessingContext_t =
  state :: txProcessingState_e
  actionReady :: bool
  confirmProcessing :: bool
  sha256 :: 'h
  dataSha256 :: 'h
  currentFieldLength :: u32
  currentFieldPos :: u32
  currentAutorizationIndex :: u32
  currentAutorizationNumber :: u32
  currentActionIndex :: u32
  currentActionNumber :: u32
  currentActionDataBufferLength :: u32
  processingField :: bool
  tlvBuffer :: bytes
  tlvBufferPos :: u32
  workBuffer :: "nat option"
  commandLength :: u32
  contractName :: u64
  contractActionName :: u64
  sizeBuffer :: bytes
  actionDataBuffer :: bytes
  dataAllowed :: u8
  dataChecksum :: bytes
  content :: txProcessingContent_t

text \<open>The states in the order of the enumeration, which is the order of the fields on the wire.\<close>

primrec state_value :: "txProcessingState_e \<Rightarrow> nat" where
  "state_value TLV_NONE = 0"
| "state_value TLV_CHAIN_ID = 1"
| "state_value TLV_HEADER_EXPITATION = 2"
| "state_value TLV_HEADER_REF_BLOCK_NUM = 3"
| "state_value TLV_HEADER_REF_BLOCK_PREFIX = 4"
| "state_value TLV_HEADER_MAX_NET_USAGE_WORDS = 5"
| "state_value TLV_HEADER_MAX_CPU_USAGE_MS = 6"
| "state_value TLV_HEADER_DELAY_SEC = 7"
| "state_value TLV_CFA_LIST_SIZE = 8"
| "state_value TLV_ACTION_LIST_SIZE = 9"
| "state_value TLV_ACTION_ACCOUNT = 10"
| "state_value TLV_ACTION_NAME = 11"
| "state_value TLV_AUTHORIZATION_LIST_SIZE = 12"
| "state_value TLV_AUTHORIZATION_ACTOR = 13"
| "state_value TLV_AUTHORIZATION_PERMISSION = 14"
| "state_value TLV_ACTION_DATA_SIZE = 15"
| "state_value TLV_ACTION_DATA = 16"
| "state_value TLV_TX_EXTENSION_LIST_SIZE = 17"
| "state_value TLV_CONTEXT_FREE_DATA = 18"
| "state_value TLV_DONE = 19"

lemma state_value_inj: "state_value s = state_value t \<longleftrightarrow> s = t"
  by (cases s; cases t) simp_all

instantiation txProcessingState_e :: linorder
begin

definition less_eq_txProcessingState_e where "s \<le> t \<longleftrightarrow> state_value s \<le> state_value t"
definition less_txProcessingState_e where "s < t \<longleftrightarrow> state_value s < state_value t"

instance
  by standard (auto simp: less_eq_txProcessingState_e_def less_txProcessingState_e_def state_value_inj)

end

text \<open>\<open>context->state++\<close>; the parser never takes this step from \<open>TLV_DONE\<close>.\<close>

fun next_state :: "txProcessingState_e \<Rightarrow> txProcessingState_e" where
  "next_state TLV_NONE = TLV_CHAIN_ID"
| "next_state TLV_CHAIN_ID = TLV_HEADER_EXPITATION"
| "next_state TLV_HEADER_EXPITATION = TLV_HEADER_REF_BLOCK_NUM"
| "next_state TLV_HEADER_REF_BLOCK_NUM = TLV_HEADER_REF_BLOCK_PREFIX"
| "next_state TLV_HEADER_REF_BLOCK_PREFIX = TLV_HEADER_MAX_NET_USAGE_WORDS"
| "next_state TLV_HEADER_MAX_NET_USAGE_WORDS = TLV_HEADER_MAX_CPU_USAGE_MS"
| "next_state TLV_HEADER_MAX_CPU_USAGE_MS = TLV_HEADER_DELAY_SEC"
| "next_state TLV_HEADER_DELAY_SEC = TLV_CFA_LIST_SIZE"
| "next_state TLV_CFA_LIST_SIZE = TLV_ACTION_LIST_SIZE"
| "next_state TLV_ACTION_LIST_SIZE = TLV_ACTION_ACCOUNT"
| "next_state TLV_ACTION_ACCOUNT = TLV_ACTION_NAME"
| "next_state TLV_ACTION_NAME = TLV_AUTHORIZATION_LIST_SIZE"
| "next_state TLV_AUTHORIZATION_LIST_SIZE = TLV_AUTHORIZATION_ACTOR"
| "next_state TLV_AUTHORIZATION_ACTOR = TLV_AUTHORIZATION_PERMISSION"
| "next_state TLV_AUTHORIZATION_PERMISSION = TLV_ACTION_DATA_SIZE"
| "next_state TLV_ACTION_DATA_SIZE = TLV_ACTION_DATA"
| "next_state TLV_ACTION_DATA = TLV_TX_EXTENSION_LIST_SIZE"
| "next_state TLV_TX_EXTENSION_LIST_SIZE = TLV_CONTEXT_FREE_DATA"
| "next_state TLV_CONTEXT_FREE_DATA = TLV_DONE"
| "next_state TLV_DONE = TLV_DONE"

lemma next_state_value: "s \<noteq> TLV_DONE \<Longrightarrow> state_value (next_state s) = state_value s + 1"
  by (cases s) simp_all

lemma next_state_greater: "s \<noteq> TLV_DONE \<Longrightarrow> s < next_state s"
  by (simp add: less_txProcessingState_e_def next_state_value)

section \<open>Start of a transaction\<close>

text \<open>
  Everything is zero but the fields set after the \<open>memset\<close>; the two hash states are fresh and the
  content is the caller's, not cleared.
\<close>

definition initTxContext :: "'h hash_ops \<Rightarrow> txProcessingContent_t \<Rightarrow> u8 \<Rightarrow> 'h txProcessingContext_t" where
  "initTxContext ops processingContent allowed =
     \<lparr>state = TLV_CHAIN_ID, actionReady = False, confirmProcessing = False,
      sha256 = hash_init ops, dataSha256 = hash_init ops,
      currentFieldLength = 0, currentFieldPos = 0,
      currentAutorizationIndex = 0, currentAutorizationNumber = 0,
      currentActionIndex = 0, currentActionNumber = 0, currentActionDataBufferLength = 0,
      processingField = False, tlvBuffer = zeros 5, tlvBufferPos = 0,
      workBuffer = None, commandLength = 0, contractName = 0, contractActionName = 0,
      sizeBuffer = zeros 12, actionDataBuffer = zeros 512, dataAllowed = allowed,
      dataChecksum = zeros 32, content = processingContent\<rparr>"

text \<open>Reading \<open>n\<close> bytes at \<open>workBuffer\<close> and moving past them.\<close>

definition work_read :: "bytes \<Rightarrow> 'h txProcessingContext_t \<Rightarrow> nat \<Rightarrow> bytes result" where
  "work_read mem ctx n =
     (if n = 0 then Inr []
      else case workBuffer ctx of None \<Rightarrow> Inl OutOfBounds | Some off \<Rightarrow> mem_read mem off n)"

definition work_skip :: "u32 \<Rightarrow> 'h txProcessingContext_t \<Rightarrow> 'h txProcessingContext_t" where
  "work_skip n ctx = ctx\<lparr>workBuffer := map_option (\<lambda>off. off + unat n) (workBuffer ctx),
     commandLength := commandLength ctx - n\<rparr>"

definition readTxByte :: "bytes \<Rightarrow> 'h txProcessingContext_t \<Rightarrow> (u8 \<times> 'h txProcessingContext_t) result" where
  "readTxByte mem ctx =
     andThen (LEDGER_ASSERT (commandLength ctx \<ge> 1) ''readTxByte Underflow'') (\<lambda>_.
     andThen (work_read mem ctx 1) (\<lambda>bs. Inr (hd bs, work_skip 1 ctx)))"

section \<open>Counting the arguments of a complete action\<close>

definition EOSIO_TOKEN_TRANSFER :: u64 where "EOSIO_TOKEN_TRANSFER = 0xCDCD3C2D57000000"
definition EOSIO :: u64 where "EOSIO = 0x5530EA0000000000"
definition EOSIO_DELEGATEBW :: u64 where "EOSIO_DELEGATEBW = 0x4AA2A61B2A3F0000"
definition EOSIO_UNDELEGATEBW :: u64 where "EOSIO_UNDELEGATEBW = 0xD4D2A8A986CA8FC0"
definition EOSIO_VOTEPRODUCER :: u64 where "EOSIO_VOTEPRODUCER = 0xDD32AADE89D21570"
definition EOSIO_BUYRAM :: u64 where "EOSIO_BUYRAM = 0x3EBD734800000000"
definition EOSIO_BUYRAMBYTES :: u64 where "EOSIO_BUYRAMBYTES = 0x3EBD7348FECAB000"
definition EOSIO_SELLRAM :: u64 where "EOSIO_SELLRAM = 0xC2A31B9A40000000"
definition EOSIO_UPDATE_AUTH :: u64 where "EOSIO_UPDATE_AUTH = 0xD5526CA8DACB4000"
definition EOSIO_DELETE_AUTH :: u64 where "EOSIO_DELETE_AUTH = 0x4AA2ACA8DACB4000"
definition EOSIO_REFUND :: u64 where "EOSIO_REFUND = 0xBA97A9A400000000"
definition EOSIO_LINK_AUTH :: u64 where "EOSIO_LINK_AUTH = 0x8BA7036B2D000000"
definition EOSIO_UNLINK_AUTH :: u64 where "EOSIO_UNLINK_AUTH = 0xD4E2E9C0DACB4000"
definition EOSIO_NEW_ACCOUNT :: u64 where "EOSIO_NEW_ACCOUNT = 0x9AB864229A9E4000"

lemmas action_names = EOSIO_TOKEN_TRANSFER_def EOSIO_def EOSIO_DELEGATEBW_def EOSIO_UNDELEGATEBW_def
  EOSIO_VOTEPRODUCER_def EOSIO_BUYRAM_def EOSIO_BUYRAMBYTES_def EOSIO_SELLRAM_def EOSIO_UPDATE_AUTH_def
  EOSIO_DELETE_AUTH_def EOSIO_REFUND_def EOSIO_LINK_AUTH_def EOSIO_UNLINK_AUTH_def EOSIO_NEW_ACCOUNT_def

definition set_count :: "u8 \<Rightarrow> 'h txProcessingContext_t \<Rightarrow> 'h txProcessingContext_t" where
  "set_count n ctx = ctx\<lparr>content := (content ctx)\<lparr>argumentCount := n\<rparr>\<rparr>"

definition add_count :: "u8 \<Rightarrow> 'h txProcessingContext_t \<Rightarrow> 'h txProcessingContext_t" where
  "add_count n ctx = set_count (argumentCount (content ctx) + n) ctx"

definition processTokenTransfer :: "'h txProcessingContext_t \<Rightarrow> 'h txProcessingContext_t result" where
  "processTokenTransfer ctx =
     (let ctx = set_count 3 ctx;
          bufferLength = currentActionDataBufferLength ctx;
          buffer = 2 * sizeof_name + sizeof_asset;
          bufferLength = bufferLength - of_nat (2 * sizeof_name + sizeof_asset)
      in andThen (unpack_variant32 (actionDataBuffer ctx) buffer bufferLength) (\<lambda>(_, memoLength).
         Inr (if memoLength > 0 then add_count 1 ctx else ctx)))"

definition processEosioDelegate :: "'h txProcessingContext_t \<Rightarrow> 'h txProcessingContext_t result" where
  "processEosioDelegate ctx =
     (let ctx = set_count 4 ctx
      in andThen (mem_get (actionDataBuffer ctx) (2 * sizeof_name + 2 * sizeof_asset)) (\<lambda>b.
         Inr (if b \<noteq> 0 then add_count 1 ctx else ctx)))"

definition processEosioUndelegate :: "'h txProcessingContext_t \<Rightarrow> 'h txProcessingContext_t result" where
  "processEosioUndelegate ctx = Inr (set_count 4 ctx)"

definition processEosioRefund :: "'h txProcessingContext_t \<Rightarrow> 'h txProcessingContext_t result" where
  "processEosioRefund ctx = Inr (set_count 1 ctx)"

definition processEosioBuyRam :: "'h txProcessingContext_t \<Rightarrow> 'h txProcessingContext_t result" where
  "processEosioBuyRam ctx = Inr (set_count 3 ctx)"

definition processEosioSellRam :: "'h txProcessingContext_t \<Rightarrow> 'h txProcessingContext_t result" where
  "processEosioSellRam ctx = Inr (set_count 2 ctx)"

text \<open>The count of producers is added to an eight-bit number: it wraps.\<close>

definition processEosioVoteProducer :: "'h txProcessingContext_t \<Rightarrow> 'h txProcessingContext_t result" where
  "processEosioVoteProducer ctx =
     (let bufferLength = currentActionDataBufferLength ctx;
          ctx = set_count 1 ctx;
          buffer = sizeof_name
      in andThen (mem_read (actionDataBuffer ctx) buffer sizeof_name) (\<lambda>bs.
         let proxy = le_word bs :: u64 in
         if proxy \<noteq> 0 then Inr (add_count 1 ctx)
         else
           let buffer = buffer + sizeof_name
           in andThen (unpack_variant32 (actionDataBuffer ctx) buffer bufferLength) (\<lambda>(_, totalProducers).
              Inr (add_count (ucast totalProducers) ctx))))"

text \<open>
  \<open>__builtin_mul_overflow\<close> and \<open>__builtin_add_overflow\<close>: \<open>None\<close> when the exact value does not
  fit the type of the result. Here they only occur negated under an assertion.
\<close>

definition mul_no_overflow :: "u32 \<Rightarrow> u32 \<Rightarrow> u32 option" where
  "mul_no_overflow a b = (if unat a * unat b < 2 ^ 32 then Some (a * b) else None)"

definition add_no_overflow :: "u32 \<Rightarrow> u32 \<Rightarrow> u32 option" where
  "add_no_overflow a b = (if unat a + unat b < 2 ^ 32 then Some (a + b) else None)"

definition count_no_overflow :: "u8 \<Rightarrow> u32 \<Rightarrow> u8 option" where
  "count_no_overflow a b = (if unat a + unat b < 2 ^ 8 then Some (a + ucast b) else None)"

definition assert_some :: "'a option \<Rightarrow> string \<Rightarrow> 'a result" where
  "assert_some r msg = (case r of None \<Rightarrow> Inl (Assertion msg) | Some x \<Rightarrow> Inr x)"

lemma assert_some_eq_Inr [res_simps]: "assert_some r msg = Inr x \<longleftrightarrow> r = Some x"
  by (cases r) (auto simp: assert_some_def)

lemma assert_some_Some [simp]: "assert_some (Some x) msg = Inr x"
  by (simp add: assert_some_def)

lemma stops_cleanly_assert_some [simp]: "stops_cleanly (assert_some r msg)"
  by (cases r) (simp_all add: assert_some_def)

definition processEosioUpdateAuth :: "'h txProcessingContext_t \<Rightarrow> 'h txProcessingContext_t result" where
  "processEosioUpdateAuth ctx =
     (let msg = ''processEosioUpdateAuth'';
          bufferLength = currentActionDataBufferLength ctx;
          buffer = 0;
          ctx = set_count 4 ctx;
          offset_update = of_nat (3 * sizeof_name + 4) :: u32
      in
      andThen (LEDGER_ASSERT (offset_update < bufferLength) msg) (\<lambda>_.
      let buffer = buffer + unat offset_update;
          bufferLength = bufferLength - offset_update in
      andThen (unpack_variant32 (actionDataBuffer ctx) buffer bufferLength) (\<lambda>(read, totalKeys).
      andThen (LEDGER_ASSERT (of_nat read < bufferLength) msg) (\<lambda>_.
      let buffer = buffer + read;
          bufferLength = bufferLength - of_nat read in
      andThen (assert_some (mul_no_overflow (of_nat (1 + sizeof_public_key + 2)) totalKeys) msg) (\<lambda>offset_update.
      andThen (LEDGER_ASSERT (offset_update < bufferLength) msg) (\<lambda>_.
      let buffer = buffer + unat offset_update;
          bufferLength = bufferLength - offset_update in
      andThen (assert_some (add_no_overflow totalKeys totalKeys) msg) (\<lambda>totalKeys.
      andThen (assert_some (count_no_overflow (argumentCount (content ctx)) totalKeys) msg) (\<lambda>count.
      let ctx = set_count count ctx in
      andThen (unpack_variant32 (actionDataBuffer ctx) buffer bufferLength) (\<lambda>(read, totalAccounts).
      andThen (LEDGER_ASSERT (of_nat read < bufferLength) msg) (\<lambda>_.
      let buffer = buffer + read;
          bufferLength = bufferLength - of_nat read in
      andThen (assert_some (mul_no_overflow (of_nat (sizeof_permission_level + 2)) totalAccounts) msg) (\<lambda>offset_update.
      andThen (LEDGER_ASSERT (offset_update < bufferLength) msg) (\<lambda>_.
      let buffer = buffer + unat offset_update;
          bufferLength = bufferLength - offset_update in
      andThen (assert_some (add_no_overflow totalAccounts totalAccounts) msg) (\<lambda>totalAccounts.
      andThen (assert_some (count_no_overflow (argumentCount (content ctx)) totalAccounts) msg) (\<lambda>count.
      let ctx = set_count count ctx in
      andThen (unpack_variant32 (actionDataBuffer ctx) buffer bufferLength) (\<lambda>(_, totalWaits).
      andThen (assert_some (add_no_overflow totalWaits totalWaits) msg) (\<lambda>totalWaits.
      andThen (assert_some (count_no_overflow (argumentCount (content ctx)) totalWaits) msg) (\<lambda>count.
        Inr (set_count count ctx))))))))))))))))))"

definition processEosioDeleteAuth :: "'h txProcessingContext_t \<Rightarrow> 'h txProcessingContext_t result" where
  "processEosioDeleteAuth ctx = Inr (set_count 2 ctx)"

definition processEosioLinkAuth :: "'h txProcessingContext_t \<Rightarrow> 'h txProcessingContext_t result" where
  "processEosioLinkAuth ctx = Inr (set_count 4 ctx)"

definition processEosioUnlinkAuth :: "'h txProcessingContext_t \<Rightarrow> 'h txProcessingContext_t result" where
  "processEosioUnlinkAuth ctx = Inr (set_count 3 ctx)"

definition processUnknownAction :: "'h hash_ops \<Rightarrow> 'h txProcessingContext_t \<Rightarrow> 'h txProcessingContext_t result" where
  "processUnknownAction ops ctx =
     andThen (CX_ASSERT (hash_final ops (dataSha256 ctx))) (\<lambda>(digest, h).
       Inr (set_count 3 (ctx\<lparr>dataSha256 := h, dataChecksum := digest\<rparr>)))"

text \<open>
  One authority of a new account, from \<open>buffer\<close> on: threshold, one key and its weight, no accounts,
  no delays. The code has the block twice, for the owner and the active authority; the result is
  the position and the length behind it.
\<close>

definition newAccount_authority :: "string \<Rightarrow> string \<Rightarrow> string \<Rightarrow> bytes \<Rightarrow> nat \<Rightarrow> u32 \<Rightarrow> (nat \<times> u32) result" where
  "newAccount_authority msg_threshold msg_key msg_weight mem buffer bufferLength =
     andThen (mem_read mem buffer 4) (\<lambda>bs.
     andThen (LEDGER_ASSERT ((le_word bs :: u32) = 1) msg_threshold) (\<lambda>_.
     let buffer = buffer + 4;
         bufferLength = bufferLength - 4 in
     andThen (unpack_variant32 mem buffer bufferLength) (\<lambda>(read, sz).
     andThen (LEDGER_ASSERT (sz = 1) msg_key) (\<lambda>_.
     let buffer = buffer + read;
         bufferLength = bufferLength - of_nat read;
         buffer = buffer + (1 + sizeof_public_key);
         bufferLength = bufferLength - of_nat (1 + sizeof_public_key) in
     andThen (mem_read mem buffer 2) (\<lambda>bs.
     andThen (LEDGER_ASSERT ((le_word bs :: u16) = 1) msg_weight) (\<lambda>_.
     let buffer = buffer + 2;
         bufferLength = bufferLength - 2 in
     andThen (unpack_variant32 mem buffer bufferLength) (\<lambda>(read, sz).
     andThen (LEDGER_ASSERT (sz = 0) ''No accounts allowed'') (\<lambda>_.
     let buffer = buffer + read;
         bufferLength = bufferLength - of_nat read in
     andThen (unpack_variant32 mem buffer bufferLength) (\<lambda>(read, sz).
     andThen (LEDGER_ASSERT (sz = 0) ''No delays allowed'') (\<lambda>_.
       Inr (buffer + read, bufferLength - of_nat read)))))))))))"

definition processEosioNewAccountAction :: "'h txProcessingContext_t \<Rightarrow> 'h txProcessingContext_t result" where
  "processEosioNewAccountAction ctx =
     (let buffer = 2 * sizeof_name;
          bufferLength = currentActionDataBufferLength ctx - of_nat (2 * sizeof_name)
      in andThen (newAccount_authority ''Owner Threshold should be 1'' ''Owner key must be 1''
           ''Owner key weight must be 1'' (actionDataBuffer ctx) buffer bufferLength) (\<lambda>(buffer, bufferLength).
         andThen (newAccount_authority ''Active Threshold should be 1'' ''Active key must be 1''
           ''Active key weight must be 1'' (actionDataBuffer ctx) buffer bufferLength) (\<lambda>_.
           Inr (set_count 4 ctx))))"

section \<open>Printing an argument\<close>

definition print_unknown :: "'h txProcessingContext_t \<Rightarrow> u8 \<Rightarrow> actionArgument_t \<Rightarrow> actionArgument_t result" where
  "print_unknown ctx argNum a =
     (if dataAllowed ctx = 1 then parseUnknownAction (dataChecksum ctx) 0 32 argNum a else Inr a)"

definition printArgument :: "(bytes \<Rightarrow> bytes option) \<Rightarrow> u8 \<Rightarrow> 'h txProcessingContext_t \<Rightarrow> 'h txProcessingContext_t result" where
  "printArgument ripemd160 argNum ctx =
     (let act = contractActionName ctx;
          buffer = actionDataBuffer ctx;
          bufferLength = currentActionDataBufferLength ctx;
          a = arg (content ctx)
      in andThen
        (if act = EOSIO_TOKEN_TRANSFER then parseTokenTransfer buffer 0 bufferLength argNum a
         else if contractName ctx = EOSIO then
           (if act = EOSIO_DELEGATEBW then parseDelegate buffer 0 bufferLength argNum a
            else if act = EOSIO_UNDELEGATEBW then parseUndelegate buffer 0 bufferLength argNum a
            else if act = EOSIO_REFUND then parseRefund buffer 0 bufferLength argNum a
            else if act = EOSIO_BUYRAM then parseBuyRam buffer 0 bufferLength argNum a
            else if act = EOSIO_BUYRAMBYTES then parseBuyRamBytes buffer 0 bufferLength argNum a
            else if act = EOSIO_SELLRAM then parseSellRam buffer 0 bufferLength argNum a
            else if act = EOSIO_VOTEPRODUCER then parseVoteProducer buffer 0 bufferLength argNum a
            else if act = EOSIO_UPDATE_AUTH then parseUpdateAuth ripemd160 buffer 0 bufferLength argNum a
            else if act = EOSIO_DELETE_AUTH then parseDeleteAuth buffer 0 bufferLength argNum a
            else if act = EOSIO_LINK_AUTH then parseLinkAuth buffer 0 bufferLength argNum a
            else if act = EOSIO_UNLINK_AUTH then parseUnlinkAuth buffer 0 bufferLength argNum a
            else if act = EOSIO_NEW_ACCOUNT then parseNewAccount ripemd160 buffer 0 bufferLength argNum a
            else print_unknown ctx argNum a)
         else print_unknown ctx argNum a)
        (\<lambda>a. Inr (ctx\<lparr>content := (content ctx)\<lparr>arg := a\<rparr>\<rparr>)))"

definition isKnownAction :: "'h txProcessingContext_t \<Rightarrow> bool" where
  "isKnownAction ctx \<longleftrightarrow>
     contractActionName ctx = EOSIO_TOKEN_TRANSFER
     \<or> contractName ctx = EOSIO
       \<and> contractActionName ctx \<in> {EOSIO_DELEGATEBW, EOSIO_UNDELEGATEBW, EOSIO_REFUND, EOSIO_BUYRAM,
           EOSIO_BUYRAMBYTES, EOSIO_SELLRAM, EOSIO_VOTEPRODUCER, EOSIO_UPDATE_AUTH, EOSIO_DELETE_AUTH,
           EOSIO_LINK_AUTH, EOSIO_UNLINK_AUTH, EOSIO_NEW_ACCOUNT}"

text \<open>
  The choice among the counting functions, from \<open>processActionData\<close>: a name that is not in the list
  of the system contract stops the application.
\<close>

definition count_arguments :: "'h txProcessingContext_t \<Rightarrow> 'h txProcessingContext_t result" where
  "count_arguments ctx =
     (let act = contractActionName ctx in
      if act = EOSIO_TOKEN_TRANSFER then processTokenTransfer ctx
      else if contractName ctx = EOSIO then
        (if act = EOSIO_DELEGATEBW then processEosioDelegate ctx
         else if act = EOSIO_UNDELEGATEBW then processEosioUndelegate ctx
         else if act = EOSIO_REFUND then processEosioRefund ctx
         else if act = EOSIO_VOTEPRODUCER then processEosioVoteProducer ctx
         else if act = EOSIO_BUYRAM \<or> act = EOSIO_BUYRAMBYTES then processEosioBuyRam ctx
         else if act = EOSIO_SELLRAM then processEosioSellRam ctx
         else if act = EOSIO_UPDATE_AUTH then processEosioUpdateAuth ctx
         else if act = EOSIO_DELETE_AUTH then processEosioDeleteAuth ctx
         else if act = EOSIO_LINK_AUTH then processEosioLinkAuth ctx
         else if act = EOSIO_UNLINK_AUTH then processEosioUnlinkAuth ctx
         else if act = EOSIO_NEW_ACCOUNT then processEosioNewAccountAction ctx
         else Inl (Assertion ''processActionData''))
      else Inr ctx)"

section \<open>A complete action in the context\<close>

text \<open>The name of the action, and the contract it belongs to where the code looks at it.\<close>

fun action_name :: "eos_action \<Rightarrow> u64" where
  "action_name (Transfer _ _ _ _) = EOSIO_TOKEN_TRANSFER"
| "action_name (Delegate _ _ _ _ _) = EOSIO_DELEGATEBW"
| "action_name (Undelegate _ _ _ _) = EOSIO_UNDELEGATEBW"
| "action_name (Refund _) = EOSIO_REFUND"
| "action_name (BuyRam _ _ _) = EOSIO_BUYRAM"
| "action_name (BuyRamBytes _ _ _) = EOSIO_BUYRAMBYTES"
| "action_name (SellRam _ _) = EOSIO_SELLRAM"
| "action_name (VoteProducer _ _ _) = EOSIO_VOTEPRODUCER"
| "action_name (UpdateAuth _ _ _ _) = EOSIO_UPDATE_AUTH"
| "action_name (DeleteAuth _ _) = EOSIO_DELETE_AUTH"
| "action_name (LinkAuth _ _ _ _) = EOSIO_LINK_AUTH"
| "action_name (UnlinkAuth _ _ _) = EOSIO_UNLINK_AUTH"
| "action_name (NewAccount _ _ _ _) = EOSIO_NEW_ACCOUNT"

fun is_transfer :: "eos_action \<Rightarrow> bool" where
  "is_transfer (Transfer _ _ _ _) \<longleftrightarrow> True"
| "is_transfer _ \<longleftrightarrow> False"

definition holds_action :: "'h txProcessingContext_t \<Rightarrow> eos_action \<Rightarrow> bool" where
  "holds_action ctx a \<longleftrightarrow> contractActionName ctx = action_name a
     \<and> (is_transfer a \<or> contractName ctx = EOSIO)
     \<and> take (length (action_bytes a)) (actionDataBuffer ctx) = action_bytes a
     \<and> length (action_bytes a) \<le> 511 \<and> length (actionDataBuffer ctx) = 512
     \<and> currentActionDataBufferLength ctx = of_nat (length (action_bytes a))"

lemma holds_action_buffer:
  assumes "holds_action ctx a"
  obtains rest where "actionDataBuffer ctx = action_bytes a @ rest"
  using assms by (metis append_take_drop_id holds_action_def)

text \<open>The functions that belong to an action.\<close>

fun parser_of :: "(bytes \<Rightarrow> bytes option) \<Rightarrow> eos_action \<Rightarrow> action_parser" where
  "parser_of h (Transfer _ _ _ _) = parseTokenTransfer"
| "parser_of h (Delegate _ _ _ _ _) = parseDelegate"
| "parser_of h (Undelegate _ _ _ _) = parseUndelegate"
| "parser_of h (Refund _) = parseRefund"
| "parser_of h (BuyRam _ _ _) = parseBuyRam"
| "parser_of h (BuyRamBytes _ _ _) = parseBuyRamBytes"
| "parser_of h (SellRam _ _) = parseSellRam"
| "parser_of h (VoteProducer _ _ _) = parseVoteProducer"
| "parser_of h (UpdateAuth _ _ _ _) = parseUpdateAuth h"
| "parser_of h (DeleteAuth _ _) = parseDeleteAuth"
| "parser_of h (LinkAuth _ _ _ _) = parseLinkAuth"
| "parser_of h (UnlinkAuth _ _ _) = parseUnlinkAuth"
| "parser_of h (NewAccount _ _ _ _) = parseNewAccount h"

fun counter_of :: "eos_action \<Rightarrow> 'h txProcessingContext_t \<Rightarrow> 'h txProcessingContext_t result" where
  "counter_of (Transfer _ _ _ _) = processTokenTransfer"
| "counter_of (Delegate _ _ _ _ _) = processEosioDelegate"
| "counter_of (Undelegate _ _ _ _) = processEosioUndelegate"
| "counter_of (Refund _) = processEosioRefund"
| "counter_of (BuyRam _ _ _) = processEosioBuyRam"
| "counter_of (BuyRamBytes _ _ _) = processEosioBuyRam"
| "counter_of (SellRam _ _) = processEosioSellRam"
| "counter_of (VoteProducer _ _ _) = processEosioVoteProducer"
| "counter_of (UpdateAuth _ _ _ _) = processEosioUpdateAuth"
| "counter_of (DeleteAuth _ _) = processEosioDeleteAuth"
| "counter_of (LinkAuth _ _ _ _) = processEosioLinkAuth"
| "counter_of (UnlinkAuth _ _ _) = processEosioUnlinkAuth"
| "counter_of (NewAccount _ _ _ _) = processEosioNewAccountAction"

text \<open>The names are pairwise different, so that the dispatch finds the right function.\<close>

lemma printArgument_dispatch:
  assumes "contractActionName ctx = action_name a" and "is_transfer a \<or> contractName ctx = EOSIO"
  shows "printArgument h i ctx =
    andThen (parser_of h a (actionDataBuffer ctx) 0 (currentActionDataBufferLength ctx) i (arg (content ctx)))
      (\<lambda>a. Inr (ctx\<lparr>content := (content ctx)\<lparr>arg := a\<rparr>\<rparr>))"
  using assms by (cases a) (simp_all add: printArgument_def action_names Let_def)

lemma count_arguments_dispatch:
  assumes "contractActionName ctx = action_name a" and "is_transfer a \<or> contractName ctx = EOSIO"
  shows "count_arguments ctx = counter_of a ctx"
  using assms by (cases a) (simp_all add: count_arguments_def action_names Let_def)

lemma known_action:
  assumes "contractActionName ctx = action_name a" and "is_transfer a \<or> contractName ctx = EOSIO"
  shows "isKnownAction ctx"
  using assms by (cases a) (simp_all add: isKnownAction_def)

lemmas actions_shown = parseTokenTransfer_shows parseDelegate_shows parseUndelegate_shows
  parseRefund_shows parseBuyRam_shows parseBuyRamBytes_shows parseSellRam_shows
  parseVoteProducer_shows parseUpdateAuth_shows parseDeleteAuth_shows parseLinkAuth_shows
  parseUnlinkAuth_shows parseNewAccount_shows

lemma parser_of_shows: "action_fine h a \<Longrightarrow> shows_action h (parser_of h a) a"
  by (cases a) (simp_all only: parser_of.simps actions_shown)

lemma printArgument_shows:
  assumes h: "holds_action ctx a" and fine: "action_fine ripemd160 a"
    and i: "i < length (action_screens ripemd160 a)"
  shows "printArgument ripemd160 (of_nat i) ctx =
    Inr (ctx\<lparr>content := (content ctx)\<lparr>arg := show_screen (action_screens ripemd160 a ! i)\<rparr>\<rparr>)"
proof -
  obtain rest where rest: "actionDataBuffer ctx = action_bytes a @ rest"
    using h by (rule holds_action_buffer)
  have "parser_of ripemd160 a (actionDataBuffer ctx) 0 (currentActionDataBufferLength ctx) (of_nat i)
      (arg (content ctx)) = Inr (show_screen (action_screens ripemd160 a ! i))"
    using h parser_of_shows [OF fine] i unfolding rest by (simp add: holds_action_def shows_action_def)
  moreover have "contractActionName ctx = action_name a" "is_transfer a \<or> contractName ctx = EOSIO"
    using h by (simp_all add: holds_action_def)
  ultimately show ?thesis by (simp add: printArgument_dispatch)
qed

section \<open>The counts are the number of screens\<close>

lemma set_count_simps [simp]:
  "actionDataBuffer (set_count n ctx) = actionDataBuffer ctx"
  "currentActionDataBufferLength (set_count n ctx) = currentActionDataBufferLength ctx"
  "argumentCount (content (set_count n ctx)) = n"
  "set_count m (set_count n ctx) = set_count m ctx"
  by (simp_all add: set_count_def)

lemma add_count_set_count [simp]: "add_count m (set_count n ctx) = set_count (n + m) ctx"
  by (simp add: add_count_def set_count_def)

lemma count_Transfer:
  assumes h: "holds_action ctx (Transfer from to q memo)" and fine: "length memo \<le> 127"
  shows "processTokenTransfer ctx = Inr (set_count (if memo = [] then 3 else 4) ctx)"
proof -
  let ?a = "Transfer from to q memo"
  let ?len = "currentActionDataBufferLength ctx"
  obtain rest where rest: "actionDataBuffer ctx = action_bytes ?a @ rest"
    using h by (rule holds_action_buffer)
  have leb: "leb_bytes (length memo) = [of_nat (length memo)]" using fine by (intro leb_bytes_small) simp
  have small: "33 + length memo < 2 ^ 32" using fine by simp
  have "?len = of_nat (33 + length memo)" using h by (simp add: holds_action_def leb)
  then have "unat ?len = 33 + length memo" using small by (simp only: unat_of_nat_u32_small)
  then have len: "unat (?len - 32) = 1 + length memo" by (simp add: u32_sub_numeral)
  have 512: "length (actionDataBuffer ctx) = 512" using h by (simp add: holds_action_def)
  have "unpack_variant32 (actionDataBuffer ctx) 32 (?len - 32) = Inr (1, of_nat (length memo))"
    using unpack_variant32_leb_bytes [of "length memo" 32 "actionDataBuffer ctx" "memo @ rest" "?len - 32"]
      fine len 512 by (simp add: rest leb)
  moreover have "(0 < (of_nat (length memo) :: u32)) \<longleftrightarrow> memo \<noteq> []"
    using fine unat_of_nat_u32_small [of "length memo"] by (simp add: word_less_nat_alt)
  ultimately show ?thesis by (simp add: processTokenTransfer_def Let_def)
qed

lemma count_VoteProducer:
  assumes h: "holds_action ctx (VoteProducer voter proxy producers)"
    and fine: "proxy \<noteq> 0 \<longrightarrow> producers = []" "length producers \<le> 60"
  shows "processEosioVoteProducer ctx = Inr (set_count (1 + (if proxy \<noteq> 0 then 1 else of_nat (length producers))) ctx)"
proof -
  let ?a = "VoteProducer voter proxy producers"
  let ?len = "currentActionDataBufferLength ctx" and ?n = "length producers"
  obtain rest where rest: "actionDataBuffer ctx = action_bytes ?a @ rest"
    using h by (rule holds_action_buffer)
  have leb: "leb_bytes ?n = [of_nat ?n]" using fine by (intro leb_bytes_small) simp
  have 512: "length (actionDataBuffer ctx) = 512" using h by (simp add: holds_action_def)
  have rd: "mem_read (actionDataBuffer ctx) 8 8 = Inr (u64_bytes proxy)"
    by (simp add: mem_read_def rest)
  have "17 + ?n * 8 < 2 ^ 32" using fine by simp
  moreover have "length (concat (map (\<lambda>v. le_bytes 8 (unat v)) producers)) = ?n * 8"
    by (rule length_entries) simp
  then have "?len = of_nat (17 + ?n * 8)"
    using h by (simp add: holds_action_def list_bytes_def leb)
  ultimately have len: "unat ?len = 17 + ?n * 8" by (simp only: unat_of_nat_u32_small)
  have "unpack_variant32 (actionDataBuffer ctx) 16 ?len = Inr (1, of_nat ?n)"
    using unpack_variant32_leb_bytes [of ?n 16 "actionDataBuffer ctx"
        "concat (map (\<lambda>v. le_bytes 8 (unat v)) producers) @ rest" ?len] fine len 512
    by (simp add: rest leb list_bytes_def)
  moreover have "ucast (of_nat ?n :: u32) = (of_nat ?n :: u8)"
    unfolding unsigned_of_nat using fine by (subst take_bit_nat_eq_self) simp_all
  ultimately show ?thesis
    using rd by (simp add: processEosioVoteProducer_def Let_def)
qed

lemma count_Delegate:
  assumes h: "holds_action ctx (Delegate from receiver net cpu transfer)"
  shows "processEosioDelegate ctx = Inr (set_count (if transfer = 0 then 4 else 5) ctx)"
proof -
  obtain rest where rest: "actionDataBuffer ctx = action_bytes (Delegate from receiver net cpu transfer) @ rest"
    using h by (rule holds_action_buffer)
  then have "mem_get (actionDataBuffer ctx) 48 = Inr transfer"
    by (simp add: mem_get_def nth_append)
  then show ?thesis by (simp add: processEosioDelegate_def Let_def)
qed

text \<open>A new account: the authorities that the counting function insists on.\<close>

lemma drop_at: "drop p mem = xs \<Longrightarrow> drop (p + n) mem = drop n xs"
  by (metis drop_drop add.commute)

lemma unpack_byte:
  assumes "drop p mem = of_nat n # r" and "n < 128" and "0 < unat len" and "p + unat len \<le> length mem"
  shows "unpack_variant32 mem p len = Inr (1, of_nat n)"
proof -
  have "p + min 5 (max 1 (unat len)) \<le> length mem" using assms(3,4) by linarith
  then show ?thesis
    using unpack_variant32_leb_bytes [of n p mem r len] assms by (simp add: leb_bytes_small)
qed

lemma newAccount_authority_one_key:
  assumes at: "drop p mem = authority_bytes (one_key k) @ r" and k: "length k = 33"
    and len: "43 \<le> unat len" and mem: "p + unat len \<le> length mem"
  shows "newAccount_authority m1 m2 m3 mem p len = Inr (p + 43, len - 43)"
proof -
  have at': "drop p mem = [1, 0, 0, 0, 1, 0] @ k @ [1, 0, 0, 0] @ r"
    using at by (simp add: authority_one_key)
  have sub: "unat (len - 4) = unat len - 4" "unat (len - 41) = unat len - 41" "unat (len - 42) = unat len - 42"
    using len by (simp_all add: u32_sub_numeral)
  have d: "drop (p + 4) mem = 1 # 0 # k @ [1, 0, 0, 0] @ r" "drop (p + 39) mem = [1, 0, 0, 0] @ r"
    "drop (p + 41) mem = 0 # 0 # r" "drop (p + 42) mem = 0 # r"
    using drop_at [OF at', of 4] drop_at [OF at', of 39] drop_at [OF at', of 41] drop_at [OF at', of 42] k
    by simp_all
  have "mem_read mem p 4 = Inr [1, 0, 0, 0]" using at' len mem by (simp add: mem_read_def)
  moreover have "mem_read mem (p + 39) 2 = Inr [1, 0]" using d(2) len mem by (simp add: mem_read_def)
  moreover have "unpack_variant32 mem (p + 4) (len - 4) = Inr (1, 1)"
    using unpack_byte [of "p + 4" mem 1 _ "len - 4"] d(1) sub len mem by simp
  moreover have "unpack_variant32 mem (p + 41) (len - 41) = Inr (1, 0)"
    using unpack_byte [of "p + 41" mem 0 _ "len - 41"] d(3) sub len mem by simp
  moreover have "unpack_variant32 mem (p + 42) (len - 42) = Inr (1, 0)"
    using unpack_byte [of "p + 42" mem 0 _ "len - 42"] d(4) sub len mem by simp
  ultimately show ?thesis
    by (simp add: newAccount_authority_def le_word_def Let_def add.commute [of _ p])
qed

lemma count_NewAccount:
  assumes h: "holds_action ctx (NewAccount creator name owner active)"
    and k: "length owner = 33" "length active = 33"
  shows "processEosioNewAccountAction ctx = Inr (set_count 4 ctx)"
proof -
  let ?a = "NewAccount creator name owner active"
  let ?len = "currentActionDataBufferLength ctx" and ?mem = "actionDataBuffer ctx"
  obtain rest where rest: "?mem = action_bytes ?a @ rest" using h by (rule holds_action_buffer)
  have 512: "length ?mem = 512" using h by (simp add: holds_action_def)
  have la: "length (authority_bytes (one_key owner)) = 43" "length (authority_bytes (one_key active)) = 43"
    using k by (simp_all add: authority_one_key)
  have len: "?len = 102" using h la by (simp add: holds_action_def)
  have o: "drop 16 ?mem = authority_bytes (one_key owner) @ authority_bytes (one_key active) @ rest"
    unfolding rest by simp
  have "drop 59 ?mem = authority_bytes (one_key active) @ rest"
    using drop_at [OF o, of 43] la by simp
  then have "newAccount_authority m1 m2 m3 ?mem 59 43 = Inr (102, 0)" for m1 m2 m3
    using newAccount_authority_one_key [of 59 ?mem active rest 43] k 512 by simp
  moreover have "newAccount_authority m1 m2 m3 ?mem 16 86 = Inr (59, 43)" for m1 m2 m3
    using newAccount_authority_one_key [OF o k(1), of 86] 512 by simp
  ultimately show ?thesis by (simp add: processEosioNewAccountAction_def len)
qed

text \<open>An update of an authority: three counters, each behind the entries before it.\<close>

lemma authority_lengths:
  assumes "authority_fine h auth" and "length (authority_bytes auth) \<le> 487"
  shows "length (list_bytes key_entry (auth_keys auth)) = 1 + length (auth_keys auth) * 36"
    and "length (list_bytes account_entry (auth_accounts auth)) = 1 + length (auth_accounts auth) * 18"
    and "length (list_bytes delay_entry (auth_delays auth)) = 1 + length (auth_delays auth) * 6"
proof -
  have small: "length (auth_keys auth) + length (auth_accounts auth) + length (auth_delays auth) < 120"
    using assms by (rule authority_sizes)
  show "length (list_bytes key_entry (auth_keys auth)) = 1 + length (auth_keys auth) * 36"
    using small assms(1)
    by (intro length_list_bytes length_key_entry [of h]) (auto simp: authority_fine_def list_all_iff)
  show "length (list_bytes account_entry (auth_accounts auth)) = 1 + length (auth_accounts auth) * 18"
    using small by (intro length_list_bytes) (simp_all add: length_account_entry)
  show "length (list_bytes delay_entry (auth_delays auth)) = 1 + length (auth_delays auth) * 6"
    using small by (intro length_list_bytes) (simp_all add: length_delay_entry)
qed

lemma small_counts:
  assumes "n < 120" and "w < 256" and "c + 2 * n < 256"
  shows "mul_no_overflow (of_nat w) (of_nat n) = Some (of_nat (n * w))"
    and "unat (of_nat (n * w) :: u32) = n * w"
    and "add_no_overflow (of_nat n) (of_nat n) = Some (of_nat (2 * n))"
    and "count_no_overflow (of_nat c) (of_nat (2 * n)) = Some (of_nat (c + 2 * n))"
proof -
  have u: "unat (of_nat k :: u32) = k" if "k < 2 ^ 16" for k
    using that by (intro unat_of_nat_u32_small) simp
  have "n * w \<le> 120 * 256" using assms by (intro mult_le_mono) simp_all
  then have nw: "n * w < 2 ^ 16" by simp
  show "unat (of_nat (n * w) :: u32) = n * w" using nw by (rule u)
  have "unat (of_nat w :: u32) = w" "unat (of_nat n :: u32) = n" using assms by (auto intro: u)
  then show "mul_no_overflow (of_nat w) (of_nat n) = Some (of_nat (n * w))"
    and "add_no_overflow (of_nat n) (of_nat n) = Some (of_nat (2 * n))"
    using nw assms by (simp_all add: mul_no_overflow_def add_no_overflow_def mult.commute)
  have "unat (of_nat (2 * n) :: u32) = 2 * n" using assms by (intro u) simp
  moreover have "unat (of_nat c :: u8) = c" using assms by (intro unat_of_nat_u8_small) simp
  moreover have "ucast (of_nat (2 * n) :: u32) = (of_nat (2 * n) :: u8)"
    unfolding unsigned_of_nat using assms by (subst take_bit_nat_eq_self) simp_all
  ultimately show "count_no_overflow (of_nat c) (of_nat (2 * n)) = Some (of_nat (c + 2 * n))"
    using assms by (simp only: count_no_overflow_def) simp
qed

lemma count_UpdateAuth:
  assumes h: "holds_action ctx (UpdateAuth account permission parent auth)"
    and fine: "authority_fine h auth" "length (authority_bytes auth) \<le> 487"
  shows "processEosioUpdateAuth ctx = Inr (set_count (of_nat (4 + 2 * (length (auth_keys auth)
    + length (auth_accounts auth) + length (auth_delays auth)))) ctx)"
proof -
  let ?a = "UpdateAuth account permission parent auth"
  let ?len = "currentActionDataBufferLength ctx" and ?mem = "actionDataBuffer ctx"
  let ?nk = "length (auth_keys auth)" and ?na = "length (auth_accounts auth)" and ?nd = "length (auth_delays auth)"
  let ?L = "3 + ?nk * 36 + ?na * 18 + ?nd * 6"
  obtain rest where rest: "?mem = action_bytes ?a @ rest" using h by (rule holds_action_buffer)
  have 512: "length ?mem = 512" using h by (simp add: holds_action_def)
  note lens = authority_lengths [OF fine]
  have small: "?nk + ?na + ?nd < 120" using fine by (rule authority_sizes)
  have "length (action_bytes ?a) = 28 + ?L"
    using lens by (simp add: authority_bytes_def authority_lists_bytes_def)
  moreover have "28 + ?L < 2 ^ 32" using small by simp
  ultimately have len: "unat ?len = 28 + ?L" and L: "28 + ?L \<le> 511"
    using h by (simp_all only: holds_action_def unat_of_nat_u32_small)
  have at: "drop 28 ?mem = list_bytes key_entry (auth_keys auth)
      @ list_bytes account_entry (auth_accounts auth) @ list_bytes delay_entry (auth_delays auth) @ rest"
    unfolding rest by (simp add: authority_bytes_def authority_lists_bytes_def)
  define len1 where "len1 = ?len - 28"
  have len1: "unat len1 = ?L" using len by (simp add: len1_def u32_sub_numeral)
  have u1: "unpack_variant32 ?mem 28 len1 = Inr (1, of_nat ?nk)"
    using list_counter [OF at, of len1] small len1 L 512 by simp
  define len2 where "len2 = len1 - 1 - of_nat (?nk * 36)"
  have len2: "unat len2 = 2 + ?na * 18 + ?nd * 6"
    using len1 u32_sub [of "?nk * 36" "len1 - 1"] by (simp add: len2_def u32_sub_numeral)
  have at2: "drop (29 + ?nk * 36) ?mem = list_bytes account_entry (auth_accounts auth)
      @ list_bytes delay_entry (auth_delays auth) @ rest"
    using drop_at [OF at, of "1 + ?nk * 36"] lens by (simp add: add.commute)
  have u2: "unpack_variant32 ?mem (29 + ?nk * 36) len2 = Inr (1, of_nat ?na)"
    using list_counter [OF at2, of len2] small len2 L 512 by simp
  define len3 where "len3 = len2 - 1 - of_nat (?na * 18)"
  have len3: "unat len3 = 1 + ?nd * 6"
    using len2 u32_sub [of "?na * 18" "len2 - 1"] by (simp add: len3_def u32_sub_numeral)
  have at3: "drop (30 + ?nk * 36 + ?na * 18) ?mem = list_bytes delay_entry (auth_delays auth) @ rest"
    using drop_at [OF at2, of "1 + ?na * 18"] lens by (simp add: algebra_simps)
  have u3: "unpack_variant32 ?mem (30 + ?nk * 36 + ?na * 18) len3 = Inr (1, of_nat ?nd)"
    using list_counter [OF at3, of len3] small len3 L 512 by simp
  note c = small_counts [of ?nk 36 4] small_counts [of ?na 18 "4 + 2 * ?nk"]
    small_counts [of ?nd 0 "4 + 2 * ?nk + 2 * ?na"]
  have "28 < ?len" "1 < len1" "of_nat (?nk * 36) < len1 - 1" "1 < len2" "of_nat (?na * 18) < len2 - 1"
    using small len len1 len2 c by (simp_all add: word_less_nat_alt u32_sub_numeral del: of_nat_mult)
  moreover have "count_no_overflow 4 (of_nat (2 * ?nk)) = Some (of_nat (4 + 2 * ?nk))"
    using c(4) small by simp
  ultimately have "processEosioUpdateAuth ctx = Inr (set_count (of_nat (4 + 2 * ?nk + 2 * ?na + 2 * ?nd)) ctx)"
    using c small u1 u2 u3
    by (simp add: processEosioUpdateAuth_def Let_def of_nat_Suc [of 0] len1_def [symmetric]
        len2_def [symmetric] len3_def [symmetric] del: of_nat_mult of_nat_add of_nat_Suc)
  moreover have "4 + 2 * ?nk + 2 * ?na + 2 * ?nd = 4 + 2 * (?nk + ?na + ?nd)" by simp
  ultimately show ?thesis by (simp only:)
qed

lemma counter_of_counts:
  assumes h: "holds_action ctx a" and fine: "action_fine ripemd160 a"
  shows "counter_of a ctx = Inr (set_count (of_nat (length (action_screens ripemd160 a))) ctx)"
proof (cases a)
  case (Transfer a1 a2 q memo)
  with h fine count_Transfer [of ctx a1 a2 q memo] show ?thesis by simp
next
  case (Delegate a1 a2 net cpu transfer)
  with h count_Delegate [of ctx a1 a2 net cpu transfer] show ?thesis by simp
next
  case (VoteProducer voter proxy producers)
  with h fine count_VoteProducer [of ctx voter proxy producers] show ?thesis by simp
next
  case (UpdateAuth account permission parent auth)
  with h fine count_UpdateAuth [of ctx account permission parent auth ripemd160] show ?thesis
    by (simp add: algebra_simps)
next
  case (NewAccount creator name owner active)
  with h fine count_NewAccount [of ctx creator name owner active] show ?thesis by (simp add: key_fine_def)
qed (simp_all add: processEosioUndelegate_def processEosioRefund_def processEosioBuyRam_def
    processEosioSellRam_def processEosioDeleteAuth_def processEosioLinkAuth_def processEosioUnlinkAuth_def)

lemma count_arguments_counts:
  assumes "holds_action ctx a" and "action_fine ripemd160 a"
  shows "count_arguments ctx = Inr (set_count (of_nat (length (action_screens ripemd160 a))) ctx)"
  using counter_of_counts [OF assms] assms(1) by (simp add: holds_action_def count_arguments_dispatch)

lemma length_action_screens:
  assumes "holds_action ctx a" and "action_fine h a"
  shows "length (action_screens h a) < 256"
proof (cases a)
  case (UpdateAuth account permission parent auth)
  with assms authority_sizes [of h auth] show ?thesis by simp
next
  case (VoteProducer voter proxy producers)
  with assms show ?thesis by simp
qed simp_all

section \<open>Counting any data\<close>

text \<open>
  On data that no honest author wrote, counting either stops on an assertion or changes the count
  and nothing else; it never reads outside the 512 bytes of the buffer.
\<close>

lemma ends_unpack:
  assumes "off + min 5 (max 1 (unat len)) \<le> length mem"
    and "\<And>r v. r \<le> 5 \<Longrightarrow> r \<le> max 1 (unat len) \<Longrightarrow> ends P (f (r, v))"
  shows "ends P (andThen (unpack_variant32 mem off len) f)"
proof -
  let ?p = "leb_prefix (min 5 (max 1 (unat len))) (drop off mem)"
  have "length ?p \<le> min 5 (max 1 (unat len))" by (rule length_leb_prefix)
  then show ?thesis using unpack_variant32_eq [OF assms(1)] assms(2) by (simp add: Let_def)
qed

lemma ends_assert_some:
  "(\<And>x. r = Some x \<Longrightarrow> ends P (f x)) \<Longrightarrow> ends P (andThen (assert_some r m) f)"
  by (cases r) (simp_all add: assert_some_def)

lemmas ends_rules = ends_if ends_assert ends_CX ends_read ends_write ends_unpack ends_assert_some

definition counted :: "'h txProcessingContext_t \<Rightarrow> 'h txProcessingContext_t \<Rightarrow> bool" where
  "counted ctx ctx' \<longleftrightarrow> ctx' = set_count (argumentCount (content ctx')) ctx"

lemma counted_simps [simp]: "counted ctx (set_count n ctx)" "counted ctx (add_count n ctx)"
  by (simp_all add: counted_def add_count_def)

lemma count_simple [simp]:
  "ends (counted ctx) (processEosioUndelegate ctx)" "ends (counted ctx) (processEosioRefund ctx)"
  "ends (counted ctx) (processEosioBuyRam ctx)" "ends (counted ctx) (processEosioSellRam ctx)"
  "ends (counted ctx) (processEosioDeleteAuth ctx)" "ends (counted ctx) (processEosioLinkAuth ctx)"
  "ends (counted ctx) (processEosioUnlinkAuth ctx)"
  by (simp_all add: processEosioUndelegate_def processEosioRefund_def processEosioBuyRam_def
      processEosioSellRam_def processEosioDeleteAuth_def processEosioLinkAuth_def processEosioUnlinkAuth_def)

lemma count_any_Transfer:
  "length (actionDataBuffer ctx) = 512 \<Longrightarrow> ends (counted ctx) (processTokenTransfer ctx)"
  unfolding processTokenTransfer_def Let_def by (intro ends_rules) simp_all

lemma count_any_Delegate:
  "length (actionDataBuffer ctx) = 512 \<Longrightarrow> ends (counted ctx) (processEosioDelegate ctx)"
  by (simp add: processEosioDelegate_def Let_def mem_get_def)

lemma count_any_VoteProducer:
  "length (actionDataBuffer ctx) = 512 \<Longrightarrow> ends (counted ctx) (processEosioVoteProducer ctx)"
  unfolding processEosioVoteProducer_def Let_def
  by (intro ends_rules) simp_all

lemma newAccount_authority_any:
  "p + 60 \<le> length mem \<Longrightarrow> ends (\<lambda>r. fst r \<le> p + 60) (newAccount_authority m1 m2 m3 mem p len)"
  unfolding newAccount_authority_def Let_def case_prod_beta
  by (intro ends_rules) simp_all

lemma count_any_NewAccount:
  "length (actionDataBuffer ctx) = 512 \<Longrightarrow> ends (counted ctx) (processEosioNewAccountAction ctx)"
  unfolding processEosioNewAccountAction_def Let_def
  by (auto intro!: ends_andThen [OF newAccount_authority_any] simp: split_beta)

text \<open>In the update of an authority the checks keep every position inside the data.\<close>

lemma count_any_UpdateAuth:
  assumes "length (actionDataBuffer ctx) = 512" and "unat (currentActionDataBufferLength ctx) \<le> 512"
  shows "ends (counted ctx) (processEosioUpdateAuth ctx)"
proof -
  have u: "unat (of_nat r :: u32) = r" if "r \<le> 5" for r
    using that by (intro unat_of_nat_u32_small) simp
  show ?thesis
    unfolding processEosioUpdateAuth_def Let_def case_prod_beta
    using assms u
    by (intro ends_rules) (simp_all add: word_less_nat_alt unat_sub_if' min_def max_def, linarith+)
qed

lemma count_arguments_any:
  assumes "length (actionDataBuffer ctx) = 512" and "unat (currentActionDataBufferLength ctx) \<le> 512"
  shows "ends (counted ctx) (count_arguments ctx)"
proof -
  have "counted ctx ctx" by (simp add: counted_def set_count_def)
  then show ?thesis
    using assms by (simp add: count_arguments_def Let_def count_any_Transfer count_any_Delegate
        count_any_VoteProducer count_any_NewAccount count_any_UpdateAuth)
qed

end
