(* ===== verification/Eos_Stream.thy ===== *)
theory Eos_Stream
  imports Eos_Context
begin

text \<open>
  The second part of \<^verbatim>\<open>src/eos_stream.c\<close>: the parser proper. A transaction arrives as a sequence
  of fields, each behind a tag and a length, in chunks that the host may cut anywhere; the parser
  hashes every byte of every field and stops at each action for the user's review.

  Every \<open>process...\<close> function of a field has the same first half, which takes as much of the chunk
  as belongs to the field: \<open>receive\<close>, with the function's own assertion and the place where it
  stores the bytes as arguments. \<open>mem\<close> is the array that \<open>workBuffer\<close> points into.
\<close>

section \<open>Hashing and receiving\<close>

definition hashTxData :: "'h hash_ops \<Rightarrow> bytes \<Rightarrow> 'h txProcessingContext_t \<Rightarrow> 'h txProcessingContext_t result" where
  "hashTxData ops bs ctx =
     andThen (CX_ASSERT (hash_update ops (sha256 ctx) bs)) (\<lambda>h. Inr (ctx\<lparr>sha256 := h\<rparr>))"

definition hashActionData :: "'h hash_ops \<Rightarrow> bytes \<Rightarrow> 'h txProcessingContext_t \<Rightarrow> 'h txProcessingContext_t result" where
  "hashActionData ops bs ctx =
     andThen (CX_ASSERT (hash_update ops (dataSha256 ctx) bs)) (\<lambda>h. Inr (ctx\<lparr>dataSha256 := h\<rparr>))"

text \<open>The bytes of the field still to come, and what of them the chunk holds.\<close>

definition chunk_length :: "'h txProcessingContext_t \<Rightarrow> u32" where
  "chunk_length ctx =
     (if commandLength ctx < currentFieldLength ctx - currentFieldPos ctx then commandLength ctx
      else currentFieldLength ctx - currentFieldPos ctx)"

definition advance :: "u32 \<Rightarrow> 'h txProcessingContext_t \<Rightarrow> 'h txProcessingContext_t" where
  "advance n ctx = (work_skip n ctx)\<lparr>currentFieldPos := currentFieldPos ctx + n\<rparr>"

type_synonym 'h store = "bytes \<Rightarrow> 'h txProcessingContext_t \<Rightarrow> 'h txProcessingContext_t result"

definition receive :: "'h hash_ops \<Rightarrow> bytes \<Rightarrow> (u32 \<Rightarrow> 'h txProcessingContext_t \<Rightarrow> unit result) \<Rightarrow> 'h store
    \<Rightarrow> 'h txProcessingContext_t \<Rightarrow> 'h txProcessingContext_t result" where
  "receive ops mem check store ctx =
     (if currentFieldPos ctx < currentFieldLength ctx then
        let n = chunk_length ctx in
        andThen (check n ctx) (\<lambda>_.
        andThen (work_read mem ctx (unat n)) (\<lambda>bs.
        andThen (hashTxData ops bs ctx) (\<lambda>ctx.
        andThen (store bs ctx) (\<lambda>ctx.
          Inr (advance n ctx)))))
      else Inr ctx)"

definition checked :: "string \<Rightarrow> u32 \<Rightarrow> 'h txProcessingContext_t \<Rightarrow> unit result" where
  "checked msg n ctx = LEDGER_ASSERT (n \<le> commandLength ctx) msg"

definition no_check :: "u32 \<Rightarrow> 'h txProcessingContext_t \<Rightarrow> unit result" where
  "no_check n ctx = Inr ()"

text \<open>Where the bytes go: nowhere, to \<open>sizeBuffer\<close>, to a name, to the second hash, to the action data.\<close>

definition store_none :: "'h store" where
  "store_none bs ctx = Inr ctx"

definition store_size :: "string \<Rightarrow> 'h store" where
  "store_size msg bs ctx =
     andThen (LEDGER_ASSERT (of_nat (length bs) \<le> 12 - currentFieldPos ctx) msg) (\<lambda>_.
     andThen (mem_write (sizeBuffer ctx) (unat (currentFieldPos ctx)) bs) (\<lambda>b.
       Inr (ctx\<lparr>sizeBuffer := b\<rparr>)))"

text \<open>
  The names are eight bytes long and the assertion allows twelve, the size of another buffer: the
  write is outside the name when it goes past its end.
\<close>

definition store_contract :: "'h store" where
  "store_contract bs ctx =
     andThen (LEDGER_ASSERT (of_nat (length bs) \<le> 12 - currentFieldPos ctx) ''processActionAccount'') (\<lambda>_.
     andThen (mem_write (le_bytes sizeof_name (unat (contractName ctx))) (unat (currentFieldPos ctx)) bs) (\<lambda>b.
       Inr (ctx\<lparr>contractName := le_word b\<rparr>)))"

definition store_action :: "'h store" where
  "store_action bs ctx =
     andThen (LEDGER_ASSERT (of_nat (length bs) \<le> 12 - currentFieldPos ctx) ''processActionName'') (\<lambda>_.
     andThen (mem_write (le_bytes sizeof_name (unat (contractActionName ctx))) (unat (currentFieldPos ctx)) bs) (\<lambda>b.
       Inr (ctx\<lparr>contractActionName := le_word b\<rparr>)))"

definition store_data :: "'h store" where
  "store_data bs ctx =
     andThen (mem_write (actionDataBuffer ctx) (unat (currentFieldPos ctx)) bs) (\<lambda>b.
       Inr (ctx\<lparr>actionDataBuffer := b\<rparr>))"

text \<open>The second half of every function runs when the field is complete.\<close>

definition when_complete :: "('h txProcessingContext_t \<Rightarrow> 'h txProcessingContext_t result)
    \<Rightarrow> 'h txProcessingContext_t \<Rightarrow> 'h txProcessingContext_t result" where
  "when_complete f ctx =
     (if currentFieldPos ctx = currentFieldLength ctx then f ctx else Inr ctx)"

definition to_state :: "txProcessingState_e \<Rightarrow> 'h txProcessingContext_t \<Rightarrow> 'h txProcessingContext_t" where
  "to_state s ctx = ctx\<lparr>state := s, processingField := False\<rparr>"

section \<open>The fields\<close>

definition processField :: "'h hash_ops \<Rightarrow> bytes \<Rightarrow> 'h txProcessingContext_t \<Rightarrow> 'h txProcessingContext_t result" where
  "processField ops mem ctx =
     andThen (receive ops mem (checked ''processField'') store_none ctx)
       (when_complete (\<lambda>ctx. Inr (to_state (next_state (state ctx)) ctx)))"

text \<open>The value that \<open>sizeBuffer\<close> holds, read with one byte more than the field has.\<close>

definition size_value :: "'h txProcessingContext_t \<Rightarrow> u32 result" where
  "size_value ctx =
     andThen (unpack_variant32 (sizeBuffer ctx) 0 (currentFieldPos ctx + 1)) (\<lambda>(_, v). Inr v)"

definition processZeroSizeField :: "'h hash_ops \<Rightarrow> bytes \<Rightarrow> 'h txProcessingContext_t \<Rightarrow> 'h txProcessingContext_t result" where
  "processZeroSizeField ops mem ctx =
     andThen (receive ops mem (checked ''processZeroSizeField'') (store_size ''processZeroSizeField'') ctx)
       (when_complete (\<lambda>ctx.
          andThen (size_value ctx) (\<lambda>sizeValue.
          andThen (LEDGER_ASSERT (sizeValue = 0) ''processCtxFreeAction Action Number must be 0'') (\<lambda>_.
            Inr (to_state (next_state (state ctx)) (ctx\<lparr>sizeBuffer := zeros 12\<rparr>))))))"

definition processActionListSizeField :: "'h hash_ops \<Rightarrow> bytes \<Rightarrow> 'h txProcessingContext_t \<Rightarrow> 'h txProcessingContext_t result" where
  "processActionListSizeField ops mem ctx =
     andThen (receive ops mem (checked ''processActionListSizeField'') (store_size ''processActionListSizeField'') ctx)
       (when_complete (\<lambda>ctx.
          andThen (size_value ctx) (\<lambda>n.
          let ctx = ctx\<lparr>currentActionNumber := n, currentActionIndex := 0, sizeBuffer := zeros 12\<rparr>;
              ctx = to_state (next_state (state ctx)) ctx
          in Inr (if currentActionNumber ctx > 1 then ctx\<lparr>confirmProcessing := True\<rparr> else ctx))))"

definition processActionAccount :: "'h hash_ops \<Rightarrow> bytes \<Rightarrow> 'h txProcessingContext_t \<Rightarrow> 'h txProcessingContext_t result" where
  "processActionAccount ops mem ctx =
     andThen (receive ops mem (checked ''processActionAccount'') store_contract ctx)
       (when_complete (\<lambda>ctx.
          let ctx = to_state (next_state (state ctx)) ctx in
          andThen (name_to_string (contractName ctx) (zeros 14) 0 14) (\<lambda>(_, s).
            Inr (ctx\<lparr>content := (content ctx)\<lparr>contract := s\<rparr>\<rparr>))))"

definition processActionName :: "'h hash_ops \<Rightarrow> bytes \<Rightarrow> 'h txProcessingContext_t \<Rightarrow> 'h txProcessingContext_t result" where
  "processActionName ops mem ctx =
     andThen (receive ops mem (checked ''processActionName'') store_action ctx)
       (when_complete (\<lambda>ctx.
          let ctx = to_state (next_state (state ctx)) ctx in
          andThen (name_to_string (contractActionName ctx) (zeros 14) 0 14) (\<lambda>(_, s).
            Inr (ctx\<lparr>content := (content ctx)\<lparr>action := s\<rparr>\<rparr>))))"

definition processAuthorizationListSizeField :: "'h hash_ops \<Rightarrow> bytes \<Rightarrow> 'h txProcessingContext_t \<Rightarrow> 'h txProcessingContext_t result" where
  "processAuthorizationListSizeField ops mem ctx =
     andThen (receive ops mem (checked ''processAuthorizationListSizeField'')
               (store_size ''processAuthorizationListSizeField'') ctx)
       (when_complete (\<lambda>ctx.
          andThen (size_value ctx) (\<lambda>n.
            Inr (to_state (next_state (state ctx))
              (ctx\<lparr>currentAutorizationNumber := n, currentAutorizationIndex := 0, sizeBuffer := zeros 12\<rparr>)))))"

definition processAuthorizationPermission :: "'h hash_ops \<Rightarrow> bytes \<Rightarrow> 'h txProcessingContext_t \<Rightarrow> 'h txProcessingContext_t result" where
  "processAuthorizationPermission ops mem ctx =
     andThen (receive ops mem (checked ''processAuthorizationPermission'') store_none ctx)
       (when_complete (\<lambda>ctx.
          let ctx = ctx\<lparr>currentAutorizationIndex := currentAutorizationIndex ctx + 1, sizeBuffer := zeros 12\<rparr>
          in Inr (to_state
                (if currentAutorizationIndex ctx \<noteq> currentAutorizationNumber ctx then TLV_AUTHORIZATION_ACTOR
                 else next_state (state ctx)) ctx)))"

definition processUnknownActionDataSize :: "'h hash_ops \<Rightarrow> bytes \<Rightarrow> 'h txProcessingContext_t \<Rightarrow> 'h txProcessingContext_t result" where
  "processUnknownActionDataSize ops mem ctx =
     andThen (receive ops mem (checked ''processUnknownActionDataSize'') (hashActionData ops) ctx)
       (when_complete (\<lambda>ctx. Inr (to_state (next_state (state ctx)) ctx)))"

text \<open>The state after an action: the next action, or the end of the list.\<close>

definition after_action :: "'h txProcessingContext_t \<Rightarrow> 'h txProcessingContext_t" where
  "after_action ctx =
     (let ctx = ctx\<lparr>currentActionIndex := currentActionIndex ctx + 1\<rparr>
      in (to_state (if currentActionIndex ctx < currentActionNumber ctx then TLV_ACTION_ACCOUNT
                    else TLV_TX_EXTENSION_LIST_SIZE) ctx)\<lparr>actionReady := True\<rparr>)"

definition processUnknownActionData :: "'h hash_ops \<Rightarrow> bytes \<Rightarrow> 'h txProcessingContext_t \<Rightarrow> 'h txProcessingContext_t result" where
  "processUnknownActionData ops mem ctx =
     andThen (receive ops mem (checked ''processUnknownActionData'') (hashActionData ops) ctx)
       (when_complete (\<lambda>ctx.
          let ctx = ctx\<lparr>currentActionDataBufferLength := currentFieldLength ctx\<rparr> in
          andThen (processUnknownAction ops ctx) (\<lambda>ctx.
            Inr ((after_action ctx)\<lparr>dataSha256 := hash_init ops\<rparr>))))"

definition processActionData :: "'h hash_ops \<Rightarrow> bytes \<Rightarrow> 'h txProcessingContext_t \<Rightarrow> 'h txProcessingContext_t result" where
  "processActionData ops mem ctx =
     andThen (LEDGER_ASSERT (currentFieldLength ctx \<le> 511) ''processActionData data overflow'') (\<lambda>_.
     andThen (receive ops mem no_check store_data ctx)
       (when_complete (\<lambda>ctx.
          let ctx = ctx\<lparr>currentActionDataBufferLength := currentFieldLength ctx\<rparr> in
          andThen (count_arguments ctx) (\<lambda>ctx. Inr (after_action ctx)))))"

section \<open>The loop\<close>

text \<open>
  The inner loop reads the tag and the length of the next field byte by byte. It ends with
  \<open>Inl STREAM_FAULT\<close>, or with \<open>Inr decoded\<close>.
\<close>

function read_tlv :: "bytes \<Rightarrow> 'h txProcessingContext_t
    \<Rightarrow> ('h txProcessingContext_t \<times> (parserStatus_e + bool)) result" where
  "read_tlv mem ctx =
     (if commandLength ctx = 0 then Inr (ctx, Inr False)
      else
        andThen (readTxByte mem ctx) (\<lambda>(b, ctx').
        andThen (mem_write (tlvBuffer ctx) (unat (tlvBufferPos ctx)) [b]) (\<lambda>buf.
        let pos = tlvBufferPos ctx + 1 in
        andThen (tlvTryDecode buf pos (currentFieldLength ctx)) (\<lambda>(decoded, len, valid).
        let ctx' = ctx'\<lparr>tlvBuffer := buf, tlvBufferPos := pos, currentFieldLength := len\<rparr> in
        if \<not> valid then Inr (ctx', Inl STREAM_FAULT)
        else if decoded then Inr (ctx', Inr True)
        else if pos = 5 then Inr (ctx', Inl STREAM_FAULT)
        else read_tlv mem ctx'))))"
  by pat_completeness auto
termination
  by (relation "measure (\<lambda>(mem, ctx). unat (commandLength ctx))")
    (auto simp: readTxByte_def work_skip_def res_simps word_less_nat_alt word_le_nat_alt unat_sub_if'
      unat_eq_0 split: if_splits)

text \<open>The \<open>switch\<close> on the state: the context, and the status if the function returns here.\<close>

definition process_state :: "'h hash_ops \<Rightarrow> bytes \<Rightarrow> 'h txProcessingContext_t
    \<Rightarrow> ('h txProcessingContext_t \<times> parserStatus_e option) result" where
  "process_state ops mem ctx =
     (let continue = (\<lambda>ctx. Inr (ctx, None)); fault = Inr (ctx, Some STREAM_FAULT) in
      case state ctx of
        TLV_CHAIN_ID \<Rightarrow> andThen (processField ops mem ctx) continue
      | TLV_HEADER_EXPITATION \<Rightarrow> andThen (processField ops mem ctx) continue
      | TLV_HEADER_REF_BLOCK_NUM \<Rightarrow> andThen (processField ops mem ctx) continue
      | TLV_HEADER_REF_BLOCK_PREFIX \<Rightarrow> andThen (processField ops mem ctx) continue
      | TLV_HEADER_MAX_CPU_USAGE_MS \<Rightarrow> andThen (processField ops mem ctx) continue
      | TLV_HEADER_MAX_NET_USAGE_WORDS \<Rightarrow> andThen (processField ops mem ctx) continue
      | TLV_HEADER_DELAY_SEC \<Rightarrow> andThen (processField ops mem ctx) continue
      | TLV_CFA_LIST_SIZE \<Rightarrow> andThen (processZeroSizeField ops mem ctx) continue
      | TLV_ACTION_LIST_SIZE \<Rightarrow> andThen (processActionListSizeField ops mem ctx) continue
      | TLV_ACTION_ACCOUNT \<Rightarrow> andThen (processActionAccount ops mem ctx) continue
      | TLV_ACTION_NAME \<Rightarrow> andThen (processActionName ops mem ctx) continue
      | TLV_AUTHORIZATION_LIST_SIZE \<Rightarrow> andThen (processAuthorizationListSizeField ops mem ctx) continue
      | TLV_AUTHORIZATION_ACTOR \<Rightarrow> andThen (processField ops mem ctx) continue
      | TLV_AUTHORIZATION_PERMISSION \<Rightarrow> andThen (processAuthorizationPermission ops mem ctx) continue
      | TLV_ACTION_DATA_SIZE \<Rightarrow>
          if isKnownAction ctx \<or> dataAllowed ctx = 0 then andThen (processField ops mem ctx) continue
          else andThen (processUnknownActionDataSize ops mem ctx) continue
      | TLV_ACTION_DATA \<Rightarrow>
          if isKnownAction ctx then andThen (processActionData ops mem ctx) continue
          else if dataAllowed ctx = 1 then andThen (processUnknownActionData ops mem ctx) continue
          else fault
      | TLV_TX_EXTENSION_LIST_SIZE \<Rightarrow> andThen (processZeroSizeField ops mem ctx) continue
      | TLV_CONTEXT_FREE_DATA \<Rightarrow> andThen (processField ops mem ctx) continue
      | TLV_NONE \<Rightarrow> fault
      | TLV_DONE \<Rightarrow> fault)"

text \<open>One round of the outer loop: the context, and the status if the function returns.\<close>

definition tx_round :: "'h hash_ops \<Rightarrow> bytes \<Rightarrow> 'h txProcessingContext_t
    \<Rightarrow> ('h txProcessingContext_t \<times> parserStatus_e option) result" where
  "tx_round ops mem ctx =
     (if confirmProcessing ctx then
        Inr (ctx\<lparr>confirmProcessing := False\<rparr>, Some STREAM_CONFIRM_PROCESSING)
      else if actionReady ctx then Inr (ctx\<lparr>actionReady := False\<rparr>, Some STREAM_ACTION_READY)
      else if state ctx = TLV_DONE then Inr (ctx, Some STREAM_FINISHED)
      else if commandLength ctx = 0 then Inr (ctx, Some STREAM_PROCESSING)
      else if \<not> processingField ctx then
        andThen (read_tlv mem ctx) (\<lambda>(ctx, r).
          case r of Inl status \<Rightarrow> Inr (ctx, Some status)
          | Inr decoded \<Rightarrow>
              if \<not> decoded then Inr (ctx, Some STREAM_PROCESSING)
              else process_state ops mem
                     (ctx\<lparr>currentFieldPos := 0, tlvBufferPos := 0, processingField := True\<rparr>))
      else process_state ops mem ctx)"

text \<open>The loop may a priori run forever: \<open>None\<close> stands for a run that does not return.\<close>

partial_function (option) processTxInternal :: "'h hash_ops \<Rightarrow> bytes \<Rightarrow> 'h txProcessingContext_t
    \<Rightarrow> ('h txProcessingContext_t \<times> parserStatus_e) result option" where
  "processTxInternal ops mem ctx =
     (case tx_round ops mem ctx of
        Inl e \<Rightarrow> Some (Inl e)
      | Inr (ctx', r) \<Rightarrow>
          (case r of None \<Rightarrow> processTxInternal ops mem ctx' | Some status \<Rightarrow> Some (Inr (ctx', status))))"

text \<open>The build of the device, without \<open>DEBUG_APP\<close>: a new chunk replaces the old one when that is used up.\<close>

definition parseTx :: "'h hash_ops \<Rightarrow> bytes \<Rightarrow> 'h txProcessingContext_t \<Rightarrow> nat option \<Rightarrow> u32
    \<Rightarrow> ('h txProcessingContext_t \<times> parserStatus_e) result option" where
  "parseTx ops mem ctx buffer len =
     processTxInternal ops mem
       (if commandLength ctx = 0 then ctx\<lparr>workBuffer := buffer, commandLength := len\<rparr> else ctx)"

section \<open>The invariant\<close>

text \<open>
  The sizes of the arrays, and where the parser stands: inside a field with less than the whole of
  it read, or in front of one with at most four bytes of its header read; the chunk lies in \<open>mem\<close>.
\<close>

definition content_ok :: "txProcessingContent_t \<Rightarrow> bool" where
  "content_ok c \<longleftrightarrow> length (contract c) = 14 \<and> length (action c) = 14"

definition buffers_ok :: "'h txProcessingContext_t \<Rightarrow> bool" where
  "buffers_ok ctx \<longleftrightarrow> length (tlvBuffer ctx) = 5 \<and> length (sizeBuffer ctx) = 12
     \<and> length (actionDataBuffer ctx) = 512 \<and> length (dataChecksum ctx) = 32 \<and> content_ok (content ctx)"

definition chunk_ok :: "bytes \<Rightarrow> 'h txProcessingContext_t \<Rightarrow> bool" where
  "chunk_ok mem ctx \<longleftrightarrow>
     commandLength ctx = 0 \<or> (\<exists>off. workBuffer ctx = Some off \<and> off + unat (commandLength ctx) \<le> length mem)"

definition size_state :: "txProcessingState_e \<Rightarrow> bool" where
  "size_state s \<longleftrightarrow> s \<in> {TLV_CFA_LIST_SIZE, TLV_ACTION_LIST_SIZE, TLV_ACTION_ACCOUNT, TLV_ACTION_NAME,
     TLV_AUTHORIZATION_LIST_SIZE, TLV_TX_EXTENSION_LIST_SIZE}"

definition name_state :: "txProcessingState_e \<Rightarrow> bool" where
  "name_state s \<longleftrightarrow> s = TLV_ACTION_ACCOUNT \<or> s = TLV_ACTION_NAME"

definition position_ok :: "'h txProcessingContext_t \<Rightarrow> bool" where
  "position_ok ctx \<longleftrightarrow>
     (if processingField ctx
      then currentFieldPos ctx < currentFieldLength ctx \<and> tlvBufferPos ctx = 0
        \<and> (size_state (state ctx) \<longrightarrow> currentFieldPos ctx \<le> 12)
        \<and> (name_state (state ctx) \<longrightarrow> currentFieldPos ctx \<le> 8)
      else tlvBufferPos ctx \<le> 4)"

definition stream_ok :: "bytes \<Rightarrow> 'h txProcessingContext_t \<Rightarrow> bool" where
  "stream_ok mem ctx \<longleftrightarrow> buffers_ok ctx \<and> chunk_ok mem ctx \<and> position_ok ctx"

lemma initTxContext_ok:
  "content_ok c \<Longrightarrow> stream_ok mem (initTxContext ops c allowed)"
  by (simp add: stream_ok_def buffers_ok_def chunk_ok_def position_ok_def initTxContext_def)

section \<open>Every round keeps the invariant and consumes the chunk\<close>

declare read_tlv.simps [simp del]

lemma readTxByte_ok:
  assumes "chunk_ok mem ctx" and "commandLength ctx \<noteq> 0"
  shows "\<exists>b. readTxByte mem ctx = Inr (b, work_skip 1 ctx)"
proof -
  have "1 \<le> commandLength ctx" using assms(2) by (simp add: word_le_nat_alt Suc_leI unat_gt_0 word_gt_0)
  moreover obtain off where "workBuffer ctx = Some off" "off + unat (commandLength ctx) \<le> length mem"
    using assms by (auto simp: chunk_ok_def)
  moreover have "1 \<le> unat (commandLength ctx)" using calculation(1) by (simp add: word_le_nat_alt)
  ultimately show ?thesis by (simp add: readTxByte_def work_read_def mem_read_def)
qed

lemma work_skip_length:
  "n \<le> commandLength ctx \<Longrightarrow> unat (commandLength (work_skip n ctx)) = unat (commandLength ctx) - unat n"
  by (simp add: work_skip_def unat_sub)

lemma chunk_ok_skip:
  assumes "chunk_ok mem ctx" and "n \<le> commandLength ctx"
  shows "chunk_ok mem (work_skip n ctx)"
proof (cases "commandLength (work_skip n ctx) = 0")
  case False
  then have nz: "commandLength ctx \<noteq> n" by (simp add: work_skip_def)
  have le: "unat n \<le> unat (commandLength ctx)" using assms(2) by (simp add: word_le_nat_alt)
  have "commandLength ctx \<noteq> 0" using assms(2) nz by auto
  then obtain off where "workBuffer ctx = Some off" "off + unat (commandLength ctx) \<le> length mem"
    using assms(1) by (auto simp: chunk_ok_def)
  then have "workBuffer (work_skip n ctx) = Some (off + unat n)"
    and "off + unat n + unat (commandLength (work_skip n ctx)) \<le> length mem"
    using le assms(2) by (simp_all add: work_skip_length) (simp add: work_skip_def)
  then show ?thesis by (auto simp: chunk_ok_def)
qed (simp add: chunk_ok_def)

text \<open>What reading a header changes.\<close>

definition same_but_header :: "'h txProcessingContext_t \<Rightarrow> 'h txProcessingContext_t \<Rightarrow> bool" where
  "same_but_header ctx ctx' \<longleftrightarrow>
     ctx' = ctx\<lparr>tlvBuffer := tlvBuffer ctx', tlvBufferPos := tlvBufferPos ctx',
       currentFieldLength := currentFieldLength ctx', workBuffer := workBuffer ctx',
       commandLength := commandLength ctx'\<rparr>"

definition header_read :: "bytes \<Rightarrow> 'h txProcessingContext_t
    \<Rightarrow> 'h txProcessingContext_t \<times> (parserStatus_e + bool) \<Rightarrow> bool" where
  "header_read mem ctx r \<longleftrightarrow> same_but_header ctx (fst r) \<and> chunk_ok mem (fst r) \<and> length (tlvBuffer (fst r)) = 5
     \<and> unat (commandLength (fst r)) \<le> unat (commandLength ctx)
     \<and> (commandLength ctx \<noteq> 0 \<longrightarrow> unat (commandLength (fst r)) < unat (commandLength ctx))
     \<and> (snd r = Inr False \<longrightarrow> commandLength (fst r) = 0 \<and> tlvBufferPos (fst r) \<le> 4)
     \<and> (\<forall>s. snd r = Inl s \<longrightarrow> s = STREAM_FAULT)"

lemma same_but_header_trans:
  "same_but_header a b \<Longrightarrow> same_but_header b c \<Longrightarrow> same_but_header a c"
  by (cases a; cases b; cases c) (simp add: same_but_header_def)

lemma header_read_step:
  assumes "header_read mem ctx1 r" and "same_but_header ctx ctx1"
    and "unat (commandLength ctx1) < unat (commandLength ctx)"
  shows "header_read mem ctx r"
  using assms same_but_header_trans [OF assms(2)] unfolding header_read_def by auto

lemma read_tlv_ends:
  assumes "chunk_ok mem ctx" and "length (tlvBuffer ctx) = 5" and "tlvBufferPos ctx \<le> 4"
  shows "ends (header_read mem ctx) (read_tlv mem ctx)"
  using assms
proof (induction mem ctx rule: read_tlv.induct)
  case (1 mem ctx)
  show ?case
  proof (cases "commandLength ctx = 0")
    case True
    with "1.prems" show ?thesis
      by (subst read_tlv.simps) (simp add: header_read_def same_but_header_def)
  next
    case False
    let ?pos = "unat (tlvBufferPos ctx)"
    obtain b where b: "readTxByte mem ctx = Inr (b, work_skip 1 ctx)"
      using readTxByte_ok [OF "1.prems"(1) False] by blast
    have p4: "?pos \<le> 4" using "1.prems"(3) by (simp add: word_le_nat_alt)
    define buf where "buf = take ?pos (tlvBuffer ctx) @ [b] @ drop (?pos + 1) (tlvBuffer ctx)"
    have w: "mem_write (tlvBuffer ctx) ?pos [b] = Inr buf" and lb: "length buf = 5"
      using p4 "1.prems"(2) by (simp_all add: mem_write_def buf_def min_def)
    have p1: "unat (tlvBufferPos ctx + 1) = ?pos + 1" using p4 by (simp add: unat_word_ariths)
    have "unat (tlvBufferPos ctx + 1) \<le> length buf" using p1 p4 lb by simp
    moreover have "0 < tlvBufferPos ctx + 1" using p1 by (simp add: word_less_nat_alt)
    ultimately obtain d l v where t: "tlvTryDecode buf (tlvBufferPos ctx + 1) (currentFieldLength ctx) = Inr (d, l, v)"
      using tlvTryDecode_safe by blast
    define ctx1 where "ctx1 = (work_skip 1 ctx)\<lparr>tlvBuffer := buf, tlvBufferPos := tlvBufferPos ctx + 1,
      currentFieldLength := l\<rparr>"
    have le1: "1 \<le> commandLength ctx" using False by (simp add: word_le_nat_alt Suc_leI unat_gt_0 word_gt_0)
    then have less: "unat (commandLength ctx1) < unat (commandLength ctx)"
      using False work_skip_length [OF le1] by (simp add: ctx1_def word_le_nat_alt)
    have c1: "chunk_ok mem ctx1" using chunk_ok_skip [OF "1.prems"(1) le1] by (simp add: ctx1_def chunk_ok_def)
    have same: "same_but_header ctx ctx1" by (simp add: ctx1_def same_but_header_def work_skip_def)
    have hr: "header_read mem ctx (ctx1, Inl STREAM_FAULT)" "header_read mem ctx (ctx1, Inr True)"
      using c1 same less lb by (simp_all add: header_read_def ctx1_def)
    have "read_tlv mem ctx =
      (if \<not> v then Inr (ctx1, Inl STREAM_FAULT) else if d then Inr (ctx1, Inr True)
       else if tlvBufferPos ctx + 1 = 5 then Inr (ctx1, Inl STREAM_FAULT) else read_tlv mem ctx1)"
      using False b w t by (subst read_tlv.simps) (simp add: Let_def ctx1_def)
    moreover have "ends (header_read mem ctx) (read_tlv mem ctx1)"
      if "v" "\<not> d" "tlvBufferPos ctx + 1 \<noteq> 5"
    proof -
      have "?pos + 1 \<noteq> 5" using that(3) p1 by (auto simp: word_unat_eq_iff)
      then have "tlvBufferPos ctx1 \<le> 4" using p1 p4 by (simp add: ctx1_def word_le_nat_alt)
      moreover have "length (tlvBuffer ctx1) = 5" using lb by (simp add: ctx1_def)
      ultimately have "ends (header_read mem ctx1) (read_tlv mem ctx1)"
        using "1.IH" [OF False b _ w refl t] that c1 by (simp add: ctx1_def)
      then show ?thesis using header_read_step [OF _ same less] by (auto elim: ends_mono)
    qed
    ultimately show ?thesis using hr by auto
  qed
qed

section \<open>The contract of a store\<close>

text \<open>
  \<open>ends_unless b P r\<close> is \<open>ends P r\<close> with one undefined behaviour allowed when \<open>b\<close> holds: an
  access outside an array. It serves the two stores that write into a name.
\<close>

definition ends_unless :: "bool \<Rightarrow> ('a \<Rightarrow> bool) \<Rightarrow> 'a result \<Rightarrow> bool" where
  "ends_unless b P r \<longleftrightarrow> (\<forall>x. r = Inr x \<longrightarrow> P x) \<and> (stops_cleanly r \<or> b \<and> r = Inl OutOfBounds)"

lemma ends_unless_Inr [simp]: "ends_unless b P (Inr x) \<longleftrightarrow> P x"
  by (simp add: ends_unless_def)

lemma ends_unless_Assertion [simp]: "ends_unless b P (Inl (Assertion m))"
  by (simp add: ends_unless_def)

lemma ends_ends_unless: "ends P r \<Longrightarrow> ends_unless b P r"
  by (simp add: ends_unless_def ends_def)

lemma ends_unless_ends: "ends_unless b P r \<Longrightarrow> \<not> b \<Longrightarrow> ends P r"
  by (simp add: ends_unless_def ends_def)

lemma ends_unless_mono:
  "ends_unless b Q r \<Longrightarrow> (\<And>x. Q x \<Longrightarrow> P x) \<Longrightarrow> (b \<Longrightarrow> c) \<Longrightarrow> ends_unless c P r"
  by (auto simp: ends_unless_def)

lemma ends_unless_andThen:
  "ends_unless b Q m \<Longrightarrow> (\<And>x. Q x \<Longrightarrow> ends_unless b P (f x)) \<Longrightarrow> ends_unless b P (andThen m f)"
  by (cases m rule: stops_cleanly.cases) (auto simp: ends_unless_def)

lemma ends_unless_assert:
  "(c \<Longrightarrow> ends_unless b P (f ())) \<Longrightarrow> ends_unless b P (andThen (LEDGER_ASSERT c m) f)"
  by (cases c) simp_all

lemma ends_unless_CX: "(\<And>x. r = Some x \<Longrightarrow> ends_unless b P (f x)) \<Longrightarrow> ends_unless b P (andThen (CX_ASSERT r) f)"
  by (cases r) (simp_all add: ends_unless_def)

text \<open>A store changes data, never the position of the parser.\<close>

definition kept :: "'h txProcessingContext_t \<Rightarrow> 'h txProcessingContext_t \<Rightarrow> bool" where
  "kept ctx ctx' \<longleftrightarrow>
     ctx' = ctx\<lparr>sha256 := sha256 ctx', dataSha256 := dataSha256 ctx', sizeBuffer := sizeBuffer ctx',
       contractName := contractName ctx', contractActionName := contractActionName ctx',
       actionDataBuffer := actionDataBuffer ctx'\<rparr>"

lemma kept_trans: "kept a b \<Longrightarrow> kept b c \<Longrightarrow> kept a c"
  by (cases a; cases b; cases c) (simp add: kept_def)

lemma kept_fields:
  assumes "kept ctx ctx'"
  shows "state ctx' = state ctx" "actionReady ctx' = actionReady ctx"
    "confirmProcessing ctx' = confirmProcessing ctx" "currentFieldLength ctx' = currentFieldLength ctx"
    "currentFieldPos ctx' = currentFieldPos ctx" "processingField ctx' = processingField ctx"
    "tlvBuffer ctx' = tlvBuffer ctx" "tlvBufferPos ctx' = tlvBufferPos ctx"
    "workBuffer ctx' = workBuffer ctx" "commandLength ctx' = commandLength ctx"
    "dataChecksum ctx' = dataChecksum ctx" "content ctx' = content ctx"
    "dataAllowed ctx' = dataAllowed ctx"
  using assms by (cases ctx; cases ctx'; simp add: kept_def)+

text \<open>
  A store takes the next bytes of a field. Inside its \<open>room\<close> it ends, with the field still inside
  \<open>limit\<close>; \<open>risky\<close> stores may leave their target. With a \<open>lawful\<close> hash it does not matter in how
  many pieces the bytes come, nor how long the chunk is.
\<close>

locale field_store =
  fixes store :: "'h store" and limit room :: nat and risky lawful :: bool
  assumes store_ends: "buffers_ok ctx \<Longrightarrow> unat (currentFieldPos ctx) \<le> limit \<Longrightarrow>
      unat (currentFieldPos ctx) + length bs \<le> room \<Longrightarrow>
      ends_unless risky (\<lambda>ctx'. kept ctx ctx' \<and> buffers_ok ctx' \<and> unat (currentFieldPos ctx) + length bs \<le> limit)
        (store bs ctx)"
    and room_small: "room < 2 ^ 32"
    and store_append: "lawful \<Longrightarrow> unat (currentFieldPos ctx) \<le> limit \<Longrightarrow>
      unat (currentFieldPos ctx) + length (xs @ ys) \<le> room \<Longrightarrow>
      store (xs @ ys) ctx = Inr ctx2 \<longleftrightarrow>
        andThen (store xs ctx) (\<lambda>ctx1.
        andThen (store ys (ctx1\<lparr>currentFieldPos := currentFieldPos ctx + of_nat (length xs)\<rparr>)) (\<lambda>ctx'.
          Inr (ctx'\<lparr>currentFieldPos := currentFieldPos ctx\<rparr>))) = Inr ctx2"
    and store_any_chunk: "store bs (ctx\<lparr>workBuffer := w, commandLength := n\<rparr>) =
      andThen (store bs ctx) (\<lambda>ctx'. Inr (ctx'\<lparr>workBuffer := w, commandLength := n\<rparr>))"
    and store_any_hash: "store bs (ctx\<lparr>sha256 := h\<rparr>) = andThen (store bs ctx) (\<lambda>ctx'. Inr (ctx'\<lparr>sha256 := h\<rparr>))"

definition incremental :: "'h hash_ops \<Rightarrow> bool" where
  "incremental ops \<longleftrightarrow> (\<forall>h. hash_update ops h [] = Some h)
     \<and> (\<forall>h xs ys. hash_update ops h (xs @ ys) = Option.bind (hash_update ops h xs) (\<lambda>h. hash_update ops h ys))"

lemma of_nat_le_12:
  assumes "unat (p :: u32) \<le> 12" and "unat p + n < 2 ^ 32"
  shows "of_nat n \<le> 12 - p \<longleftrightarrow> unat p + n \<le> 12"
proof -
  have "unat (of_nat n :: u32) = n" using assms(2) by (intro unat_of_nat_u32_small) simp
  moreover have "unat (12 - p) = 12 - unat p" using assms(1) by (simp add: unat_sub word_le_nat_alt)
  ultimately show ?thesis using assms(1) by (simp add: word_le_nat_alt) linarith
qed

lemma unat_plus_of_nat: "unat (p :: u32) + n < 2 ^ 32 \<Longrightarrow> unat (p + of_nat n) = unat p + n"
  by (simp add: unat_word_ariths unat_of_nat take_bit_eq_mod)

interpretation none_store: field_store store_none "2 ^ 32 - 1" "2 ^ 32 - 1" False True
  by unfold_locales (simp_all add: store_none_def kept_def)

lemma mem_write_append_Inr:
  "mem_write m off (xs @ ys) = Inr m2 \<longleftrightarrow>
     (\<exists>m1. mem_write m off xs = Inr m1 \<and> mem_write m1 (off + length xs) ys = Inr m2)"
  by (simp add: mem_write_append andThen_eq_Inr)

text \<open>The write that four of the stores share: the asserted bound, then the array's.\<close>

definition bounded_write :: "bytes \<Rightarrow> u32 \<Rightarrow> bytes \<Rightarrow> bytes option" where
  "bounded_write m p bs =
     (if of_nat (length bs) \<le> 12 - p \<and> unat p + length bs \<le> length m
      then Some (take (unat p) m @ bs @ drop (unat p + length bs) m) else None)"

lemma bounded_write_iff:
  "bounded_write m p bs = Some b \<longleftrightarrow> of_nat (length bs) \<le> 12 - p \<and> mem_write m (unat p) bs = Inr b"
  by (auto simp: bounded_write_def mem_write_def)

lemma length_bounded_write: "bounded_write m p bs = Some b \<Longrightarrow> length b = length m"
  by (auto simp: bounded_write_iff dest: length_mem_write)

lemma bounded_write_append:
  assumes p: "unat p \<le> 12" and len: "unat p + length (xs @ ys) \<le> 2 ^ 32 - 1"
  shows "bounded_write m p (xs @ ys) =
    Option.bind (bounded_write m p xs) (\<lambda>m1. bounded_write m1 (p + of_nat (length xs)) ys)"
proof -
  have a: "of_nat (length (xs @ ys)) \<le> 12 - p \<longleftrightarrow> unat p + length (xs @ ys) \<le> 12"
    by (rule of_nat_le_12) (use assms in simp_all)
  have b: "of_nat (length xs) \<le> 12 - p \<longleftrightarrow> unat p + length xs \<le> 12"
    by (rule of_nat_le_12) (use assms in simp_all)
  have u: "unat (p + of_nat (length xs)) = unat p + length xs"
    using len by (intro unat_plus_of_nat) simp
  have c: "of_nat (length ys) \<le> 12 - (p + of_nat (length xs)) \<longleftrightarrow> unat p + length (xs @ ys) \<le> 12"
    if "unat p + length xs \<le> 12"
    using that len u of_nat_le_12 [of "p + of_nat (length xs)" "length ys"] by (simp add: add.assoc)
  have "bounded_write m p (xs @ ys) = Some m2 \<longleftrightarrow>
      Option.bind (bounded_write m p xs) (\<lambda>m1. bounded_write m1 (p + of_nat (length xs)) ys) = Some m2" for m2
  proof (cases "unat p + length (xs @ ys) \<le> 12")
    case True
    then have "unat p + length xs \<le> 12" by simp
    with True show ?thesis
      using a b c u by (simp only: bounded_write_iff bind_eq_Some_conv mem_write_append_Inr) blast
  next
    case False
    then show ?thesis using a b c by (auto simp: bounded_write_iff bind_eq_Some_conv)
  qed
  then show ?thesis by (metis not_Some_eq)
qed

lemma store_size_Inr:
  "store_size msg bs ctx = Inr ctx2 \<longleftrightarrow>
     (\<exists>b. bounded_write (sizeBuffer ctx) (currentFieldPos ctx) bs = Some b \<and> ctx2 = ctx\<lparr>sizeBuffer := b\<rparr>)"
  by (auto simp: store_size_def andThen_eq_Inr LEDGER_ASSERT_eq_Inr bounded_write_iff)

lemma store_contract_Inr:
  "store_contract bs ctx = Inr ctx2 \<longleftrightarrow>
     (\<exists>b. bounded_write (le_bytes 8 (unat (contractName ctx))) (currentFieldPos ctx) bs = Some b
       \<and> ctx2 = ctx\<lparr>contractName := le_word b\<rparr>)"
  by (auto simp: store_contract_def andThen_eq_Inr LEDGER_ASSERT_eq_Inr bounded_write_iff)

lemma store_action_Inr:
  "store_action bs ctx = Inr ctx2 \<longleftrightarrow>
     (\<exists>b. bounded_write (le_bytes 8 (unat (contractActionName ctx))) (currentFieldPos ctx) bs = Some b
       \<and> ctx2 = ctx\<lparr>contractActionName := le_word b\<rparr>)"
  by (auto simp: store_action_def andThen_eq_Inr LEDGER_ASSERT_eq_Inr bounded_write_iff)

lemma le_bytes_le_word: "length m = 8 \<Longrightarrow> le_bytes 8 (unat (le_word m :: u64)) = m"
  using le_nat_less [of m] by (simp add: le_word_def unat_of_nat take_bit_nat_eq_self le_bytes_le_nat)

text \<open>The chunk and the hash of the transaction are not touched by a store.\<close>

lemma chunk_commute:
  "ctx\<lparr>workBuffer := w, commandLength := n, dataSha256 := h\<rparr> = ctx\<lparr>dataSha256 := h, workBuffer := w, commandLength := n\<rparr>"
  "ctx\<lparr>workBuffer := w, commandLength := n, sizeBuffer := b\<rparr> = ctx\<lparr>sizeBuffer := b, workBuffer := w, commandLength := n\<rparr>"
  "ctx\<lparr>workBuffer := w, commandLength := n, contractName := v\<rparr> = ctx\<lparr>contractName := v, workBuffer := w, commandLength := n\<rparr>"
  "ctx\<lparr>workBuffer := w, commandLength := n, contractActionName := v\<rparr> = ctx\<lparr>contractActionName := v, workBuffer := w, commandLength := n\<rparr>"
  "ctx\<lparr>workBuffer := w, commandLength := n, actionDataBuffer := b\<rparr> = ctx\<lparr>actionDataBuffer := b, workBuffer := w, commandLength := n\<rparr>"
  "ctx\<lparr>sha256 := g, dataSha256 := h\<rparr> = ctx\<lparr>dataSha256 := h, sha256 := g\<rparr>"
  "ctx\<lparr>sha256 := g, sizeBuffer := b\<rparr> = ctx\<lparr>sizeBuffer := b, sha256 := g\<rparr>"
  "ctx\<lparr>sha256 := g, contractName := v\<rparr> = ctx\<lparr>contractName := v, sha256 := g\<rparr>"
  "ctx\<lparr>sha256 := g, contractActionName := v\<rparr> = ctx\<lparr>contractActionName := v, sha256 := g\<rparr>"
  "ctx\<lparr>sha256 := g, actionDataBuffer := b\<rparr> = ctx\<lparr>actionDataBuffer := b, sha256 := g\<rparr>"
  by (cases ctx; simp)+

lemmas chunk_simps = andThen_assoc chunk_commute

interpretation size_store: field_store "store_size msg" 12 "2 ^ 32 - 1" False True
proof
  fix ctx :: "'a txProcessingContext_t" and bs :: bytes
  assume *: "buffers_ok ctx" "unat (currentFieldPos ctx) \<le> 12"
    "unat (currentFieldPos ctx) + length bs \<le> 2 ^ 32 - 1"
  then have "of_nat (length bs) \<le> 12 - currentFieldPos ctx \<longleftrightarrow> unat (currentFieldPos ctx) + length bs \<le> 12"
    by (intro of_nat_le_12) simp_all
  with * show "ends_unless False (\<lambda>ctx'. kept ctx ctx' \<and> buffers_ok ctx' \<and> unat (currentFieldPos ctx) + length bs \<le> 12)
      (store_size msg bs ctx)"
    unfolding store_size_def
    by (intro ends_unless_assert) (simp add: mem_write_def buffers_ok_def kept_def)
next
  fix ctx ctx2 :: "'a txProcessingContext_t" and xs ys :: bytes
  let ?p = "currentFieldPos ctx"
  assume *: "unat ?p \<le> 12" "unat ?p + length (xs @ ys) \<le> 2 ^ 32 - 1"
  show "store_size msg (xs @ ys) ctx = Inr ctx2 \<longleftrightarrow>
        andThen (store_size msg xs ctx) (\<lambda>ctx1.
        andThen (store_size msg ys (ctx1\<lparr>currentFieldPos := ?p + of_nat (length xs)\<rparr>)) (\<lambda>ctx'.
          Inr (ctx'\<lparr>currentFieldPos := ?p\<rparr>))) = Inr ctx2"
    using bounded_write_append [OF *, of "sizeBuffer ctx"]
    by (auto simp: andThen_eq_Inr store_size_Inr bind_eq_Some_conv simp del: length_append)
qed (simp_all add: store_size_def chunk_simps)

interpretation contract_store: field_store store_contract 8 "2 ^ 32 - 1" True True
proof
  fix ctx :: "'a txProcessingContext_t" and bs :: bytes
  assume "buffers_ok ctx"
  then show "ends_unless True (\<lambda>ctx'. kept ctx ctx' \<and> buffers_ok ctx' \<and> unat (currentFieldPos ctx) + length bs \<le> 8)
      (store_contract bs ctx)"
    unfolding store_contract_def
    by (intro ends_unless_assert) (simp add: mem_write_def buffers_ok_def kept_def ends_unless_def)
next
  fix ctx ctx2 :: "'a txProcessingContext_t" and xs ys :: bytes
  let ?p = "currentFieldPos ctx"
  let ?m = "le_bytes 8 (unat (contractName ctx))"
  assume *: "unat ?p \<le> 8" "unat ?p + length (xs @ ys) \<le> 2 ^ 32 - 1"
  then have "bounded_write ?m ?p (xs @ ys) =
      Option.bind (bounded_write ?m ?p xs) (\<lambda>m1. bounded_write m1 (?p + of_nat (length xs)) ys)"
    by (intro bounded_write_append) simp_all
  moreover have "length m1 = 8" if "bounded_write ?m ?p xs = Some m1" for m1
    using length_bounded_write [OF that] by simp
  ultimately show "store_contract (xs @ ys) ctx = Inr ctx2 \<longleftrightarrow>
        andThen (store_contract xs ctx) (\<lambda>ctx1.
        andThen (store_contract ys (ctx1\<lparr>currentFieldPos := ?p + of_nat (length xs)\<rparr>)) (\<lambda>ctx'.
          Inr (ctx'\<lparr>currentFieldPos := ?p\<rparr>))) = Inr ctx2"
    by (auto simp: andThen_eq_Inr store_contract_Inr bind_eq_Some_conv le_bytes_le_word simp del: length_append)
qed (simp_all add: store_contract_def chunk_simps)

interpretation action_store: field_store store_action 8 "2 ^ 32 - 1" True True
proof
  fix ctx :: "'a txProcessingContext_t" and bs :: bytes
  assume "buffers_ok ctx"
  then show "ends_unless True (\<lambda>ctx'. kept ctx ctx' \<and> buffers_ok ctx' \<and> unat (currentFieldPos ctx) + length bs \<le> 8)
      (store_action bs ctx)"
    unfolding store_action_def
    by (intro ends_unless_assert) (simp add: mem_write_def buffers_ok_def kept_def ends_unless_def)
next
  fix ctx ctx2 :: "'a txProcessingContext_t" and xs ys :: bytes
  let ?p = "currentFieldPos ctx"
  let ?m = "le_bytes 8 (unat (contractActionName ctx))"
  assume *: "unat ?p \<le> 8" "unat ?p + length (xs @ ys) \<le> 2 ^ 32 - 1"
  then have "bounded_write ?m ?p (xs @ ys) =
      Option.bind (bounded_write ?m ?p xs) (\<lambda>m1. bounded_write m1 (?p + of_nat (length xs)) ys)"
    by (intro bounded_write_append) simp_all
  moreover have "length m1 = 8" if "bounded_write ?m ?p xs = Some m1" for m1
    using length_bounded_write [OF that] by simp
  ultimately show "store_action (xs @ ys) ctx = Inr ctx2 \<longleftrightarrow>
        andThen (store_action xs ctx) (\<lambda>ctx1.
        andThen (store_action ys (ctx1\<lparr>currentFieldPos := ?p + of_nat (length xs)\<rparr>)) (\<lambda>ctx'.
          Inr (ctx'\<lparr>currentFieldPos := ?p\<rparr>))) = Inr ctx2"
    by (auto simp: andThen_eq_Inr store_action_Inr bind_eq_Some_conv le_bytes_le_word simp del: length_append)
qed (simp_all add: store_action_def chunk_simps)

interpretation data_store: field_store store_data 511 511 False True
proof
  fix ctx :: "'a txProcessingContext_t" and bs :: bytes
  assume "buffers_ok ctx" "unat (currentFieldPos ctx) + length bs \<le> 511"
  then show "ends_unless False (\<lambda>ctx'. kept ctx ctx' \<and> buffers_ok ctx' \<and> unat (currentFieldPos ctx) + length bs \<le> 511)
      (store_data bs ctx)"
    unfolding store_data_def by (simp add: mem_write_def buffers_ok_def kept_def)
next
  fix ctx ctx2 :: "'a txProcessingContext_t" and xs ys :: bytes
  let ?p = "currentFieldPos ctx"
  assume "unat ?p + length (xs @ ys) \<le> 511"
  then have "unat (?p + of_nat (length xs)) = unat ?p + length xs" by (intro unat_plus_of_nat) simp
  then show "store_data (xs @ ys) ctx = Inr ctx2 \<longleftrightarrow>
        andThen (store_data xs ctx) (\<lambda>ctx1.
        andThen (store_data ys (ctx1\<lparr>currentFieldPos := ?p + of_nat (length xs)\<rparr>)) (\<lambda>ctx'.
          Inr (ctx'\<lparr>currentFieldPos := ?p\<rparr>))) = Inr ctx2"
    by (auto simp: andThen_eq_Inr store_data_def mem_write_append_Inr)
qed (simp_all add: store_data_def chunk_simps)

interpretation hash_store: field_store "hashActionData ops" "2 ^ 32 - 1" "2 ^ 32 - 1" False "incremental ops"
proof
  fix ctx :: "'a txProcessingContext_t" and bs :: bytes
  assume *: "buffers_ok ctx" "unat (currentFieldPos ctx) + length bs \<le> 2 ^ 32 - 1"
  show "ends_unless False (\<lambda>ctx'. kept ctx ctx' \<and> buffers_ok ctx' \<and> unat (currentFieldPos ctx) + length bs \<le> 2 ^ 32 - 1)
      (hashActionData ops bs ctx)"
    unfolding hashActionData_def
    using * by (intro ends_unless_CX) (simp add: buffers_ok_def kept_def)
next
  fix ctx ctx2 :: "'a txProcessingContext_t" and xs ys :: bytes
  let ?p = "currentFieldPos ctx"
  assume "incremental ops"
  then show "hashActionData ops (xs @ ys) ctx = Inr ctx2 \<longleftrightarrow>
        andThen (hashActionData ops xs ctx) (\<lambda>ctx1.
        andThen (hashActionData ops ys (ctx1\<lparr>currentFieldPos := ?p + of_nat (length xs)\<rparr>)) (\<lambda>ctx'.
          Inr (ctx'\<lparr>currentFieldPos := ?p\<rparr>))) = Inr ctx2"
    by (auto simp: incremental_def hashActionData_def andThen_eq_Inr CX_ASSERT_eq_Inr bind_eq_Some_conv)
qed (simp_all add: hashActionData_def chunk_simps)

section \<open>Receiving a field\<close>

definition in_field :: "bytes \<Rightarrow> 'h txProcessingContext_t \<Rightarrow> bool" where
  "in_field mem ctx \<longleftrightarrow> buffers_ok ctx \<and> chunk_ok mem ctx \<and> processingField ctx \<and> tlvBufferPos ctx = 0
     \<and> currentFieldPos ctx \<le> currentFieldLength ctx"

definition same_but_fields :: "'h txProcessingContext_t \<Rightarrow> 'h txProcessingContext_t \<Rightarrow> bool" where
  "same_but_fields ctx ctx' \<longleftrightarrow>
     ctx' = ctx\<lparr>sha256 := sha256 ctx', dataSha256 := dataSha256 ctx', sizeBuffer := sizeBuffer ctx',
       contractName := contractName ctx', contractActionName := contractActionName ctx',
       actionDataBuffer := actionDataBuffer ctx', workBuffer := workBuffer ctx',
       commandLength := commandLength ctx', currentFieldPos := currentFieldPos ctx'\<rparr>"

definition received :: "bytes \<Rightarrow> 'h txProcessingContext_t \<Rightarrow> 'h txProcessingContext_t \<Rightarrow> bool" where
  "received mem ctx ctx' \<longleftrightarrow> same_but_fields ctx ctx' \<and> in_field mem ctx'
     \<and> (currentFieldPos ctx' < currentFieldLength ctx' \<longrightarrow> commandLength ctx' = 0)
     \<and> unat (commandLength ctx') \<le> unat (commandLength ctx)
     \<and> (currentFieldPos ctx < currentFieldLength ctx \<and> commandLength ctx \<noteq> 0
         \<longrightarrow> unat (commandLength ctx') < unat (commandLength ctx))"

lemma same_but_fields_simps:
  assumes "same_but_fields ctx ctx'"
  shows "state ctx' = state ctx" "actionReady ctx' = actionReady ctx"
    "confirmProcessing ctx' = confirmProcessing ctx" "currentFieldLength ctx' = currentFieldLength ctx"
    "processingField ctx' = processingField ctx" "tlvBuffer ctx' = tlvBuffer ctx"
    "tlvBufferPos ctx' = tlvBufferPos ctx" "dataChecksum ctx' = dataChecksum ctx"
    "content ctx' = content ctx" "dataAllowed ctx' = dataAllowed ctx"
    "currentActionNumber ctx' = currentActionNumber ctx" "currentActionIndex ctx' = currentActionIndex ctx"
  using assms by (cases ctx; cases ctx'; simp add: same_but_fields_def)+

lemma chunk_length_le:
  "chunk_length ctx \<le> commandLength ctx" "chunk_length ctx \<le> currentFieldLength ctx - currentFieldPos ctx"
  by (auto simp: chunk_length_def not_less)

lemma chunk_length_position:
  assumes "currentFieldPos ctx \<le> currentFieldLength ctx"
  shows "unat (currentFieldPos ctx + chunk_length ctx) = unat (currentFieldPos ctx) + unat (chunk_length ctx)"
    and "currentFieldPos ctx + chunk_length ctx \<le> currentFieldLength ctx"
    and "currentFieldPos ctx + chunk_length ctx < currentFieldLength ctx \<Longrightarrow> chunk_length ctx = commandLength ctx"
proof -
  let ?p = "currentFieldPos ctx" and ?l = "currentFieldLength ctx"
  have d: "unat (?l - ?p) = unat ?l - unat ?p" and le: "unat ?p \<le> unat ?l"
    using assms by (simp_all add: unat_sub word_le_nat_alt)
  have c: "unat (chunk_length ctx) \<le> unat ?l - unat ?p"
    using chunk_length_le(2) [of ctx] d by (simp add: word_le_nat_alt)
  have "unat ?l < 2 ^ 32" using unsigned_less [of ?l] by simp
  then show u: "unat (?p + chunk_length ctx) = unat ?p + unat (chunk_length ctx)"
    using c le by (simp add: unat_word_ariths)
  show "?p + chunk_length ctx \<le> ?l" using u c le by (simp add: word_le_nat_alt)
  show "chunk_length ctx = commandLength ctx" if "?p + chunk_length ctx < ?l"
  proof -
    have "unat (chunk_length ctx) \<noteq> unat (?l - ?p)" using that u d le by (simp add: word_less_nat_alt)
    then show ?thesis by (auto simp: chunk_length_def)
  qed
qed

lemma work_read_chunk:
  assumes "chunk_ok mem ctx" and "n \<le> commandLength ctx"
  shows "\<exists>bs. work_read mem ctx (unat n) = Inr bs \<and> length bs = unat n"
proof (cases "unat n = 0")
  case False
  have le: "unat n \<le> unat (commandLength ctx)" using assms(2) by (simp add: word_le_nat_alt)
  with False have "commandLength ctx \<noteq> 0" by auto
  then obtain off where "workBuffer ctx = Some off" "off + unat (commandLength ctx) \<le> length mem"
    using assms(1) by (auto simp: chunk_ok_def)
  with le show ?thesis by (simp add: work_read_def mem_read_def)
qed (simp add: work_read_def)

lemma advance_simps [simp]:
  "currentFieldPos (advance n ctx) = currentFieldPos ctx + n"
  "commandLength (advance n ctx) = commandLength ctx - n"
  "currentFieldLength (advance n ctx) = currentFieldLength ctx"
  "buffers_ok (advance n ctx) = buffers_ok ctx"
  "processingField (advance n ctx) = processingField ctx"
  "tlvBufferPos (advance n ctx) = tlvBufferPos ctx"
  by (simp_all add: advance_def work_skip_def buffers_ok_def)

lemma same_but_fields_advance: "kept ctx ctx' \<Longrightarrow> same_but_fields ctx (advance n ctx')"
  by (cases ctx; cases ctx') (simp add: kept_def same_but_fields_def advance_def work_skip_def)

lemma received_advance:
  assumes f: "in_field mem ctx" and lt: "currentFieldPos ctx < currentFieldLength ctx"
    and k: "kept ctx ctx'" and b: "buffers_ok ctx'" and n: "n = chunk_length ctx"
  shows "received mem ctx (advance n ctx')"
proof -
  have le: "currentFieldPos ctx \<le> currentFieldLength ctx" and c: "chunk_ok mem ctx"
    using f by (simp_all add: in_field_def)
  note kf = kept_fields [OF k]
  have nle: "n \<le> commandLength ctx" using chunk_length_le n by simp
  have "chunk_ok mem ctx'" using c kf by (simp add: chunk_ok_def)
  then have c': "chunk_ok mem (advance n ctx')"
    using chunk_ok_skip [of mem ctx' n] nle kf by (simp add: advance_def chunk_ok_def)
  have pos: "currentFieldPos ctx + n \<le> currentFieldLength ctx"
    and full: "currentFieldPos ctx + n < currentFieldLength ctx \<Longrightarrow> n = commandLength ctx"
    using chunk_length_position [OF le] n by simp_all
  have cl: "unat (commandLength ctx - n) = unat (commandLength ctx) - unat n"
    using nle by (simp add: unat_sub)
  have "n \<noteq> 0" if "commandLength ctx \<noteq> 0"
    using that lt n by (auto simp: chunk_length_def)
  then have "unat (commandLength ctx - n) < unat (commandLength ctx)" if "commandLength ctx \<noteq> 0"
    using that cl nle by (simp add: word_le_nat_alt unat_gt_0)
  then show ?thesis
    using same_but_fields_advance [OF k, of n] c' pos full cl f b kf
    by (auto simp: received_def in_field_def)
qed

lemma hashTxData_ends:
  assumes "buffers_ok ctx"
  shows "ends (\<lambda>ctx'. kept ctx ctx' \<and> buffers_ok ctx') (hashTxData ops bs ctx)"
  unfolding hashTxData_def using assms by (intro ends_CX) (simp add: kept_def buffers_ok_def)

context field_store
begin

lemma receive_ends:
  assumes f: "in_field mem ctx" and room: "unat (currentFieldLength ctx) \<le> room"
    and limit: "unat (currentFieldPos ctx) \<le> limit"
    and check: "\<And>n. n \<le> commandLength ctx \<Longrightarrow> check n ctx = Inr ()"
  shows "ends_unless risky (\<lambda>ctx'. received mem ctx ctx' \<and> unat (currentFieldPos ctx') \<le> limit)
    (receive ops mem check store ctx)"
proof (cases "currentFieldPos ctx < currentFieldLength ctx")
  case True
  let ?n = "chunk_length ctx"
  have le: "currentFieldPos ctx \<le> currentFieldLength ctx" and c: "chunk_ok mem ctx" and b: "buffers_ok ctx"
    using f by (simp_all add: in_field_def)
  obtain bs where bs: "work_read mem ctx (unat ?n) = Inr bs" "length bs = unat ?n"
    using work_read_chunk [OF c chunk_length_le(1)] by blast
  have u: "unat (currentFieldPos ctx + ?n) = unat (currentFieldPos ctx) + length bs"
    using chunk_length_position(1) [OF le] bs(2) by simp
  have fits: "unat (currentFieldPos ctx) + length bs \<le> room"
    using chunk_length_position(2) [OF le] u room by (simp add: word_le_nat_alt)
  have "ends_unless risky (\<lambda>ctx'. received mem ctx ctx' \<and> unat (currentFieldPos ctx') \<le> limit)
      (andThen (hashTxData ops bs ctx) (\<lambda>ctx. andThen (store bs ctx) (\<lambda>ctx. Inr (advance ?n ctx))))"
  proof (rule ends_unless_andThen [OF ends_ends_unless [OF hashTxData_ends [OF b]]])
    fix ctx1 assume 1: "kept ctx ctx1 \<and> buffers_ok ctx1"
    note kf = kept_fields [OF conjunct1 [OF 1]]
    have "ends_unless risky (\<lambda>ctx'. kept ctx1 ctx' \<and> buffers_ok ctx' \<and> unat (currentFieldPos ctx1) + length bs \<le> limit)
        (store bs ctx1)"
      using 1 kf limit fits by (intro store_ends) simp_all
    then show "ends_unless risky (\<lambda>ctx'. received mem ctx ctx' \<and> unat (currentFieldPos ctx') \<le> limit)
        (andThen (store bs ctx1) (\<lambda>ctx. Inr (advance ?n ctx)))"
    proof (rule ends_unless_andThen)
      fix ctx2 assume 2: "kept ctx1 ctx2 \<and> buffers_ok ctx2 \<and> unat (currentFieldPos ctx1) + length bs \<le> limit"
      then have k: "kept ctx ctx2" using 1 kept_trans by blast
      have "received mem ctx (advance ?n ctx2)" using f True k 2 by (intro received_advance) simp_all
      moreover have "unat (currentFieldPos (advance ?n ctx2)) \<le> limit"
        using 2 u kf kept_fields(5) [OF k] by simp
      ultimately show "ends_unless risky (\<lambda>ctx'. received mem ctx ctx' \<and> unat (currentFieldPos ctx') \<le> limit)
          (Inr (advance ?n ctx2))" by simp
    qed
  qed
  then show ?thesis
    using True bs check [OF chunk_length_le(1)] by (simp add: receive_def Let_def)
next
  case False
  then show ?thesis
    using f limit by (simp add: receive_def received_def same_but_fields_def)
qed

end

text \<open>The whole of a field function: the parser is inside the field with the chunk used up, or past it.\<close>

definition progressed :: "bytes \<Rightarrow> 'h txProcessingContext_t \<Rightarrow> 'h txProcessingContext_t \<Rightarrow> bool" where
  "progressed mem ctx ctx' \<longleftrightarrow> stream_ok mem ctx'
     \<and> unat (commandLength ctx') \<le> unat (commandLength ctx)
     \<and> (currentFieldPos ctx < currentFieldLength ctx \<and> commandLength ctx \<noteq> 0
         \<longrightarrow> unat (commandLength ctx') < unat (commandLength ctx))
     \<and> (processingField ctx' \<longrightarrow> commandLength ctx' = 0 \<and> same_but_fields ctx ctx')"

definition finished :: "'h txProcessingContext_t \<Rightarrow> 'h txProcessingContext_t \<Rightarrow> bool" where
  "finished ctx ctx' \<longleftrightarrow> buffers_ok ctx' \<and> \<not> processingField ctx'
     \<and> workBuffer ctx' = workBuffer ctx \<and> commandLength ctx' = commandLength ctx
     \<and> tlvBufferPos ctx' = tlvBufferPos ctx"

context field_store
begin

lemma field_ends:
  assumes f: "in_field mem ctx" and room: "unat (currentFieldLength ctx) \<le> room"
    and limit: "unat (currentFieldPos ctx) \<le> limit"
    and check: "\<And>n. n \<le> commandLength ctx \<Longrightarrow> check n ctx = Inr ()"
    and bounds: "size_state (state ctx) \<Longrightarrow> limit \<le> 12" "name_state (state ctx) \<Longrightarrow> limit \<le> 8"
    and finish: "\<And>ctx'. received mem ctx ctx' \<Longrightarrow> ends (finished ctx') (finish ctx')"
  shows "ends_unless risky (progressed mem ctx) (andThen (receive ops mem check store ctx) (when_complete finish))"
proof (rule ends_unless_andThen)
  show "ends_unless risky (\<lambda>ctx'. received mem ctx ctx' \<and> unat (currentFieldPos ctx') \<le> limit)
      (receive ops mem check store ctx)"
    using f room limit check by (rule receive_ends)
next
  fix ctx1 assume 1: "received mem ctx ctx1 \<and> unat (currentFieldPos ctx1) \<le> limit"
  then have r: "received mem ctx ctx1" and l: "unat (currentFieldPos ctx1) \<le> limit" by simp_all
  have same: "same_but_fields ctx ctx1" and f1: "in_field mem ctx1" using r by (simp_all add: received_def)
  note ss = same_but_fields_simps [OF same]
  show "ends_unless risky (progressed mem ctx) (when_complete finish ctx1)"
  proof (cases "currentFieldPos ctx1 = currentFieldLength ctx1")
    case True
    have "ends (progressed mem ctx) (finish ctx1)"
    proof (rule ends_mono [OF finish [OF r]])
      fix ctx2 assume fin: "finished ctx1 ctx2"
      have "chunk_ok mem ctx2" using f1 fin by (simp add: in_field_def finished_def chunk_ok_def)
      moreover have "position_ok ctx2" using fin f1 by (simp add: finished_def position_ok_def in_field_def)
      ultimately show "progressed mem ctx ctx2"
        using fin r by (simp add: progressed_def stream_ok_def finished_def received_def)
    qed
    then show ?thesis using True by (simp add: when_complete_def ends_ends_unless)
  next
    case False
    then have lt: "currentFieldPos ctx1 < currentFieldLength ctx1"
      using False f1 by (simp add: in_field_def order.strict_iff_order)
    have "unat (currentFieldPos ctx1) \<le> 12" if "size_state (state ctx)" using l bounds(1) that by simp
    moreover have "unat (currentFieldPos ctx1) \<le> 8" if "name_state (state ctx)" using l bounds(2) that by simp
    ultimately have "position_ok ctx1" using lt f1 ss by (simp add: position_ok_def in_field_def word_le_nat_alt)
    then show ?thesis
      using False f1 r lt same
      by (auto simp: when_complete_def progressed_def stream_ok_def in_field_def received_def)
  qed
qed

end

lemma checked_ok: "n \<le> commandLength ctx \<Longrightarrow> checked msg n ctx = Inr ()"
  by (simp add: checked_def)

lemma finished_to_state: "buffers_ok ctx \<Longrightarrow> finished ctx (to_state s ctx)"
  by (simp add: finished_def to_state_def buffers_ok_def)

lemma received_buffers: "received mem ctx ctx' \<Longrightarrow> buffers_ok ctx'"
  by (simp add: received_def in_field_def)

lemma u32_room: "unat (n :: u32) \<le> 2 ^ 32 - 1"
proof -
  have "unat n < 2 ^ LENGTH(32)" by (rule unsigned_less)
  then show ?thesis by simp
qed

lemma size_value_ends: "buffers_ok ctx \<Longrightarrow> ends (\<lambda>_. True) (size_value ctx)"
  unfolding size_value_def case_prod_beta by (intro ends_unpack) (simp_all add: buffers_ok_def)

lemma name_to_string_ends:
  "name_to_string v (zeros 14) 0 14 = Inr (length (name_text v), padded 14 (name_text v))"
  by (simp add: name_to_string_eq padded_def)

lemma length_padded_name: "length (padded 14 (name_text v)) = 14"
  using length_name_text [of v] by (intro length_padded) simp

lemma processField_ends:
  assumes "in_field mem ctx" and "\<not> size_state (state ctx)" and "\<not> name_state (state ctx)"
  shows "ends (progressed mem ctx) (processField ops mem ctx)"
  unfolding processField_def
  using assms u32_room
  by (intro ends_unless_ends [OF none_store.field_ends])
    (simp_all add: checked_ok finished_to_state received_buffers)

lemma processZeroSizeField_ends:
  assumes "in_field mem ctx" and "unat (currentFieldPos ctx) \<le> 12" and "\<not> name_state (state ctx)"
  shows "ends (progressed mem ctx) (processZeroSizeField ops mem ctx)"
  unfolding processZeroSizeField_def
proof (rule ends_unless_ends [OF size_store.field_ends])
  fix ctx' assume "received mem ctx ctx'"
  then have b: "buffers_ok ctx'" by (rule received_buffers)
  then show "ends (finished ctx') (andThen (size_value ctx') (\<lambda>sizeValue.
      andThen (LEDGER_ASSERT (sizeValue = 0) ''processCtxFreeAction Action Number must be 0'') (\<lambda>_.
        Inr (to_state (next_state (state ctx')) (ctx'\<lparr>sizeBuffer := zeros 12\<rparr>)))))"
    by (intro ends_andThen [OF size_value_ends] ends_assert)
      (simp_all add: finished_def to_state_def buffers_ok_def)
qed (use assms u32_room in \<open>simp_all add: checked_ok\<close>)

lemma processActionListSizeField_ends:
  assumes "in_field mem ctx" and "unat (currentFieldPos ctx) \<le> 12" and "\<not> name_state (state ctx)"
  shows "ends (progressed mem ctx) (processActionListSizeField ops mem ctx)"
  unfolding processActionListSizeField_def
proof (rule ends_unless_ends [OF size_store.field_ends])
  fix ctx' assume "received mem ctx ctx'"
  then have b: "buffers_ok ctx'" by (rule received_buffers)
  then show "ends (finished ctx') (andThen (size_value ctx') (\<lambda>n.
      let ctx = ctx'\<lparr>currentActionNumber := n, currentActionIndex := 0, sizeBuffer := zeros 12\<rparr>;
          ctx = to_state (next_state (state ctx)) ctx
      in Inr (if currentActionNumber ctx > 1 then ctx\<lparr>confirmProcessing := True\<rparr> else ctx)))"
    by (intro ends_andThen [OF size_value_ends])
      (simp_all add: finished_def to_state_def buffers_ok_def Let_def)
qed (use assms u32_room in \<open>simp_all add: checked_ok\<close>)

lemma processAuthorizationListSizeField_ends:
  assumes "in_field mem ctx" and "unat (currentFieldPos ctx) \<le> 12" and "\<not> name_state (state ctx)"
  shows "ends (progressed mem ctx) (processAuthorizationListSizeField ops mem ctx)"
  unfolding processAuthorizationListSizeField_def
proof (rule ends_unless_ends [OF size_store.field_ends])
  fix ctx' assume "received mem ctx ctx'"
  then have b: "buffers_ok ctx'" by (rule received_buffers)
  then show "ends (finished ctx') (andThen (size_value ctx') (\<lambda>n.
      Inr (to_state (next_state (state ctx'))
        (ctx'\<lparr>currentAutorizationNumber := n, currentAutorizationIndex := 0, sizeBuffer := zeros 12\<rparr>))))"
    by (intro ends_andThen [OF size_value_ends]) (simp_all add: finished_def to_state_def buffers_ok_def)
qed (use assms u32_room in \<open>simp_all add: checked_ok\<close>)

lemma processAuthorizationPermission_ends:
  assumes "in_field mem ctx" and "\<not> size_state (state ctx)" and "\<not> name_state (state ctx)"
  shows "ends (progressed mem ctx) (processAuthorizationPermission ops mem ctx)"
  unfolding processAuthorizationPermission_def
proof (rule ends_unless_ends [OF none_store.field_ends])
  fix ctx' assume "received mem ctx ctx'"
  then have b: "buffers_ok ctx'" by (rule received_buffers)
  then show "ends (finished ctx')
      (let ctx = ctx'\<lparr>currentAutorizationIndex := currentAutorizationIndex ctx' + 1, sizeBuffer := zeros 12\<rparr>
       in Inr (to_state (if currentAutorizationIndex ctx \<noteq> currentAutorizationNumber ctx
            then TLV_AUTHORIZATION_ACTOR else next_state (state ctx)) ctx))"
    by (simp add: finished_def to_state_def buffers_ok_def Let_def)
qed (use assms u32_room in \<open>simp_all add: checked_ok\<close>)

lemma processUnknownActionDataSize_ends:
  assumes "in_field mem ctx" and "\<not> size_state (state ctx)" and "\<not> name_state (state ctx)"
  shows "ends (progressed mem ctx) (processUnknownActionDataSize ops mem ctx)"
  unfolding processUnknownActionDataSize_def
  using assms u32_room
  by (intro ends_unless_ends [OF hash_store.field_ends])
    (simp_all add: checked_ok finished_to_state received_buffers)

lemma processActionAccount_ends:
  assumes "in_field mem ctx" and "unat (currentFieldPos ctx) \<le> 8"
  shows "ends_unless True (progressed mem ctx) (processActionAccount ops mem ctx)"
  unfolding processActionAccount_def
proof (rule contract_store.field_ends)
  fix ctx' assume "received mem ctx ctx'"
  then have "buffers_ok ctx'" by (rule received_buffers)
  then show "ends (finished ctx') (let ctx = to_state (next_state (state ctx')) ctx' in
      andThen (name_to_string (contractName ctx) (zeros 14) 0 14) (\<lambda>(_, s).
        Inr (ctx\<lparr>content := (content ctx)\<lparr>contract := s\<rparr>\<rparr>)))"
    by (simp add: name_to_string_ends length_padded_name finished_def to_state_def buffers_ok_def
        content_ok_def Let_def)
qed (use assms u32_room in \<open>simp_all add: checked_ok\<close>)

lemma processActionName_ends:
  assumes "in_field mem ctx" and "unat (currentFieldPos ctx) \<le> 8"
  shows "ends_unless True (progressed mem ctx) (processActionName ops mem ctx)"
  unfolding processActionName_def
proof (rule action_store.field_ends)
  fix ctx' assume "received mem ctx ctx'"
  then have "buffers_ok ctx'" by (rule received_buffers)
  then show "ends (finished ctx') (let ctx = to_state (next_state (state ctx')) ctx' in
      andThen (name_to_string (contractActionName ctx) (zeros 14) 0 14) (\<lambda>(_, s).
        Inr (ctx\<lparr>content := (content ctx)\<lparr>action := s\<rparr>\<rparr>)))"
    by (simp add: name_to_string_ends length_padded_name finished_def to_state_def buffers_ok_def
        content_ok_def Let_def)
qed (use assms u32_room in \<open>simp_all add: checked_ok\<close>)

text \<open>The digest of the hash library has 32 bytes.\<close>

definition digest_32 :: "'h hash_ops \<Rightarrow> bool" where
  "digest_32 ops \<longleftrightarrow> (\<forall>h d h'. hash_final ops h = Some (d, h') \<longrightarrow> length d = 32)"

lemma digest_32D: "digest_32 ops \<Longrightarrow> hash_final ops h = Some p \<Longrightarrow> length (fst p) = 32"
  by (cases p) (auto simp: digest_32_def)

lemma finished_after_action:
  "buffers_ok ctx' \<Longrightarrow> workBuffer ctx' = workBuffer ctx \<Longrightarrow> commandLength ctx' = commandLength ctx \<Longrightarrow>
     tlvBufferPos ctx' = tlvBufferPos ctx \<Longrightarrow> finished ctx (after_action ctx')"
  by (simp add: finished_def after_action_def to_state_def buffers_ok_def Let_def)

lemma processUnknownActionData_ends:
  assumes "in_field mem ctx" and "\<not> size_state (state ctx)" and "\<not> name_state (state ctx)" and "digest_32 ops"
  shows "ends (progressed mem ctx) (processUnknownActionData ops mem ctx)"
  unfolding processUnknownActionData_def
proof (rule ends_unless_ends [OF hash_store.field_ends])
  fix ctx' assume "received mem ctx ctx'"
  then have b: "buffers_ok ctx'" by (rule received_buffers)
  let ?c = "ctx'\<lparr>currentActionDataBufferLength := currentFieldLength ctx'\<rparr>"
  have "ends (\<lambda>c. buffers_ok c \<and> workBuffer c = workBuffer ctx' \<and> commandLength c = commandLength ctx'
      \<and> tlvBufferPos c = tlvBufferPos ctx') (processUnknownAction ops ?c)"
    unfolding processUnknownAction_def case_prod_beta
    using b assms(4)
    by (intro ends_CX) (simp add: set_count_def buffers_ok_def content_ok_def digest_32D)
  then show "ends (finished ctx') (let ctx = ?c in andThen (processUnknownAction ops ctx) (\<lambda>ctx.
      Inr ((after_action ctx)\<lparr>dataSha256 := hash_init ops\<rparr>)))"
    unfolding Let_def
  proof (rule ends_andThen)
    fix c :: "'a txProcessingContext_t" assume "buffers_ok c \<and> workBuffer c = workBuffer ctx' \<and> commandLength c = commandLength ctx'
      \<and> tlvBufferPos c = tlvBufferPos ctx'"
    then have "finished ctx' (after_action c)" by (intro finished_after_action) simp_all
    then show "ends (finished ctx') (Inr ((after_action c)\<lparr>dataSha256 := hash_init ops\<rparr>))"
      by (simp add: finished_def buffers_ok_def)
  qed
qed (use assms u32_room in \<open>simp_all add: checked_ok\<close>)

lemma processActionData_ends:
  assumes "in_field mem ctx" and "\<not> size_state (state ctx)" and "\<not> name_state (state ctx)"
  shows "ends (progressed mem ctx) (processActionData ops mem ctx)"
  unfolding processActionData_def
proof (rule ends_assert)
  assume "currentFieldLength ctx \<le> 511"
  then have l: "unat (currentFieldLength ctx) \<le> 511" by (simp add: word_le_nat_alt)
  moreover have "unat (currentFieldPos ctx) \<le> unat (currentFieldLength ctx)"
    using assms(1) by (simp add: in_field_def word_le_nat_alt)
  ultimately have p: "unat (currentFieldPos ctx) \<le> 511" by simp
  show "ends (progressed mem ctx) (andThen (receive ops mem no_check store_data ctx)
      (when_complete (\<lambda>ctx. let ctx = ctx\<lparr>currentActionDataBufferLength := currentFieldLength ctx\<rparr> in
        andThen (count_arguments ctx) (\<lambda>ctx. Inr (after_action ctx)))))"
  proof (rule ends_unless_ends [OF data_store.field_ends])
    fix ctx' assume r: "received mem ctx ctx'"
    then have b: "buffers_ok ctx'" by (rule received_buffers)
    let ?c = "ctx'\<lparr>currentActionDataBufferLength := currentFieldLength ctx'\<rparr>"
    have "currentFieldLength ctx' = currentFieldLength ctx"
      using r same_but_fields_simps(4) [of ctx ctx'] by (simp add: received_def)
    then have "ends (counted ?c) (count_arguments ?c)"
      using b l by (intro count_arguments_any) (simp_all add: buffers_ok_def)
    then show "ends (finished ctx') (let ctx = ?c in andThen (count_arguments ctx) (\<lambda>ctx. Inr (after_action ctx)))"
      unfolding Let_def
    proof (rule ends_andThen)
      fix c :: "'a txProcessingContext_t" assume "counted ?c c"
      then have "c = set_count (argumentCount (content c)) ?c" by (simp add: counted_def)
      then obtain n where "c = set_count n ?c" ..
      then have "finished ctx' (after_action c)"
        using b by (intro finished_after_action) (simp_all add: set_count_def buffers_ok_def content_ok_def)
      then show "ends (finished ctx') (Inr (after_action c))" by simp
    qed
  qed (use assms l p in \<open>simp_all add: no_check_def\<close>)
qed

section \<open>The rounds\<close>

definition state_post :: "bytes \<Rightarrow> 'h txProcessingContext_t \<Rightarrow> 'h txProcessingContext_t \<times> parserStatus_e option \<Rightarrow> bool" where
  "state_post mem ctx r \<longleftrightarrow> (case snd r of None \<Rightarrow> progressed mem ctx (fst r) | Some st \<Rightarrow> st = STREAM_FAULT)"

lemma state_post_continue:
  "ends (progressed mem ctx) m \<Longrightarrow> ends_unless b (state_post mem ctx) (andThen m (\<lambda>ctx. Inr (ctx, None)))"
  by (intro ends_ends_unless) (auto intro!: ends_andThen simp: state_post_def)

lemma state_post_continue_risky:
  "ends_unless True (progressed mem ctx) m \<Longrightarrow> ends_unless True (state_post mem ctx) (andThen m (\<lambda>ctx. Inr (ctx, None)))"
  by (erule ends_unless_andThen) (simp add: state_post_def)

lemmas field_functions_end = processField_ends processZeroSizeField_ends processActionListSizeField_ends
  processAuthorizationListSizeField_ends processAuthorizationPermission_ends
  processUnknownActionDataSize_ends processUnknownActionData_ends processActionData_ends

lemma process_state_ends:
  assumes f: "in_field mem ctx" and s: "size_state (state ctx) \<Longrightarrow> unat (currentFieldPos ctx) \<le> 12"
    and n: "name_state (state ctx) \<Longrightarrow> unat (currentFieldPos ctx) \<le> 8" and d: "digest_32 ops"
  shows "ends_unless (name_state (state ctx)) (state_post mem ctx) (process_state ops mem ctx)"
proof (cases "name_state (state ctx)")
  case True
  then show ?thesis
    using processActionAccount_ends [OF f] processActionName_ends [OF f] n
    by (auto simp: process_state_def Let_def name_state_def intro!: state_post_continue_risky)
next
  case False
  show ?thesis
    using False f s d
    by (cases "state ctx")
      (simp_all add: process_state_def Let_def size_state_def name_state_def state_post_def
        state_post_continue field_functions_end)
qed

definition round_post :: "bytes \<Rightarrow> 'h txProcessingContext_t \<Rightarrow> 'h txProcessingContext_t \<times> parserStatus_e option \<Rightarrow> bool" where
  "round_post mem ctx r \<longleftrightarrow>
     (case snd r of
        None \<Rightarrow> stream_ok mem (fst r) \<and> unat (commandLength (fst r)) < unat (commandLength ctx)
      | Some st \<Rightarrow> st \<noteq> STREAM_FAULT \<longrightarrow>
          stream_ok mem (fst r) \<and> unat (commandLength (fst r)) \<le> unat (commandLength ctx))"

lemma stream_ok_flags:
  "stream_ok mem (ctx\<lparr>confirmProcessing := b\<rparr>) = stream_ok mem ctx"
  "stream_ok mem (ctx\<lparr>actionReady := b\<rparr>) = stream_ok mem ctx"
  by (simp_all add: stream_ok_def buffers_ok_def chunk_ok_def position_ok_def)

lemma tx_round_ends:
  assumes ok: "stream_ok mem ctx" and d: "digest_32 ops"
  shows "ends_unless (name_state (state ctx)) (round_post mem ctx) (tx_round ops mem ctx)"
proof -
  consider (returns) "confirmProcessing ctx \<or> actionReady ctx \<or> state ctx = TLV_DONE \<or> commandLength ctx = 0"
    | (field) "\<not> confirmProcessing ctx" "\<not> actionReady ctx" "state ctx \<noteq> TLV_DONE" "commandLength ctx \<noteq> 0"
        "processingField ctx"
    | (header) "\<not> confirmProcessing ctx" "\<not> actionReady ctx" "state ctx \<noteq> TLV_DONE" "commandLength ctx \<noteq> 0"
        "\<not> processingField ctx"
    by blast
  then show ?thesis
  proof cases
    case returns
    then show ?thesis using ok by (auto simp: tx_round_def round_post_def stream_ok_flags)
  next
    case field
    have f: "in_field mem ctx" and lt: "currentFieldPos ctx < currentFieldLength ctx"
      using ok field by (auto simp: stream_ok_def position_ok_def in_field_def intro: order.strict_implies_order)
    have p: "size_state (state ctx) \<Longrightarrow> unat (currentFieldPos ctx) \<le> 12"
        "name_state (state ctx) \<Longrightarrow> unat (currentFieldPos ctx) \<le> 8"
      using ok field by (simp_all add: stream_ok_def position_ok_def in_field_def word_le_nat_alt)
    have "ends_unless (name_state (state ctx)) (round_post mem ctx) (process_state ops mem ctx)"
      by (rule ends_unless_mono [OF process_state_ends [OF f p d]])
        (use lt field(4) in \<open>auto simp: state_post_def round_post_def progressed_def split: option.splits\<close>)
    then show ?thesis using field by (simp add: tx_round_def)
  next
    case header
    have "ends_unless (name_state (state ctx)) (header_read mem ctx) (read_tlv mem ctx)"
      using ok header(5)
      by (intro ends_ends_unless read_tlv_ends) (simp_all add: stream_ok_def buffers_ok_def position_ok_def)
    then have "ends_unless (name_state (state ctx)) (round_post mem ctx)
        (andThen (read_tlv mem ctx) (\<lambda>(ctx, r).
          case r of Inl status \<Rightarrow> Inr (ctx, Some status)
          | Inr decoded \<Rightarrow>
              if \<not> decoded then Inr (ctx, Some STREAM_PROCESSING)
              else process_state ops mem
                     (ctx\<lparr>currentFieldPos := 0, tlvBufferPos := 0, processingField := True\<rparr>)))"
    proof (rule ends_unless_andThen)
      fix x assume x: "header_read mem ctx x"
      obtain c r where cr: "x = (c, r)" by (cases x)
      have same: "same_but_header ctx c" and ck: "chunk_ok mem c" and tb: "length (tlvBuffer c) = 5"
        and less: "unat (commandLength c) < unat (commandLength ctx)"
        using x header(4) by (simp_all add: header_read_def cr)
      have b: "buffers_ok c" and np: "processingField c = processingField ctx" and st: "state c = state ctx"
        using same ok tb by (cases ctx; cases c; simp add: same_but_header_def stream_ok_def buffers_ok_def)+
      consider (fault) st where "r = Inl st" | (more) "r = Inr False" | (dec) "r = Inr True"
        by (metis (full_types) sum.exhaust)
      then show "ends_unless (name_state (state ctx)) (round_post mem ctx)
          (case x of (ctx, r) \<Rightarrow> case r of Inl status \<Rightarrow> Inr (ctx, Some status)
          | Inr decoded \<Rightarrow>
              if \<not> decoded then Inr (ctx, Some STREAM_PROCESSING)
              else process_state ops mem
                     (ctx\<lparr>currentFieldPos := 0, tlvBufferPos := 0, processingField := True\<rparr>))"
      proof cases
        case fault
        then show ?thesis using x by (simp add: cr header_read_def round_post_def)
      next
        case more
        then show ?thesis
          using x b ck np header(5) by (simp add: cr header_read_def round_post_def stream_ok_def position_ok_def)
      next
        case dec
        let ?c = "c\<lparr>currentFieldPos := 0, tlvBufferPos := 0, processingField := True\<rparr>"
        have "in_field mem ?c" using b ck by (simp add: in_field_def buffers_ok_def chunk_ok_def)
        then have "ends_unless (name_state (state ?c)) (state_post mem ?c) (process_state ops mem ?c)"
          using d by (intro process_state_ends) simp_all
        then have "ends_unless (name_state (state ctx)) (round_post mem ctx) (process_state ops mem ?c)"
          using less st by (auto elim!: ends_unless_mono simp: state_post_def round_post_def progressed_def split: option.splits)
        then show ?thesis using dec by (simp add: cr)
      qed
    qed
    then show ?thesis using header by (simp add: tx_round_def)
  qed
qed

text \<open>
  The parser always returns: every round that goes on has consumed some of the chunk. It ends
  cleanly, or with a write past the end of a name.
\<close>

definition kept_ok :: "bytes \<Rightarrow> 'h txProcessingContext_t \<times> parserStatus_e \<Rightarrow> bool" where
  "kept_ok mem r \<longleftrightarrow> (snd r \<noteq> STREAM_FAULT \<longrightarrow> stream_ok mem (fst r))"

lemma processTxInternal_returns:
  assumes "stream_ok mem ctx" and d: "digest_32 ops"
  shows "\<exists>r. processTxInternal ops mem ctx = Some r \<and> ends_unless True (kept_ok mem) r"
  using assms(1)
proof (induction "unat (commandLength ctx)" arbitrary: ctx rule: less_induct)
  case less
  have post: "ends_unless True (round_post mem ctx) (tx_round ops mem ctx)"
    using less.prems d by (blast intro: ends_unless_mono tx_round_ends)
  show ?case
  proof (cases "tx_round ops mem ctx")
    case (Inl e)
    then show ?thesis using post by (cases e; subst processTxInternal.simps; simp add: ends_unless_def)
  next
    case (Inr p)
    obtain ctx' r where p: "p = (ctx', r)" by (cases p)
    have rp: "round_post mem ctx (ctx', r)" using post Inr p by simp
    show ?thesis
    proof (cases r)
      case None
      then have "stream_ok mem ctx'" "unat (commandLength ctx') < unat (commandLength ctx)"
        using rp by (simp_all add: round_post_def)
      then have "\<exists>r. processTxInternal ops mem ctx' = Some r \<and> ends_unless True (kept_ok mem) r"
        using less.hyps by blast
      moreover have "processTxInternal ops mem ctx = processTxInternal ops mem ctx'"
        using Inr p None by (subst processTxInternal.simps) simp
      ultimately show ?thesis by simp
    next
      case (Some st)
      then show ?thesis using rp Inr p by (subst processTxInternal.simps) (simp add: round_post_def kept_ok_def)
    qed
  qed
qed

lemma parseTx_returns:
  assumes "stream_ok mem ctx" and "off + unat len \<le> length mem" and "digest_32 ops"
  shows "\<exists>r. parseTx ops mem ctx (Some off) len = Some r \<and> ends_unless True (kept_ok mem) r"
proof -
  have "stream_ok mem (if commandLength ctx = 0 then ctx\<lparr>workBuffer := Some off, commandLength := len\<rparr> else ctx)"
    using assms(1,2)
    by (cases "commandLength ctx = 0") (simp_all add: stream_ok_def buffers_ok_def chunk_ok_def position_ok_def)
  from processTxInternal_returns [OF this assms(3)] show ?thesis by (simp only: parseTx_def)
qed

end
