(* ===== verification/Eos_Config.thy ===== *)
theory Eos_Config
  imports Eos_Prelude
begin

text \<open>
  \<^verbatim>\<open>src/config.c\<close>: the application's settings in the non-volatile memory, one byte that allows
  actions the application cannot decode and one that marks the memory as initialised. Writing the
  memory (\<^verbatim>\<open>nvm_write\<close>) is the update of the record.
\<close>

record internalStorage_t =
  storedDataAllowed :: u8
  initialized :: u8

definition config_init :: "internalStorage_t \<Rightarrow> internalStorage_t" where
  "config_init s = (if initialized s \<noteq> 0x01 then \<lparr>storedDataAllowed = 0x00, initialized = 0x01\<rparr> else s)"

definition is_data_allowed :: "internalStorage_t \<Rightarrow> bool" where
  "is_data_allowed s \<longleftrightarrow> storedDataAllowed s = 1"

definition toogle_data_allowed :: "internalStorage_t \<Rightarrow> internalStorage_t" where
  "toogle_data_allowed s = s\<lparr>storedDataAllowed := if is_data_allowed s then 0 else 1\<rparr>"

text \<open>
  The contract of a setting that starts as \<open>False\<close>, survives a restart and is changed by the user
  only: reading, switching and starting the application.
\<close>

locale switch =
  fixes start :: "'s \<Rightarrow> 's" and is_on :: "'s \<Rightarrow> bool" and switch_it :: "'s \<Rightarrow> 's" and ready :: "'s \<Rightarrow> bool"
  assumes start_ready: "ready (start s)"
    and start_keeps: "ready s \<Longrightarrow> start s = s"
    and start_fresh: "\<not> ready s \<Longrightarrow> \<not> is_on (start s)"
    and switch_ready: "ready (switch_it s) = ready s"
    and switch_on: "is_on (switch_it s) = (\<not> is_on s)"
begin

text \<open>Any number of restarts and switches: the setting counts the switches.\<close>

fun use :: "bool list \<Rightarrow> 's \<Rightarrow> 's" where
  "use [] s = s"
| "use (True # es) s = use es (switch_it s)"
| "use (False # es) s = use es (start s)"

lemma use_ready: "ready s \<Longrightarrow> ready (use es s)"
  by (induction es s rule: use.induct) (simp_all add: switch_ready start_ready)

lemma use_counts: "ready s \<Longrightarrow> is_on (use es s) = (is_on s \<noteq> odd (length (filter id es)))"
  by (induction es s rule: use.induct) (auto simp: switch_ready switch_on start_keeps)

end

interpretation data_setting: switch config_init is_data_allowed toogle_data_allowed "\<lambda>s. initialized s = 1"
  by unfold_locales (simp_all add: config_init_def is_data_allowed_def toogle_data_allowed_def)

end
