(* ===== verification/Eos_Nonce.thy ===== *)
theory Eos_Nonce
  imports Eos_Prelude Eos_Radix
begin

text \<open>
  \<^verbatim>\<open>rng_rfc6979\<close> of \<^verbatim>\<open>src/eos_utils.c\<close>: the nonces for the signature, after RFC 6979. HMAC-SHA-256
  belongs to the device's library: \<open>hmac key parts\<close> is the digest that the last \<^verbatim>\<open>cx_hmac_no_throw\<close>
  call writes after the parts were fed one by one, \<open>None\<close> an error code. \<open>V\<close> and \<open>K\<close> are the
  caller's arrays of 33 and 32 bytes, which carry the state from one call to the next.
\<close>

type_synonym hmac = "bytes \<Rightarrow> bytes list \<Rightarrow> bytes option"

text \<open>The digest replaces the first 32 bytes of an array.\<close>

definition hmac_to :: "hmac \<Rightarrow> bytes \<Rightarrow> bytes list \<Rightarrow> bytes \<Rightarrow> bytes result" where
  "hmac_to hmac K parts out = andThen (CX_ASSERT (hmac (take 32 K) parts)) (\<lambda>d. mem_write out 0 d)"

text \<open>Steps b to g, and h.3 for the calls that go on from an earlier state.\<close>

definition rng_setup :: "hmac \<Rightarrow> bytes \<Rightarrow> bytes \<Rightarrow> nat \<Rightarrow> bytes \<Rightarrow> bytes \<Rightarrow> (bytes \<times> bytes) result" where
  "rng_setup hmac x h1 h_len V K =
     andThen (mem_write V 0 (replicate h_len 0x01)) (\<lambda>V.
     andThen (mem_write K 0 (zeros h_len)) (\<lambda>K.
     andThen (mem_write V h_len [0]) (\<lambda>V.
     andThen (mem_read V 0 (h_len + 1)) (\<lambda>v.
     andThen (mem_read h1 0 h_len) (\<lambda>h.
     andThen (hmac_to hmac K [v, x, h] K) (\<lambda>K.
     andThen (mem_read V 0 h_len) (\<lambda>v.
     andThen (hmac_to hmac K [v] V) (\<lambda>V.
     andThen (mem_write V h_len [1]) (\<lambda>V.
     andThen (mem_read V 0 (h_len + 1)) (\<lambda>v.
     andThen (hmac_to hmac K [v, x, h] K) (\<lambda>K.
     andThen (mem_read V 0 h_len) (\<lambda>v.
     andThen (hmac_to hmac K [v] V) (\<lambda>V. Inr (V, K))))))))))))))"

definition rng_update :: "hmac \<Rightarrow> nat \<Rightarrow> bytes \<Rightarrow> bytes \<Rightarrow> (bytes \<times> bytes) result" where
  "rng_update hmac h_len V K =
     andThen (mem_write V h_len [0]) (\<lambda>V.
     andThen (mem_read V 0 (h_len + 1)) (\<lambda>v.
     andThen (hmac_to hmac K [v] K) (\<lambda>K.
     andThen (mem_read V 0 h_len) (\<lambda>v.
     andThen (hmac_to hmac K [v] V) (\<lambda>V. Inr (V, K))))))"

text \<open>
  The inner loop, which takes at least one byte off \<open>x_len\<close> in every round, so that \<open>x_len\<close> rounds
  of fuel are enough; \<open>offset\<close> stays 0, and \<open>h_len\<close> keeps its last value.
\<close>

fun rng_generate :: "hmac \<Rightarrow> nat \<Rightarrow> nat \<Rightarrow> nat \<Rightarrow> bytes \<Rightarrow> bytes \<Rightarrow> bytes \<Rightarrow> (nat \<times> bytes \<times> bytes) result" where
  "rng_generate hmac 0 x_len h_len rnd V K = Inr (h_len, rnd, V)"
| "rng_generate hmac (Suc fuel) x_len h_len rnd V K =
     (if x_len = 0 then Inr (h_len, rnd, V)
      else
        let h_len = (if x_len < h_len then x_len else h_len) in
        andThen (mem_read V 0 h_len) (\<lambda>v.
        andThen (hmac_to hmac K [v] V) (\<lambda>V.
        andThen (mem_read V 0 h_len) (\<lambda>v.
        andThen (mem_write rnd 0 v) (\<lambda>rnd.
          rng_generate hmac fuel (x_len - h_len) h_len rnd V K)))))"

text \<open>The test that ends the outer loop: a byte of the candidate below that of the order.\<close>

fun rng_found :: "bytes \<Rightarrow> bytes \<Rightarrow> nat \<Rightarrow> nat \<Rightarrow> bool result" where
  "rng_found V q i 0 = Inr False"
| "rng_found V q i (Suc k) =
     andThen (mem_get V i) (\<lambda>v. andThen (mem_get q i) (\<lambda>o'.
       if v < o' then Inr True else rng_found V q (i + 1) k))"

definition rng_round :: "hmac \<Rightarrow> bytes option \<Rightarrow> bytes \<Rightarrow> bytes \<Rightarrow> nat \<Rightarrow> nat \<Rightarrow> bytes \<Rightarrow> bytes \<Rightarrow> bytes
    \<Rightarrow> (bool \<times> nat \<times> bytes \<times> bytes \<times> bytes) result" where
  "rng_round hmac x h1 q q_len h_len rnd V K =
     andThen (case x of Some x \<Rightarrow> rng_setup hmac x h1 h_len V K | None \<Rightarrow> rng_update hmac h_len V K) (\<lambda>(V, K).
     andThen (rng_generate hmac q_len q_len h_len rnd V K) (\<lambda>(h_len, rnd, V).
     andThen (rng_found V q 0 q_len) (\<lambda>found. Inr (found, h_len, rnd, V, K))))"

partial_function (option) rng_loop :: "hmac \<Rightarrow> bytes option \<Rightarrow> bytes \<Rightarrow> bytes \<Rightarrow> nat \<Rightarrow> nat \<Rightarrow> bytes \<Rightarrow> bytes \<Rightarrow> bytes
    \<Rightarrow> (bytes \<times> bytes \<times> bytes) result option" where
  "rng_loop hmac x h1 q q_len h_len rnd V K =
     (case rng_round hmac x h1 q q_len h_len rnd V K of
        Inl e \<Rightarrow> Some (Inl e)
      | Inr (found, h_len, rnd, V, K) \<Rightarrow>
          if found then Some (Inr (rnd, V, K)) else rng_loop hmac None h1 q q_len h_len rnd V K)"

text \<open>The result is \<open>rnd\<close> and the two arrays of state.\<close>

definition rng_rfc6979 :: "hmac \<Rightarrow> bytes \<Rightarrow> bytes \<Rightarrow> bytes option \<Rightarrow> bytes \<Rightarrow> nat \<Rightarrow> bytes \<Rightarrow> bytes
    \<Rightarrow> (bytes \<times> bytes \<times> bytes) result option" where
  "rng_rfc6979 hmac rnd h1 x q q_len V K = rng_loop hmac x h1 q q_len 32 rnd V K"

section \<open>The sequence of candidates\<close>

text \<open>
  The specification, for an HMAC that does not fail and has a digest of 32 bytes: the state of the
  generator after its set-up and after each further candidate, and the candidate of a state.
\<close>

definition hmac_total :: "hmac \<Rightarrow> (bytes \<Rightarrow> bytes \<Rightarrow> bytes) \<Rightarrow> bool" where
  "hmac_total hmac H \<longleftrightarrow> (\<forall>k parts. hmac k parts = Some (H k (concat parts))) \<and> (\<forall>k m. length (H k m) = 32)"

type_synonym rng_state = "bytes \<times> bytes"

text \<open>The state after steps b to g, where \<open>h\<close> stands behind the key.\<close>

definition seeded :: "(bytes \<Rightarrow> bytes \<Rightarrow> bytes) \<Rightarrow> bytes \<Rightarrow> bytes \<Rightarrow> rng_state" where
  "seeded H x h =
     (let V = replicate 32 1; K = zeros 32;
          K = H K (V @ [0] @ x @ h); V = H K V;
          K = H K (V @ [1] @ x @ h); V = H K V
      in (V, K))"

text \<open>
  The RFC has the hash reduced modulo the order there; \<^verbatim>\<open>rng_rfc6979\<close> has the hash as it is. They are the
  same for a hash below the order only.
\<close>

definition int2octets :: "nat \<Rightarrow> bytes" where
  "int2octets n = rev (le_bytes 32 n)"

definition bits2octets :: "bytes \<Rightarrow> bytes \<Rightarrow> bytes" where
  "bits2octets q h = int2octets (be_nat h mod be_nat q)"

definition rfc_setup :: "(bytes \<Rightarrow> bytes \<Rightarrow> bytes) \<Rightarrow> bytes \<Rightarrow> bytes \<Rightarrow> bytes \<Rightarrow> rng_state" where
  "rfc_setup H q x h1 = seeded H x (bits2octets q h1)"

lemma be_nat_rev: "be_nat bs = le_nat (rev bs)"
  by (induction bs rule: rev_induct) simp_all

lemma be_nat_int2octets: "n < 256 ^ 32 \<Longrightarrow> be_nat (int2octets n) = n"
  unfolding be_nat_rev int2octets_def rev_rev_ident le_nat_le_bytes by (rule mod_less)

lemma bits2octets_same:
  assumes "length h = 32" and "0 < be_nat q"
  shows "bits2octets q h = h \<longleftrightarrow> be_nat h < be_nat q"
proof
  assume "bits2octets q h = h"
  moreover have "be_nat h mod be_nat q < 256 ^ 32" using be_nat_less [of h] assms(1) mod_less_eq_dividend le_less_trans by metis
  ultimately have "be_nat h mod be_nat q = be_nat h" using be_nat_int2octets by (metis bits2octets_def)
  then show "be_nat h < be_nat q" using assms(2) by (metis mod_less_divisor)
next
  assume "be_nat h < be_nat q"
  then show "bits2octets q h = h" using assms(1) by (simp add: bits2octets_def int2octets_def be_nat_rev le_bytes_le_nat)
qed

definition rfc_update :: "(bytes \<Rightarrow> bytes \<Rightarrow> bytes) \<Rightarrow> rng_state \<Rightarrow> rng_state" where
  "rfc_update H s = (let K = H (snd s) (fst s @ [0]) in (H K (fst s), K))"

text \<open>Producing a candidate leaves it in \<open>V\<close>.\<close>

definition rfc_generate :: "(bytes \<Rightarrow> bytes \<Rightarrow> bytes) \<Rightarrow> rng_state \<Rightarrow> rng_state" where
  "rfc_generate H s = (H (snd s) (fst s), snd s)"

definition rfc_next :: "(bytes \<Rightarrow> bytes \<Rightarrow> bytes) \<Rightarrow> rng_state \<Rightarrow> rng_state" where
  "rfc_next H s = rfc_generate H (rfc_update H s)"

definition some_byte_below :: "bytes \<Rightarrow> bytes \<Rightarrow> bool" where
  "some_byte_below v q \<longleftrightarrow> list_ex (\<lambda>(a, b). a < b) (zip v q)"

definition holds_state :: "bytes \<Rightarrow> bytes \<Rightarrow> rng_state \<Rightarrow> bool" where
  "holds_state V K s \<longleftrightarrow> length V = 33 \<and> length K = 32 \<and> take 32 V = fst s \<and> K = snd s"

declare rng_generate.simps [simp del]

lemma hmac_to_eq:
  assumes "hmac_total hmac H" and "length K = 32" and "32 \<le> length out"
  shows "hmac_to hmac K parts out = Inr (H K (concat parts) @ drop 32 out)"
  using assms by (simp add: hmac_to_def hmac_total_def mem_write_def)

lemma set_last: "length V = 33 \<Longrightarrow> mem_write V 32 [b] = Inr (take 32 V @ [b])"
  by (simp add: mem_write_def)

lemma holds_state_length: "holds_state V K s \<Longrightarrow> length (fst s) = 32 \<and> length (snd s) = 32"
  by (auto simp: holds_state_def dest: arg_cong [where f = length])

lemma rng_generate_done: "rng_generate hmac fuel 0 h_len rnd V K = Inr (h_len, rnd, V)"
  by (cases fuel) (simp_all add: rng_generate.simps)

lemma rng_setup_eq:
  assumes h: "hmac_total hmac H" and V: "length V = 33" and K: "length K = 32" and h1: "length h1 = 32"
  shows "\<exists>V' K'. rng_setup hmac x h1 32 V K = Inr (V', K') \<and> holds_state V' K' (seeded H x h1)"
proof -
  have l: "length (H k m) = 32" for k m using h by (simp add: hmac_total_def)
  have "mem_write V 0 (replicate 32 1) = Inr (replicate 32 1 @ drop 32 V)" "mem_write K 0 (zeros 32) = Inr (zeros 32)"
    using V K by (simp_all add: mem_write_def)
  then show ?thesis
    using V K h1 l
    by (simp add: rng_setup_def set_last hmac_to_eq [OF h] mem_read_def)
      (simp add: holds_state_def seeded_def Let_def l)
qed

lemma rng_update_eq:
  assumes h: "hmac_total hmac H" and s: "holds_state V K s"
  shows "\<exists>V' K'. rng_update hmac 32 V K = Inr (V', K') \<and> holds_state V' K' (rfc_update H s)"
proof -
  have l: "length (H k m) = 32" for k m using h by (simp add: hmac_total_def)
  show ?thesis
    using s holds_state_length [OF s] l
    by (simp add: rng_update_def set_last hmac_to_eq [OF h] mem_read_def holds_state_def rfc_update_def Let_def)
qed

lemma rng_generate_eq:
  assumes h: "hmac_total hmac H" and s: "holds_state V K s" and r: "32 \<le> length rnd"
  shows "\<exists>V'. rng_generate hmac 32 32 32 rnd V K = Inr (32, fst (rfc_generate H s) @ drop 32 rnd, V')
    \<and> holds_state V' K (rfc_generate H s)"
proof -
  have l: "length (H k m) = 32" for k m using h by (simp add: hmac_total_def)
  have "(32 :: nat) = Suc 31" by simp
  then have "rng_generate hmac 32 32 32 rnd V K = rng_generate hmac (Suc 31) 32 32 rnd V K" by (rule arg_cong)
  also have "\<dots> = Inr (32, H K (fst s) @ drop 32 rnd, H K (fst s) @ drop 32 V)"
    unfolding rng_generate.simps(2) using s r l holds_state_length [OF s]
    by (simp add: rng_generate_done mem_read_def hmac_to_eq [OF h] holds_state_def mem_write_def)
  finally show ?thesis using s l holds_state_length [OF s] by (simp add: holds_state_def rfc_generate_def)
qed

lemma rng_found_eq:
  "i + k \<le> length V \<Longrightarrow> i + k \<le> length q \<Longrightarrow>
     rng_found V q i k = Inr (some_byte_below (take k (drop i V)) (take k (drop i q)))"
proof (induction k arbitrary: i)
  case (Suc k)
  then have "take (Suc k) (drop i V) = V ! i # take k (drop (Suc i) V)"
    "take (Suc k) (drop i q) = q ! i # take k (drop (Suc i) q)"
    by (simp_all add: Cons_nth_drop_Suc [symmetric])
  with Suc show ?case by (simp add: mem_get_def some_byte_below_def)
qed (simp add: some_byte_below_def)

text \<open>A candidate below the order is accepted; an accepted candidate need not be below it.\<close>

lemma below_some_byte:
  assumes "length v = length q" and "be_nat v < be_nat q"
  shows "some_byte_below v q"
  using assms
proof (induction v q rule: list_induct2)
  case (Cons a v b q)
  show ?case
  proof (cases "a < b")
    case False
    then have "unat b \<le> unat a" by (simp add: word_less_nat_alt)
    then have "unat b * 256 ^ length q \<le> unat a * 256 ^ length q" by (rule mult_le_mono1)
    moreover have "unat a * 256 ^ length q + be_nat v < unat b * 256 ^ length q + be_nat q"
      using Cons.prems Cons.hyps by (simp add: be_val_Cons)
    ultimately have "be_nat v < be_nat q" by linarith
    then show ?thesis using Cons.IH by (simp add: some_byte_below_def)
  qed (simp add: some_byte_below_def)
qed simp

definition accepted :: "bytes \<Rightarrow> rng_state \<Rightarrow> bool" where
  "accepted q s \<longleftrightarrow> some_byte_below (fst s) q"

lemma rng_round_eq:
  assumes h: "hmac_total hmac H" and q: "length q = 32" and r: "32 \<le> length rnd"
    and s: "case x of None \<Rightarrow> holds_state V K s \<and> t = rfc_next H s
      | Some x \<Rightarrow> length V = 33 \<and> length K = 32 \<and> length h1 = 32 \<and> t = rfc_generate H (seeded H x h1)"
  shows "\<exists>V' K'. rng_round hmac x h1 q 32 32 rnd V K = Inr (accepted q t, 32, fst t @ drop 32 rnd, V', K')
    \<and> holds_state V' K' t"
proof -
  have "\<exists>V1 K1 u. (case x of Some x \<Rightarrow> rng_setup hmac x h1 32 V K | None \<Rightarrow> rng_update hmac 32 V K) = Inr (V1, K1)
      \<and> holds_state V1 K1 u \<and> t = rfc_generate H u"
  proof (cases x)
    case None
    then have s': "holds_state V K s" "t = rfc_next H s" using s by simp_all
    obtain V' K' where "rng_update hmac 32 V K = Inr (V', K')" "holds_state V' K' (rfc_update H s)"
      using rng_update_eq [OF h s'(1)] by blast
    then show ?thesis
      using None s' by (intro exI [of _ V'] exI [of _ K'] exI [of _ "rfc_update H s"]) (simp add: rfc_next_def)
  next
    case (Some y)
    then have s': "length V = 33" "length K = 32" "length h1 = 32" "t = rfc_generate H (seeded H y h1)"
      using s by simp_all
    obtain V' K' where "rng_setup hmac y h1 32 V K = Inr (V', K')" "holds_state V' K' (seeded H y h1)"
      using rng_setup_eq [OF h s'(1-3)] by blast
    then show ?thesis
      using Some s' by (intro exI [of _ V'] exI [of _ K'] exI [of _ "seeded H y h1"]) simp
  qed
  then obtain V1 K1 u where u: "(case x of Some x \<Rightarrow> rng_setup hmac x h1 32 V K | None \<Rightarrow> rng_update hmac 32 V K) = Inr (V1, K1)"
    "holds_state V1 K1 u" "t = rfc_generate H u" by blast
  obtain V2 where V2: "rng_generate hmac 32 32 32 rnd V1 K1 = Inr (32, fst t @ drop 32 rnd, V2)" "holds_state V2 K1 t"
    using rng_generate_eq [OF h u(2) r] u(3) by blast
  have "rng_found V2 q 0 32 = Inr (accepted q t)"
    using V2(2) q by (simp add: rng_found_eq holds_state_def accepted_def)
  then show ?thesis using u(1) V2 by (simp add: rng_round_def)
qed

lemma rng_loop_eq:
  assumes h: "hmac_total hmac H" and q: "length q = 32"
  shows "32 \<le> length rnd \<Longrightarrow>
    case x of None \<Rightarrow> holds_state V K s \<and> t = rfc_next H s
      | Some x \<Rightarrow> length V = 33 \<and> length K = 32 \<and> length h1 = 32 \<and> t = rfc_generate H (seeded H x h1) \<Longrightarrow>
    accepted q ((rfc_next H ^^ n) t) \<Longrightarrow> \<forall>m < n. \<not> accepted q ((rfc_next H ^^ m) t) \<Longrightarrow>
    \<exists>V' K'. rng_loop hmac x h1 q 32 32 rnd V K = Some (Inr (fst ((rfc_next H ^^ n) t) @ drop 32 rnd, V', K'))
      \<and> holds_state V' K' ((rfc_next H ^^ n) t)"
proof (induction n arbitrary: x rnd V K s t)
  case 0
  obtain V' K' where r: "rng_round hmac x h1 q 32 32 rnd V K = Inr (accepted q t, 32, fst t @ drop 32 rnd, V', K')"
    "holds_state V' K' t" using rng_round_eq [OF h q 0(1,2)] by blast
  then show ?case using 0(3) by (subst rng_loop.simps) simp
next
  case (Suc n)
  obtain V1 K1 where r: "rng_round hmac x h1 q 32 32 rnd V K = Inr (accepted q t, 32, fst t @ drop 32 rnd, V1, K1)"
    "holds_state V1 K1 t" using rng_round_eq [OF h q Suc.prems(1,2)] by blast
  have na: "\<not> accepted q t" using Suc.prems(4) by force
  have len: "length (fst t) = 32" using holds_state_length [OF r(2)] by simp
  have "\<exists>V' K'. rng_loop hmac None h1 q 32 32 (fst t @ drop 32 rnd) V1 K1
      = Some (Inr (fst ((rfc_next H ^^ n) (rfc_next H t)) @ drop 32 (fst t @ drop 32 rnd), V', K'))
      \<and> holds_state V' K' ((rfc_next H ^^ n) (rfc_next H t))"
  proof (rule Suc.IH)
    show "32 \<le> length (fst t @ drop 32 rnd)" using Suc.prems(1) len by simp
    show "case None of None \<Rightarrow> holds_state V1 K1 t \<and> rfc_next H t = rfc_next H t
      | Some x \<Rightarrow> length V1 = 33 \<and> length K1 = 32 \<and> length h1 = 32 \<and> rfc_next H t = rfc_generate H (seeded H x h1)"
      using r(2) by simp
    show "accepted q ((rfc_next H ^^ n) (rfc_next H t))" using Suc.prems(3) by (simp add: funpow_swap1)
    show "\<forall>m<n. \<not> accepted q ((rfc_next H ^^ m) (rfc_next H t))"
    proof (intro allI impI)
      fix m assume "m < n"
      then show "\<not> accepted q ((rfc_next H ^^ m) (rfc_next H t))"
        using Suc.prems(4) [rule_format, of "Suc m"] by (simp add: funpow_swap1)
    qed
  qed
  then show ?case using r na len by (subst rng_loop.simps) (simp add: funpow_swap1)
qed

text \<open>
  The nonce of the RFC: the first candidate, beginning with \<open>t\<close>, from 1 to below the order.
\<close>

definition rfc_nonce :: "(bytes \<Rightarrow> bytes \<Rightarrow> bytes) \<Rightarrow> bytes \<Rightarrow> rng_state \<Rightarrow> bytes \<Rightarrow> bool" where
  "rfc_nonce H q t k \<longleftrightarrow> (\<exists>n. k = fst ((rfc_next H ^^ n) t) \<and> be_nat k \<in> {1 ..< be_nat q}
     \<and> (\<forall>m < n. be_nat (fst ((rfc_next H ^^ m) t)) \<notin> {1 ..< be_nat q}))"

text \<open>The first call finds the first accepted candidate, every later one the next.\<close>

lemma rng_rfc6979_first:
  assumes "hmac_total hmac H" and "length q = 32" and "length V = 33" and "length K = 32" and "length h1 = 32"
    and "32 \<le> length rnd" and "t = rfc_generate H (seeded H x h1)"
    and "accepted q ((rfc_next H ^^ n) t)" and "\<forall>m < n. \<not> accepted q ((rfc_next H ^^ m) t)"
  shows "\<exists>V' K'. rng_rfc6979 hmac rnd h1 (Some x) q 32 V K
      = Some (Inr (fst ((rfc_next H ^^ n) t) @ drop 32 rnd, V', K'))
    \<and> holds_state V' K' ((rfc_next H ^^ n) t)"
  unfolding rng_rfc6979_def using assms by (intro rng_loop_eq) simp_all

lemma rng_rfc6979_next:
  assumes "hmac_total hmac H" and "length q = 32" and "holds_state V K s"
    and "32 \<le> length rnd"
    and "accepted q ((rfc_next H ^^ Suc n) s)" and "\<forall>m < n. \<not> accepted q ((rfc_next H ^^ Suc m) s)"
  shows "\<exists>V' K'. rng_rfc6979 hmac rnd h1 None q 32 V K
      = Some (Inr (fst ((rfc_next H ^^ Suc n) s) @ drop 32 rnd, V', K'))
    \<and> holds_state V' K' ((rfc_next H ^^ Suc n) s)"
proof -
  have "(rfc_next H ^^ Suc m) s = (rfc_next H ^^ m) (rfc_next H s)" for m by (simp add: funpow_swap1)
  then show ?thesis
    unfolding rng_rfc6979_def using assms rng_loop_eq [OF assms(1,2,4), where x = None and V = V and K = K and s = s and t = "rfc_next H s" and n = n] by simp
qed

end
