(* ===== verification/Eos_Main.thy ===== *)
theory Eos_Main
  imports Eos_Stream Eos_Config Eos_Nonce
begin

unbundle bit_operations_syntax

text \<open>
  \<^verbatim>\<open>src/main.c\<close> and \<^verbatim>\<open>src/main.h\<close>: the commands of the host, the user's decisions, the signature. The
  globals are the fields of \<open>device_t\<close>. A function that may loop for ever returns
  \<open>'a result option\<close>, with \<open>None\<close> for a run that does not end.

  The device's library is the record \<open>device_library\<close>: hashes, key derivation, signing (\<open>None\<close> is an
  error code, on which \<^verbatim>\<open>CX_ASSERT\<close> stops the application), and the layout of the union \<^verbatim>\<open>tmpCtx\<close>:
  what is read from one of its members after the other one was written.
\<close>

section \<open>State\<close>

record publicKeyContext_t =
  publicKey :: bytes
  address :: bytes
  chainCode :: bytes
  getChaincode :: bool

record transactionContext_t =
  pathLength :: u8
  bip32Path :: "u32 list"
  transactionHash :: bytes

datatype sharedContext_t = PublicKeyMember publicKeyContext_t | TransactionMember transactionContext_t

record 'h device_library =
  lib_sha256 :: "'h hash_ops"
  lib_ripemd160 :: "bytes \<Rightarrow> bytes option"
  lib_hmac :: hmac
  lib_derive :: "u32 list \<Rightarrow> (bytes \<times> bytes) option"
  lib_private_key :: "bytes \<Rightarrow> bytes option"
  lib_public_key :: "bytes \<Rightarrow> bytes option"
  lib_ecdsa_sign :: "bytes \<Rightarrow> bytes \<Rightarrow> bytes \<Rightarrow> (bytes \<times> bool) option"
  lib_as_transaction :: "publicKeyContext_t \<Rightarrow> transactionContext_t"
  lib_as_public_key :: "transactionContext_t \<Rightarrow> publicKeyContext_t"
  lib_version :: "u8 \<times> u8 \<times> u8"

text \<open>What is on the screen: the idle menu, or one of the flows that wait for the user's decision.\<close>

datatype display_t = IdleScreen | PublicKeyFlow | SingleActionFlow | MultipleActionFlow

record 'h device_t =
  G_io_apdu_buffer :: bytes
  txProcessingCtx :: "'h txProcessingContext_t"
  tmpCtx :: sharedContext_t
  N_storage :: internalStorage_t
  display :: display_t

definition transaction_member :: "'h device_library \<Rightarrow> sharedContext_t \<Rightarrow> transactionContext_t" where
  "transaction_member lib s = (case s of TransactionMember t \<Rightarrow> t | PublicKeyMember p \<Rightarrow> lib_as_transaction lib p)"

definition public_key_member :: "'h device_library \<Rightarrow> sharedContext_t \<Rightarrow> publicKeyContext_t" where
  "public_key_member lib s = (case s of PublicKeyMember p \<Rightarrow> p | TransactionMember t \<Rightarrow> lib_as_public_key lib t)"

definition CLA :: u8 where "CLA = 0xD4"
definition INS_GET_PUBLIC_KEY :: u8 where "INS_GET_PUBLIC_KEY = 0x02"
definition INS_SIGN :: u8 where "INS_SIGN = 0x04"
definition INS_GET_APP_CONFIGURATION :: u8 where "INS_GET_APP_CONFIGURATION = 0x06"
definition P1_CONFIRM :: u8 where "P1_CONFIRM = 0x01"
definition P1_NON_CONFIRM :: u8 where "P1_NON_CONFIRM = 0x00"
definition P2_NO_CHAINCODE :: u8 where "P2_NO_CHAINCODE = 0x00"
definition P2_CHAINCODE :: u8 where "P2_CHAINCODE = 0x01"
definition P1_FIRST :: u8 where "P1_FIRST = 0x00"
definition P1_MORE :: u8 where "P1_MORE = 0x80"
definition MAX_BIP32_PATH :: nat where "MAX_BIP32_PATH = 10"

lemmas command_codes = CLA_def INS_GET_PUBLIC_KEY_def INS_SIGN_def INS_GET_APP_CONFIGURATION_def P1_CONFIRM_def
  P1_NON_CONFIRM_def P2_NO_CHAINCODE_def P2_CHAINCODE_def P1_FIRST_def P1_MORE_def MAX_BIP32_PATH_def

definition SECP256K1_N :: bytes where
  "SECP256K1_N = [0xff, 0xff, 0xff, 0xff, 0xff, 0xff, 0xff, 0xff, 0xff, 0xff, 0xff,
     0xff, 0xff, 0xff, 0xff, 0xfe, 0xba, 0xae, 0xdc, 0xe6, 0xaf, 0x48,
     0xa0, 0x3b, 0xbf, 0xd2, 0x5e, 0x8c, 0xd0, 0x36, 0x41, 0x41]"

text \<open>The layout of a command in the buffer, after ISO 7816, and its status for success.\<close>

abbreviation (input) OFFSET_CLA :: nat where "OFFSET_CLA \<equiv> 0"
abbreviation (input) OFFSET_INS :: nat where "OFFSET_INS \<equiv> 1"
abbreviation (input) OFFSET_P1 :: nat where "OFFSET_P1 \<equiv> 2"
abbreviation (input) OFFSET_P2 :: nat where "OFFSET_P2 \<equiv> 3"
abbreviation (input) OFFSET_LC :: nat where "OFFSET_LC \<equiv> 4"
abbreviation (input) OFFSET_CDATA :: nat where "OFFSET_CDATA \<equiv> 5"
abbreviation (input) SWO_SUCCESS :: u16 where "SWO_SUCCESS \<equiv> 0x9000"

text \<open>A fallible step followed by one that may also run for ever, and the other way round.\<close>

definition thenRun :: "'a result \<Rightarrow> ('a \<Rightarrow> 'b result option) \<Rightarrow> 'b result option" where
  "thenRun m f = (case m of Inl e \<Rightarrow> Some (Inl e) | Inr x \<Rightarrow> f x)"

definition runThen :: "'a result option \<Rightarrow> ('a \<Rightarrow> 'b result option) \<Rightarrow> 'b result option" where
  "runThen m f = Option.bind m (\<lambda>r. thenRun r f)"

lemma thenRun_simps [simp]: "thenRun (Inr x) f = f x" "thenRun (Inl e) f = Some (Inl e)"
  by (simp_all add: thenRun_def)

lemma runThen_simps [simp]: "runThen (Some r) f = thenRun r f" "runThen None f = None"
  by (simp_all add: runThen_def)

lemma thenRun_eq_Inr: "thenRun m f = Some (Inr y) \<longleftrightarrow> (\<exists>x. m = Inr x \<and> f x = Some (Inr y))"
  by (cases m) simp_all

lemma runThen_eq_Inr: "runThen m f = Some (Inr y) \<longleftrightarrow> (\<exists>x. m = Some (Inr x) \<and> f x = Some (Inr y))"
  by (cases m) (simp_all add: thenRun_eq_Inr)

section \<open>Answers\<close>

definition status_bytes :: "u16 \<Rightarrow> bytes" where
  "status_bytes code = [ucast (drop_bit 8 code), ucast (code AND 0xFF)]"

definition io_exchange_with_code :: "u16 \<Rightarrow> nat \<Rightarrow> bytes \<Rightarrow> (bytes \<times> bytes) result" where
  "io_exchange_with_code code tx buf =
     andThen (mem_write buf tx (status_bytes code)) (\<lambda>buf. Inr (buf, take (tx + 2) buf))"

definition get_public_key_and_set_result :: "publicKeyContext_t \<Rightarrow> bytes \<Rightarrow> (nat \<times> bytes) result" where
  "get_public_key_and_set_result p buf =
     andThen (mem_write buf 0 [65]) (\<lambda>buf.
     andThen (mem_read (publicKey p) 0 65) (\<lambda>w.
     andThen (mem_write buf 1 w) (\<lambda>buf.
     andThen (strlen (address p)) (\<lambda>addressLength.
     andThen (mem_write buf 66 [of_nat addressLength]) (\<lambda>buf.
     andThen (mem_read (address p) 0 addressLength) (\<lambda>a.
     andThen (mem_write buf 67 a) (\<lambda>buf.
     let tx = 67 + addressLength in
     if getChaincode p then
       andThen (mem_read (chainCode p) 0 32) (\<lambda>c.
       andThen (mem_write buf tx c) (\<lambda>buf. Inr (tx + 32, buf)))
     else Inr (tx, buf))))))))"

section \<open>Public keys\<close>

text \<open>
  \<open>n\<close> indices of four bytes, big-endian, from \<open>off\<close> on. The C code shifts the first byte as an \<^verbatim>\<open>int\<close>: from
  \<^verbatim>\<open>0x80\<close> on, which is every hardened index, the standard leaves the result undefined. What is modelled is the
  word with the bits shifted, which is what the compilers of the devices make of it.
\<close>

fun read_path :: "bytes \<Rightarrow> nat \<Rightarrow> nat \<Rightarrow> u32 list result" where
  "read_path mem off 0 = Inr []"
| "read_path mem off (Suc n) =
     andThen (mem_get mem off) (\<lambda>b0. andThen (mem_get mem (off + 1)) (\<lambda>b1.
     andThen (mem_get mem (off + 2)) (\<lambda>b2. andThen (mem_get mem (off + 3)) (\<lambda>b3.
     andThen (read_path mem (off + 4) n) (\<lambda>path.
       Inr ((push_bit 24 (ucast b0) OR push_bit 16 (ucast b1) OR push_bit 8 (ucast b2) OR ucast b3) # path))))))"

text \<open>The status of a command, whether the answer waits for the user, and the length of the data.\<close>

type_synonym reply = "u16 \<times> bool \<times> nat"

definition handleGetPublicKey :: "'h device_library \<Rightarrow> u8 \<Rightarrow> u8 \<Rightarrow> nat \<Rightarrow> 'h device_t \<Rightarrow> ('h device_t \<times> reply) result" where
  "handleGetPublicKey lib p1 p2 dataBuffer dev =
     (let buf = G_io_apdu_buffer dev in
      andThen (mem_get buf dataBuffer) (\<lambda>bip32PathLength.
      if bip32PathLength < 1 \<or> unat bip32PathLength > MAX_BIP32_PATH then Inr (dev, 0x6a80, False, 0)
      else if p1 \<noteq> P1_CONFIRM \<and> p1 \<noteq> P1_NON_CONFIRM then Inr (dev, 0x6B00, False, 0)
      else if p2 \<noteq> P2_CHAINCODE \<and> p2 \<noteq> P2_NO_CHAINCODE then Inr (dev, 0x6B00, False, 0)
      else
        andThen (read_path buf (dataBuffer + 1) (unat bip32PathLength)) (\<lambda>path.
        let p = (public_key_member lib (tmpCtx dev))\<lparr>getChaincode := (p2 = P2_CHAINCODE)\<rparr> in
        andThen (CX_ASSERT (lib_derive lib path)) (\<lambda>(privateKeyData, code).
        let p = (if getChaincode p then p\<lparr>chainCode := code\<rparr> else p) in
        andThen (CX_ASSERT (lib_private_key lib (take 32 privateKeyData))) (\<lambda>privateKey.
        andThen (CX_ASSERT (lib_public_key lib privateKey)) (\<lambda>W.
        andThen (public_key_to_wif (lib_ripemd160 lib) W 65 (address p) 60) (\<lambda>(_, a).
        let p = p\<lparr>publicKey := W, address := a\<rparr>;
            dev = dev\<lparr>tmpCtx := PublicKeyMember p\<rparr> in
        if p1 = P1_NON_CONFIRM then
          andThen (get_public_key_and_set_result p buf) (\<lambda>(tx, buf).
            Inr (dev\<lparr>G_io_apdu_buffer := buf\<rparr>, SWO_SUCCESS, False, tx))
        else Inr (dev\<lparr>display := PublicKeyFlow\<rparr>, SWO_SUCCESS, True, 0))))))))"

definition user_action_address_ok :: "'h device_library \<Rightarrow> 'h device_t \<Rightarrow> ('h device_t \<times> bytes) result" where
  "user_action_address_ok lib dev =
     andThen (get_public_key_and_set_result (public_key_member lib (tmpCtx dev)) (G_io_apdu_buffer dev)) (\<lambda>(tx, buf).
     andThen (io_exchange_with_code 0x9000 tx buf) (\<lambda>(buf, answer).
       Inr (dev\<lparr>G_io_apdu_buffer := buf, display := IdleScreen\<rparr>, answer)))"

definition user_action_address_cancel :: "'h device_t \<Rightarrow> ('h device_t \<times> bytes) result" where
  "user_action_address_cancel dev =
     andThen (io_exchange_with_code 0x6985 0 (G_io_apdu_buffer dev)) (\<lambda>(buf, answer).
       Inr (dev\<lparr>G_io_apdu_buffer := buf, display := IdleScreen\<rparr>, answer))"

definition handleGetAppConfiguration :: "'h device_library \<Rightarrow> 'h device_t \<Rightarrow> ('h device_t \<times> reply) result" where
  "handleGetAppConfiguration lib dev =
     (case lib_version lib of (major, minor, patch) \<Rightarrow>
      andThen (mem_write (G_io_apdu_buffer dev) 0
        [if is_data_allowed (N_storage dev) then 0x01 else 0x00, major, minor, patch]) (\<lambda>buf.
        Inr (dev\<lparr>G_io_apdu_buffer := buf\<rparr>, SWO_SUCCESS, False, 4)))"

section \<open>Signing\<close>

text \<open>
  One candidate: the nonce lies in the buffer from byte 100 on, where the signature in DER form
  replaces it; the answer is written to the beginning of the same buffer.
\<close>

definition sign_attempt :: "'h device_library \<Rightarrow> bytes \<Rightarrow> bytes \<Rightarrow> bytes \<Rightarrow> (bool \<times> bytes) result" where
  "sign_attempt lib d h buf =
     andThen (mem_read buf 100 32) (\<lambda>rnd.
     andThen (CX_ASSERT (lib_ecdsa_sign lib d h rnd)) (\<lambda>(der, odd).
     andThen (mem_write buf 100 der) (\<lambda>buf.
     andThen (mem_get buf 100) (\<lambda>b.
     let b = (if odd then b OR 0x01 else b) in
     andThen (mem_write buf 100 [b]) (\<lambda>buf.
     andThen (mem_write buf 0 [27 + 4 + (b AND 0x01)]) (\<lambda>buf.
     andThen (ecdsa_der_to_sig (drop 100 buf) (drop 1 buf)) (\<lambda>(_, sig).
     let buf = take 1 buf @ sig in
     andThen (check_canonical (drop 1 buf)) (\<lambda>ok. Inr (ok, buf)))))))))"

partial_function (option) sign_loop :: "'h device_library \<Rightarrow> bytes \<Rightarrow> bytes \<Rightarrow> bytes option \<Rightarrow> bytes \<Rightarrow> bytes \<Rightarrow> bytes
    \<Rightarrow> bytes result option" where
  "sign_loop lib d h x V K buf =
     Option.bind (rng_rfc6979 (lib_hmac lib) (drop 100 buf) h x SECP256K1_N 32 V K) (\<lambda>r.
       case r of Inl e \<Rightarrow> Some (Inl e)
       | Inr (rnd, V, K) \<Rightarrow>
           (case sign_attempt lib d h (take 100 buf @ rnd) of
              Inl e \<Rightarrow> Some (Inl e)
            | Inr (ok, buf) \<Rightarrow> if ok then Some (Inr buf) else sign_loop lib d h None V K buf))"

text \<open>
  \<open>V\<close> and \<open>K\<close> are local arrays that start with what is on the stack; the first call of the
  generator overwrites all of it.
\<close>

definition sign_hash_and_set_result :: "'h device_library \<Rightarrow> 'h device_t \<Rightarrow> ('h device_t \<times> nat) result option" where
  "sign_hash_and_set_result lib dev =
     (let t = transaction_member lib (tmpCtx dev); ctx = txProcessingCtx dev in
      thenRun (CX_ASSERT (hash_final (lib_sha256 lib) (sha256 ctx))) (\<lambda>(digest, sha).
      thenRun (mem_write (transactionHash t) 0 digest) (\<lambda>h.
      let t = t\<lparr>transactionHash := h\<rparr>;
          dev = dev\<lparr>txProcessingCtx := ctx\<lparr>sha256 := sha\<rparr>, tmpCtx := TransactionMember t\<rparr> in
      thenRun (mem_read (bip32Path t) 0 (unat (pathLength t))) (\<lambda>path.
      thenRun (CX_ASSERT (lib_derive lib path)) (\<lambda>(privateKeyData, _).
      thenRun (CX_ASSERT (lib_private_key lib (take 32 privateKeyData))) (\<lambda>privateKey.
      runThen (sign_loop lib privateKey h (Some privateKey) (zeros 33) (zeros 32) (G_io_apdu_buffer dev)) (\<lambda>buf.
        Some (Inr (dev\<lparr>G_io_apdu_buffer := buf\<rparr>, 1 + 64)))))))))"

text \<open>
  The first command of a transaction: the path of the key, and a fresh context. \<open>Inl\<close> is an early
  return; \<open>dataLength\<close> has 16 bits and wraps when the command is shorter than its path.
\<close>

definition sign_start :: "'h device_library \<Rightarrow> nat \<Rightarrow> u16 \<Rightarrow> 'h device_t
    \<Rightarrow> ('h device_t \<times> u16 + 'h device_t \<times> nat \<times> u16) result" where
  "sign_start lib buffer_at dataLength dev =
     (let buf = G_io_apdu_buffer dev in
      andThen (mem_get buf buffer_at) (\<lambda>n.
      let t = (transaction_member lib (tmpCtx dev))\<lparr>pathLength := n\<rparr>;
          dev = dev\<lparr>tmpCtx := TransactionMember t\<rparr> in
      if n < 0x01 \<or> unat n > MAX_BIP32_PATH then Inr (Inl (dev, 0x6a80))
      else
        andThen (read_path buf (buffer_at + 1) (unat n)) (\<lambda>path.
        let t = t\<lparr>bip32Path := path @ drop (unat n) (bip32Path t)\<rparr>;
            ctx = initTxContext (lib_sha256 lib) (content (txProcessingCtx dev))
                    (if is_data_allowed (N_storage dev) then 0x01 else 0x00) in
        Inr (Inr (dev\<lparr>tmpCtx := TransactionMember t, txProcessingCtx := ctx\<rparr>,
          buffer_at + 1 + 4 * unat n, dataLength - 1 - 4 * ucast n)))))"

definition sign_parse :: "'h device_library \<Rightarrow> nat \<Rightarrow> u16 \<Rightarrow> 'h device_t \<Rightarrow> ('h device_t \<times> reply) result option" where
  "sign_parse lib buffer_at dataLength dev =
     runThen (parseTx (lib_sha256 lib) (G_io_apdu_buffer dev) (txProcessingCtx dev) (Some buffer_at)
       (ucast dataLength)) (\<lambda>(ctx, txResult).
     let dev = dev\<lparr>txProcessingCtx := ctx\<rparr> in
     case txResult of
       STREAM_CONFIRM_PROCESSING \<Rightarrow> Some (Inr (dev\<lparr>display := MultipleActionFlow\<rparr>, SWO_SUCCESS, True, 0))
     | STREAM_ACTION_READY \<Rightarrow> Some (Inr (dev\<lparr>display := SingleActionFlow\<rparr>, SWO_SUCCESS, True, 0))
     | STREAM_FINISHED \<Rightarrow>
         runThen (sign_hash_and_set_result lib dev) (\<lambda>(dev, tx). Some (Inr (dev, SWO_SUCCESS, False, tx)))
     | STREAM_PROCESSING \<Rightarrow> Some (Inr (dev, SWO_SUCCESS, False, 0))
     | STREAM_FAULT \<Rightarrow> Some (Inr (dev, 0x6A80, False, 0)))"

definition handleSign :: "'h device_library \<Rightarrow> u8 \<Rightarrow> u8 \<Rightarrow> nat \<Rightarrow> u16 \<Rightarrow> 'h device_t \<Rightarrow> ('h device_t \<times> reply) result option" where
  "handleSign lib p1 p2 buffer_at dataLength dev =
     thenRun (if p1 = P1_FIRST then sign_start lib buffer_at dataLength dev
              else if p1 \<noteq> P1_MORE then Inr (Inl (dev, 0x6B00))
              else Inr (Inr (dev, buffer_at, dataLength))) (\<lambda>r.
     case r of
       Inl (dev, sw) \<Rightarrow> Some (Inr (dev, sw, False, 0))
     | Inr (dev, buffer_at, dataLength) \<Rightarrow>
         if p2 \<noteq> 0 then Some (Inr (dev, 0x6B00, False, 0))
         else if state (txProcessingCtx dev) = TLV_NONE then Some (Inr (dev, 0x6985, False, 0))
         else sign_parse lib buffer_at dataLength dev)"

text \<open>The user's decisions in a review; \<open>None\<close> is no answer yet.\<close>

definition user_action_tx_cancel :: "'h device_t \<Rightarrow> ('h device_t \<times> bytes) result" where
  "user_action_tx_cancel dev =
     andThen (io_exchange_with_code 0x6985 0 (G_io_apdu_buffer dev)) (\<lambda>(buf, answer).
       Inr (dev\<lparr>G_io_apdu_buffer := buf, display := IdleScreen\<rparr>, answer))"

definition user_action_sign_flow_ok :: "'h device_library \<Rightarrow> 'h device_t \<Rightarrow> ('h device_t \<times> bytes option) result option" where
  "user_action_sign_flow_ok lib dev =
     runThen (parseTx (lib_sha256 lib) (G_io_apdu_buffer dev) (txProcessingCtx dev) None 0) (\<lambda>(ctx, txResult).
     let dev = dev\<lparr>txProcessingCtx := ctx\<rparr>;
         send = (\<lambda>code tx dev. thenRun (io_exchange_with_code code tx (G_io_apdu_buffer dev)) (\<lambda>(buf, answer).
           Some (Inr (dev\<lparr>G_io_apdu_buffer := buf, display := IdleScreen\<rparr>, Some answer)))) in
     case txResult of
       STREAM_ACTION_READY \<Rightarrow> Some (Inr (dev\<lparr>display := SingleActionFlow\<rparr>, None))
     | STREAM_PROCESSING \<Rightarrow> send 0x9000 0 dev
     | STREAM_FINISHED \<Rightarrow> runThen (sign_hash_and_set_result lib dev) (\<lambda>(dev, tx). send 0x9000 tx dev)
     | STREAM_CONFIRM_PROCESSING \<Rightarrow> send 0x6A80 0 dev
     | STREAM_FAULT \<Rightarrow> send 0x6A80 0 dev)"

section \<open>Dispatch and the main loop\<close>

definition handleApdu :: "'h device_library \<Rightarrow> 'h device_t \<Rightarrow> ('h device_t \<times> reply) result option" where
  "handleApdu lib dev =
     (let buf = G_io_apdu_buffer dev in
      thenRun (mem_read buf 0 5) (\<lambda>hdr.
      if hdr ! OFFSET_CLA \<noteq> CLA then Some (Inr (dev, 0x6E00, False, 0))
      else if hdr ! OFFSET_INS = INS_GET_PUBLIC_KEY then
        Some (handleGetPublicKey lib (hdr ! OFFSET_P1) (hdr ! OFFSET_P2) OFFSET_CDATA dev)
      else if hdr ! OFFSET_INS = INS_SIGN then
        handleSign lib (hdr ! OFFSET_P1) (hdr ! OFFSET_P2) OFFSET_CDATA (ucast (hdr ! OFFSET_LC)) dev
      else if hdr ! OFFSET_INS = INS_GET_APP_CONFIGURATION then Some (handleGetAppConfiguration lib dev)
      else Some (Inr (dev, 0x6D00, False, 0))))"

text \<open>
  The application starts with its settings checked, and one round of the loop of \<^verbatim>\<open>app_main\<close>: the
  command replaces the beginning of the buffer; \<open>None\<close> is an answer that waits for the user.
\<close>

definition app_start :: "'h device_t \<Rightarrow> 'h device_t" where
  "app_start dev = dev\<lparr>N_storage := config_init (N_storage dev), display := IdleScreen\<rparr>"

definition finish_round :: "'h device_t \<times> reply \<Rightarrow> ('h device_t \<times> bytes option) result" where
  "finish_round r = (case r of (dev, sw, wait, tx) \<Rightarrow>
     andThen (mem_write (G_io_apdu_buffer dev) tx (status_bytes sw)) (\<lambda>buf.
       Inr (dev\<lparr>G_io_apdu_buffer := buf\<rparr>, if wait then None else Some (take (tx + 2) buf))))"

definition app_round :: "'h device_library \<Rightarrow> bytes \<Rightarrow> 'h device_t \<Rightarrow> ('h device_t \<times> bytes option) result option" where
  "app_round lib command dev =
     thenRun (mem_write (G_io_apdu_buffer dev) 0 command) (\<lambda>buf.
     let dev = dev\<lparr>G_io_apdu_buffer := buf\<rparr> in
     runThen (if command = [] then Some (Inr (dev, 0x6982, False, 0)) else handleApdu lib dev) (\<lambda>r.
       Some (finish_round r)))"

end
