(* ===== verification/Eos_Signature.thy ===== *)
theory Eos_Signature
  imports Eos_Main
begin

unbundle bit_operations_syntax

text \<open>
  What \<open>sign_hash_and_set_result\<close> returns: the signature for the first candidate of RFC 6979 that is
  accepted and has a canonical signature. The library's signature is a relation between nonces and
  pairs of integers with a parity, in DER form; it need not be defined on nonces that are not tried.
\<close>

section \<open>One candidate\<close>

type_synonym signature = "bytes \<times> bytes \<times> bool"

definition signs :: "'h device_library \<Rightarrow> bytes \<Rightarrow> bytes \<Rightarrow> bytes \<Rightarrow> signature \<Rightarrow> bool" where
  "signs lib d h k sig = (case sig of (r, s, par) \<Rightarrow>
     magnitude r \<and> magnitude s \<and> lib_ecdsa_sign lib d h k = Some (der_signature r s, par))"

definition canonical_signature :: "signature \<Rightarrow> bool" where
  "canonical_signature sig = (case sig of (r, s, _) \<Rightarrow> canonical_half (be_nat r) \<and> canonical_half (be_nat s))"

text \<open>The 65 bytes of the answer: the header with the parity, and the two integers.\<close>

definition signature_bytes :: "signature \<Rightarrow> bytes" where
  "signature_bytes sig = (case sig of (r, s, par) \<Rightarrow> (if par then 32 else 31) # pad32 r @ pad32 s)"

lemma length_signature_bytes: "signs lib d h k sig \<Longrightarrow> length (signature_bytes sig) = 65"
  by (auto simp: signs_def signature_bytes_def magnitude_def split: prod.splits)

lemma der_signature_parts: "der_signature r s = 0x30 # of_nat (length (der_integer r @ der_integer s)) # der_integer r @ der_integer s"
  by (simp add: der_signature_def Let_def)

lemma length_der_signature: "magnitude r \<Longrightarrow> magnitude s \<Longrightarrow> length (der_signature r s) \<le> 72"
  by (simp add: der_signature_parts der_integer_def magnitude_def)

lemma sign_attempt_eq:
  assumes sig: "signs lib d h (take 32 (drop 100 buf)) sig" and len: "172 \<le> length buf"
  shows "\<exists>buf'. sign_attempt lib d h buf = Inr (canonical_signature sig, buf') \<and> length buf' = length buf
    \<and> take 65 buf' = signature_bytes sig"
proof -
  obtain r s par where s: "sig = (r, s, par)" by (cases sig)
  have m: "magnitude r" "magnitude s" and der: "lib_ecdsa_sign lib d h (take 32 (drop 100 buf)) = Some (der_signature r s, par)"
    using sig s by (simp_all add: signs_def)
  define b :: u8 where "b = (if par then 0x31 else 0x30)"
  define ds where "ds = of_nat (length (der_integer r @ der_integer s)) # der_integer r @ der_integer s"
  define post where "post = drop (100 + length (der_signature r s)) buf"
  have ld: "length (der_signature r s) \<le> 72" using length_der_signature [OF m] .
  have d: "der_signature r s = 0x30 # ds" by (simp add: ds_def der_signature_parts)
  define b1 where "b1 = take 100 buf @ 0x30 # ds @ post"
  define b2 where "b2 = take 100 buf @ b # ds @ post"
  define b3 where "b3 = (31 + (b AND 1)) # drop 1 (take 100 buf) @ b # ds @ post"
  have lp: "length (pad32 r) = 32" "length (pad32 s) = 32" using m by (simp_all add: magnitude_def)
  have l3: "length b3 = length buf" using len ld by (simp add: d post_def b3_def)
  have w1: "mem_write buf 100 (der_signature r s) = Inr b1"
    using len ld by (simp add: mem_write_def post_def d b1_def)
  have g: "mem_get b1 100 = Inr 0x30" using len by (simp add: mem_get_def nth_append b1_def)
  have w2: "mem_write b1 100 [b] = Inr b2" using len by (simp add: mem_write_def b1_def b2_def)
  have w3: "mem_write b2 0 [31 + (b AND 1)] = Inr b3" using len by (simp add: mem_write_def b2_def b3_def)
  have o: "drop 100 b3 = [b, of_nat (length (der_integer r @ der_integer s))] @ der_integer r @ der_integer s @ post"
    using len by (simp add: ds_def b3_def)
  define out where "out = pad32 r @ pad32 s @ drop 65 b3"
  have e: "ecdsa_der_to_sig (drop 100 b3) (drop 1 b3) = Inr (1, out)"
    using ecdsa_der_to_sig_any [OF m, of "drop 1 b3"] len l3 unfolding o by (simp add: out_def)
  have c: "check_canonical out = Inr (canonical_signature sig)"
    using check_canonical_eq [OF lp] by (simp add: canonical_signature_def s out_def)
  have c1: "check_canonical (drop 1 ((31 + (b AND 1)) # out)) = Inr (canonical_signature sig)" using c by simp
  have t: "take 1 b3 @ out = (31 + (b AND 1)) # out" by (simp add: b3_def)
  have b': "(if par then 48 OR 1 else 48) = b" by (simp add: b_def)
  have rd: "mem_read buf 100 32 = Inr (take 32 (drop 100 buf))" using len by (simp add: mem_read_def)
  have "sign_attempt lib d h buf = Inr (canonical_signature sig, (31 + (b AND 1)) # out)"
    unfolding sign_attempt_def 
    by (simp add: rd der w1 g w2 w3 e Let_def t b' c1 del: One_nat_def drop_append split del: if_split)
  moreover have "length ((31 + (b AND 1)) # out) = length buf" using len lp l3 by (simp add: out_def)
  moreover have "take 65 ((31 + (b AND 1)) # out) = signature_bytes sig"
    using lp by (simp add: signature_bytes_def s out_def b_def)
  ultimately show ?thesis by blast
qed
section \<open>The loop\<close>

lemma SECP256K1_N_length: "length SECP256K1_N = 32"
  by (simp add: SECP256K1_N_def)

text \<open>
  The candidate with number \<open>n\<close> from the state \<open>t\<close> on is the first one that is accepted and has a
  canonical signature; the accepted ones before it have signatures that are not canonical.
\<close>

definition chosen :: "'h device_library \<Rightarrow> (bytes \<Rightarrow> bytes \<Rightarrow> bytes) \<Rightarrow> bytes \<Rightarrow> bytes \<Rightarrow> rng_state \<Rightarrow> nat \<Rightarrow> signature \<Rightarrow> bool" where
  "chosen lib H d h t n sig \<longleftrightarrow>
     accepted SECP256K1_N ((rfc_next H ^^ n) t) \<and> signs lib d h (fst ((rfc_next H ^^ n) t)) sig \<and> canonical_signature sig
     \<and> (\<forall>m < n. accepted SECP256K1_N ((rfc_next H ^^ m) t) \<longrightarrow>
          (\<exists>sig'. signs lib d h (fst ((rfc_next H ^^ m) t)) sig' \<and> \<not> canonical_signature sig'))"

lemma chosen_later:
  assumes "chosen lib H d h t n sig" and "k < n"
  shows "chosen lib H d h ((rfc_next H ^^ Suc k) t) (n - Suc k) sig"
proof -
  have shift: "(rfc_next H ^^ m) ((rfc_next H ^^ Suc k) t) = (rfc_next H ^^ (m + Suc k)) t" for m
    by (metis comp_apply funpow_add)
  have "n - Suc k + Suc k = n" using assms(2) by simp
  moreover have "m + Suc k < n" if "m < n - Suc k" for m using that by simp
  ultimately show ?thesis using assms(1) unfolding chosen_def shift by presburger
qed

lemma sign_loop_eq:
  assumes h: "hmac_total (lib_hmac lib) H" and lh: "length h = 32"
  shows "case x of None \<Rightarrow> holds_state V K s \<and> t = rfc_next H s
      | Some x \<Rightarrow> length V = 33 \<and> length K = 32 \<and> t = rfc_generate H (seeded H x h) \<Longrightarrow>
    172 \<le> length buf \<Longrightarrow> chosen lib H d h t n sig \<Longrightarrow>
    \<exists>buf'. sign_loop lib d h x V K buf = Some (Inr buf') \<and> length buf' = length buf
      \<and> take 65 buf' = signature_bytes sig"
proof (induction n arbitrary: x V K s t buf rule: less_induct)
  case (less n)
  let ?c = "\<lambda>m. (rfc_next H ^^ m) t" and ?q = SECP256K1_N
  define k where "k = (LEAST m. accepted ?q (?c m))"
  have n: "accepted ?q (?c n)" using less.prems(3) by (simp add: chosen_def)
  have k: "accepted ?q (?c k)" "k \<le> n" using LeastI [of "\<lambda>m. accepted ?q (?c m)", OF n] Least_le [of "\<lambda>m. accepted ?q (?c m)", OF n]
    by (simp_all add: k_def)
  have nk: "\<forall>m < k. \<not> accepted ?q (?c m)" using not_less_Least [of _ "\<lambda>m. accepted ?q (?c m)"] by (simp add: k_def)
  have start: "case x of None \<Rightarrow> holds_state V K s \<and> t = rfc_next H s
      | Some x \<Rightarrow> length V = 33 \<and> length K = 32 \<and> length h = 32 \<and> t = rfc_generate H (seeded H x h)"
    using less.prems(1) lh by (simp split: option.splits)
  have "32 \<le> length (drop 100 buf)" using less.prems(2) by simp
  from rng_loop_eq [OF h SECP256K1_N_length this start k(1) nk]
  obtain V' K' where r: "rng_rfc6979 (lib_hmac lib) (drop 100 buf) h x ?q 32 V K
      = Some (Inr (fst (?c k) @ drop 32 (drop 100 buf), V', K'))" and s': "holds_state V' K' (?c k)"
    by (auto simp: rng_rfc6979_def)
  let ?b = "take 100 buf @ fst (?c k) @ drop 32 (drop 100 buf)"
  have l: "length (fst (?c k)) = 32" using holds_state_length [OF s'] by simp
  have lb: "length ?b = length buf" using l less.prems(2) by simp
  have nonce: "take 32 (drop 100 ?b) = fst (?c k)" using l less.prems(2) by simp
  obtain sig1 where sig1: "signs lib d h (fst (?c k)) sig1" "canonical_signature sig1 \<Longrightarrow> sig1 = sig"
      "canonical_signature sig1 = (k = n)"
  proof (cases "k = n")
    case True
    then show ?thesis using less.prems(3) that [of sig] by (simp add: chosen_def)
  next
    case False
    then have "k < n" using k(2) by simp
    then obtain sig' where "signs lib d h (fst (?c k)) sig'" "\<not> canonical_signature sig'"
      using less.prems(3) k(1) unfolding chosen_def by blast
    then show ?thesis using that [of sig'] False by simp
  qed
  obtain b1 where b1: "sign_attempt lib d h ?b = Inr (canonical_signature sig1, b1)" "length b1 = length buf"
      "take 65 b1 = signature_bytes sig1"
    using sign_attempt_eq [of lib d h ?b sig1] sig1(1) nonce lb less.prems(2) by auto
  show ?case
  proof (cases "k = n")
    case True
    then show ?thesis using r b1 sig1(2,3) by (subst sign_loop.simps) simp
  next
    case False
    then have "k < n" using k(2) by simp
    have "\<exists>buf'. sign_loop lib d h None V' K' b1 = Some (Inr buf') \<and> length buf' = length b1 \<and> take 65 buf' = signature_bytes sig"
    proof (rule less.IH)
      show "n - Suc k < n" using \<open>k < n\<close> by simp
      show "case None of None \<Rightarrow> holds_state V' K' (?c k) \<and> (rfc_next H ^^ Suc k) t = rfc_next H (?c k)
        | Some x \<Rightarrow> length V' = 33 \<and> length K' = 32 \<and> (rfc_next H ^^ Suc k) t = rfc_generate H (seeded H x h)"
        using s' by simp
      show "172 \<le> length b1" using b1(2) less.prems(2) by simp
      show "chosen lib H d h ((rfc_next H ^^ Suc k) t) (n - Suc k) sig" by (rule chosen_later [OF less.prems(3) \<open>k < n\<close>])
    qed
    then show ?thesis using r b1 sig1(3) False by (subst sign_loop.simps) simp
  qed
qed

section \<open>The signature of the hash\<close>

text \<open>
  \<open>d\<close> is the private key of the path, and \<open>sig\<close> the signature chosen for the hash.
\<close>

definition signature_of :: "'h device_library \<Rightarrow> (bytes \<Rightarrow> bytes \<Rightarrow> bytes) \<Rightarrow> u32 list \<Rightarrow> bytes \<Rightarrow> signature \<Rightarrow> bool" where
  "signature_of lib H path digest sig \<longleftrightarrow> (\<exists>key code d n.
     lib_derive lib path = Some (key, code) \<and> lib_private_key lib (take 32 key) = Some d
     \<and> chosen lib H d digest (rfc_generate H (seeded H d digest)) n sig)"

lemma sign_hash_eq:
  assumes "hmac_total (lib_hmac lib) H" and "hash_final (lib_sha256 lib) (sha256 (txProcessingCtx dev)) = Some (digest, sha)"
    and "length digest = 32" and "tmpCtx dev = TransactionMember t" and "length (transactionHash t) = 32"
    and "unat (pathLength t) \<le> length (bip32Path t)"
    and "signature_of lib H (take (unat (pathLength t)) (bip32Path t)) digest sig" and "172 \<le> length (G_io_apdu_buffer dev)"
  shows "\<exists>dev'. sign_hash_and_set_result lib dev = Some (Inr (dev', 65))
    \<and> length (G_io_apdu_buffer dev') = length (G_io_apdu_buffer dev) \<and> take 65 (G_io_apdu_buffer dev') = signature_bytes sig
    \<and> txProcessingCtx dev' = (txProcessingCtx dev)\<lparr>sha256 := sha\<rparr> \<and> tmpCtx dev' = TransactionMember (t\<lparr>transactionHash := digest\<rparr>)
    \<and> N_storage dev' = N_storage dev \<and> display dev' = display dev"
proof -
  obtain key code d n where k: "lib_derive lib (take (unat (pathLength t)) (bip32Path t)) = Some (key, code)"
    "lib_private_key lib (take 32 key) = Some d"
    "chosen lib H d digest (rfc_generate H (seeded H d digest)) n sig"
    using assms(7) by (auto simp: signature_of_def)
  obtain buf where buf: "sign_loop lib d digest (Some d) (zeros 33) (zeros 32) (G_io_apdu_buffer dev) = Some (Inr buf)"
    "length buf = length (G_io_apdu_buffer dev)" "take 65 buf = signature_bytes sig"
    using sign_loop_eq [OF assms(1,3) _ assms(8) k(3), where x = "Some d" and V = "zeros 33" and K = "zeros 32"] by auto
  have "mem_write (transactionHash t) 0 digest = Inr digest" using assms(3,5) by (simp add: mem_write_def)
  then show ?thesis
    using assms(2,4,6) k(1,2) buf
    by (simp add: sign_hash_and_set_result_def transaction_member_def Let_def mem_read_def)
qed

end
