(* ===== verification/Eos_Chunks.thy ===== *)
theory Eos_Chunks
  imports Eos_Stream
begin

text \<open>
  The host cuts a transaction into commands wherever it likes. Two facts make that harmless:
  the parser sees the bytes of the chunk and not where they lie (\<open>alike\<close> contexts have alike
  runs), and what it does with a longer chunk is what it does with its beginning followed by what
  it does with the rest.
\<close>

section \<open>Functions that do not look at the chunk\<close>

definition set_chunk :: "nat option \<Rightarrow> u32 \<Rightarrow> 'h txProcessingContext_t \<Rightarrow> 'h txProcessingContext_t" where
  "set_chunk w n ctx = ctx\<lparr>workBuffer := w, commandLength := n\<rparr>"

lemma set_chunk_fields [simp]:
  "workBuffer (set_chunk w n ctx) = w" "commandLength (set_chunk w n ctx) = n"
  "set_chunk w n (set_chunk w' n' ctx) = set_chunk w n ctx"
  "state (set_chunk w n ctx) = state ctx" "actionReady (set_chunk w n ctx) = actionReady ctx"
  "confirmProcessing (set_chunk w n ctx) = confirmProcessing ctx"
  "sha256 (set_chunk w n ctx) = sha256 ctx" "dataSha256 (set_chunk w n ctx) = dataSha256 ctx"
  "currentFieldLength (set_chunk w n ctx) = currentFieldLength ctx"
  "currentFieldPos (set_chunk w n ctx) = currentFieldPos ctx"
  "currentActionNumber (set_chunk w n ctx) = currentActionNumber ctx"
  "currentActionIndex (set_chunk w n ctx) = currentActionIndex ctx"
  "currentActionDataBufferLength (set_chunk w n ctx) = currentActionDataBufferLength ctx"
  "currentAutorizationIndex (set_chunk w n ctx) = currentAutorizationIndex ctx"
  "currentAutorizationNumber (set_chunk w n ctx) = currentAutorizationNumber ctx"
  "processingField (set_chunk w n ctx) = processingField ctx"
  "tlvBuffer (set_chunk w n ctx) = tlvBuffer ctx" "tlvBufferPos (set_chunk w n ctx) = tlvBufferPos ctx"
  "contractName (set_chunk w n ctx) = contractName ctx"
  "contractActionName (set_chunk w n ctx) = contractActionName ctx"
  "sizeBuffer (set_chunk w n ctx) = sizeBuffer ctx"
  "actionDataBuffer (set_chunk w n ctx) = actionDataBuffer ctx"
  "dataAllowed (set_chunk w n ctx) = dataAllowed ctx" "dataChecksum (set_chunk w n ctx) = dataChecksum ctx"
  "content (set_chunk w n ctx) = content ctx" "isKnownAction (set_chunk w n ctx) = isKnownAction ctx"
  by (simp_all add: set_chunk_def isKnownAction_def)

lemma set_chunk_same: "set_chunk (workBuffer ctx) (commandLength ctx) ctx = ctx"
  by (simp add: set_chunk_def)

text \<open>The updates of the other fields commute with it.\<close>

lemma set_chunk_commute:
  "set_chunk w n ctx\<lparr>state := a1\<rparr> = set_chunk w n (ctx\<lparr>state := a1\<rparr>)"
  "set_chunk w n ctx\<lparr>actionReady := b\<rparr> = set_chunk w n (ctx\<lparr>actionReady := b\<rparr>)"
  "set_chunk w n ctx\<lparr>confirmProcessing := b\<rparr> = set_chunk w n (ctx\<lparr>confirmProcessing := b\<rparr>)"
  "set_chunk w n ctx\<lparr>sha256 := h\<rparr> = set_chunk w n (ctx\<lparr>sha256 := h\<rparr>)"
  "set_chunk w n ctx\<lparr>dataSha256 := h\<rparr> = set_chunk w n (ctx\<lparr>dataSha256 := h\<rparr>)"
  "set_chunk w n ctx\<lparr>currentFieldPos := k\<rparr> = set_chunk w n (ctx\<lparr>currentFieldPos := k\<rparr>)"
  "set_chunk w n ctx\<lparr>currentAutorizationIndex := k\<rparr> = set_chunk w n (ctx\<lparr>currentAutorizationIndex := k\<rparr>)"
  "set_chunk w n ctx\<lparr>currentAutorizationNumber := k\<rparr> = set_chunk w n (ctx\<lparr>currentAutorizationNumber := k\<rparr>)"
  "set_chunk w n ctx\<lparr>currentActionIndex := k\<rparr> = set_chunk w n (ctx\<lparr>currentActionIndex := k\<rparr>)"
  "set_chunk w n ctx\<lparr>currentActionNumber := k\<rparr> = set_chunk w n (ctx\<lparr>currentActionNumber := k\<rparr>)"
  "set_chunk w n ctx\<lparr>currentActionDataBufferLength := k\<rparr> = set_chunk w n (ctx\<lparr>currentActionDataBufferLength := k\<rparr>)"
  "set_chunk w n ctx\<lparr>processingField := b\<rparr> = set_chunk w n (ctx\<lparr>processingField := b\<rparr>)"
  "set_chunk w n ctx\<lparr>tlvBufferPos := k\<rparr> = set_chunk w n (ctx\<lparr>tlvBufferPos := k\<rparr>)"
  "set_chunk w n ctx\<lparr>sizeBuffer := bs\<rparr> = set_chunk w n (ctx\<lparr>sizeBuffer := bs\<rparr>)"
  "set_chunk w n ctx\<lparr>dataChecksum := bs\<rparr> = set_chunk w n (ctx\<lparr>dataChecksum := bs\<rparr>)"
  "set_chunk w n ctx\<lparr>content := c\<rparr> = set_chunk w n (ctx\<lparr>content := c\<rparr>)"
  "set_count m (set_chunk w n ctx) = set_chunk w n (set_count m ctx)"
  "add_count m (set_chunk w n ctx) = set_chunk w n (add_count m ctx)"
  "to_state s (set_chunk w n ctx) = set_chunk w n (to_state s ctx)"
  "after_action (set_chunk w n ctx) = set_chunk w n (after_action ctx)"
  by (cases ctx; simp add: set_chunk_def set_count_def add_count_def to_state_def after_action_def Let_def)+

definition blind :: "('h txProcessingContext_t \<Rightarrow> 'h txProcessingContext_t result) \<Rightarrow> bool" where
  "blind f \<longleftrightarrow> (\<forall>ctx w n. f (set_chunk w n ctx) = andThen (f ctx) (\<lambda>c. Inr (set_chunk w n c)))"

lemma blindI: "(\<And>ctx w n. f (set_chunk w n ctx) = andThen (f ctx) (\<lambda>c. Inr (set_chunk w n c))) \<Longrightarrow> blind f"
  by (simp add: blind_def)

lemma blindD: "blind f \<Longrightarrow> f (set_chunk w n ctx) = andThen (f ctx) (\<lambda>c. Inr (set_chunk w n c))"
  by (simp add: blind_def)

lemma blind_keeps_chunk:
  assumes "blind f" and "f ctx = Inr c"
  shows "workBuffer c = workBuffer ctx" and "commandLength c = commandLength ctx"
proof -
  have "f ctx = andThen (f ctx) (\<lambda>c. Inr (set_chunk (workBuffer ctx) (commandLength ctx) c))"
    using blindD [OF assms(1), of "workBuffer ctx" "commandLength ctx" ctx] by (simp add: set_chunk_same)
  then have "c = set_chunk (workBuffer ctx) (commandLength ctx) c" using assms(2) by simp
  then show "workBuffer c = workBuffer ctx" and "commandLength c = commandLength ctx"
    by (metis set_chunk_fields(1), metis set_chunk_fields(2))
qed

lemma blind_hashTxData: "blind (hashTxData ops bs)"
  by (rule blindI) (simp add: hashTxData_def andThen_assoc set_chunk_commute)


text \<open>The second halves of the field functions are blind, counting included.\<close>

lemma blind_if: "blind f \<Longrightarrow> blind g \<Longrightarrow> (\<And>ctx w n. P (set_chunk w n ctx) = P ctx) \<Longrightarrow>
    blind (\<lambda>ctx. if P ctx then f ctx else g ctx)"
  by (simp add: blind_def)

lemma andThen_if: "andThen (if b then x else y) f = (if b then andThen x f else andThen y f)"
  by simp

lemma set_chunk_if: "(if b then set_chunk w n x else set_chunk w n y) = set_chunk w n (if b then x else y)"
  by simp

lemma blind_counts:
  "blind processTokenTransfer" "blind processEosioDelegate" "blind processEosioUndelegate"
  "blind processEosioRefund" "blind processEosioBuyRam" "blind processEosioSellRam"
  "blind processEosioVoteProducer" "blind processEosioUpdateAuth" "blind processEosioDeleteAuth"
  "blind processEosioLinkAuth" "blind processEosioUnlinkAuth" "blind processEosioNewAccountAction"
  by (rule blindI; simp add: processTokenTransfer_def processEosioDelegate_def processEosioUndelegate_def
      processEosioRefund_def processEosioBuyRam_def processEosioSellRam_def processEosioVoteProducer_def
      processEosioUpdateAuth_def processEosioDeleteAuth_def processEosioLinkAuth_def processEosioUnlinkAuth_def
      processEosioNewAccountAction_def Let_def andThen_assoc case_prod_unfold set_chunk_commute andThen_if set_chunk_if
      cong: if_cong)+

lemma blind_count_arguments: "blind count_arguments"
  by (rule blindI) (simp add: count_arguments_def Let_def blindD [OF blind_counts(1)] blindD [OF blind_counts(2)]
      blindD [OF blind_counts(3)] blindD [OF blind_counts(4)] blindD [OF blind_counts(5)]
      blindD [OF blind_counts(6)] blindD [OF blind_counts(7)] blindD [OF blind_counts(8)]
      blindD [OF blind_counts(9)] blindD [OF blind_counts(10)] blindD [OF blind_counts(11)]
      blindD [OF blind_counts(12)])

section \<open>Where the chunk lies does not matter\<close>

definition feeds :: "bytes \<Rightarrow> 'h txProcessingContext_t \<Rightarrow> bytes \<Rightarrow> bool" where
  "feeds mem ctx xs \<longleftrightarrow> unat (commandLength ctx) = length xs
     \<and> (xs \<noteq> [] \<longrightarrow> (\<exists>off. workBuffer ctx = Some off \<and> off + length xs \<le> length mem
          \<and> take (length xs) (drop off mem) = xs))"

lemma feeds_chunk_ok: "feeds mem ctx xs \<Longrightarrow> chunk_ok mem ctx"
  by (cases "xs = []") (auto simp: feeds_def chunk_ok_def unat_eq_0)

lemma chunk_ok_feeds: "chunk_ok mem ctx \<Longrightarrow> \<exists>xs. feeds mem ctx xs"
proof (cases "commandLength ctx = 0")
  case False
  assume "chunk_ok mem ctx"
  with False obtain off where "workBuffer ctx = Some off" "off + unat (commandLength ctx) \<le> length mem"
    by (auto simp: chunk_ok_def)
  then have "feeds mem ctx (take (unat (commandLength ctx)) (drop off mem))" by (auto simp: feeds_def)
  then show ?thesis ..
qed (auto simp: feeds_def intro: exI [of _ "[]"])

lemma work_read_feeds: "feeds mem ctx xs \<Longrightarrow> n \<le> length xs \<Longrightarrow> work_read mem ctx n = Inr (take n xs)"
  by (cases "n = 0") (auto simp: feeds_def work_read_def mem_read_def min_def dest: arg_cong [where f = "take n"])

lemma feeds_skip:
  assumes "feeds mem ctx xs" and "unat n \<le> length xs"
  shows "feeds mem (work_skip n ctx) (drop (unat n) xs)"
proof -
  have "n \<le> commandLength ctx" using assms by (simp add: feeds_def word_le_nat_alt)
  then have "unat (commandLength (work_skip n ctx)) = length xs - unat n"
    using assms by (simp add: work_skip_length feeds_def)
  moreover have "\<exists>off. workBuffer (work_skip n ctx) = Some off \<and> off + (length xs - unat n) \<le> length mem
      \<and> take (length xs - unat n) (drop off mem) = drop (unat n) xs" if "drop (unat n) xs \<noteq> []"
  proof -
    have "xs \<noteq> []" using that by auto
    then obtain off where o: "workBuffer ctx = Some off" "off + length xs \<le> length mem"
      "take (length xs) (drop off mem) = xs" using assms(1) by (auto simp: feeds_def)
    have "take (length xs - unat n) (drop (off + unat n) mem) = drop (unat n) (take (length xs) (drop off mem))"
      by (simp add: drop_take add.commute)
    with o assms(2) show ?thesis by (simp add: work_skip_def)
  qed
  ultimately show ?thesis by (simp add: feeds_def)
qed

text \<open>Two contexts that differ in the place of their chunk only, and results that do.\<close>

definition alike :: "bytes \<Rightarrow> bytes \<Rightarrow> 'h txProcessingContext_t \<Rightarrow> 'h txProcessingContext_t \<Rightarrow> bool" where
  "alike mem mem' ctx ctx' \<longleftrightarrow> (\<exists>xs. feeds mem ctx xs \<and> feeds mem' ctx' xs)
     \<and> ctx' = set_chunk (workBuffer ctx') (commandLength ctx) ctx"

definition same_result :: "('a \<Rightarrow> 'b \<Rightarrow> bool) \<Rightarrow> 'a result \<Rightarrow> 'b result \<Rightarrow> bool" where
  "same_result R a b \<longleftrightarrow>
     (case a of Inl e \<Rightarrow> b = Inl e | Inr x \<Rightarrow> (case b of Inl e \<Rightarrow> False | Inr y \<Rightarrow> R x y))"

lemma same_result_simps [simp]:
  "same_result R (Inr x) (Inr y) = R x y" "same_result R (Inl e) b \<longleftrightarrow> b = Inl e"
  by (auto simp: same_result_def)

lemma same_result_andThen:
  "same_result R a b \<Longrightarrow> (\<And>x y. R x y \<Longrightarrow> same_result S (f x) (g y)) \<Longrightarrow> same_result S (andThen a f) (andThen b g)"
  by (cases a; cases b) (auto simp: same_result_def)

lemma alike_set_chunk:
  "alike mem mem' ctx ctx' \<Longrightarrow> \<exists>w. ctx' = set_chunk w (commandLength ctx) ctx"
  by (auto simp: alike_def)

lemma blind_alike:
  assumes b: "blind f" and a: "alike mem mem' ctx ctx'"
  shows "same_result (alike mem mem') (f ctx) (f ctx')"
proof -
  obtain w where w: "ctx' = set_chunk w (commandLength ctx) ctx" using alike_set_chunk [OF a] ..
  have f': "f ctx' = andThen (f ctx) (\<lambda>c. Inr (set_chunk w (commandLength ctx) c))"
    unfolding w by (rule blindD [OF b])
  show ?thesis
  proof (cases "f ctx")
    case (Inl e)
    then show ?thesis using f' by simp
  next
    case (Inr c)
    note k = blind_keeps_chunk [OF b Inr]
    have "alike mem mem' c (set_chunk w (commandLength ctx) c)"
      using a k w by (auto simp: alike_def feeds_def)
    then show ?thesis using f' Inr by simp
  qed
qed

lemma alike_advance:
  assumes a: "alike mem mem' ctx ctx'" and n: "n \<le> commandLength ctx"
  shows "alike mem mem' (advance n ctx) (advance n ctx')"
proof -
  obtain xs where xs: "feeds mem ctx xs" "feeds mem' ctx' xs" using a by (auto simp: alike_def)
  have le: "unat n \<le> length xs" using xs(1) n by (simp add: feeds_def word_le_nat_alt)
  have adv: "feeds m (advance n c) ys = feeds m (work_skip n c) ys" for m c ys
    by (simp add: feeds_def advance_def)
  have "feeds mem (advance n ctx) (drop (unat n) xs)" "feeds mem' (advance n ctx') (drop (unat n) xs)"
    using feeds_skip [OF xs(1) le] feeds_skip [OF xs(2) le] by (simp_all add: adv)
  moreover obtain w where "ctx' = set_chunk w (commandLength ctx) ctx" using alike_set_chunk [OF a] ..
  then have "advance n ctx' = set_chunk (workBuffer (advance n ctx')) (commandLength (advance n ctx)) (advance n ctx)"
    by (cases ctx) (simp add: set_chunk_def advance_def work_skip_def)
  ultimately show ?thesis by (auto simp: alike_def)
qed

lemma blind_when_complete: "blind f \<Longrightarrow> blind (when_complete f)"
  by (rule blindI) (simp add: when_complete_def blindD)

definition check_blind :: "(u32 \<Rightarrow> 'h txProcessingContext_t \<Rightarrow> unit result) \<Rightarrow> bool" where
  "check_blind check \<longleftrightarrow> (\<forall>n ctx. n \<le> commandLength ctx \<longrightarrow> check n ctx = Inr ())"

lemma check_blind_simps [simp]: "check_blind (checked msg)" "check_blind no_check"
  by (simp_all add: check_blind_def checked_def no_check_def)

context field_store
begin

lemma blind_store: "blind (store bs)"
  by (rule blindI) (simp only: set_chunk_def store_any_chunk)

lemma receive_alike:
  assumes a: "alike mem mem' ctx ctx'" and ck: "check_blind check"
  shows "same_result (alike mem mem') (receive ops mem check store ctx) (receive ops mem' check store ctx')"
proof -
  obtain xs where xs: "feeds mem ctx xs" "feeds mem' ctx' xs" using a by (auto simp: alike_def)
  obtain w where w: "ctx' = set_chunk w (commandLength ctx) ctx" using alike_set_chunk [OF a] ..
  let ?n = "chunk_length ctx"
  have n': "chunk_length ctx' = ?n" by (simp add: w chunk_length_def)
  have le: "?n \<le> commandLength ctx" by (rule chunk_length_le)
  then have len: "unat ?n \<le> length xs" using xs(1) by (simp add: feeds_def word_le_nat_alt)
  let ?bs = "take (unat ?n) xs"
  have rd: "work_read mem ctx (unat ?n) = Inr ?bs" "work_read mem' ctx' (unat ?n) = Inr ?bs"
    using work_read_feeds [OF xs(1) len] work_read_feeds [OF xs(2) len] by simp_all
  have chk: "check ?n ctx = Inr ()" "check ?n ctx' = Inr ()"
    using ck le by (simp_all add: check_blind_def w)
  have "same_result (alike mem mem')
      (andThen (hashTxData ops ?bs ctx) (\<lambda>ctx. andThen (store ?bs ctx) (\<lambda>ctx. Inr (advance ?n ctx))))
      (andThen (hashTxData ops ?bs ctx') (\<lambda>ctx. andThen (store ?bs ctx) (\<lambda>ctx. Inr (advance ?n ctx))))"
  proof -
    have b: "blind (\<lambda>ctx. andThen (hashTxData ops ?bs ctx) (store ?bs))"
      by (rule blindI) (simp add: blindD [OF blind_hashTxData] andThen_assoc blindD [OF blind_store])
    have cl: "commandLength c = commandLength ctx" if "andThen (hashTxData ops ?bs ctx) (store ?bs) = Inr c" for c
      using blind_keeps_chunk(2) [OF b that] .
    have "same_result (\<lambda>c c'. alike mem mem' c c' \<and> commandLength c = commandLength ctx)
        (andThen (hashTxData ops ?bs ctx) (store ?bs)) (andThen (hashTxData ops ?bs ctx') (store ?bs))"
      using blind_alike [OF b a] cl by (auto simp: same_result_def split: sum.splits)
    then have "same_result (alike mem mem')
        (andThen (andThen (hashTxData ops ?bs ctx) (store ?bs)) (\<lambda>ctx. Inr (advance ?n ctx)))
        (andThen (andThen (hashTxData ops ?bs ctx') (store ?bs)) (\<lambda>ctx. Inr (advance ?n ctx)))"
      by (rule same_result_andThen) (use le in \<open>auto intro: alike_advance\<close>)
    then show ?thesis by (simp only: andThen_assoc)
  qed
  then show ?thesis using a n' rd chk by (simp add: receive_def Let_def w)
qed

lemma field_alike:
  assumes "alike mem mem' ctx ctx'" and "check_blind check" and "blind finish"
  shows "same_result (alike mem mem')
    (andThen (receive ops mem check store ctx) (when_complete finish))
    (andThen (receive ops mem' check store ctx') (when_complete finish))"
  by (rule same_result_andThen [OF receive_alike [OF assms(1,2)] blind_alike [OF blind_when_complete [OF assms(3)]]])

end

text \<open>The second half of each field function is blind.\<close>

lemma blind_finish_field: "blind (\<lambda>ctx. Inr (to_state (next_state (state ctx)) ctx))"
  by (rule blindI) (simp add: set_chunk_commute)

lemma size_value_set_chunk [simp]: "size_value (set_chunk w n ctx) = size_value ctx"
  by (simp add: size_value_def)

lemma blind_finish_zero: "blind (\<lambda>ctx. andThen (size_value ctx) (\<lambda>sizeValue.
    andThen (LEDGER_ASSERT (sizeValue = 0) m) (\<lambda>_.
      Inr (to_state (next_state (state ctx)) (ctx\<lparr>sizeBuffer := zeros 12\<rparr>)))))"
  by (rule blindI) (simp add: set_chunk_commute andThen_assoc)

lemma blind_finish_actions: "blind (\<lambda>ctx. andThen (size_value ctx) (\<lambda>n.
    let ctx = ctx\<lparr>currentActionNumber := n, currentActionIndex := 0, sizeBuffer := zeros 12\<rparr>;
        ctx = to_state (next_state (state ctx)) ctx
    in Inr (if currentActionNumber ctx > 1 then ctx\<lparr>confirmProcessing := True\<rparr> else ctx)))"
  by (rule blindI) (simp add: set_chunk_commute set_chunk_if andThen_assoc Let_def cong: if_cong)

lemma blind_finish_account: "blind (\<lambda>ctx. let ctx = to_state (next_state (state ctx)) ctx in
    andThen (name_to_string (contractName ctx) (zeros 14) 0 14) (\<lambda>(_, s).
      Inr (ctx\<lparr>content := (content ctx)\<lparr>contract := s\<rparr>\<rparr>)))"
  by (rule blindI) (simp add: set_chunk_commute Let_def name_to_string_ends)

lemma blind_finish_name: "blind (\<lambda>ctx. let ctx = to_state (next_state (state ctx)) ctx in
    andThen (name_to_string (contractActionName ctx) (zeros 14) 0 14) (\<lambda>(_, s).
      Inr (ctx\<lparr>content := (content ctx)\<lparr>action := s\<rparr>\<rparr>)))"
  by (rule blindI) (simp add: set_chunk_commute Let_def name_to_string_ends)

lemma blind_finish_auths: "blind (\<lambda>ctx. andThen (size_value ctx) (\<lambda>n.
    Inr (to_state (next_state (state ctx))
      (ctx\<lparr>currentAutorizationNumber := n, currentAutorizationIndex := 0, sizeBuffer := zeros 12\<rparr>))))"
  by (rule blindI) (simp add: set_chunk_commute andThen_assoc)

lemma blind_finish_permission: "blind (\<lambda>ctx.
    let ctx = ctx\<lparr>currentAutorizationIndex := currentAutorizationIndex ctx + 1, sizeBuffer := zeros 12\<rparr>
    in Inr (to_state (if currentAutorizationIndex ctx \<noteq> currentAutorizationNumber ctx
         then TLV_AUTHORIZATION_ACTOR else next_state (state ctx)) ctx))"
  by (rule blindI) (simp add: set_chunk_commute Let_def)

lemma blind_processUnknownAction: "blind (processUnknownAction ops)"
  by (rule blindI) (simp add: processUnknownAction_def set_chunk_commute andThen_assoc case_prod_unfold)

lemma blind_finish_unknown: "blind (\<lambda>ctx.
    let ctx = ctx\<lparr>currentActionDataBufferLength := currentFieldLength ctx\<rparr> in
    andThen (processUnknownAction ops ctx) (\<lambda>ctx. Inr ((after_action ctx)\<lparr>dataSha256 := hash_init ops\<rparr>)))"
  by (rule blindI) (simp add: set_chunk_commute Let_def blindD [OF blind_processUnknownAction] andThen_assoc)

lemma blind_finish_data: "blind (\<lambda>ctx.
    let ctx = ctx\<lparr>currentActionDataBufferLength := currentFieldLength ctx\<rparr> in
    andThen (count_arguments ctx) (\<lambda>ctx. Inr (after_action ctx)))"
  by (rule blindI) (simp add: set_chunk_commute Let_def blindD [OF blind_count_arguments] andThen_assoc)

lemmas blind_finishes = blind_finish_field blind_finish_zero blind_finish_actions blind_finish_account
  blind_finish_name blind_finish_auths blind_finish_permission blind_finish_unknown blind_finish_data

lemma fields_alike:
  assumes a: "alike mem mem' ctx ctx'"
  shows "same_result (alike mem mem') (processField ops mem ctx) (processField ops mem' ctx')"
    "same_result (alike mem mem') (processZeroSizeField ops mem ctx) (processZeroSizeField ops mem' ctx')"
    "same_result (alike mem mem') (processActionListSizeField ops mem ctx) (processActionListSizeField ops mem' ctx')"
    "same_result (alike mem mem') (processActionAccount ops mem ctx) (processActionAccount ops mem' ctx')"
    "same_result (alike mem mem') (processActionName ops mem ctx) (processActionName ops mem' ctx')"
    "same_result (alike mem mem') (processAuthorizationListSizeField ops mem ctx)
      (processAuthorizationListSizeField ops mem' ctx')"
    "same_result (alike mem mem') (processAuthorizationPermission ops mem ctx)
      (processAuthorizationPermission ops mem' ctx')"
    "same_result (alike mem mem') (processUnknownActionDataSize ops mem ctx)
      (processUnknownActionDataSize ops mem' ctx')"
    "same_result (alike mem mem') (processUnknownActionData ops mem ctx) (processUnknownActionData ops mem' ctx')"
    "same_result (alike mem mem') (processActionData ops mem ctx) (processActionData ops mem' ctx')"
proof -
  obtain w where w: "ctx' = set_chunk w (commandLength ctx) ctx" using alike_set_chunk [OF a] ..
  show "same_result (alike mem mem') (processField ops mem ctx) (processField ops mem' ctx')"
    unfolding processField_def by (rule none_store.field_alike [OF a check_blind_simps(1) blind_finish_field])
  show "same_result (alike mem mem') (processZeroSizeField ops mem ctx) (processZeroSizeField ops mem' ctx')"
    unfolding processZeroSizeField_def by (rule size_store.field_alike [OF a check_blind_simps(1) blind_finish_zero])
  show "same_result (alike mem mem') (processActionListSizeField ops mem ctx) (processActionListSizeField ops mem' ctx')"
    unfolding processActionListSizeField_def
    by (rule size_store.field_alike [OF a check_blind_simps(1) blind_finish_actions])
  show "same_result (alike mem mem') (processActionAccount ops mem ctx) (processActionAccount ops mem' ctx')"
    unfolding processActionAccount_def
    by (rule contract_store.field_alike [OF a check_blind_simps(1) blind_finish_account])
  show "same_result (alike mem mem') (processActionName ops mem ctx) (processActionName ops mem' ctx')"
    unfolding processActionName_def by (rule action_store.field_alike [OF a check_blind_simps(1) blind_finish_name])
  show "same_result (alike mem mem') (processAuthorizationListSizeField ops mem ctx)
      (processAuthorizationListSizeField ops mem' ctx')"
    unfolding processAuthorizationListSizeField_def
    by (rule size_store.field_alike [OF a check_blind_simps(1) blind_finish_auths])
  show "same_result (alike mem mem') (processAuthorizationPermission ops mem ctx)
      (processAuthorizationPermission ops mem' ctx')"
    unfolding processAuthorizationPermission_def
    by (rule none_store.field_alike [OF a check_blind_simps(1) blind_finish_permission])
  show "same_result (alike mem mem') (processUnknownActionDataSize ops mem ctx)
      (processUnknownActionDataSize ops mem' ctx')"
    unfolding processUnknownActionDataSize_def
    by (rule hash_store.field_alike [OF a check_blind_simps(1) blind_finish_field])
  show "same_result (alike mem mem') (processUnknownActionData ops mem ctx) (processUnknownActionData ops mem' ctx')"
    unfolding processUnknownActionData_def
    by (rule hash_store.field_alike [OF a check_blind_simps(1) blind_finish_unknown])
  show "same_result (alike mem mem') (processActionData ops mem ctx) (processActionData ops mem' ctx')"
    unfolding processActionData_def
    by (cases "currentFieldLength ctx \<le> 511")
      (simp_all add: w data_store.field_alike [OF a check_blind_simps(2) blind_finish_data, unfolded w Let_def])
qed

definition alike_next :: "bytes \<Rightarrow> bytes \<Rightarrow> 'h txProcessingContext_t \<times> 'a \<Rightarrow> 'h txProcessingContext_t \<times> 'a \<Rightarrow> bool" where
  "alike_next mem mem' r r' \<longleftrightarrow> alike mem mem' (fst r) (fst r') \<and> snd r' = snd r"

lemma alike_nextI: "alike mem mem' a b \<Longrightarrow> alike_next mem mem' (a, x) (b, x)"
  by (simp add: alike_next_def)

lemma alike_nextE:
  assumes "alike_next mem mem' r r'"
  obtains a b x where "r = (a, x)" "r' = (b, x)" "alike mem mem' a b"
  using assms by (cases r; cases r') (auto simp: alike_next_def)

lemma continue_alike:
  "same_result (alike mem mem') m m' \<Longrightarrow>
     same_result (alike_next mem mem') (andThen m (\<lambda>ctx. Inr (ctx, x))) (andThen m' (\<lambda>ctx. Inr (ctx, x)))"
  by (erule same_result_andThen) (simp add: alike_next_def)

lemma process_state_alike:
  assumes a: "alike mem mem' ctx ctx'"
  shows "same_result (alike_next mem mem') (process_state ops mem ctx) (process_state ops mem' ctx')"
proof -
  obtain w where w: "ctx' = set_chunk w (commandLength ctx) ctx" using alike_set_chunk [OF a] ..
  have s: "state ctx' = state ctx" "isKnownAction ctx' = isKnownAction ctx" "dataAllowed ctx' = dataAllowed ctx"
    by (simp_all add: w)
  show ?thesis
    unfolding process_state_def Let_def s
    by (cases "state ctx") (auto intro: continue_alike fields_alike [OF a] simp: a alike_next_def)
qed

lemma read_tlv_empty: "commandLength ctx = 0 \<Longrightarrow> read_tlv mem ctx = Inr (ctx, Inr False)"
  by (subst read_tlv.simps) simp

definition header_byte :: "u8 \<Rightarrow> 'h txProcessingContext_t \<Rightarrow> (bytes \<times> bool \<times> u32 \<times> bool) result" where
  "header_byte b ctx =
     andThen (mem_write (tlvBuffer ctx) (unat (tlvBufferPos ctx)) [b]) (\<lambda>buf.
     andThen (tlvTryDecode buf (tlvBufferPos ctx + 1) (currentFieldLength ctx)) (\<lambda>r. Inr (buf, r)))"

definition header_store :: "bytes \<Rightarrow> u32 \<Rightarrow> 'h txProcessingContext_t \<Rightarrow> 'h txProcessingContext_t" where
  "header_store buf len ctx = ctx\<lparr>tlvBuffer := buf, tlvBufferPos := tlvBufferPos ctx + 1, currentFieldLength := len\<rparr>"

lemma read_tlv_step:
  assumes "commandLength ctx \<noteq> 0" and "readTxByte mem ctx = Inr (b, work_skip 1 ctx)"
  shows "read_tlv mem ctx = andThen (header_byte b ctx) (\<lambda>(buf, d, l, v).
    let c = header_store buf l (work_skip 1 ctx) in
    if \<not> v then Inr (c, Inl STREAM_FAULT)
    else if d then Inr (c, Inr True)
    else if tlvBufferPos ctx + 1 = 5 then Inr (c, Inl STREAM_FAULT)
    else read_tlv mem c)"
proof (cases "header_byte b ctx")
  case (Inl e)
  then show ?thesis
    using assms by (subst read_tlv.simps) (auto simp: header_byte_def andThen_eq_Inl andThen_assoc)
next
  case (Inr r)
  obtain buf d l v where "r = (buf, d, l, v)" by (cases r)
  then show ?thesis
    using assms Inr
    by (subst read_tlv.simps) (auto simp: header_byte_def header_store_def andThen_eq_Inr work_skip_def Let_def)
qed

lemma readTxByte_feeds:
  assumes "feeds mem ctx (x # xs)"
  shows "readTxByte mem ctx = Inr (x, work_skip 1 ctx)" and "commandLength ctx \<noteq> 0"
    and "feeds mem (work_skip 1 ctx) xs"
proof -
  have "unat (commandLength ctx) = Suc (length xs)" using assms by (simp add: feeds_def)
  then have le: "1 \<le> commandLength ctx" and nz: "commandLength ctx \<noteq> 0" by (auto simp: word_le_nat_alt)
  then show "readTxByte mem ctx = Inr (x, work_skip 1 ctx)"
    using work_read_feeds [OF assms, of 1] by (simp add: readTxByte_def)
  show "commandLength ctx \<noteq> 0" by (rule nz)
  show "feeds mem (work_skip 1 ctx) xs" using feeds_skip [OF assms, of 1] by simp
qed

lemma feeds_unique: "feeds mem ctx xs \<Longrightarrow> feeds mem ctx ys \<Longrightarrow> xs = ys"
  by (cases "xs = []"; cases "ys = []") (auto simp: feeds_def)

lemma header_byte_set_chunk [simp]: "header_byte b (set_chunk w n ctx) = header_byte b ctx"
  by (simp add: header_byte_def)

lemma feeds_header_store [simp]: "feeds mem (header_store buf l ctx) xs = feeds mem ctx xs"
  by (simp add: feeds_def header_store_def)

lemma alike_header_store:
  "alike mem mem' ctx ctx' \<Longrightarrow> alike mem mem' (header_store buf l ctx) (header_store buf l ctx')"
  by (cases ctx; cases ctx') (auto simp: alike_def feeds_def header_store_def set_chunk_def)

lemma alike_skip:
  assumes "alike mem mem' ctx ctx'" and "n \<le> commandLength ctx"
  shows "alike mem mem' (work_skip n ctx) (work_skip n ctx')"
proof -
  obtain xs where xs: "feeds mem ctx xs" "feeds mem' ctx' xs" using assms by (auto simp: alike_def)
  have le: "unat n \<le> length xs" using xs(1) assms(2) by (simp add: feeds_def word_le_nat_alt)
  obtain w where "ctx' = set_chunk w (commandLength ctx) ctx" using alike_set_chunk [OF assms(1)] ..
  then have "work_skip n ctx' = set_chunk (workBuffer (work_skip n ctx')) (commandLength (work_skip n ctx)) (work_skip n ctx)"
    by (cases ctx) (simp add: set_chunk_def work_skip_def)
  then show ?thesis using feeds_skip [OF xs(1) le] feeds_skip [OF xs(2) le] by (auto simp: alike_def)
qed

lemma read_tlv_alike:
  assumes "feeds mem ctx xs" and "alike mem mem' ctx ctx'"
  shows "same_result (alike_next mem mem') (read_tlv mem ctx) (read_tlv mem' ctx')"
  using assms
proof (induction xs arbitrary: ctx ctx')
  case Nil
  then have "commandLength ctx = 0" "commandLength ctx' = 0" by (auto simp: feeds_def alike_def unat_eq_0)
  then show ?case using Nil by (simp add: read_tlv_empty alike_next_def)
next
  case (Cons x xs)
  note a = Cons.prems(2) and r = readTxByte_feeds [OF Cons.prems(1)]
  obtain w where w: "ctx' = set_chunk w (commandLength ctx) ctx" using alike_set_chunk [OF a] ..
  have "feeds mem' ctx' (x # xs)" using a Cons.prems(1) by (metis alike_def feeds_unique)
  note r' = readTxByte_feeds [OF this]
  have le: "1 \<le> commandLength ctx" using r(2) by (simp add: word_le_nat_alt Suc_leI unat_gt_0 word_gt_0)
  have h: "header_byte x ctx' = header_byte x ctx" "tlvBufferPos ctx' = tlvBufferPos ctx" by (simp_all add: w)
  have next1: "alike mem mem' (header_store buf l (work_skip 1 ctx)) (header_store buf l (work_skip 1 ctx'))" for buf l
    using alike_header_store [OF alike_skip [OF a le]] .
  have "same_result (alike_next mem mem') (read_tlv mem (header_store buf l (work_skip 1 ctx)))
      (read_tlv mem' (header_store buf l (work_skip 1 ctx')))" for buf l
    using r(3) next1 by (intro Cons.IH) simp_all
  then show ?case
    unfolding read_tlv_step [OF r(2,1)] read_tlv_step [OF r'(2,1)] h
    using next1 by (cases "header_byte x ctx") (auto simp: Let_def intro!: alike_nextI)
qed

lemma alike_update:
  assumes "alike mem mem' ctx ctx'"
  shows "alike mem mem' (ctx\<lparr>confirmProcessing := b\<rparr>) (ctx'\<lparr>confirmProcessing := b\<rparr>)"
    and "alike mem mem' (ctx\<lparr>actionReady := b\<rparr>) (ctx'\<lparr>actionReady := b\<rparr>)"
    and "alike mem mem' (ctx\<lparr>currentFieldPos := p, tlvBufferPos := q, processingField := b\<rparr>)
      (ctx'\<lparr>currentFieldPos := p, tlvBufferPos := q, processingField := b\<rparr>)"
  using assms by (cases ctx; cases ctx'; auto simp: alike_def feeds_def set_chunk_def)+

lemma tx_round_alike:
  assumes a: "alike mem mem' ctx ctx'"
  shows "same_result (alike_next mem mem') (tx_round ops mem ctx) (tx_round ops mem' ctx')"
proof -
  obtain w where w: "ctx' = set_chunk w (commandLength ctx) ctx" using alike_set_chunk [OF a] ..
  obtain xs where xs: "feeds mem ctx xs" using a by (auto simp: alike_def)
  have s: "confirmProcessing ctx' = confirmProcessing ctx" "actionReady ctx' = actionReady ctx"
    "state ctx' = state ctx" "commandLength ctx' = commandLength ctx" "processingField ctx' = processingField ctx"
    by (simp_all add: w)
  have hd: "same_result (alike_next mem mem')
      (andThen (read_tlv mem ctx) (\<lambda>(ctx, r).
          case r of Inl status \<Rightarrow> Inr (ctx, Some status)
          | Inr decoded \<Rightarrow>
              if \<not> decoded then Inr (ctx, Some STREAM_PROCESSING)
              else process_state ops mem
                     (ctx\<lparr>currentFieldPos := 0, tlvBufferPos := 0, processingField := True\<rparr>)))
      (andThen (read_tlv mem' ctx') (\<lambda>(ctx, r).
          case r of Inl status \<Rightarrow> Inr (ctx, Some status)
          | Inr decoded \<Rightarrow>
              if \<not> decoded then Inr (ctx, Some STREAM_PROCESSING)
              else process_state ops mem'
                     (ctx\<lparr>currentFieldPos := 0, tlvBufferPos := 0, processingField := True\<rparr>)))"
    by (rule same_result_andThen [OF read_tlv_alike [OF xs a]])
      (auto elim!: alike_nextE split: sum.splits intro!: alike_nextI process_state_alike alike_update(3))
  show ?thesis
    unfolding tx_round_def s
    using a hd process_state_alike [OF a] alike_update [OF a] by (auto simp: alike_next_def)
qed

lemma processTxInternal_alike:
  assumes "stream_ok mem ctx" and "digest_32 ops" and "alike mem mem' ctx ctx'"
  shows "\<exists>r r'. processTxInternal ops mem ctx = Some r \<and> processTxInternal ops mem' ctx' = Some r'
    \<and> same_result (alike_next mem mem') r r'"
  using assms(1,3)
proof (induction "unat (commandLength ctx)" arbitrary: ctx ctx' rule: less_induct)
  case less
  have post: "ends_unless (name_state (state ctx)) (round_post mem ctx) (tx_round ops mem ctx)"
    using less.prems(1) assms(2) by (rule tx_round_ends)
  have rel: "same_result (alike_next mem mem') (tx_round ops mem ctx) (tx_round ops mem' ctx')"
    using less.prems(2) by (rule tx_round_alike)
  show ?case
  proof (cases "tx_round ops mem ctx")
    case (Inl e)
    then show ?thesis
      using rel by (simp add: processTxInternal.simps [of ops mem ctx] processTxInternal.simps [of ops mem' ctx'])
  next
    case (Inr p)
    obtain c r where p: "p = (c, r)" by (cases p)
    with rel Inr obtain c' where c': "tx_round ops mem' ctx' = Inr (c', r)" "alike mem mem' c c'"
      by (cases "tx_round ops mem' ctx'") (auto simp: alike_next_def same_result_def)
    have rp: "round_post mem ctx (c, r)" using post Inr p by (simp add: ends_unless_def)
    show ?thesis
    proof (cases r)
      case None
      then have "stream_ok mem c" "unat (commandLength c) < unat (commandLength ctx)"
        using rp by (simp_all add: round_post_def)
      then show ?thesis
        using less.hyps [of c c'] c' Inr p None
        by (simp add: processTxInternal.simps [of ops mem ctx] processTxInternal.simps [of ops mem' ctx'])
    next
      case (Some st)
      then show ?thesis
        using c' Inr p
        by (simp add: processTxInternal.simps [of ops mem ctx] processTxInternal.simps [of ops mem' ctx'] alike_next_def)
    qed
  qed
qed

end
