(* ===== verification/Eos_Resume.thy ===== *)
theory Eos_Resume
  imports Eos_Chunks
begin

text \<open>
  What the parser does with a chunk is what it does with its beginning followed by what it does
  with the rest. The proof goes up through the layers: reading, receiving a field
  (\<open>receive_lengthen\<close>), a field function, a round and the loop.
\<close>

section \<open>A longer chunk\<close>

text \<open>The same chunk with \<open>n\<close> more bytes behind it, which the array must hold.\<close>

definition lengthen :: "u32 \<Rightarrow> 'h txProcessingContext_t \<Rightarrow> 'h txProcessingContext_t" where
  "lengthen n ctx = ctx\<lparr>commandLength := commandLength ctx + n\<rparr>"

definition longer :: "bytes \<Rightarrow> u32 \<Rightarrow> 'h txProcessingContext_t \<Rightarrow> bool" where
  "longer mem n ctx \<longleftrightarrow> chunk_ok mem (lengthen n ctx) \<and> unat (commandLength ctx) + unat n < 2 ^ 32"

lemma lengthen_set_chunk: "lengthen n ctx = set_chunk (workBuffer ctx) (commandLength ctx + n) ctx"
  by (simp add: lengthen_def set_chunk_def)

lemma lengthen_fields [simp]:
  "commandLength (lengthen n ctx) = commandLength ctx + n" "workBuffer (lengthen n ctx) = workBuffer ctx"
  "state (lengthen n ctx) = state ctx" "actionReady (lengthen n ctx) = actionReady ctx"
  "confirmProcessing (lengthen n ctx) = confirmProcessing ctx"
  "processingField (lengthen n ctx) = processingField ctx" "sha256 (lengthen n ctx) = sha256 ctx"
  "currentFieldPos (lengthen n ctx) = currentFieldPos ctx"
  "currentFieldLength (lengthen n ctx) = currentFieldLength ctx"
  "tlvBuffer (lengthen n ctx) = tlvBuffer ctx" "tlvBufferPos (lengthen n ctx) = tlvBufferPos ctx"
  "isKnownAction (lengthen n ctx) = isKnownAction ctx" "dataAllowed (lengthen n ctx) = dataAllowed ctx"
  by (simp_all add: lengthen_def isKnownAction_def)

lemma blind_lengthen:
  assumes "blind f"
  shows "f (lengthen n ctx) = andThen (f ctx) (\<lambda>c. Inr (lengthen n c))"
proof (cases "f ctx")
  case (Inr c)
  then show ?thesis
    using blindD [OF assms] blind_keeps_chunk [OF assms Inr] by (simp add: lengthen_set_chunk)
qed (simp add: lengthen_set_chunk blindD [OF assms])

lemma longer_length:
  "longer mem n ctx \<Longrightarrow> unat (commandLength ctx + n) = unat (commandLength ctx) + unat n"
  by (simp add: longer_def unat_word_ariths)

lemma longer_chunk_ok:
  assumes "longer mem n ctx"
  shows "chunk_ok mem ctx"
proof (cases "commandLength ctx = 0")
  case False
  then have "commandLength ctx + n \<noteq> 0"
    using longer_length [OF assms] by (metis add_is_0 unat_eq_0)
  then show ?thesis
    using assms longer_length [OF assms] by (auto simp: longer_def chunk_ok_def)
qed (simp add: chunk_ok_def)

lemma lengthen_skip: "lengthen n (work_skip m ctx) = work_skip m (lengthen n ctx)"
  by (simp add: lengthen_def work_skip_def)

lemma lengthen_advance: "lengthen n (advance m ctx) = advance m (lengthen n ctx)"
  by (simp add: lengthen_def work_skip_def advance_def)

lemma longer_skip:
  assumes "longer mem n ctx" and "m \<le> commandLength ctx"
  shows "longer mem n (work_skip m ctx)"
proof -
  have "m \<le> commandLength (lengthen n ctx)"
    using assms longer_length [OF assms(1)] by (simp add: word_le_nat_alt)
  then show ?thesis
    using assms chunk_ok_skip [of mem "lengthen n ctx" m] work_skip_length [OF assms(2)]
    by (auto simp: longer_def lengthen_skip)
qed

lemma longer_same_chunk:
  "workBuffer c = workBuffer ctx \<Longrightarrow> commandLength c = commandLength ctx \<Longrightarrow> longer mem n c = longer mem n ctx"
  by (simp add: longer_def chunk_ok_def)

lemma work_read_same: "workBuffer c = workBuffer ctx \<Longrightarrow> work_read mem c n = work_read mem ctx n"
  by (simp add: work_read_def)

lemma work_read_take:
  assumes "chunk_ok mem ctx" and "m \<le> unat (commandLength ctx)"
  shows "work_read mem ctx m = Inr (if m = 0 then [] else take m (drop (the (workBuffer ctx)) mem))"
proof (cases "m = 0")
  case False
  then have "commandLength ctx \<noteq> 0" using assms(2) by auto
  with assms show ?thesis by (auto simp: work_read_def mem_read_def chunk_ok_def)
qed (simp add: work_read_def)

text \<open>Reading on after the end of the old chunk.\<close>

lemma work_read_longer:
  assumes l: "longer mem n ctx" and a: "a = commandLength ctx" and k: "k \<le> n"
  obtains xs ys where "work_read mem ctx (unat a) = Inr xs" and "length xs = unat a"
    and "work_read mem (lengthen n ctx) (unat (a + k)) = Inr (xs @ ys)" and "length ys = unat k"
    and "work_read mem (lengthen n (work_skip a ctx)) (unat k) = Inr ys"
proof -
  have k': "unat k \<le> unat n" using k by (simp add: word_le_nat_alt)
  have ak: "unat (a + k) = unat a + unat k"
    using l k' a by (simp add: longer_def unat_word_ariths)
  have len: "unat (a + k) \<le> unat (commandLength (lengthen n ctx))"
    using longer_length [OF l] k' a ak by simp
  have okx: "chunk_ok mem (lengthen n ctx)" using l by (simp add: longer_def)
  have ok: "chunk_ok mem ctx" using l by (rule longer_chunk_ok)
  have okn: "chunk_ok mem (lengthen n (work_skip a ctx))" using longer_skip [OF l, of a] a by (simp add: longer_def)
  let ?o = "the (workBuffer ctx)"
  define xs ys where "xs = (if unat a = 0 then [] else take (unat a) (drop ?o mem))"
    and "ys = (if unat k = 0 then [] else take (unat k) (drop (?o + unat a) mem))"
  have w: "workBuffer ctx = Some ?o \<and> ?o + unat (a + k) \<le> length mem" if "unat (a + k) \<noteq> 0"
  proof -
    have "commandLength (lengthen n ctx) \<noteq> 0" using len that by auto
    with okx len show ?thesis by (auto simp: chunk_ok_def)
  qed
  have wo: "the (map_option (\<lambda>off. off + unat a) (workBuffer ctx)) = ?o + unat a" if "unat k \<noteq> 0"
    using w that ak by (cases "workBuffer ctx") simp_all
  show ?thesis
  proof
    show "work_read mem ctx (unat a) = Inr xs" using work_read_take [OF ok] a by (simp add: xs_def)
    show "length xs = unat a" using w ak by (auto simp: xs_def min_def)
    show "length ys = unat k" using w ak by (auto simp: ys_def min_def)
    show "work_read mem (lengthen n ctx) (unat (a + k)) = Inr (xs @ ys)"
      using work_read_take [OF okx len] by (auto simp: xs_def ys_def ak take_add add.commute)
    have "work_read mem (lengthen n (work_skip a ctx)) (unat k)
        = Inr (if unat k = 0 then [] else take (unat k) (drop (the (workBuffer (work_skip a ctx))) mem))"
      using work_read_take [OF okn, of "unat k"] k' a by (simp add: work_skip_def)
    then show "work_read mem (lengthen n (work_skip a ctx)) (unat k) = Inr ys"
      using wo by (simp add: ys_def work_skip_def)
  qed
qed

context field_store
begin

lemma store_keeps:
  assumes "buffers_ok ctx" and "unat (currentFieldPos ctx) \<le> limit"
    and "unat (currentFieldPos ctx) + length bs \<le> room" and "store bs ctx = Inr c"
  shows "kept ctx c" and "unat (currentFieldPos ctx) + length bs \<le> limit" and "buffers_ok c"
  using store_ends [OF assms(1-3)] assms(4) by (auto simp: ends_unless_def)

lemma receive_eq_Inr:
  assumes "currentFieldPos ctx < currentFieldLength ctx" and "m = chunk_length ctx"
    and "check_blind check" and "work_read mem ctx (unat m) = Inr bs"
  shows "receive ops mem check store ctx = Inr d \<longleftrightarrow>
    (\<exists>h c. hash_update ops (sha256 ctx) bs = Some h \<and> store bs ctx = Inr c \<and> d = advance m (c\<lparr>sha256 := h\<rparr>))"
  using assms chunk_length_le(1) [of ctx]
  by (auto simp: receive_def check_blind_def Let_def hashTxData_def store_any_hash andThen_eq_Inr CX_ASSERT_eq_Inr)

lemma receive_complete:
  assumes "\<not> currentFieldPos ctx < currentFieldLength ctx"
  shows "receive ops mem check store ctx = Inr ctx"
  using assms by (simp add: receive_def)

end

lemma lengthen_sha256: "(lengthen n c)\<lparr>sha256 := h\<rparr> = lengthen n (c\<lparr>sha256 := h\<rparr>)"
  by (simp add: lengthen_def)

lemma chunk_length_lengthen:
  assumes "longer mem n ctx" and "currentFieldPos ctx < currentFieldLength ctx"
    and "commandLength ctx < currentFieldLength ctx - currentFieldPos ctx"
  obtains k where "k \<le> n" and "chunk_length (lengthen n ctx) = commandLength ctx + k"
    and "k = chunk_length (lengthen n (advance (commandLength ctx) ctx))"
proof -
  let ?a = "commandLength ctx" and ?r = "currentFieldLength ctx - currentFieldPos ctx"
  let ?k = "if n < ?r - ?a then n else ?r - ?a"
  have r: "?r - ?a = currentFieldLength ctx - (currentFieldPos ctx + ?a)" by simp
  have "?k \<le> n" by (simp add: not_less)
  moreover have "?a + n < ?r \<longleftrightarrow> n < ?r - ?a"
  proof -
    have "unat (?a + n) = unat ?a + unat n" using longer_length [OF assms(1)] .
    moreover have "unat (?r - ?a) = unat ?r - unat ?a" using assms(3) by (simp add: unat_sub word_less_nat_alt word_le_nat_alt)
    ultimately show ?thesis using assms(3) by (simp add: word_less_nat_alt) linarith
  qed
  then have "chunk_length (lengthen n ctx) = ?a + ?k" by (simp add: chunk_length_def)
  moreover have "?k = chunk_length (lengthen n (advance ?a ctx))" by (simp add: chunk_length_def r)
  ultimately show ?thesis by (rule that)
qed

context field_store
begin

lemma receive_lengthen_enough:
  assumes f: "in_field mem ctx" and l: "longer mem n ctx" and room: "unat (currentFieldLength ctx) \<le> room"
    and limit: "unat (currentFieldPos ctx) \<le> limit" and ck: "check_blind check"
    and lt: "currentFieldPos ctx < currentFieldLength ctx"
    and enough: "\<not> commandLength ctx < currentFieldLength ctx - currentFieldPos ctx"
  shows "receive ops mem check store (lengthen n ctx) = Inr d \<longleftrightarrow>
    andThen (receive ops mem check store ctx) (\<lambda>c. receive ops mem check store (lengthen n c)) = Inr d"
proof -
  let ?r = "currentFieldLength ctx - currentFieldPos ctx"
  have r1: "?r = chunk_length ctx" using enough by (simp add: chunk_length_def)
  have r2: "?r = chunk_length (lengthen n ctx)"
    using enough longer_length [OF l] by (simp add: chunk_length_def word_less_nat_alt)
  have le: "?r \<le> commandLength ctx" "?r \<le> commandLength (lengthen n ctx)"
    using chunk_length_le(1) [of ctx] chunk_length_le(1) [of "lengthen n ctx"] by (simp_all only: r1 [symmetric] r2 [symmetric])
  obtain bs where bs: "work_read mem ctx (unat ?r) = Inr bs" "length bs = unat ?r"
    using work_read_chunk [OF longer_chunk_ok [OF l] le(1)] by blast
  have bs': "work_read mem (lengthen n ctx) (unat ?r) = Inr bs"
    using bs(1) l le work_read_take [OF longer_chunk_ok [OF l], of "unat ?r"]
      work_read_take [of mem "lengthen n ctx" "unat ?r"]
    by (simp add: longer_def word_le_nat_alt)
  have fits: "unat (currentFieldPos ctx) + length bs \<le> room"
    using bs(2) lt room by (simp add: unat_sub word_less_nat_alt word_le_nat_alt)
  have b: "buffers_ok ctx" using f by (simp add: in_field_def)
  have stay: "receive ops mem check store (lengthen n (advance ?r (c\<lparr>sha256 := h\<rparr>)))
      = Inr (lengthen n (advance ?r (c\<lparr>sha256 := h\<rparr>)))" if "store bs ctx = Inr c" for c h
    using store_keeps(1) [OF b limit fits that] by (intro receive_complete) (simp add: kept_fields)
  have "receive ops mem check store (lengthen n ctx) = Inr d \<longleftrightarrow>
      (\<exists>h c. hash_update ops (sha256 ctx) bs = Some h \<and> store bs ctx = Inr c
        \<and> d = lengthen n (advance ?r (c\<lparr>sha256 := h\<rparr>)))"
    using lt bs' r2 ck
    by (subst receive_eq_Inr [where m = ?r and bs = bs])
      (auto simp: blind_lengthen [OF blind_store] andThen_eq_Inr lengthen_advance lengthen_sha256)
  also have "\<dots> \<longleftrightarrow> andThen (receive ops mem check store ctx) (\<lambda>c. receive ops mem check store (lengthen n c)) = Inr d"
    unfolding andThen_eq_Inr receive_eq_Inr [OF lt r1 ck bs(1)] using stay by auto
  finally show ?thesis .
qed

lemma receive_lengthen_short:
  assumes f: "in_field mem ctx" and l: "longer mem n ctx" and room: "unat (currentFieldLength ctx) \<le> room"
    and limit: "unat (currentFieldPos ctx) \<le> limit" and ck: "check_blind check"
    and law: "lawful" "incremental ops"
    and lt: "currentFieldPos ctx < currentFieldLength ctx"
    and short: "commandLength ctx < currentFieldLength ctx - currentFieldPos ctx"
  shows "receive ops mem check store (lengthen n ctx) = Inr d \<longleftrightarrow>
    andThen (receive ops mem check store ctx) (\<lambda>c. receive ops mem check store (lengthen n c)) = Inr d"
proof -
  let ?a = "commandLength ctx" and ?p = "currentFieldPos ctx"
  have b: "buffers_ok ctx" using f by (simp add: in_field_def)
  have a: "?a = chunk_length ctx" using short by (simp add: chunk_length_def)
  obtain k where k: "k \<le> n" "chunk_length (lengthen n ctx) = ?a + k"
    and k2: "k = chunk_length (lengthen n (advance ?a ctx))"
    using chunk_length_lengthen [OF l lt short] .
  obtain xs ys where xs: "work_read mem ctx (unat ?a) = Inr xs" "length xs = unat ?a"
    and xys: "work_read mem (lengthen n ctx) (unat (?a + k)) = Inr (xs @ ys)" "length ys = unat k"
    and ys: "work_read mem (lengthen n (work_skip ?a ctx)) (unat k) = Inr ys"
    by (rule work_read_longer [OF l refl k(1)])
  have u: "unat (?a + k) = unat ?a + unat k"
    using l k(1) by (simp add: longer_def unat_word_ariths word_le_nat_alt)
  have "unat (?a + k) \<le> unat (currentFieldLength ctx - ?p)"
    using chunk_length_le(2) [of "lengthen n ctx"] k(2) by (simp add: word_le_nat_alt)
  then have fits: "unat ?p + length (xs @ ys) \<le> room" "unat ?p + length xs \<le> room"
    using room lt xs(2) xys(2) u by (auto simp: unat_sub word_less_nat_alt word_le_nat_alt)
  have pl: "?p \<le> currentFieldLength ctx" using lt by simp
  have up: "unat (?p + ?a) = unat ?p + unat ?a" using chunk_length_position(1) [OF pl] a by simp
  then have p2: "?p + ?a < currentFieldLength ctx"
    using short lt by (simp add: word_less_nat_alt unat_sub word_le_nat_alt)
  have ua: "?p + ?a = ?p + of_nat (length xs)" using xs(2) by simp
  let ?next = "\<lambda>c h. advance ?a (c\<lparr>sha256 := h\<rparr>)"
  have second: "receive ops mem check store (lengthen n (?next c1 h1)) = Inr d \<longleftrightarrow>
      (\<exists>h c. hash_update ops h1 ys = Some h \<and> store ys (c1\<lparr>currentFieldPos := ?p + ?a\<rparr>) = Inr c
        \<and> d = advance (?a + k) (lengthen n (c\<lparr>currentFieldPos := ?p, sha256 := h\<rparr>)))"
    if c1: "store xs ctx = Inr c1" for c1 h1
  proof -
    note keeps = store_keeps [OF b limit fits(2) c1]
    note kf = kept_fields [OF keeps(1)]
    let ?w = "workBuffer (?next c1 h1)"
    have form: "lengthen n (?next c1 h1) = set_chunk ?w n (c1\<lparr>currentFieldPos := ?p + ?a\<rparr>\<lparr>sha256 := h1\<rparr>)"
      using kf by (simp add: lengthen_def advance_def work_skip_def set_chunk_def)
    have "work_read mem (lengthen n (?next c1 h1)) (unat k) = Inr ys"
      unfolding ys [symmetric] using kf by (intro work_read_same) (simp add: advance_def work_skip_def)
    moreover have "k = chunk_length (lengthen n (?next c1 h1))"
      using k2 kf by (simp add: chunk_length_def)
    ultimately have "receive ops mem check store (lengthen n (?next c1 h1)) = Inr d \<longleftrightarrow>
        (\<exists>h c. hash_update ops (sha256 (lengthen n (?next c1 h1))) ys = Some h
          \<and> store ys (lengthen n (?next c1 h1)) = Inr c \<and> d = advance k (c\<lparr>sha256 := h\<rparr>))"
      using p2 kf ck by (intro receive_eq_Inr) simp_all
    moreover have "store ys (lengthen n (?next c1 h1)) =
        andThen (store ys (c1\<lparr>currentFieldPos := ?p + ?a\<rparr>)) (\<lambda>c. Inr (set_chunk ?w n (c\<lparr>sha256 := h1\<rparr>)))"
      unfolding form blindD [OF blind_store] store_any_hash by (simp add: andThen_assoc)
    moreover have "advance k ((set_chunk ?w n (c\<lparr>sha256 := h1\<rparr>))\<lparr>sha256 := h\<rparr>) =
        advance (?a + k) (lengthen n (c\<lparr>currentFieldPos := ?p, sha256 := h\<rparr>))"
      if c: "store ys (c1\<lparr>currentFieldPos := ?p + ?a\<rparr>) = Inr c" for c h
    proof -
      have "unat (?p + ?a) \<le> limit" "unat (?p + ?a) + length ys \<le> room"
        using keeps(2) fits(1) up xs(2) by simp_all
      then have "kept (c1\<lparr>currentFieldPos := ?p + ?a\<rparr>) c"
        using keeps(3) by (intro store_keeps(1) [OF _ _ _ c]) (simp_all add: buffers_ok_def)
      then have "currentFieldPos c = ?p + ?a" "workBuffer c = workBuffer ctx" "commandLength c = ?a"
        using kept_fields(5,9,10) kf by fastforce+
      then show ?thesis
        using kf u xs(2) xys(2)
        by (cases c) (simp add: set_chunk_def lengthen_def advance_def work_skip_def option.map_comp comp_def add.assoc)
    qed
    ultimately show ?thesis by (auto simp: andThen_eq_Inr advance_def work_skip_def)
  qed
  have "receive ops mem check store (lengthen n ctx) = Inr d \<longleftrightarrow>
      (\<exists>h c. hash_update ops (sha256 ctx) (xs @ ys) = Some h \<and> store (xs @ ys) ctx = Inr c
        \<and> d = advance (?a + k) (lengthen n (c\<lparr>sha256 := h\<rparr>)))"
    using lt xys(1) k(2) ck
    by (subst receive_eq_Inr [where m = "?a + k" and bs = "xs @ ys"])
      (auto simp: blind_lengthen [OF blind_store] andThen_eq_Inr lengthen_sha256)
  also have "\<dots> \<longleftrightarrow> (\<exists>h1 h c1 c. hash_update ops (sha256 ctx) xs = Some h1 \<and> hash_update ops h1 ys = Some h
      \<and> store xs ctx = Inr c1 \<and> store ys (c1\<lparr>currentFieldPos := ?p + ?a\<rparr>) = Inr c
      \<and> d = advance (?a + k) (lengthen n (c\<lparr>currentFieldPos := ?p, sha256 := h\<rparr>)))"
    unfolding store_append [OF law(1) limit fits(1)] using law(2)
    by (auto simp: incremental_def bind_eq_Some_conv andThen_eq_Inr ua)
  also have "\<dots> \<longleftrightarrow> andThen (receive ops mem check store ctx) (\<lambda>c. receive ops mem check store (lengthen n c)) = Inr d"
    unfolding andThen_eq_Inr receive_eq_Inr [OF lt a ck xs(1)] using second by blast
  finally show ?thesis .
qed

text \<open>Receiving from the longer chunk is receiving from its beginning and then from the rest.\<close>

lemma receive_lengthen:
  assumes "in_field mem ctx" and "longer mem n ctx" and "unat (currentFieldLength ctx) \<le> room"
    and "unat (currentFieldPos ctx) \<le> limit" and "check_blind check" and "lawful" and "incremental ops"
  shows "receive ops mem check store (lengthen n ctx) = Inr d \<longleftrightarrow>
    andThen (receive ops mem check store ctx) (\<lambda>c. receive ops mem check store (lengthen n c)) = Inr d"
  using receive_lengthen_enough [OF assms(1-5)] receive_lengthen_short [OF assms]
  by (cases "currentFieldPos ctx < currentFieldLength ctx") (auto simp: receive_complete)

end
section \<open>Field functions\<close>

definition resumes :: "u32 \<Rightarrow> ('h txProcessingContext_t \<Rightarrow> 'h txProcessingContext_t result)
    \<Rightarrow> 'h txProcessingContext_t \<Rightarrow> bool" where
  "resumes n F ctx \<longleftrightarrow> (\<forall>d. F (lengthen n ctx) = Inr d \<longleftrightarrow>
     andThen (F ctx) (\<lambda>c. if processingField c then F (lengthen n c) else Inr (lengthen n c)) = Inr d)"

definition ends_field :: "('h txProcessingContext_t \<Rightarrow> 'h txProcessingContext_t result) \<Rightarrow> bool" where
  "ends_field f \<longleftrightarrow> (\<forall>ctx c. f ctx = Inr c \<longrightarrow> \<not> processingField c)"

context field_store
begin

lemma field_resumes:
  assumes f: "in_field mem ctx" and l: "longer mem n ctx" and room: "unat (currentFieldLength ctx) \<le> room"
    and limit: "unat (currentFieldPos ctx) \<le> limit" and ck: "check_blind check"
    and law: "lawful" "incremental ops" and fin: "blind finish" "ends_field finish"
  shows "resumes n (\<lambda>ctx. andThen (receive ops mem check store ctx) (when_complete finish)) ctx"
  unfolding resumes_def
proof
  fix d
  let ?R = "receive ops mem check store" and ?W = "when_complete finish"
  have step: "(\<exists>e. ?R (lengthen n c1) = Inr e \<and> ?W e = Inr d) \<longleftrightarrow>
      andThen (?W c1) (\<lambda>c. if processingField c then andThen (?R (lengthen n c)) ?W else Inr (lengthen n c)) = Inr d"
    if r: "?R ctx = Inr c1" for c1
  proof -
    have "received mem ctx c1"
      using receive_ends [OF f room limit, where check = check and ops = ops] ck r
      by (auto simp: check_blind_def ends_unless_def)
    then have p: "processingField c1" and le: "currentFieldPos c1 \<le> currentFieldLength c1"
      by (simp_all add: received_def in_field_def)
    show ?thesis
    proof (cases "currentFieldPos c1 = currentFieldLength c1")
      case True
      then have "?R (lengthen n c1) = Inr (lengthen n c1)" by (intro receive_complete) simp
      then show ?thesis
        using True fin(2) by (cases "finish c1")
          (auto simp: when_complete_def blind_lengthen [OF fin(1)] ends_field_def)
    next
      case False
      then show ?thesis using p by (simp add: when_complete_def [of finish c1] andThen_eq_Inr)
    qed
  qed
  have "andThen (?R (lengthen n ctx)) ?W = Inr d \<longleftrightarrow>
      (\<exists>c1. ?R ctx = Inr c1 \<and> (\<exists>e. ?R (lengthen n c1) = Inr e \<and> ?W e = Inr d))"
    unfolding andThen_eq_Inr receive_lengthen [OF f l room limit ck law] by blast
  then show "andThen (?R (lengthen n ctx)) ?W = Inr d \<longleftrightarrow>
      andThen (andThen (?R ctx) ?W) (\<lambda>c. if processingField c then andThen (?R (lengthen n c)) ?W else Inr (lengthen n c)) = Inr d"
    unfolding andThen_assoc andThen_eq_Inr [of "?R ctx"] using step by blast
qed

lemma receive_keeps:
  assumes r: "receive ops mem check store ctx = Inr c"
    and s: "\<And>bs ctx c. store bs ctx = Inr c \<Longrightarrow> g c = g ctx"
    and g: "\<And>ctx h. g (ctx\<lparr>sha256 := h\<rparr>) = g ctx" "\<And>ctx n. g (advance n ctx) = g ctx"
  shows "g c = g ctx"
  using r s g
  by (fastforce simp: receive_def Let_def hashTxData_def andThen_eq_Inr CX_ASSERT_eq_Inr split: if_splits)

end

lemma isKnownAction_same [simp]:
  "isKnownAction (ctx\<lparr>sha256 := h\<rparr>) = isKnownAction ctx" "isKnownAction (advance n ctx) = isKnownAction ctx"
  "isKnownAction (ctx\<lparr>dataSha256 := h\<rparr>) = isKnownAction ctx"
  "isKnownAction (ctx\<lparr>actionDataBuffer := b\<rparr>) = isKnownAction ctx"
  by (simp_all add: isKnownAction_def advance_def work_skip_def)

lemma receive_keeps_known:
  "receive ops mem check store_none ctx = Inr c \<Longrightarrow> isKnownAction c = isKnownAction ctx"
  "receive ops mem check store_data ctx = Inr c \<Longrightarrow> isKnownAction c = isKnownAction ctx"
  "receive ops mem check (hashActionData ops) ctx = Inr c \<Longrightarrow> isKnownAction c = isKnownAction ctx"
  by (erule none_store.receive_keeps data_store.receive_keeps hash_store.receive_keeps;
      auto simp: store_none_def store_data_def hashActionData_def andThen_eq_Inr)+

text \<open>The second half of every field function leaves the field.\<close>

lemma ends_fields:
  "ends_field (\<lambda>ctx. Inr (to_state (next_state (state ctx)) ctx))"
  "ends_field (\<lambda>ctx. andThen (size_value ctx) (\<lambda>sizeValue. andThen (LEDGER_ASSERT (sizeValue = 0) m) (\<lambda>_.
      Inr (to_state (next_state (state ctx)) (ctx\<lparr>sizeBuffer := zeros 12\<rparr>)))))"
  "ends_field (\<lambda>ctx. andThen (size_value ctx) (\<lambda>n.
    let ctx = ctx\<lparr>currentActionNumber := n, currentActionIndex := 0, sizeBuffer := zeros 12\<rparr>;
        ctx = to_state (next_state (state ctx)) ctx
    in Inr (if currentActionNumber ctx > 1 then ctx\<lparr>confirmProcessing := True\<rparr> else ctx)))"
  "ends_field (\<lambda>ctx. let ctx = to_state (next_state (state ctx)) ctx in
    andThen (name_to_string (contractName ctx) (zeros 14) 0 14) (\<lambda>(_, s).
      Inr (ctx\<lparr>content := (content ctx)\<lparr>contract := s\<rparr>\<rparr>)))"
  "ends_field (\<lambda>ctx. let ctx = to_state (next_state (state ctx)) ctx in
    andThen (name_to_string (contractActionName ctx) (zeros 14) 0 14) (\<lambda>(_, s).
      Inr (ctx\<lparr>content := (content ctx)\<lparr>action := s\<rparr>\<rparr>)))"
  "ends_field (\<lambda>ctx. andThen (size_value ctx) (\<lambda>n.
    Inr (to_state (next_state (state ctx))
      (ctx\<lparr>currentAutorizationNumber := n, currentAutorizationIndex := 0, sizeBuffer := zeros 12\<rparr>))))"
  "ends_field (\<lambda>ctx.
    let ctx = ctx\<lparr>currentAutorizationIndex := currentAutorizationIndex ctx + 1, sizeBuffer := zeros 12\<rparr>
    in Inr (to_state (if currentAutorizationIndex ctx \<noteq> currentAutorizationNumber ctx
         then TLV_AUTHORIZATION_ACTOR else next_state (state ctx)) ctx))"
  "ends_field (\<lambda>ctx.
    let ctx = ctx\<lparr>currentActionDataBufferLength := currentFieldLength ctx\<rparr> in
    andThen (processUnknownAction ops ctx) (\<lambda>ctx. Inr ((after_action ctx)\<lparr>dataSha256 := hash_init ops\<rparr>)))"
  "ends_field (\<lambda>ctx.
    let ctx = ctx\<lparr>currentActionDataBufferLength := currentFieldLength ctx\<rparr> in
    andThen (count_arguments ctx) (\<lambda>ctx. Inr (after_action ctx)))"
  by (auto simp: ends_field_def to_state_def after_action_def Let_def andThen_eq_Inr split: if_splits prod.splits)


lemma fields_resume:
  assumes f: "in_field mem ctx" and l: "longer mem n ctx" and law: "incremental ops"
  shows "resumes n (processField ops mem) ctx"
    and "unat (currentFieldPos ctx) \<le> 12 \<Longrightarrow> resumes n (processZeroSizeField ops mem) ctx"
    and "unat (currentFieldPos ctx) \<le> 12 \<Longrightarrow> resumes n (processActionListSizeField ops mem) ctx"
    and "unat (currentFieldPos ctx) \<le> 8 \<Longrightarrow> resumes n (processActionAccount ops mem) ctx"
    and "unat (currentFieldPos ctx) \<le> 8 \<Longrightarrow> resumes n (processActionName ops mem) ctx"
    and "unat (currentFieldPos ctx) \<le> 12 \<Longrightarrow> resumes n (processAuthorizationListSizeField ops mem) ctx"
    and "resumes n (processAuthorizationPermission ops mem) ctx"
    and "resumes n (processUnknownActionDataSize ops mem) ctx"
    and "resumes n (processUnknownActionData ops mem) ctx"
  using assms u32_room
  unfolding processField_def [abs_def] processZeroSizeField_def [abs_def] processActionListSizeField_def [abs_def]
    processActionAccount_def [abs_def] processActionName_def [abs_def] processAuthorizationListSizeField_def [abs_def]
    processAuthorizationPermission_def [abs_def] processUnknownActionDataSize_def [abs_def]
    processUnknownActionData_def [abs_def]
  by (intro none_store.field_resumes size_store.field_resumes contract_store.field_resumes
      action_store.field_resumes hash_store.field_resumes blind_finishes ends_fields check_blind_simps TrueI;
      simp)+

lemma same_but_fields_length: "same_but_fields ctx c \<Longrightarrow> currentFieldLength c = currentFieldLength ctx"
  by (rule same_but_fields_simps(4))

lemma data_field_resumes:
  assumes f: "in_field mem ctx" and l: "longer mem n ctx" and law: "incremental ops"
    and s: "state ctx = TLV_ACTION_DATA"
  shows "resumes n (processActionData ops mem) ctx"
proof (cases "currentFieldLength ctx \<le> 511")
  case True
  then have le: "unat (currentFieldLength ctx) \<le> 511" "unat (currentFieldPos ctx) \<le> 511"
    using f by (simp_all add: word_le_nat_alt in_field_def)
  let ?F = "\<lambda>ctx. andThen (receive ops mem no_check store_data ctx) (when_complete (\<lambda>ctx.
      let ctx = ctx\<lparr>currentActionDataBufferLength := currentFieldLength ctx\<rparr> in
      andThen (count_arguments ctx) (\<lambda>ctx. Inr (after_action ctx))))"
  have r: "resumes n ?F ctx"
    by (rule data_store.field_resumes [OF f l le check_blind_simps(2) TrueI law blind_finish_data ends_fields(9)])
  have F: "processActionData ops mem c = ?F c" if "currentFieldLength c = currentFieldLength ctx" for c
    using that True by (simp add: processActionData_def)
  have "currentFieldLength c = currentFieldLength ctx" if "?F ctx = Inr c" "processingField c" for c
  proof -
    have "ends (progressed mem ctx) (processActionData ops mem ctx)"
      using s by (intro processActionData_ends [OF f]) (simp_all add: size_state_def name_state_def)
    then have "same_but_fields ctx c" using that F by (simp add: progressed_def)
    then show ?thesis by (rule same_but_fields_length)
  qed
  then have eq: "andThen (?F ctx) (\<lambda>c. if processingField c then ?F (lengthen n c) else Inr (lengthen n c))
      = andThen (?F ctx) (\<lambda>c. if processingField c then processActionData ops mem (lengthen n c) else Inr (lengthen n c))"
    using F by (cases "?F ctx") auto
  have F2: "processActionData ops mem ctx = ?F ctx" "processActionData ops mem (lengthen n ctx) = ?F (lengthen n ctx)"
    by (rule F, simp)+
  show ?thesis using r unfolding resumes_def eq F2 .
next
  case False
  then show ?thesis by (simp add: resumes_def processActionData_def)
qed


section \<open>Rounds\<close>

definition resumes_round :: "u32 \<Rightarrow> ('h txProcessingContext_t \<Rightarrow> ('h txProcessingContext_t \<times> parserStatus_e option) result)
    \<Rightarrow> 'h txProcessingContext_t \<Rightarrow> bool" where
  "resumes_round n F ctx \<longleftrightarrow> (\<forall>d. F (lengthen n ctx) = Inr d \<longleftrightarrow>
     andThen (F ctx) (\<lambda>(c, r). if r = None \<and> processingField c then F (lengthen n c) else Inr (lengthen n c, r)) = Inr d)"

lemma resumes_continue:
  assumes r: "resumes n F ctx" and c: "\<And>c. state c = state ctx \<Longrightarrow> same c = same ctx \<Longrightarrow> process_state ops mem c = andThen (F c) (\<lambda>c. Inr (c, None))"
    and k: "\<And>c. F ctx = Inr c \<Longrightarrow> processingField c \<Longrightarrow>
      state c = state ctx \<and> same c = same ctx"
    and l: "\<And>c. same (lengthen n c) = same c"
  shows "resumes_round n (process_state ops mem) ctx"
  unfolding resumes_round_def
proof
  fix d
  have "andThen (process_state ops mem ctx) (\<lambda>(c, r). if r = None \<and> processingField c
        then process_state ops mem (lengthen n c) else Inr (lengthen n c, r))
      = andThen (andThen (F ctx) (\<lambda>c. if processingField c then F (lengthen n c) else Inr (lengthen n c)))
          (\<lambda>c. Inr (c, None))"
    using k by (cases "F ctx") (auto simp: c l)
  then show "process_state ops mem (lengthen n ctx) = Inr d \<longleftrightarrow>
      andThen (process_state ops mem ctx) (\<lambda>(c, r). if r = None \<and> processingField c
        then process_state ops mem (lengthen n c) else Inr (lengthen n c, r)) = Inr d"
    using r unfolding resumes_def by (simp add: c l andThen_eq_Inr)
qed

lemma process_state_keeps:
  assumes f: "in_field mem ctx" and s: "size_state (state ctx) \<Longrightarrow> unat (currentFieldPos ctx) \<le> 12"
    and n: "name_state (state ctx) \<Longrightarrow> unat (currentFieldPos ctx) \<le> 8" and d: "digest_32 ops"
    and r: "process_state ops mem ctx = Inr (c, None)" and p: "processingField c"
  shows "same_but_fields ctx c" and "commandLength c = 0" and "in_field mem c"
  using process_state_ends [OF f s n d] r p
  by (auto simp: ends_unless_def state_post_def progressed_def stream_ok_def position_ok_def in_field_def)

lemma known_kept:
  assumes r: "andThen (receive ops mem check st ctx) (when_complete fin) = Inr c" and p: "processingField c"
    and e: "ends_field fin" and s: "st = store_none \<or> st = store_data \<or> st = hashActionData ops"
  shows "isKnownAction c = isKnownAction ctx"
proof -
  obtain c1 where c1: "receive ops mem check st ctx = Inr c1" "when_complete fin c1 = Inr c"
    using r by (auto simp: andThen_eq_Inr)
  then have "c = c1" using p e by (auto simp: when_complete_def ends_field_def split: if_splits)
  then show ?thesis using c1(1) s receive_keeps_known by blast
qed

lemma process_state_resumes_data:
  assumes f: "in_field mem ctx" and l: "longer mem n ctx" and law: "incremental ops" and d: "digest_32 ops"
    and s: "state ctx = TLV_ACTION_DATA"
  shows "resumes_round n (process_state ops mem) ctx"
proof -
  have no: "\<not> size_state (state ctx)" "\<not> name_state (state ctx)" using s by (simp_all add: size_state_def name_state_def)
  note go = resumes_continue [where same = "\<lambda>c. (isKnownAction c, dataAllowed c)" and mem = mem and ops = ops]
  consider (known) "isKnownAction ctx" | (allowed) "\<not> isKnownAction ctx" "dataAllowed ctx = 1"
    | (fault) "\<not> isKnownAction ctx" "dataAllowed ctx \<noteq> 1" by blast
  then show ?thesis
  proof cases
    case known
    have "state c = state ctx \<and> (isKnownAction c, dataAllowed c) = (isKnownAction ctx, dataAllowed ctx)"
      if r: "processActionData ops mem ctx = Inr c" "processingField c" for c
    proof -
      have "same_but_fields ctx c"
        using processActionData_ends [OF f no, of ops] r by (simp add: progressed_def)
      moreover have "isKnownAction c = isKnownAction ctx"
        using r by (intro known_kept [OF _ r(2) ends_fields(9)])
          (auto simp: processActionData_def andThen_eq_Inr LEDGER_ASSERT_eq_Inr)
      ultimately show ?thesis by (simp add: same_but_fields_simps)
    qed
    then show ?thesis
      using known by (intro go [OF data_field_resumes [OF f l law s]]) (simp_all add: process_state_def s)
  next
    case allowed
    have "state c = state ctx \<and> (isKnownAction c, dataAllowed c) = (isKnownAction ctx, dataAllowed ctx)"
      if r: "processUnknownActionData ops mem ctx = Inr c" "processingField c" for c
    proof -
      have "same_but_fields ctx c"
        using processUnknownActionData_ends [OF f no d] r by (simp add: progressed_def)
      moreover have "isKnownAction c = isKnownAction ctx"
        using r(1) unfolding processUnknownActionData_def by (rule known_kept [OF _ r(2) ends_fields(8)]) simp
      ultimately show ?thesis by (simp add: same_but_fields_simps)
    qed
    then show ?thesis
      using allowed by (intro go [OF fields_resume(9) [OF f l law]]) (simp_all add: process_state_def s)
  next
    case fault
    then show ?thesis using s by (simp add: resumes_round_def process_state_def)
  qed
qed

lemma process_state_resumes_size:
  assumes f: "in_field mem ctx" and l: "longer mem n ctx" and law: "incremental ops"
    and s: "state ctx = TLV_ACTION_DATA_SIZE"
  shows "resumes_round n (process_state ops mem) ctx"
proof -
  have no: "\<not> size_state (state ctx)" "\<not> name_state (state ctx)" using s by (simp_all add: size_state_def name_state_def)
  note go = resumes_continue [where same = "\<lambda>c. (isKnownAction c, dataAllowed c)" and mem = mem and ops = ops]
  have same: "state c = state ctx \<and> (isKnownAction c, dataAllowed c) = (isKnownAction ctx, dataAllowed ctx)"
    if "ends (progressed mem ctx) m" "m = Inr c" "processingField c" "isKnownAction c = isKnownAction ctx" for m c
    using that by (simp add: progressed_def same_but_fields_simps)
  show ?thesis
  proof (cases "isKnownAction ctx \<or> dataAllowed ctx = 0")
    case True
    have "state c = state ctx \<and> (isKnownAction c, dataAllowed c) = (isKnownAction ctx, dataAllowed ctx)"
      if r: "processField ops mem ctx = Inr c" "processingField c" for c
      using r known_kept [OF r(1) [unfolded processField_def] r(2) ends_fields(1)]
      by (intro same [OF processField_ends [OF f no]]) simp_all
    then show ?thesis
      using True by (intro go [OF fields_resume(1) [OF f l law]]) (auto simp: process_state_def s)
  next
    case False
    have "state c = state ctx \<and> (isKnownAction c, dataAllowed c) = (isKnownAction ctx, dataAllowed ctx)"
      if r: "processUnknownActionDataSize ops mem ctx = Inr c" "processingField c" for c
      using r known_kept [OF r(1) [unfolded processUnknownActionDataSize_def] r(2) ends_fields(1)]
      by (intro same [OF processUnknownActionDataSize_ends [OF f no]]) simp_all
    then show ?thesis
      using False by (intro go [OF fields_resume(8) [OF f l law]]) (auto simp: process_state_def s)
  qed
qed

lemma process_state_resumes:
  assumes f: "in_field mem ctx" and l: "longer mem n ctx" and law: "incremental ops"
    and s: "size_state (state ctx) \<Longrightarrow> unat (currentFieldPos ctx) \<le> 12"
    and m: "name_state (state ctx) \<Longrightarrow> unat (currentFieldPos ctx) \<le> 8" and d: "digest_32 ops"
  shows "resumes_round n (process_state ops mem) ctx"
proof -
  have simple: "resumes_round n (process_state ops mem) ctx"
    if r: "resumes n F ctx" and c: "\<And>c. state c = state ctx \<Longrightarrow> process_state ops mem c = andThen (F c) (\<lambda>c. Inr (c, None))" for F
  proof (rule resumes_continue [OF r, where same = "\<lambda>_. ()"])
    fix c assume "F ctx = Inr c" "processingField c"
    then show "state c = state ctx \<and> () = ()"
      using process_state_keeps(1) [OF f s m d, of c] c [OF refl] by (simp add: same_but_fields_simps)
  qed (simp_all add: c)
  note rs = fields_resume [OF f l law]
  show ?thesis
  proof (cases "state ctx")
    case TLV_CFA_LIST_SIZE
    then show ?thesis using s by (intro simple [OF rs(2)]) (simp_all add: size_state_def process_state_def)
  next
    case TLV_TX_EXTENSION_LIST_SIZE
    then show ?thesis using s by (intro simple [OF rs(2)]) (simp_all add: size_state_def process_state_def)
  next
    case TLV_ACTION_LIST_SIZE
    then show ?thesis using s by (intro simple [OF rs(3)]) (simp_all add: size_state_def process_state_def)
  next
    case TLV_ACTION_ACCOUNT
    then show ?thesis using m by (intro simple [OF rs(4)]) (simp_all add: name_state_def process_state_def)
  next
    case TLV_ACTION_NAME
    then show ?thesis using m by (intro simple [OF rs(5)]) (simp_all add: name_state_def process_state_def)
  next
    case TLV_AUTHORIZATION_LIST_SIZE
    then show ?thesis using s by (intro simple [OF rs(6)]) (simp_all add: size_state_def process_state_def)
  next
    case TLV_AUTHORIZATION_PERMISSION
    then show ?thesis by (intro simple [OF rs(7)]) (simp add: process_state_def)
  next
    case TLV_ACTION_DATA
    then show ?thesis by (rule process_state_resumes_data [OF f l law d])
  next
    case TLV_ACTION_DATA_SIZE
    then show ?thesis by (rule process_state_resumes_size [OF f l law])
  next
    case TLV_NONE
    then show ?thesis by (simp add: resumes_round_def process_state_def)
  next
    case TLV_DONE
    then show ?thesis by (simp add: resumes_round_def process_state_def)
  qed (intro simple [OF rs(1)], simp add: process_state_def)+
qed
lemma readTxByte_lengthen:
  assumes "longer mem n ctx" and "commandLength ctx \<noteq> 0"
    and "readTxByte mem ctx = Inr (b, work_skip 1 ctx)"
  shows "readTxByte mem (lengthen n ctx) = Inr (b, work_skip 1 (lengthen n ctx))" and "commandLength (lengthen n ctx) \<noteq> 0"
proof -
  show nz: "commandLength (lengthen n ctx) \<noteq> 0"
    using longer_length [OF assms(1)] assms(2) by (metis add_is_0 lengthen_fields(1) unat_eq_0)
  then have "1 \<le> commandLength ctx + n" by (simp add: word_le_nat_alt Suc_leI unat_gt_0 word_gt_0)
  moreover have "1 \<le> commandLength ctx" using assms(2) by (simp add: word_le_nat_alt Suc_leI unat_gt_0 word_gt_0)
  moreover have "work_read mem (lengthen n ctx) 1 = work_read mem ctx 1" by (rule work_read_same) simp
  ultimately show "readTxByte mem (lengthen n ctx) = Inr (b, work_skip 1 (lengthen n ctx))"
    using assms(3) by (auto simp: readTxByte_def andThen_eq_Inr)
qed

lemma lengthen_header:
  "header_byte b (lengthen n ctx) = header_byte b ctx"
  "header_store buf l (work_skip 1 (lengthen n ctx)) = lengthen n (header_store buf l (work_skip 1 ctx))"
  by (simp_all add: header_byte_def header_store_def lengthen_def work_skip_def)

lemma longer_header: "longer mem n (header_store buf l ctx) = longer mem n ctx"
  by (rule longer_same_chunk) (simp_all add: header_store_def)

lemma read_tlv_lengthen:
  assumes "longer mem n ctx" and "feeds mem ctx xs"
  shows "read_tlv mem (lengthen n ctx) = andThen (read_tlv mem ctx)
    (\<lambda>(c, r). if r = Inr False then read_tlv mem (lengthen n c) else Inr (lengthen n c, r))"
  using assms
proof (induction xs arbitrary: ctx)
  case Nil
  then have "commandLength ctx = 0" by (simp add: feeds_def unat_eq_0)
  then show ?case by (simp add: read_tlv_empty)
next
  case (Cons x xs)
  note r = readTxByte_feeds [OF Cons.prems(2)]
  note r' = readTxByte_lengthen [OF Cons.prems(1) r(2,1)]
  have le: "1 \<le> commandLength ctx" using r(2) by (simp add: word_le_nat_alt Suc_leI unat_gt_0 word_gt_0)
  have IH: "read_tlv mem (lengthen n (header_store buf l (work_skip 1 ctx))) =
      andThen (read_tlv mem (header_store buf l (work_skip 1 ctx)))
        (\<lambda>(c, r). if r = Inr False then read_tlv mem (lengthen n c) else Inr (lengthen n c, r))" for buf l
    using longer_skip [OF Cons.prems(1) le] r(3)
    by (intro Cons.IH) (simp_all add: longer_header)
  show ?case
    unfolding read_tlv_step [OF r(2,1)] read_tlv_step [OF r'(2,1)] lengthen_header
    by (cases "header_byte x ctx") (auto simp: Let_def IH)
qed

lemma read_tlv_longer:
  assumes "longer mem n ctx" and "feeds mem ctx xs" and "read_tlv mem ctx = Inr (c, r)"
  shows "longer mem n c"
  using assms
proof (induction xs arbitrary: ctx)
  case Nil
  then have "commandLength ctx = 0" by (simp add: feeds_def unat_eq_0)
  then show ?case using Nil by (simp add: read_tlv_empty)
next
  case (Cons x xs)
  note r = readTxByte_feeds [OF Cons.prems(2)]
  have le: "1 \<le> commandLength ctx" using r(2) by (simp add: word_le_nat_alt Suc_leI unat_gt_0 word_gt_0)
  have 1: "longer mem n (header_store buf l (work_skip 1 ctx))" for buf l
    using longer_skip [OF Cons.prems(1) le] by (simp add: longer_header)
  have "longer mem n c" if "read_tlv mem (header_store buf l (work_skip 1 ctx)) = Inr (c, r)" for buf l
    using that 1 r(3) by (intro Cons.IH) simp_all
  then show ?case
    using Cons.prems(3) 1 unfolding read_tlv_step [OF r(2,1)]
    by (cases "header_byte x ctx") (auto simp: Let_def split: if_splits)
qed

lemma tx_round_in_field:
  "\<not> confirmProcessing ctx \<Longrightarrow> \<not> actionReady ctx \<Longrightarrow> state ctx \<noteq> TLV_DONE \<Longrightarrow> commandLength ctx \<noteq> 0 \<Longrightarrow>
     processingField ctx \<Longrightarrow> tx_round ops mem ctx = process_state ops mem ctx"
  by (simp add: tx_round_def)

definition waits :: "'h txProcessingContext_t \<times> parserStatus_e option \<Rightarrow> bool" where
  "waits r \<longleftrightarrow> snd r = Some STREAM_PROCESSING \<or> snd r = None \<and> processingField (fst r)"

definition then_lengthen :: "'h hash_ops \<Rightarrow> bytes \<Rightarrow> u32 \<Rightarrow> 'h txProcessingContext_t \<times> parserStatus_e option
    \<Rightarrow> ('h txProcessingContext_t \<times> parserStatus_e option) result" where
  "then_lengthen ops mem n r =
     (if waits r then tx_round ops mem (lengthen n (fst r)) else Inr (lengthen n (fst r), snd r))"

lemma process_state_round:
  assumes f: "in_field mem ctx" and l: "longer mem n ctx" and law: "incremental ops" and d: "digest_32 ops"
    and s: "size_state (state ctx) \<Longrightarrow> unat (currentFieldPos ctx) \<le> 12"
    and m: "name_state (state ctx) \<Longrightarrow> unat (currentFieldPos ctx) \<le> 8"
    and go: "\<not> confirmProcessing ctx" "\<not> actionReady ctx" "state ctx \<noteq> TLV_DONE" and n: "n \<noteq> 0"
  shows "process_state ops mem (lengthen n ctx) = Inr e \<longleftrightarrow>
    andThen (process_state ops mem ctx) (then_lengthen ops mem n) = Inr e"
proof -
  have "andThen (process_state ops mem ctx) (then_lengthen ops mem n) =
      andThen (process_state ops mem ctx) (\<lambda>(c, r). if r = None \<and> processingField c
        then process_state ops mem (lengthen n c) else Inr (lengthen n c, r))"
  proof (cases "process_state ops mem ctx")
    case (Inr p)
    obtain c r where p: "p = (c, r)" by (cases p)
    have "r \<noteq> Some STREAM_PROCESSING"
      using process_state_ends [OF f s m d] Inr p by (auto simp: ends_unless_def state_post_def)
    moreover have "tx_round ops mem (lengthen n c) = process_state ops mem (lengthen n c)"
      if "r = None" "processingField c"
      using process_state_keeps(1,2) [OF f s m d _ that(2)] Inr p that go n
      by (intro tx_round_in_field) (simp_all add: same_but_fields_simps)
    ultimately show ?thesis using Inr p by (simp add: then_lengthen_def waits_def)
  qed simp
  then show ?thesis
    using process_state_resumes [OF f l law s m d] unfolding resumes_round_def by (simp only:) 
qed

lemma lengthen_flags:
  "(lengthen n ctx)\<lparr>confirmProcessing := b\<rparr> = lengthen n (ctx\<lparr>confirmProcessing := b\<rparr>)"
  "(lengthen n ctx)\<lparr>actionReady := b\<rparr> = lengthen n (ctx\<lparr>actionReady := b\<rparr>)"
  by (simp_all add: lengthen_def)

lemma tx_round_resumes:
  assumes ok: "stream_ok mem ctx" and l: "longer mem n ctx" and law: "incremental ops" and d: "digest_32 ops"
    and n: "n \<noteq> 0"
  shows "tx_round ops mem (lengthen n ctx) = Inr e \<longleftrightarrow>
    andThen (tx_round ops mem ctx) (then_lengthen ops mem n) = Inr e"
proof -
  have nz: "commandLength (lengthen n ctx) \<noteq> 0"
    using longer_length [OF l] n by (metis add_is_0 lengthen_fields(1) unat_eq_0)
  consider (confirm) "confirmProcessing ctx" | (ready) "\<not> confirmProcessing ctx" "actionReady ctx"
    | (finish) "\<not> confirmProcessing ctx" "\<not> actionReady ctx" "state ctx = TLV_DONE"
    | (empty) "\<not> confirmProcessing ctx" "\<not> actionReady ctx" "state ctx \<noteq> TLV_DONE" "commandLength ctx = 0"
    | (field) "\<not> confirmProcessing ctx" "\<not> actionReady ctx" "state ctx \<noteq> TLV_DONE" "commandLength ctx \<noteq> 0"
        "processingField ctx"
    | (header) "\<not> confirmProcessing ctx" "\<not> actionReady ctx" "state ctx \<noteq> TLV_DONE" "commandLength ctx \<noteq> 0"
        "\<not> processingField ctx" by blast
  then show ?thesis
  proof cases
    case confirm
    then show ?thesis by (simp add: tx_round_def then_lengthen_def waits_def lengthen_flags)
  next
    case ready
    then show ?thesis by (simp add: tx_round_def then_lengthen_def waits_def lengthen_flags)
  next
    case finish
    then show ?thesis by (simp add: tx_round_def then_lengthen_def waits_def)
  next
    case empty
    then have "tx_round ops mem ctx = Inr (ctx, Some STREAM_PROCESSING)" by (simp add: tx_round_def)
    then show ?thesis by (simp add: then_lengthen_def waits_def)
  next
    case field
    have "in_field mem ctx" using ok field(5) by (auto simp: stream_ok_def position_ok_def in_field_def)
    moreover have "size_state (state ctx) \<Longrightarrow> unat (currentFieldPos ctx) \<le> 12"
      "name_state (state ctx) \<Longrightarrow> unat (currentFieldPos ctx) \<le> 8"
      using ok field(5) by (simp_all add: stream_ok_def position_ok_def word_le_nat_alt)
    ultimately have "process_state ops mem (lengthen n ctx) = Inr e \<longleftrightarrow>
        andThen (process_state ops mem ctx) (then_lengthen ops mem n) = Inr e"
      using l law d field n by (intro process_state_round) simp_all
    then show ?thesis using field nz by (simp add: tx_round_in_field)
  next
    case header
    let ?c = "\<lambda>c. c\<lparr>currentFieldPos := 0, tlvBufferPos := 0, processingField := True\<rparr>"
    let ?K = "\<lambda>(ctx, r).
          case r of Inl status \<Rightarrow> Inr (ctx, Some status)
          | Inr decoded \<Rightarrow>
              if \<not> decoded then Inr (ctx, Some STREAM_PROCESSING) else process_state ops mem (?c ctx)"
    obtain xs where xs: "feeds mem ctx xs" using chunk_ok_feeds ok by (auto simp: stream_ok_def)
    have ends: "ends (header_read mem ctx) (read_tlv mem ctx)"
      using ok header(5) by (intro read_tlv_ends) (simp_all add: stream_ok_def buffers_ok_def position_ok_def)
    have t: "tx_round ops mem ctx = andThen (read_tlv mem ctx) ?K"
      "tx_round ops mem (lengthen n ctx) = andThen (read_tlv mem (lengthen n ctx)) ?K"
      using header nz by (simp_all add: tx_round_def)
    show ?thesis
    proof (cases "read_tlv mem ctx")
      case (Inl e)
      then show ?thesis by (simp add: t read_tlv_lengthen [OF l xs])
    next
      case (Inr p)
      obtain c r where p: "p = (c, r)" by (cases p)
      have hr: "header_read mem ctx (c, r)" using ends Inr p by simp
      have lc: "longer mem n c" using read_tlv_longer [OF l xs] Inr p by simp
      have same: "confirmProcessing c = confirmProcessing ctx" "actionReady c = actionReady ctx"
        "state c = state ctx" "processingField c = processingField ctx" "buffers_ok c"
        using hr ok by (cases ctx; cases c; simp add: header_read_def same_but_header_def stream_ok_def buffers_ok_def)+
      consider (fault) st where "r = Inl st" | (more) "r = Inr False" | (dec) "r = Inr True"
        by (metis (full_types) sum.exhaust)
      then show ?thesis
      proof cases
        case fault
        then have "st = STREAM_FAULT" using hr by (simp add: header_read_def)
        then show ?thesis using Inr p fault by (simp add: t read_tlv_lengthen [OF l xs] then_lengthen_def waits_def)
      next
        case more
        have "commandLength (lengthen n c) \<noteq> 0" using hr more n by (simp add: header_read_def)
        then have "tx_round ops mem (lengthen n c) = andThen (read_tlv mem (lengthen n c)) ?K"
          using same header by (simp add: tx_round_def)
        then show ?thesis using Inr p more by (simp add: t read_tlv_lengthen [OF l xs] then_lengthen_def waits_def)
      next
        case dec
        have "process_state ops mem (lengthen n (?c c)) = Inr e \<longleftrightarrow>
            andThen (process_state ops mem (?c c)) (then_lengthen ops mem n) = Inr e"
          using same header law d n lc hr
          by (intro process_state_round)
            (simp_all add: in_field_def header_read_def buffers_ok_def chunk_ok_def longer_same_chunk [of "?c c" c])
        moreover have "?c (lengthen n c) = lengthen n (?c c)" by (simp add: lengthen_def)
        ultimately show ?thesis using Inr p dec by (simp add: t read_tlv_lengthen [OF l xs])
      qed
    qed
  qed
qed

text \<open>A round that stays inside a field has used up the chunk.\<close>

lemma tx_round_waits:
  assumes ok: "stream_ok mem ctx" and d: "digest_32 ops"
    and r: "tx_round ops mem ctx = Inr (c, None)" and p: "processingField c"
  shows "tx_round ops mem c = Inr (c, Some STREAM_PROCESSING)"
proof -
  have go: "\<not> confirmProcessing ctx" "\<not> actionReady ctx" "state ctx \<noteq> TLV_DONE" "commandLength ctx \<noteq> 0"
    using r by (auto simp: tx_round_def split: if_splits)
  have "\<exists>c0. process_state ops mem c0 = Inr (c, None) \<and> in_field mem c0
      \<and> (size_state (state c0) \<longrightarrow> unat (currentFieldPos c0) \<le> 12)
      \<and> (name_state (state c0) \<longrightarrow> unat (currentFieldPos c0) \<le> 8)
      \<and> \<not> confirmProcessing c0 \<and> \<not> actionReady c0 \<and> state c0 \<noteq> TLV_DONE"
  proof (cases "processingField ctx")
    case True
    then have "in_field mem ctx"
      using ok by (auto simp: stream_ok_def position_ok_def in_field_def intro: order.strict_implies_order)
    then show ?thesis
      using r go ok True
      by (intro exI [of _ ctx]) (simp add: tx_round_in_field stream_ok_def position_ok_def word_le_nat_alt)
  next
    case False
    then obtain c1 q where q: "read_tlv mem ctx = Inr (c1, q)"
      "(case q of Inl status \<Rightarrow> Inr (c1, Some status)
        | Inr decoded \<Rightarrow> if \<not> decoded then Inr (c1, Some STREAM_PROCESSING) else process_state ops mem
             (c1\<lparr>currentFieldPos := 0, tlvBufferPos := 0, processingField := True\<rparr>)) = Inr (c, None)"
      using r go by (cases "read_tlv mem ctx") (simp_all add: tx_round_def split: prod.splits)
    then have c1: "read_tlv mem ctx = Inr (c1, Inr True)"
      "process_state ops mem (c1\<lparr>currentFieldPos := 0, tlvBufferPos := 0, processingField := True\<rparr>) = Inr (c, None)"
      by (cases q; simp split: if_splits)+
    have "ends (header_read mem ctx) (read_tlv mem ctx)"
      using ok False by (intro read_tlv_ends) (simp_all add: stream_ok_def buffers_ok_def position_ok_def)
    then have hr: "header_read mem ctx (c1, Inr True)" using c1(1) by simp
    then have "confirmProcessing c1 = confirmProcessing ctx" "actionReady c1 = actionReady ctx"
      "state c1 = state ctx" "buffers_ok c1"
      using ok by (cases ctx; cases c1; simp add: header_read_def same_but_header_def stream_ok_def buffers_ok_def)+
    then show ?thesis
      using c1(2) go hr
      by (intro exI [of _ "c1\<lparr>currentFieldPos := 0, tlvBufferPos := 0, processingField := True\<rparr>"]) (simp add: in_field_def header_read_def buffers_ok_def chunk_ok_def)
  qed
  then obtain c0 where c0: "process_state ops mem c0 = Inr (c, None)" "in_field mem c0"
      "size_state (state c0) \<Longrightarrow> unat (currentFieldPos c0) \<le> 12" "name_state (state c0) \<Longrightarrow> unat (currentFieldPos c0) \<le> 8"
      "\<not> confirmProcessing c0" "\<not> actionReady c0" "state c0 \<noteq> TLV_DONE" by blast
  have "same_but_fields c0 c" "commandLength c = 0"
    using process_state_keeps(1,2) [OF c0(2-4) d c0(1) p] by simp_all
  then show ?thesis using c0 by (simp add: tx_round_def same_but_fields_simps)
qed

lemma processTxInternal_round:
  "tx_round ops mem ctx = Inl e \<Longrightarrow> processTxInternal ops mem ctx = Some (Inl e)"
  "tx_round ops mem ctx = Inr (c, None) \<Longrightarrow> processTxInternal ops mem ctx = processTxInternal ops mem c"
  "tx_round ops mem ctx = Inr (c, Some st) \<Longrightarrow> processTxInternal ops mem ctx = Some (Inr (c, st))"
  using processTxInternal.simps [of ops mem ctx] by simp_all

lemma processTxInternal_cong:
  assumes "\<And>x. tx_round ops mem a = Inr x \<longleftrightarrow> tx_round ops mem b = Inr x"
  shows "processTxInternal ops mem a = Some (Inr e) \<longleftrightarrow> processTxInternal ops mem b = Some (Inr e)"
proof (cases "tx_round ops mem a")
  case (Inl x)
  then obtain y where "tx_round ops mem b = Inl y" using assms by (cases "tx_round ops mem b") auto
  with Inl show ?thesis
    using processTxInternal.simps [of ops mem a] processTxInternal.simps [of ops mem b] by simp
next
  case (Inr x)
  then have "tx_round ops mem b = Inr x" using assms by blast
  with Inr show ?thesis
    using processTxInternal.simps [of ops mem a] processTxInternal.simps [of ops mem b] by simp
qed

lemma longer_stream_ok: "stream_ok mem ctx \<Longrightarrow> longer mem n ctx \<Longrightarrow> stream_ok mem (lengthen n ctx)"
  by (simp add: stream_ok_def buffers_ok_def position_ok_def longer_def) (simp add: lengthen_def)

lemma processTxInternal_resumes:
  assumes "stream_ok mem ctx" and "longer mem n ctx" and law: "incremental ops" and d: "digest_32 ops" and n: "n \<noteq> 0"
  shows "processTxInternal ops mem (lengthen n ctx) = Some (Inr e) \<longleftrightarrow>
    (\<exists>c st. processTxInternal ops mem ctx = Some (Inr (c, st)) \<and>
       (if st = STREAM_PROCESSING then processTxInternal ops mem (lengthen n c) = Some (Inr e)
        else e = (lengthen n c, st)))"
  using assms(1,2)
proof (induction "unat (commandLength ctx)" arbitrary: ctx rule: less_induct)
  case less
  let ?c = "lengthen n ctx"
  note ok = less.prems(1) and l = less.prems(2)
  note res = tx_round_resumes [OF ok l law d n]
  have ok': "stream_ok mem ?c" using ok l by (rule longer_stream_ok)
  show ?case
  proof (cases "tx_round ops mem ctx")
    case (Inl e')
    then have "tx_round ops mem ?c \<noteq> Inr x" for x using res [of x] by (simp only: andThen.simps) simp
    then obtain y where "tx_round ops mem ?c = Inl y" by (cases "tx_round ops mem ?c") blast+
    with Inl have "processTxInternal ops mem ctx = Some (Inl e')" "processTxInternal ops mem ?c = Some (Inl y)"
      by (simp_all add: processTxInternal_round)
    then show ?thesis by simp
  next
    case (Inr p)
    obtain c r where p: "p = (c, r)" by (cases p)
    show ?thesis
    proof (cases "waits (c, r)")
      case False
      then have t: "tx_round ops mem ?c = Inr (lengthen n c, r)"
        using res [of "(lengthen n c, r)"] by (simp add: Inr p then_lengthen_def)
      show ?thesis
      proof (cases r)
        case None
        have "round_post mem ctx (c, r)" "round_post mem ?c (lengthen n c, r)"
          using tx_round_ends [OF ok d] tx_round_ends [OF ok' d] Inr p t by (simp_all add: ends_unless_def)
        then have c: "stream_ok mem c" "unat (commandLength c) < unat (commandLength ctx)"
          and "stream_ok mem (lengthen n c)" using None by (simp_all add: round_post_def)
        then have lc: "longer mem n c" using l by (simp add: longer_def stream_ok_def)
        have "processTxInternal ops mem ctx = processTxInternal ops mem c"
          "processTxInternal ops mem ?c = processTxInternal ops mem (lengthen n c)"
          using Inr p t None by (simp_all add: processTxInternal_round)
        then show ?thesis using less.hyps [OF c(2,1) lc] by (simp only:)
      next
        case (Some st)
        then have "processTxInternal ops mem ctx = Some (Inr (c, st))"
          "processTxInternal ops mem ?c = Some (Inr (lengthen n c, st))"
          using Inr p t by (simp_all add: processTxInternal_round)
        moreover have "st \<noteq> STREAM_PROCESSING" using False Some by (simp add: waits_def)
        ultimately show ?thesis by auto
      qed
    next
      case True
      then have "processTxInternal ops mem ?c = Some (Inr e) \<longleftrightarrow> processTxInternal ops mem (lengthen n c) = Some (Inr e)"
        by (intro processTxInternal_cong) (simp add: res Inr p then_lengthen_def)
      moreover have "processTxInternal ops mem ctx = Some (Inr (c, STREAM_PROCESSING))"
      proof (cases r)
        case None
        then have "tx_round ops mem c = Inr (c, Some STREAM_PROCESSING)"
          using tx_round_waits [OF ok d] Inr p True by (simp add: waits_def)
        then show ?thesis
          using Inr p None by (simp add: processTxInternal_round)
      next
        case (Some st)
        then show ?thesis using Inr p True by (simp add: waits_def processTxInternal_round)
      qed
      ultimately show ?thesis by simp
    qed
  qed
qed
section \<open>Where the chunk ends\<close>

definition chunk_end :: "'h txProcessingContext_t \<Rightarrow> nat option" where
  "chunk_end ctx = map_option (\<lambda>off. off + unat (commandLength ctx)) (workBuffer ctx)"

lemma chunk_end_same:
  "workBuffer c = workBuffer ctx \<Longrightarrow> commandLength c = commandLength ctx \<Longrightarrow> chunk_end c = chunk_end ctx"
  by (simp add: chunk_end_def)

lemma chunk_end_skip: "n \<le> commandLength ctx \<Longrightarrow> chunk_end (work_skip n ctx) = chunk_end ctx"
  by (cases "workBuffer ctx") (simp_all add: chunk_end_def work_skip_def unat_sub word_le_nat_alt)

lemma chunk_end_advance: "n \<le> commandLength ctx \<Longrightarrow> chunk_end (advance n ctx) = chunk_end ctx"
  using chunk_end_skip [of n ctx] by (simp add: advance_def chunk_end_def)

lemma chunk_end_blind: "blind f \<Longrightarrow> f ctx = Inr c \<Longrightarrow> chunk_end c = chunk_end ctx"
  using blind_keeps_chunk by (intro chunk_end_same)

context field_store
begin

lemma receive_chunk_end:
  assumes "receive ops mem check store ctx = Inr c"
  shows "chunk_end c = chunk_end ctx"
proof (cases "currentFieldPos ctx < currentFieldLength ctx")
  case True
  then obtain bs c1 c2 where 1: "hashTxData ops bs ctx = Inr c1" "store bs c1 = Inr c2" "c = advance (chunk_length ctx) c2"
    using assms by (auto simp: receive_def Let_def andThen_eq_Inr)
  have "commandLength c2 = commandLength ctx" "chunk_end c2 = chunk_end ctx"
    using blind_keeps_chunk [OF blind_hashTxData 1(1)] blind_keeps_chunk [OF blind_store 1(2)]
    by (simp_all add: chunk_end_def)
  then show ?thesis using chunk_length_le(1) [of ctx] by (simp add: 1(3) chunk_end_advance)
qed (use assms in \<open>simp add: receive_def\<close>)

lemma field_chunk_end:
  assumes "andThen (receive ops mem check store ctx) (when_complete finish) = Inr c" and "blind finish"
  shows "chunk_end c = chunk_end ctx"
  using assms receive_chunk_end chunk_end_blind [OF blind_when_complete [OF assms(2)]]
  by (auto simp: andThen_eq_Inr)

end

lemmas field_chunk_ends =
  none_store.field_chunk_end [OF _ blind_finish_field] size_store.field_chunk_end [OF _ blind_finish_zero]
  size_store.field_chunk_end [OF _ blind_finish_actions] contract_store.field_chunk_end [OF _ blind_finish_account]
  action_store.field_chunk_end [OF _ blind_finish_name] size_store.field_chunk_end [OF _ blind_finish_auths]
  none_store.field_chunk_end [OF _ blind_finish_permission] hash_store.field_chunk_end [OF _ blind_finish_field]
  hash_store.field_chunk_end [OF _ blind_finish_unknown] data_store.field_chunk_end [OF _ blind_finish_data]

lemma fields_chunk_end:
  "processField ops mem ctx = Inr c \<Longrightarrow> chunk_end c = chunk_end ctx"
  "processZeroSizeField ops mem ctx = Inr c \<Longrightarrow> chunk_end c = chunk_end ctx"
  "processActionListSizeField ops mem ctx = Inr c \<Longrightarrow> chunk_end c = chunk_end ctx"
  "processActionAccount ops mem ctx = Inr c \<Longrightarrow> chunk_end c = chunk_end ctx"
  "processActionName ops mem ctx = Inr c \<Longrightarrow> chunk_end c = chunk_end ctx"
  "processAuthorizationListSizeField ops mem ctx = Inr c \<Longrightarrow> chunk_end c = chunk_end ctx"
  "processAuthorizationPermission ops mem ctx = Inr c \<Longrightarrow> chunk_end c = chunk_end ctx"
  "processUnknownActionDataSize ops mem ctx = Inr c \<Longrightarrow> chunk_end c = chunk_end ctx"
  "processUnknownActionData ops mem ctx = Inr c \<Longrightarrow> chunk_end c = chunk_end ctx"
  "processActionData ops mem ctx = Inr c \<Longrightarrow> chunk_end c = chunk_end ctx"
  unfolding processField_def processZeroSizeField_def processActionListSizeField_def processActionAccount_def
    processActionName_def processAuthorizationListSizeField_def processAuthorizationPermission_def
    processUnknownActionDataSize_def processUnknownActionData_def processActionData_def
    andThen_eq_Inr [of "LEDGER_ASSERT c m" for c m]
  by (blast intro: field_chunk_ends)+

lemma process_state_chunk_end:
  "process_state ops mem ctx = Inr (c, r) \<Longrightarrow> chunk_end c = chunk_end ctx"
  by (cases "state ctx") (auto simp: process_state_def Let_def andThen_eq_Inr fields_chunk_end split: if_splits)

lemma read_tlv_chunk_end:
  assumes "feeds mem ctx xs" and "read_tlv mem ctx = Inr (c, r)"
  shows "chunk_end c = chunk_end ctx"
  using assms
proof (induction xs arbitrary: ctx)
  case Nil
  then have "commandLength ctx = 0" by (simp add: feeds_def unat_eq_0)
  then show ?case using Nil by (simp add: read_tlv_empty)
next
  case (Cons x xs)
  note r = readTxByte_feeds [OF Cons.prems(1)]
  have le: "1 \<le> commandLength ctx" using r(2) by (simp add: word_le_nat_alt Suc_leI unat_gt_0 word_gt_0)
  have 1: "chunk_end (header_store buf l (work_skip 1 ctx)) = chunk_end ctx" for buf l
    using chunk_end_skip [OF le] by (simp add: chunk_end_def header_store_def)
  have "chunk_end c = chunk_end ctx" if "read_tlv mem (header_store buf l (work_skip 1 ctx)) = Inr (c, r)" for buf l
    using Cons.IH [OF _ that] r(3) 1 by simp
  then show ?case
    using Cons.prems(2) 1 unfolding read_tlv_step [OF r(2,1)]
    by (cases "header_byte x ctx") (auto simp: Let_def split: if_splits)
qed

lemma tx_round_chunk_end:
  assumes ok: "chunk_ok mem ctx" and r: "tx_round ops mem ctx = Inr (c, r)"
  shows "chunk_end c = chunk_end ctx"
proof -
  consider (returns) "confirmProcessing ctx \<or> actionReady ctx \<or> state ctx = TLV_DONE \<or> commandLength ctx = 0"
    | (field) "\<not> confirmProcessing ctx" "\<not> actionReady ctx" "state ctx \<noteq> TLV_DONE" "commandLength ctx \<noteq> 0"
        "processingField ctx"
    | (header) "\<not> confirmProcessing ctx" "\<not> actionReady ctx" "state ctx \<noteq> TLV_DONE" "commandLength ctx \<noteq> 0"
        "\<not> processingField ctx"
    by blast
  then show ?thesis
  proof cases
    case returns
    then show ?thesis using r by (auto simp: tx_round_def chunk_end_def split: if_splits)
  next
    case field
    then show ?thesis using r process_state_chunk_end by (simp add: tx_round_in_field)
  next
    case header
    obtain xs where xs: "feeds mem ctx xs" using chunk_ok_feeds ok by blast
    from header r obtain c1 q where q: "read_tlv mem ctx = Inr (c1, q)"
      "(case q of Inl status \<Rightarrow> Inr (c1, Some status)
        | Inr decoded \<Rightarrow> if \<not> decoded then Inr (c1, Some STREAM_PROCESSING) else process_state ops mem
             (c1\<lparr>currentFieldPos := 0, tlvBufferPos := 0, processingField := True\<rparr>)) = Inr (c, r)"
      by (cases "read_tlv mem ctx") (simp_all add: tx_round_def split: prod.splits)
    have "chunk_end c1 = chunk_end ctx" using read_tlv_chunk_end [OF xs q(1)] .
    moreover have "chunk_end c = chunk_end c1"
      using q(2) process_state_chunk_end [of ops mem "c1\<lparr>currentFieldPos := 0, tlvBufferPos := 0, processingField := True\<rparr>" c r]
      by (cases q) (auto simp: chunk_end_def split: if_splits)
    ultimately show ?thesis by simp
  qed
qed

lemma processTxInternal_chunk_end:
  assumes "stream_ok mem ctx" and d: "digest_32 ops" and "processTxInternal ops mem ctx = Some (Inr (c, st))"
  shows "chunk_end c = chunk_end ctx"
  using assms(1,3)
proof (induction "unat (commandLength ctx)" arbitrary: ctx rule: less_induct)
  case less
  have "ends_unless True (round_post mem ctx) (tx_round ops mem ctx)"
    using tx_round_ends [OF less.prems(1) d] by (rule ends_unless_mono) simp_all
  moreover obtain c1 r where r: "tx_round ops mem ctx = Inr (c1, r)"
    using less.prems(2) processTxInternal_round(1) by (cases "tx_round ops mem ctx") fastforce+
  ultimately have post: "round_post mem ctx (c1, r)" by simp
  have e: "chunk_end c1 = chunk_end ctx" using tx_round_chunk_end [OF _ r] less.prems(1) by (simp add: stream_ok_def)
  show ?case
  proof (cases r)
    case None
    then show ?thesis
      using post r e less.prems(2) less.hyps [of c1] by (simp add: round_post_def processTxInternal_round)
  next
    case (Some s)
    then show ?thesis using r e less.prems(2) by (simp add: processTxInternal_round)
  qed
qed

text \<open>The parser asks for more only when it has used up the chunk.\<close>

definition waiting :: "'h txProcessingContext_t \<Rightarrow> bool" where
  "waiting ctx \<longleftrightarrow> commandLength ctx = 0 \<and> \<not> confirmProcessing ctx \<and> \<not> actionReady ctx \<and> state ctx \<noteq> TLV_DONE"

lemma tx_round_processing:
  assumes ok: "stream_ok mem ctx" and d: "digest_32 ops"
    and r: "tx_round ops mem ctx = Inr (c, Some STREAM_PROCESSING)"
  shows "waiting c"
proof -
  have pre: "\<not> confirmProcessing ctx" "\<not> actionReady ctx" "state ctx \<noteq> TLV_DONE"
    using r by (auto simp: tx_round_def split: if_splits)
  show ?thesis
  proof (cases "processingField ctx \<or> commandLength ctx = 0")
    case True
    moreover have "process_state ops mem ctx \<noteq> Inr (c, Some STREAM_PROCESSING)" if "processingField ctx"
    proof -
      have "in_field mem ctx" using ok that by (auto simp: stream_ok_def position_ok_def in_field_def intro: order.strict_implies_order)
      moreover have "size_state (state ctx) \<Longrightarrow> unat (currentFieldPos ctx) \<le> 12"
        "name_state (state ctx) \<Longrightarrow> unat (currentFieldPos ctx) \<le> 8"
        using ok that by (simp_all add: stream_ok_def position_ok_def word_le_nat_alt)
      ultimately show ?thesis using process_state_ends d by (fastforce simp: ends_unless_def state_post_def)
    qed
    ultimately show ?thesis using r pre by (auto simp: tx_round_def waiting_def split: if_splits)
  next
    case False
    have ends: "ends (header_read mem ctx) (read_tlv mem ctx)"
      using ok False by (intro read_tlv_ends) (simp_all add: stream_ok_def buffers_ok_def position_ok_def)
    obtain c1 q where q: "read_tlv mem ctx = Inr (c1, q)"
      "(case q of Inl status \<Rightarrow> Inr (c1, Some status)
        | Inr decoded \<Rightarrow> if \<not> decoded then Inr (c1, Some STREAM_PROCESSING) else process_state ops mem
             (c1\<lparr>currentFieldPos := 0, tlvBufferPos := 0, processingField := True\<rparr>)) = Inr (c, Some STREAM_PROCESSING)"
      using r False pre by (cases "read_tlv mem ctx") (simp_all add: tx_round_def split: prod.splits if_splits)
    have hr: "header_read mem ctx (c1, q)" using ends q(1) by simp
    let ?c = "c1\<lparr>currentFieldPos := 0, tlvBufferPos := 0, processingField := True\<rparr>"
    have b: "buffers_ok c1" and k: "confirmProcessing c1 = confirmProcessing ctx" "actionReady c1 = actionReady ctx" "state c1 = state ctx"
      using hr ok by (cases ctx; cases c1; simp add: header_read_def same_but_header_def stream_ok_def buffers_ok_def)+
    have "process_state ops mem ?c \<noteq> Inr (c, Some STREAM_PROCESSING)"
    proof -
      have "in_field mem ?c" using hr b by (simp add: in_field_def header_read_def buffers_ok_def chunk_ok_def)
      then have "ends_unless (name_state (state ?c)) (state_post mem ?c) (process_state ops mem ?c)"
        using d by (intro process_state_ends) simp_all
      then show ?thesis by (auto simp: ends_unless_def state_post_def)
    qed
    then show ?thesis using q(2) hr pre k by (cases q) (auto simp: header_read_def waiting_def split: if_splits)
  qed
qed

lemma processTxInternal_processing:
  assumes "stream_ok mem ctx" and d: "digest_32 ops" and "processTxInternal ops mem ctx = Some (Inr (c, STREAM_PROCESSING))"
  shows "stream_ok mem c" and "waiting c"
proof -
  show "stream_ok mem c"
    using processTxInternal_returns [OF assms(1) d] assms(3) by (auto simp: kept_ok_def)
  show "waiting c"
    using assms(1,3)
  proof (induction "unat (commandLength ctx)" arbitrary: ctx rule: less_induct)
    case less
    have "ends_unless True (round_post mem ctx) (tx_round ops mem ctx)"
      using tx_round_ends [OF less.prems(1) d] by (rule ends_unless_mono) simp_all
    moreover obtain c1 r where r: "tx_round ops mem ctx = Inr (c1, r)"
      using less.prems(2) processTxInternal_round(1) by (cases "tx_round ops mem ctx") fastforce+
    ultimately have post: "round_post mem ctx (c1, r)" by simp
    show ?case
    proof (cases r)
      case None
      then show ?thesis
        using post r less.prems(2) less.hyps [of c1] by (simp add: round_post_def processTxInternal_round)
    next
      case (Some s)
      then have "s = STREAM_PROCESSING" "c1 = c" using r less.prems(2) by (simp_all add: processTxInternal_round)
      then show ?thesis using tx_round_processing [OF less.prems(1) d] r Some by simp
    qed
  qed
qed
section \<open>Commands\<close>

text \<open>What a run leaves: the status and the context, but for the place of what is left of the chunk.\<close>

definition forget_place :: "'h txProcessingContext_t \<Rightarrow> 'h txProcessingContext_t" where
  "forget_place ctx = ctx\<lparr>workBuffer := None\<rparr>"

definition outcome :: "('h txProcessingContext_t \<times> parserStatus_e) result option
    \<Rightarrow> ('h txProcessingContext_t \<times> parserStatus_e) option" where
  "outcome r = (case r of Some (Inr (ctx, status)) \<Rightarrow> Some (forget_place ctx, status) | _ \<Rightarrow> None)"

lemma outcome_simps [simp]:
  "outcome (Some (Inr (ctx, status))) = Some (forget_place ctx, status)"
  "outcome (Some (Inl e)) = None" "outcome None = None"
  by (simp_all add: outcome_def)

lemma outcome_cong:
  fixes a :: "('h txProcessingContext_t \<times> parserStatus_e) result option"
  shows "(\<And>e. a = Some (Inr e) \<longleftrightarrow> b = Some (Inr e)) \<Longrightarrow> outcome a = outcome b"
proof -
  assume eq: "\<And>e. a = Some (Inr e) \<longleftrightarrow> b = Some (Inr e)"
  have none: "outcome r = None" if "\<And>e. r \<noteq> Some (Inr e)" for r :: "('h txProcessingContext_t \<times> parserStatus_e) result option"
    using that by (auto simp: outcome_def split: option.splits sum.splits)
  show ?thesis
  proof (cases "\<exists>e. a = Some (Inr e)")
    case True
    then show ?thesis using eq by force
  next
    case False
    then have a: "\<And>e. a \<noteq> Some (Inr e)" and b: "\<And>e. b \<noteq> Some (Inr e)" using eq by blast+
    show ?thesis unfolding none [OF a] none [OF b] ..
  qed
qed

lemma forget_place_alike: "alike mem mem' a b \<Longrightarrow> forget_place b = forget_place a"
  by (cases a; cases b) (simp add: alike_def forget_place_def set_chunk_def)

lemma outcome_alike:
  assumes "stream_ok mem ctx" and "digest_32 ops" and "alike mem mem' ctx ctx'"
  shows "outcome (processTxInternal ops mem' ctx') = outcome (processTxInternal ops mem ctx)"
proof -
  obtain r r' where r: "processTxInternal ops mem ctx = Some r" "processTxInternal ops mem' ctx' = Some r'"
    "same_result (alike_next mem mem') r r'" using processTxInternal_alike [OF assms] by blast
  show ?thesis
  proof (cases r)
    case (Inr p)
    with r(3) obtain p' where "r' = Inr p'" "alike_next mem mem' p p'"
      by (cases r') (auto simp: same_result_def)
    then show ?thesis using r Inr by (auto elim!: alike_nextE dest: forget_place_alike)
  qed (use r in simp)
qed

text \<open>Loading a chunk, and two chunks that lie behind each other.\<close>

definition load :: "bytes \<Rightarrow> 'h txProcessingContext_t \<Rightarrow> 'h txProcessingContext_t" where
  "load bs ctx = set_chunk (Some 0) (of_nat (length bs)) ctx"

lemma parseTx_load:
  "commandLength ctx = 0 \<Longrightarrow> parseTx ops bs ctx (Some 0) (of_nat (length bs)) = processTxInternal ops bs (load bs ctx)"
  by (simp add: parseTx_def load_def set_chunk_def)

lemma unat_of_nat_small: "k < 2 ^ 32 \<Longrightarrow> unat (of_nat k :: u32) = k"
  by (rule unat_of_nat_u32_small) simp

lemma stream_ok_set_chunk:
  "stream_ok mem ctx \<Longrightarrow> chunk_ok mem' (set_chunk w n ctx) \<Longrightarrow> stream_ok mem' (set_chunk w n ctx)"
  by (simp add: stream_ok_def buffers_ok_def position_ok_def)

lemma feeds_load:
  assumes "length bs < 2 ^ 32"
  shows "feeds (bs @ rest) (load bs ctx) bs"
  using assms by (simp add: feeds_def load_def unat_of_nat_small)

lemma load_alike:
  assumes "length bs < 2 ^ 32"
  shows "alike bs (bs @ rest) (load bs ctx) (load bs ctx)"
  using feeds_load [OF assms, of rest ctx] feeds_load [OF assms, of "[]" ctx]
  by (auto simp: alike_def load_def)

lemma load_append:
  "length xs + length ys < 2 ^ 32 \<Longrightarrow> load (xs @ ys) ctx = lengthen (of_nat (length ys)) (load xs ctx)"
  by (simp add: load_def lengthen_def set_chunk_def)

lemma load_longer:
  assumes "length xs + length ys < 2 ^ 32"
  shows "longer (xs @ ys) (of_nat (length ys)) (load xs ctx)"
proof -
  have "feeds (xs @ ys) (load (xs @ ys) ctx) (xs @ ys)" using feeds_load [of "xs @ ys" "[]" ctx] assms by simp
  then have "chunk_ok (xs @ ys) (load (xs @ ys) ctx)" by (rule feeds_chunk_ok)
  then show ?thesis using assms by (simp add: longer_def load_append unat_of_nat_small) (simp add: load_def unat_of_nat_small)
qed

lemma load_stream_ok:
  assumes "stream_ok mem ctx" and "length bs < 2 ^ 32"
  shows "stream_ok (bs @ rest) (load bs ctx)"
proof -
  have "chunk_ok (bs @ rest) (load bs ctx)" using feeds_chunk_ok [OF feeds_load [OF assms(2)]] .
  then show ?thesis using stream_ok_set_chunk [OF assms(1)] by (simp only: load_def)
qed

text \<open>The rest of the longer chunk, where the first part ended, is like a chunk of its own.\<close>

lemma rest_alike:
  assumes c: "workBuffer c = Some (length xs)" "commandLength c = 0" and a: "alike m m' c1 c"
    and len: "length xs + length ys < 2 ^ 32"
  shows "alike (xs @ ys) ys (lengthen (of_nat (length ys)) c) (load ys c1)"
proof -
  have "feeds (xs @ ys) (lengthen (of_nat (length ys)) c) ys"
    using c len by (simp add: feeds_def unat_of_nat_small)
  moreover have "feeds ys (load ys c1) ys" using feeds_load [of ys "[]" c1] len by simp
  moreover obtain w where "c = set_chunk w (commandLength c1) c1" using alike_set_chunk [OF a] ..
  then have "load ys c1 = set_chunk (workBuffer (load ys c1)) (commandLength (lengthen (of_nat (length ys)) c))
      (lengthen (of_nat (length ys)) c)"
    using c(2) by (cases c1) (simp add: load_def lengthen_def set_chunk_def)
  ultimately show ?thesis by (auto simp: alike_def)
qed

lemma two_chunks:
  assumes ok: "stream_ok mem ctx" and len: "length xs + length ys < 2 ^ 32" and ys: "ys \<noteq> []"
    and law: "incremental ops" and d: "digest_32 ops"
    and first: "processTxInternal ops xs (load xs ctx) = Some (Inr (c1, status))"
  shows "outcome (processTxInternal ops (xs @ ys) (load (xs @ ys) ctx)) =
    (if status = STREAM_PROCESSING then outcome (processTxInternal ops ys (load ys c1))
     else Some (forget_place (lengthen (of_nat (length ys)) c1), status))"
proof -
  let ?n = "of_nat (length ys) :: u32" and ?m = "xs @ ys"
  have lx: "length xs < 2 ^ 32" using len by simp
  have n: "?n \<noteq> 0" using ys len unat_of_nat_small [of "length ys"] by (metis add_lessD1 add.commute length_0_conv unat_0)
  note okx = load_stream_ok [OF ok lx, of "[]", simplified] and okm = load_stream_ok [OF ok lx, of ys]
  obtain r where "processTxInternal ops ?m (load xs ctx) = Some r"
    "same_result (alike_next xs ?m) (Inr (c1, status)) r"
    using processTxInternal_alike [OF okx d load_alike [OF lx, of ys ctx]] first by auto
  then obtain c where c: "processTxInternal ops ?m (load xs ctx) = Some (Inr (c, status))" "alike xs ?m c1 c"
    by (cases r) (auto elim!: alike_nextE simp: same_result_def)
  note res = processTxInternal_resumes [OF okm load_longer [OF len] law d n, folded load_append [OF len]]
  show ?thesis
  proof (cases "status = STREAM_PROCESSING")
    case False
    have "processTxInternal ops ?m (load ?m ctx) = Some (Inr (lengthen ?n c, status))"
      using res [of "(lengthen ?n c, status)"] c(1) False by simp
    moreover have "forget_place (lengthen ?n c) = forget_place (lengthen ?n c1)"
      using c(2) by (cases c1; cases c) (simp add: alike_def set_chunk_def forget_place_def lengthen_def)
    ultimately show ?thesis using False by simp
  next
    case True
    note c' = processTxInternal_processing [OF okm d c(1) [unfolded True], unfolded waiting_def]
    have "chunk_end c = Some (length xs)"
      using processTxInternal_chunk_end [OF okm d c(1)] lx by (simp add: chunk_end_def load_def unat_of_nat_small)
    then have w: "workBuffer c = Some (length xs)" using c'(2) by (auto simp: chunk_end_def)
    note al = rest_alike [OF w c'(2) [THEN conjunct1] c(2) len]
    have "chunk_ok ?m (lengthen ?n c)" using al by (auto simp: alike_def intro: feeds_chunk_ok)
    then have "stream_ok ?m (lengthen ?n c)"
      using stream_ok_set_chunk [OF c'(1)] by (simp add: lengthen_set_chunk)
    then have "outcome (processTxInternal ops ys (load ys c1)) = outcome (processTxInternal ops ?m (lengthen ?n c))"
      using d al by (rule outcome_alike)
    moreover have "outcome (processTxInternal ops ?m (load ?m ctx)) = outcome (processTxInternal ops ?m (lengthen ?n c))"
      by (rule outcome_cong) (simp add: res c(1) True)
    ultimately show ?thesis using True by simp
  qed
qed

end
