(* ===== verification/Eos_Session.thy ===== *)
theory Eos_Session
  imports Eos_Resume
begin

text \<open>
  The parser without its buffers: \<open>consume\<close> feeds a string of bytes to a context and returns the
  context, the bytes it has left, and the status. What the parser does with a command is \<open>consume\<close>;
  a session is a sequence of commands and approvals, and its reviews do not depend on how the host
  cuts the bytes into commands.
\<close>

section \<open>Feeding bytes\<close>

text \<open>A context with no chunk.\<close>

definition blank :: "'h txProcessingContext_t \<Rightarrow> 'h txProcessingContext_t" where
  "blank ctx = set_chunk None 0 ctx"

definition consumed :: "bytes \<Rightarrow> 'h txProcessingContext_t \<times> parserStatus_e
    \<Rightarrow> 'h txProcessingContext_t \<times> bytes \<times> parserStatus_e" where
  "consumed bs r = (blank (fst r), drop (length bs - unat (commandLength (fst r))) bs, snd r)"

definition consume :: "'h hash_ops \<Rightarrow> 'h txProcessingContext_t \<Rightarrow> bytes
    \<Rightarrow> ('h txProcessingContext_t \<times> bytes \<times> parserStatus_e) option" where
  "consume ops ctx bs = map_option (consumed bs) (outcome (processTxInternal ops bs (load bs ctx)))"

lemma blank_simps [simp]: "blank (blank ctx) = blank ctx" "blank (set_chunk w n ctx) = blank ctx"
  "load bs (blank ctx) = load bs ctx" "blank (load bs ctx) = blank ctx" "blank (forget_place ctx) = blank ctx"
  "blank (lengthen n ctx) = blank ctx"
  by (simp_all add: blank_def load_def forget_place_def set_chunk_def lengthen_def)

lemma consume_blank [simp]: "consume ops (blank ctx) bs = consume ops ctx bs"
  by (simp add: consume_def)

lemma consumed_forget [simp]: "consumed bs (forget_place c, st) = consumed bs (c, st)"
  by (simp add: consumed_def forget_place_def blank_def set_chunk_def)

text \<open>The invariant of a context with no chunk.\<close>

definition rest_ok :: "'h txProcessingContext_t \<Rightarrow> bool" where
  "rest_ok ctx \<longleftrightarrow> buffers_ok ctx \<and> position_ok ctx"

lemma rest_ok_stream: "commandLength ctx = 0 \<Longrightarrow> rest_ok ctx = stream_ok mem ctx"
  by (simp add: rest_ok_def stream_ok_def chunk_ok_def)

lemma rest_ok_blank [simp]: "rest_ok (blank ctx) = rest_ok ctx"
  by (simp add: rest_ok_def blank_def set_chunk_def buffers_ok_def position_ok_def)

lemma rest_ok_load: "rest_ok ctx \<Longrightarrow> length bs < 2 ^ 32 \<Longrightarrow> stream_ok (bs @ rest) (load bs ctx)"
  by (metis load_stream_ok rest_ok_blank rest_ok_stream blank_simps(3) blank_def set_chunk_fields(2))
lemma consume_eq_Some:
  "consume ops ctx bs = Some (c, r, st) \<longleftrightarrow>
     (\<exists>c'. processTxInternal ops bs (load bs ctx) = Some (Inr (c', st)) \<and> c = blank c'
        \<and> r = drop (length bs - unat (commandLength c')) bs)"
  by (auto simp: consume_def consumed_def outcome_def split: option.splits sum.splits)
    (simp_all add: forget_place_def)

lemma consume_waiting:
  assumes ok: "rest_ok ctx" and len: "length bs < 2 ^ 32" and d: "digest_32 ops"
    and c: "consume ops ctx bs = Some (c, r, STREAM_PROCESSING)"
  shows "r = []" and "rest_ok c" and "waiting c"
proof -
  obtain c' where c': "processTxInternal ops bs (load bs ctx) = Some (Inr (c', STREAM_PROCESSING))" "c = blank c'"
    "r = drop (length bs - unat (commandLength c')) bs"
    using c by (auto simp: consume_eq_Some)
  note * = processTxInternal_processing [OF rest_ok_load [OF ok len, of "[]", simplified] d c'(1)]
  show "r = []" using *(2) c'(3) by (simp add: waiting_def)
  show "rest_ok c" using * c'(2) by (simp add: waiting_def flip: rest_ok_stream)
  show "waiting c" using *(2) c'(2) by (simp add: waiting_def blank_def)
qed

lemma consume_nothing: "waiting c \<Longrightarrow> consume ops c [] = Some (blank c, [], STREAM_PROCESSING)"
proof -
  assume "waiting c"
  then have "tx_round ops [] (load [] c) = Inr (load [] c, Some STREAM_PROCESSING)"
    by (simp add: tx_round_def waiting_def load_def)
  then show ?thesis by (simp add: consume_def processTxInternal_round consumed_def)
qed

lemma consume_keeps:
  assumes ok: "rest_ok ctx" and len: "length bs < 2 ^ 32" and d: "digest_32 ops"
    and c: "consume ops ctx bs = Some (c, r, st)" and st: "st \<noteq> STREAM_FAULT"
  shows "rest_ok c"
proof -
  obtain c' where c': "processTxInternal ops bs (load bs ctx) = Some (Inr (c', st))" "c = blank c'"
    using c by (auto simp: consume_eq_Some)
  have "stream_ok bs c'"
    using processTxInternal_returns [OF rest_ok_load [OF ok len, of "[]", simplified] d] c'(1) st
    by (auto simp: kept_ok_def)
  then show ?thesis using c'(2) by (simp add: stream_ok_def rest_ok_def [of c'])
qed

lemma consume_shorter: "consume ops ctx bs = Some (c, r, st) \<Longrightarrow> \<exists>xs. bs = xs @ r"
  by (auto simp: consume_eq_Some intro: append_take_drop_id [symmetric])

text \<open>What is left is an end of what was fed.\<close>

lemma left_over:
  assumes "rest_ok ctx" and "length bs < 2 ^ 32" and "digest_32 ops"
    and "processTxInternal ops bs (load bs ctx) = Some (Inr (c, st))"
  shows "unat (commandLength c) \<le> length bs"
proof -
  have "chunk_end c = Some (length bs)"
    using processTxInternal_chunk_end [OF rest_ok_load [OF assms(1,2), of "[]", simplified] assms(3,4)] assms(2)
    by (simp add: chunk_end_def load_def unat_of_nat_small)
  then show ?thesis by (auto simp: chunk_end_def)
qed

lemma load_load [simp]: "load bs (load cs ctx) = load bs ctx"
  by (simp add: load_def)

lemma consume_append:
  assumes ok: "rest_ok ctx" and len: "length xs + length ys < 2 ^ 32"
    and law: "incremental ops" and d: "digest_32 ops"
  shows "consume ops ctx (xs @ ys) =
    Option.bind (consume ops ctx xs) (\<lambda>(c, r, st).
      if st = STREAM_PROCESSING then consume ops c ys else Some (c, r @ ys, st))"
proof (cases "ys = []")
  case True
  show ?thesis
  proof (cases "consume ops ctx xs")
    case (Some v)
    obtain c r st where v: "v = (c, r, st)" by (cases v)
    have "consume ops c [] = Some (c, [], STREAM_PROCESSING) \<and> r = []" if "st = STREAM_PROCESSING"
      using consume_waiting [OF ok _ d, of xs c r] consume_nothing [of c ops] Some v len that
      by (auto simp: consume_eq_Some [of ops ctx])
    then show ?thesis using True Some v by simp
  qed (use True in simp)
next
  case ys: False
  have lx: "length xs < 2 ^ 32" and ly: "length ys < 2 ^ 32" using len by simp_all
  have n: "(of_nat (length ys) :: u32) \<noteq> 0" using ys len unat_of_nat_small [of "length ys"] by (metis add_lessD1 add.commute length_0_conv unat_0)
  note okx = rest_ok_load [OF ok lx, of "[]", simplified] and okm = rest_ok_load [OF ok lx, of ys]
  note al = processTxInternal_alike [OF okx d load_alike [OF lx, of ys ctx]]
  note res = processTxInternal_resumes [OF okm load_longer [OF len] law d n, folded load_append [OF len]]
  show ?thesis
  proof (cases "\<exists>c1 st. processTxInternal ops xs (load xs ctx) = Some (Inr (c1, st))")
    case True
    then obtain c1 st where c1: "processTxInternal ops xs (load xs ctx) = Some (Inr (c1, st))" by blast
    let ?r = "drop (length xs - unat (commandLength c1)) xs"
    have c: "consume ops ctx xs = Some (blank c1, ?r, st)" using c1 by (simp add: consume_eq_Some)
    have two: "consume ops ctx (xs @ ys) = map_option (consumed (xs @ ys))
      (if st = STREAM_PROCESSING then outcome (processTxInternal ops ys (load ys c1))
       else Some (forget_place (lengthen (of_nat (length ys)) c1), st))"
      using two_chunks [OF rest_ok_load [OF ok, of "[]" "[]", simplified] len ys law d, of c1 st] c1
      by (simp add: consume_def)
    note l = left_over [OF ok lx d c1]
    show ?thesis
    proof (cases "st = STREAM_PROCESSING")
      case False
      have "unat (commandLength (lengthen (of_nat (length ys)) c1)) = unat (commandLength c1) + length ys"
        using l len by (simp add: lengthen_def unat_plus_of_nat)
      then have "consumed (xs @ ys) (lengthen (of_nat (length ys)) c1, st) = (blank c1, ?r @ ys, st)"
        using l by (simp add: consumed_def)
      then show ?thesis using two c False by simp
    next
      case p: True
      have "rest_ok c1" using consume_waiting(2) [OF ok lx d c [unfolded p]] by simp
      then have "map_option (consumed (xs @ ys)) (outcome (processTxInternal ops ys (load ys c1))) = consume ops c1 ys"
        using left_over [OF _ ly d, of c1]
        by (auto simp: consume_def consumed_def outcome_def forget_place_def split: option.splits sum.splits)
      then show ?thesis using two c p by simp
    qed
  next
    case False
    then have "consume ops ctx xs = None"
      by (auto simp: consume_def outcome_def split: option.splits sum.splits)
    moreover have "processTxInternal ops (xs @ ys) (load xs ctx) \<noteq> Some (Inr e)" for e
    proof
      assume "processTxInternal ops (xs @ ys) (load xs ctx) = Some (Inr e)"
      then obtain r where "processTxInternal ops xs (load xs ctx) = Some r"
        "same_result (alike_next xs (xs @ ys)) r (Inr e)" using al by auto
      then show False using False by (cases r) auto
    qed
    then have "processTxInternal ops (xs @ ys) (load (xs @ ys) ctx) \<noteq> Some (Inr e)" for e
      using res [of e] by blast
    then have "consume ops ctx (xs @ ys) = None"
      by (auto simp: consume_def outcome_def split: option.splits sum.splits)
    ultimately show ?thesis by simp
  qed
qed
section \<open>The parser refines it\<close>

definition bytes_left :: "bytes \<Rightarrow> 'h txProcessingContext_t \<Rightarrow> bytes" where
  "bytes_left mem ctx = (case workBuffer ctx of None \<Rightarrow> [] | Some off \<Rightarrow> take (unat (commandLength ctx)) (drop off mem))"

definition abstracted :: "bytes \<Rightarrow> ('h txProcessingContext_t \<times> parserStatus_e) result option
    \<Rightarrow> ('h txProcessingContext_t \<times> bytes \<times> parserStatus_e) option" where
  "abstracted mem r = (case r of Some (Inr (c, st)) \<Rightarrow> Some (blank c, bytes_left mem c, st) | _ \<Rightarrow> None)"

text \<open>A command is the buffer and its length; the parser ignores it while it has bytes left.\<close>

definition command_ok :: "bytes \<Rightarrow> nat option \<Rightarrow> u32 \<Rightarrow> bool" where
  "command_ok mem buffer len \<longleftrightarrow> (case buffer of None \<Rightarrow> len = 0 | Some off \<Rightarrow> off + unat len \<le> length mem)"

definition command_bytes :: "bytes \<Rightarrow> nat option \<Rightarrow> u32 \<Rightarrow> bytes" where
  "command_bytes mem buffer len = (case buffer of None \<Rightarrow> [] | Some off \<Rightarrow> take (unat len) (drop off mem))"

definition input_bytes :: "bytes \<Rightarrow> 'h txProcessingContext_t \<Rightarrow> nat option \<Rightarrow> u32 \<Rightarrow> bytes" where
  "input_bytes mem ctx buffer len = (if commandLength ctx = 0 then command_bytes mem buffer len else bytes_left mem ctx)"

lemma feeds_bytes_left: "feeds mem ctx xs \<Longrightarrow> bytes_left mem ctx = xs"
  by (cases "workBuffer ctx") (auto simp: feeds_def bytes_left_def)

lemma feeds_end:
  assumes "feeds xs c ys" and "chunk_end c = Some (length xs)"
  shows "ys = drop (length xs - unat (commandLength c)) xs"
proof (cases "ys = []")
  case False
  then obtain off where "workBuffer c = Some off" "off + length ys \<le> length xs" "take (length ys) (drop off xs) = ys"
    using assms(1) by (auto simp: feeds_def)
  moreover have "length ys = unat (commandLength c)" using assms(1) by (simp add: feeds_def)
  moreover have "off = length xs - unat (commandLength c)" using assms(2) calculation(1) by (auto simp: chunk_end_def)
  ultimately show ?thesis by (metis add_diff_inverse_nat diff_diff_cancel length_drop order_refl take_all le_add_diff_inverse2 add_leD2 nat_le_iff_add)
qed (use assms in \<open>simp add: feeds_def\<close>)

lemma processTxInternal_refines:
  assumes ok: "stream_ok mem ctx" and f: "feeds mem ctx xs" and d: "digest_32 ops"
  shows "abstracted mem (processTxInternal ops mem ctx) = consume ops ctx xs"
proof -
  have len: "length xs < 2 ^ 32" using f u32_room [of "commandLength ctx"] by (auto simp: feeds_def)
  have ok': "rest_ok ctx" using ok by (simp add: stream_ok_def rest_ok_def)
  note okx = rest_ok_load [OF ok' len, of "[]", simplified]
  have "ctx = set_chunk (workBuffer ctx) (commandLength (load xs ctx)) (load xs ctx)"
  proof -
    have "commandLength ctx = of_nat (length xs)" using f by (metis feeds_def of_nat_unat ucast_id)
    then show ?thesis by (cases ctx) (simp add: load_def set_chunk_def)
  qed
  then have al: "alike xs mem (load xs ctx) ctx" using f feeds_load [OF len, of "[]" ctx] by (auto simp: alike_def)
  obtain r where r: "processTxInternal ops mem ctx = Some r"
    using processTxInternal_returns [OF ok d] by blast
  obtain r1 where r1: "processTxInternal ops xs (load xs ctx) = Some r1" "same_result (alike_next xs mem) r1 r"
    using processTxInternal_alike [OF okx d al] r by auto
  show ?thesis
  proof (cases r1)
    case (Inl e)
    then show ?thesis using r r1 by (simp add: abstracted_def consume_def)
  next
    case (Inr v)
    obtain c1 st where v: "v = (c1, st)" by (cases v)
    obtain c where c: "r = Inr (c, st)" "alike xs mem c1 c"
      using r1(2) Inr v by (cases r) (auto simp: same_result_def alike_next_def)
    then obtain ys where ys: "feeds xs c1 ys" "feeds mem c ys" by (auto simp: alike_def)
    have "chunk_end c1 = Some (length xs)"
      using processTxInternal_chunk_end [OF okx d] r1(1) Inr v len
      by (simp add: chunk_end_def load_def unat_of_nat_small)
    then have "bytes_left mem c = drop (length xs - unat (commandLength c1)) xs"
      using feeds_end [OF ys(1)] feeds_bytes_left [OF ys(2)] by simp
    moreover have "blank c = blank c1" using alike_set_chunk [OF c(2)] by auto
    ultimately show ?thesis using r r1(1) Inr v c(1) by (simp add: abstracted_def consume_def, simp add: consumed_def)
  qed
qed

lemma stream_ok_feeds: "stream_ok mem ctx \<Longrightarrow> feeds mem ctx (if commandLength ctx = 0 then [] else bytes_left mem ctx)"
  by (auto simp: stream_ok_def chunk_ok_def feeds_def bytes_left_def)

lemma parseTx_refines:
  assumes ok: "stream_ok mem ctx" and b: "command_ok mem buffer len" and d: "digest_32 ops"
  shows "abstracted mem (parseTx ops mem ctx buffer len) = consume ops ctx (input_bytes mem ctx buffer len)"
proof (cases "commandLength ctx = 0")
  case False
  then show ?thesis
    using processTxInternal_refines [OF ok stream_ok_feeds [OF ok] d] by (simp add: parseTx_def input_bytes_def)
next
  case True
  let ?c = "set_chunk buffer len ctx"
  have f: "feeds mem ?c (command_bytes mem buffer len)"
    using b by (auto simp: feeds_def command_ok_def command_bytes_def split: option.splits)
  have "stream_ok mem ?c" using stream_ok_set_chunk [OF ok feeds_chunk_ok [OF f]] .
  from processTxInternal_refines [OF this f d] True show ?thesis
    by (simp add: parseTx_def input_bytes_def set_chunk_def) (metis set_chunk_def blank_simps(2) consume_blank)
qed
section \<open>Sessions\<close>

text \<open>
  A session of a user who approves everything: the commands, and the statuses at which the parser
  stops for the user or for good, with the context of each. A review goes on with the bytes left.
\<close>

definition asks :: "parserStatus_e \<Rightarrow> bool" where
  "asks status \<longleftrightarrow> status = STREAM_CONFIRM_PROCESSING \<or> status = STREAM_ACTION_READY"

definition stops :: "parserStatus_e \<Rightarrow> bool" where
  "stops status \<longleftrightarrow> status = STREAM_FINISHED \<or> status = STREAM_FAULT"

lemma asks_stops: "(status = STREAM_PROCESSING) \<noteq> (asks status \<or> stops status)" "\<not> (asks status \<and> stops status)"
  by (cases status; simp add: asks_def stops_def)+

inductive session :: "'h hash_ops \<Rightarrow> 'h txProcessingContext_t \<Rightarrow> bytes list
    \<Rightarrow> (parserStatus_e \<times> 'h txProcessingContext_t) list \<Rightarrow> bool" for ops where
  session_end: "session ops ctx [] []"
| session_more: "consume ops ctx bs = Some (c, r, STREAM_PROCESSING) \<Longrightarrow> session ops c cs log \<Longrightarrow>
    session ops ctx (bs # cs) log"
| session_review: "consume ops ctx bs = Some (c, r, status) \<Longrightarrow> asks status \<Longrightarrow> session ops c (r # cs) log \<Longrightarrow>
    session ops ctx (bs # cs) ((status, c) # log)"
| session_stop: "consume ops ctx bs = Some (c, r, status) \<Longrightarrow> stops status \<Longrightarrow>
    session ops ctx (bs # cs) [(status, c)]"

inductive_simps session_Nil [simp]: "session ops ctx [] log"
inductive_simps session_step: "session ops ctx (bs # cs) log"

lemma session_Cons:
  assumes "consume ops ctx bs = Some (c, r, status)"
  shows "status = STREAM_PROCESSING \<Longrightarrow> session ops ctx (bs # cs) log = session ops c cs log"
    and "asks status \<Longrightarrow> session ops ctx (bs # cs) log = (\<exists>log'. log = (status, c) # log' \<and> session ops c (r # cs) log')"
    and "stops status \<Longrightarrow> session ops ctx (bs # cs) log = (log = [(status, c)])"
  using assms by (subst session_step; auto simp: asks_def stops_def)+

lemma session_None: "consume ops ctx bs = None \<Longrightarrow> \<not> session ops ctx (bs # cs) log"
  by (subst session_step) simp

lemma session_cong:
  assumes eq: "consume ops a xs = consume ops b ys"
  shows "session ops a (xs # cs) log = session ops b (ys # cs) log"
proof (cases "consume ops a xs")
  case None
  then show ?thesis using session_None [of ops a xs cs log] session_None [of ops b ys cs log] eq by simp
next
  case (Some v)
  obtain c r st where v: "v = (c, r, st)" by (cases v)
  have a: "consume ops a xs = Some (c, r, st)" and b: "consume ops b ys = Some (c, r, st)" using Some v eq by simp_all
  show ?thesis
    using session_Cons [OF a, of cs log] session_Cons [OF b, of cs log] asks_stops(1) [of st] by blast
qed

lemma session_deterministic:
  "session ops ctx cs log \<Longrightarrow> session ops ctx cs log' \<Longrightarrow> log' = log"
proof (induction ctx cs log arbitrary: log' rule: session.induct)
  case (session_more ctx bs c r cs log)
  then show ?case using session_Cons(1) [OF session_more.hyps(1) refl] by blast
next
  case (session_review ctx bs c r status cs log)
  then show ?case using session_Cons(2) [OF session_review.hyps(1,2)] by blast
next
  case (session_stop ctx bs c r status cs)
  then show ?case using session_Cons(3) [OF session_stop.hyps(1,2)] by blast
qed simp

lemma join_two:
  assumes law: "incremental ops" and d: "digest_32 ops"
  shows "session ops ctx (xs # ys # cs) log \<Longrightarrow> rest_ok ctx \<Longrightarrow> length xs + length ys < 2 ^ 32 \<Longrightarrow>
    session ops ctx ((xs @ ys) # cs) log"
proof (induction ctx "xs # ys # cs" log arbitrary: xs rule: session.induct)
  case (session_more ctx xs c r log)
  then have "consume ops ctx (xs @ ys) = consume ops c ys" by (simp add: consume_append [OF _ _ law d])
  then show ?case using session_more.hyps(2) session_cong by metis
next
  case (session_review ctx xs c r status log)
  have "consume ops ctx (xs @ ys) = Some (c, r @ ys, status)"
    using session_review consume_append [OF _ _ law d, of ctx xs ys] asks_stops [of status] by auto
  moreover have "session ops c ((r @ ys) # cs) log"
  proof (rule session_review.hyps(4))
    show "rest_ok c"
      using consume_keeps [OF session_review.prems(1) _ d session_review.hyps(1)] session_review.hyps(2) session_review.prems(2)
      by (auto simp: asks_def)
    show "length r + length ys < 2 ^ 32"
      using consume_shorter [OF session_review.hyps(1)] session_review.prems(2) by auto
  qed
  ultimately show ?case using session_review.hyps(2) by (intro session.session_review)
next
  case (session_stop ctx xs c r status)
  have "consume ops ctx (xs @ ys) = Some (c, r @ ys, status)"
    using session_stop consume_append [OF _ _ law d, of ctx xs ys] asks_stops [of status] by auto
  then show ?case using session_stop.hyps(2) by (intro session.session_stop)
qed

lemma split_two:
  assumes law: "incremental ops" and d: "digest_32 ops"
  shows "session ops ctx ((xs @ ys) # cs) log \<Longrightarrow> rest_ok ctx \<Longrightarrow> length xs + length ys < 2 ^ 32 \<Longrightarrow>
    session ops ctx (xs # ys # cs) log"
proof (induction "length log" arbitrary: ctx xs log rule: less_induct)
  case less
  note app = consume_append [OF less.prems(2,3) law d]
  show ?case
  proof (cases "consume ops ctx xs")
    case None
    then show ?thesis using less.prems(1) app session_None by simp blast
  next
    case (Some v)
    obtain c r st where v: "v = (c, r, st)" by (cases v)
    show ?thesis
    proof (cases "st = STREAM_PROCESSING")
      case True
      then have "consume ops ctx (xs @ ys) = consume ops c ys" using app Some v by simp
      then show ?thesis using less.prems(1) Some v True session_cong session_more by metis
    next
      case False
      then have eq: "consume ops ctx (xs @ ys) = Some (c, r @ ys, st)" using app Some v by simp
      show ?thesis
      proof (cases "stops st")
        case True
        then have "log = [(st, c)]" using less.prems(1) session_Cons(3) [OF eq] by simp
        then show ?thesis using Some v True session_stop by simp
      next
        case nostop: False
        then have a: "asks st" using False asks_stops by blast
        obtain log1 where l: "log = (st, c) # log1" "session ops c ((r @ ys) # cs) log1"
          using less.prems(1) session_Cons(2) [OF eq a] by blast
        have "session ops c (r # ys # cs) log1"
        proof (rule less.hyps [OF _ l(2)])
          show "rest_ok c"
            using consume_keeps [OF less.prems(2) _ d Some [unfolded v]] nostop less.prems(3) by (auto simp: stops_def)
          show "length r + length ys < 2 ^ 32"
            using consume_shorter [OF Some [unfolded v]] less.prems(3) by auto
        qed (simp add: l(1))
        then show ?thesis using Some v a l(1) session_review by simp
      qed
    qed
  qed
qed

text \<open>The host may cut the bytes into commands as it likes.\<close>

lemma session_chunks:
  assumes "rest_ok ctx" and "length (concat (bs # cs)) < 2 ^ 32" and "incremental ops" and "digest_32 ops"
  shows "session ops ctx (bs # cs) log = session ops ctx [concat (bs # cs)] log"
  using assms(2)
proof (induction cs arbitrary: bs)
  case (Cons b cs)
  have l: "length bs + length b < 2 ^ 32" using Cons.prems by simp
  have "session ops ctx (bs # b # cs) log = session ops ctx ((bs @ b) # cs) log"
    using join_two [OF assms(3,4) _ assms(1) l] split_two [OF assms(3,4) _ assms(1) l] by blast
  also have "\<dots> = session ops ctx [concat ((bs @ b) # cs)] log" using Cons.prems by (intro Cons.IH) simp
  finally show ?case by simp
qed simp
lemma fresh_rest_ok: "content_ok contents \<Longrightarrow> rest_ok (initTxContext ops contents allowed)"
  by (simp add: rest_ok_def buffers_ok_def position_ok_def initTxContext_def)

end
