(* ===== verification/Eos_Transaction.thy ===== *)
theory Eos_Transaction
  imports Eos_Session
begin

text \<open>
  Whole transactions: what the parser does with one field of a transaction, from its header to the
  next state, and with the sequence of fields that encodes a transaction. The fields are the
  arguments of the host; the specification is the datatype \<open>transaction\<close> and its encoding.
\<close>

section \<open>One field\<close>

text \<open>The encoding of a field, and a context between two fields.\<close>

definition field :: "bytes \<Rightarrow> bytes" where
  "field f = tlv_header (length f) @ f"

definition idle :: "'h txProcessingContext_t \<Rightarrow> bool" where
  "idle ctx \<longleftrightarrow> buffers_ok ctx \<and> \<not> processingField ctx \<and> tlvBufferPos ctx = 0
     \<and> \<not> confirmProcessing ctx \<and> \<not> actionReady ctx"

lemma idle_rest_ok: "idle ctx \<Longrightarrow> rest_ok ctx"
  by (simp add: idle_def rest_ok_def position_ok_def)

lemma idle_blank [simp]: "idle (blank ctx) = idle ctx"
  by (simp add: idle_def blank_def buffers_ok_def)

text \<open>A context without what is left over from earlier fields and does not matter for the next one.\<close>

definition settled :: "'h txProcessingContext_t \<Rightarrow> 'h txProcessingContext_t" where
  "settled ctx = ctx\<lparr>currentFieldLength := 0, currentFieldPos := 0, currentActionDataBufferLength := 0,
     tlvBuffer := [], tlvBufferPos := 0, workBuffer := None, commandLength := 0, sizeBuffer := [], actionDataBuffer := [],
     dataChecksum := []\<rparr>"

lemma settled_fields [simp]:
  "state (settled ctx) = state ctx" "actionReady (settled ctx) = actionReady ctx"
  "confirmProcessing (settled ctx) = confirmProcessing ctx" "sha256 (settled ctx) = sha256 ctx"
  "dataSha256 (settled ctx) = dataSha256 ctx" "currentActionNumber (settled ctx) = currentActionNumber ctx"
  "currentActionIndex (settled ctx) = currentActionIndex ctx"
  "currentAutorizationNumber (settled ctx) = currentAutorizationNumber ctx"
  "currentAutorizationIndex (settled ctx) = currentAutorizationIndex ctx"
  "processingField (settled ctx) = processingField ctx"
  "contractName (settled ctx) = contractName ctx" "contractActionName (settled ctx) = contractActionName ctx"
  "dataAllowed (settled ctx) = dataAllowed ctx" "content (settled ctx) = content ctx"
  "isKnownAction (settled ctx) = isKnownAction ctx" "settled (blank ctx) = settled ctx"
  "settled (settled ctx) = settled ctx" "settled (load bs ctx) = settled ctx"
  by (simp_all add: settled_def isKnownAction_def blank_def load_def set_chunk_def)

text \<open>Reading the header, from any point inside it.\<close>

lemma read_tlv_header:
  assumes n: "n < 2 ^ 24"
  shows "k < length (tlv_header n) \<Longrightarrow> unat (tlvBufferPos ctx) = k \<Longrightarrow> take k (tlvBuffer ctx) = take k (tlv_header n) \<Longrightarrow>
    length (tlvBuffer ctx) = 5 \<Longrightarrow> feeds mem ctx (drop k (tlv_header n) @ xs) \<Longrightarrow>
    \<exists>c. read_tlv mem ctx = Inr (c, Inr True) \<and> same_but_header ctx c \<and> currentFieldLength c = of_nat n
      \<and> feeds mem c xs \<and> length (tlvBuffer c) = 5"
proof (induction "length (tlv_header n) - k" arbitrary: k ctx)
  case (Suc m)
  let ?h = "tlv_header n"
  let ?b = "?h ! k"
  have lh: "length ?h \<le> 5" using length_tlv_header by simp
  have split: "drop k ?h = ?b # drop (Suc k) ?h" using Suc.prems(1) by (simp add: Cons_nth_drop_Suc)
  have fd: "feeds mem ctx (?b # drop (Suc k) ?h @ xs)" using Suc.prems(5) split by simp
  have cl: "commandLength ctx \<noteq> 0" using fd by (auto simp: feeds_def)
  have ck: "chunk_ok mem ctx" using fd by (rule feeds_chunk_ok)
  obtain b where b: "readTxByte mem ctx = Inr (b, work_skip 1 ctx)" using readTxByte_ok [OF ck cl] by blast
  have "work_read mem ctx 1 = Inr [?b]" using work_read_feeds [OF fd, of 1] by simp
  then have bb: "b = ?b" using b by (auto simp: readTxByte_def res_simps)
  define buf where "buf = take k (tlvBuffer ctx) @ [?b] @ drop (k + 1) (tlvBuffer ctx)"
  have w: "mem_write (tlvBuffer ctx) (unat (tlvBufferPos ctx)) [?b] = Inr buf"
    using Suc.prems lh by (simp add: mem_write_def buf_def)
  have tb: "buf = take (Suc k) ?h @ drop (k + 1) (tlvBuffer ctx)"
    using Suc.prems(1,3) by (simp add: buf_def take_Suc_conv_app_nth)
  have lb: "length buf = 5" using Suc.prems lh by (simp add: buf_def)
  have p1: "tlvBufferPos ctx + 1 = of_nat (Suc k)" using Suc.prems(2) by (metis of_nat_Suc add.commute of_nat_unat ucast_id)
  have step: "read_tlv mem ctx = andThen (header_byte ?b ctx) (\<lambda>(buf, d, l, v).
    let c = header_store buf l (work_skip 1 ctx) in
    if \<not> v then Inr (c, Inl STREAM_FAULT)
    else if d then Inr (c, Inr True)
    else if tlvBufferPos ctx + 1 = 5 then Inr (c, Inl STREAM_FAULT)
    else read_tlv mem c)" using read_tlv_step [OF cl b] bb by simp
  have fs: "feeds mem (work_skip 1 ctx) (drop (Suc k) ?h @ xs)" using feeds_skip [OF fd, of 1] by simp
  show ?case
  proof (cases "Suc k = length ?h")
    case True
    have "header_byte ?b ctx = Inr (buf, True, of_nat n, True)"
      using tlvTryDecode_header [OF n, of "drop (k + 1) (tlvBuffer ctx)" "currentFieldLength ctx"] True
      by (simp add: header_byte_def w p1) (simp add: tb)
    moreover have "same_but_header ctx (header_store buf (of_nat n) (work_skip 1 ctx))"
      by (cases ctx) (simp add: same_but_header_def header_store_def work_skip_def)
    ultimately show ?thesis using step fs True lb by (simp add: header_store_def feeds_def)
  next
    case False
    then have k: "Suc k < length ?h" using Suc.prems(1) by simp
    let ?c = "header_store buf (currentFieldLength ctx) (work_skip 1 ctx)"
    have "header_byte ?b ctx = Inr (buf, False, currentFieldLength ctx, True)"
      using tlvTryDecode_prefix [OF _ k, of "drop (k + 1) (tlvBuffer ctx)" "currentFieldLength ctx"]
      by (simp add: header_byte_def w p1) (simp add: tb)
    moreover have "tlvBufferPos ctx + 1 \<noteq> 5" 
    proof -
      have "unat (of_nat (Suc k) :: u32) = Suc k" using k lh by (simp add: unat_of_nat take_bit_nat_eq_self del: of_nat_Suc)
      then have "unat (tlvBufferPos ctx + 1) = Suc k" by (simp only: p1)
      then have "unat (tlvBufferPos ctx + 1) \<noteq> unat (5 :: u32)" using k lh by simp
      then show ?thesis by metis
    qed
    ultimately have eq: "read_tlv mem ctx = read_tlv mem ?c" using step by simp
    have "\<exists>c. read_tlv mem ?c = Inr (c, Inr True) \<and> same_but_header ?c c \<and> currentFieldLength c = of_nat n
      \<and> feeds mem c xs \<and> length (tlvBuffer c) = 5"
    proof (rule Suc.hyps(1) [OF _ k])
      show "m = length ?h - Suc k" using Suc.hyps(2) by simp
      show "unat (tlvBufferPos ?c) = Suc k"
        using Suc.prems(2) k lh by (simp add: header_store_def work_skip_def unat_word_ariths)
      show "take (Suc k) (tlvBuffer ?c) = take (Suc k) ?h"
        using k by (simp add: header_store_def tb)
      show "length (tlvBuffer ?c) = 5" using lb by (simp add: header_store_def)
      show "feeds mem ?c (drop (Suc k) ?h @ xs)" using fs by (simp add: header_store_def feeds_def)
    qed
    moreover have "same_but_header ctx ?c"
      by (cases ctx) (simp add: same_but_header_def header_store_def work_skip_def)
    ultimately show ?thesis using eq same_but_header_trans by metis
  qed
qed simp

text \<open>The context when the header of a field \<open>f\<close> has been read, in a chunk that ends with the field.\<close>

definition opened :: "bytes \<Rightarrow> 'h txProcessingContext_t \<Rightarrow> 'h txProcessingContext_t \<Rightarrow> bool" where
  "opened f ctx c \<longleftrightarrow> settled c = (settled ctx)\<lparr>processingField := True\<rparr> \<and> buffers_ok c \<and> feeds (field f) c f
     \<and> currentFieldPos c = 0 \<and> currentFieldLength c = of_nat (length f) \<and> tlvBufferPos c = 0"

lemma opened_fields:
  assumes "opened f ctx c"
  shows "state c = state ctx" "actionReady c = actionReady ctx"
    "confirmProcessing c = confirmProcessing ctx" "sha256 c = sha256 ctx"
    "dataSha256 c = dataSha256 ctx" "currentActionNumber c = currentActionNumber ctx"
    "currentActionIndex c = currentActionIndex ctx"
    "currentAutorizationNumber c = currentAutorizationNumber ctx"
    "currentAutorizationIndex c = currentAutorizationIndex ctx" "processingField c"
    "contractName c = contractName ctx" "contractActionName c = contractActionName ctx"
    "dataAllowed c = dataAllowed ctx" "content c = content ctx" "isKnownAction c = isKnownAction ctx"
  using assms by (cases c; cases ctx; simp add: opened_def settled_def isKnownAction_def)+

lemma open_field:
  assumes i: "idle ctx" and st: "state ctx \<noteq> TLV_DONE" and f: "length f < 2 ^ 24"
  obtains c where "opened f ctx c"
    "tx_round ops (field f) (load (field f) ctx) = process_state ops (field f) c"
proof -
  have lh: "length (tlv_header (length f)) \<le> 5" "2 \<le> length (tlv_header (length f))"
    using length_tlv_header by simp_all
  have l: "length (field f) < 2 ^ 32" using f lh by (simp add: field_def)
  have cl: "commandLength (load (field f) ctx) \<noteq> 0"
  proof -
    have "unat (commandLength (load (field f) ctx)) \<noteq> 0"
      using l lh by (simp add: load_def unat_of_nat_small) (simp add: field_def)
    then show ?thesis by auto
  qed
  have "\<exists>c. read_tlv (field f) (load (field f) ctx) = Inr (c, Inr True) \<and> same_but_header (load (field f) ctx) c
      \<and> currentFieldLength c = of_nat (length f) \<and> feeds (field f) c f \<and> length (tlvBuffer c) = 5"
    using i lh feeds_load [OF l, of "[]" ctx] f
    by (intro read_tlv_header [where k = 0]) (auto simp: idle_def buffers_ok_def load_def field_def)
  then obtain c where c: "read_tlv (field f) (load (field f) ctx) = Inr (c, Inr True)"
    "same_but_header (load (field f) ctx) c" "currentFieldLength c = of_nat (length f)" "feeds (field f) c f"
    "length (tlvBuffer c) = 5" by blast
  let ?c = "c\<lparr>currentFieldPos := 0, tlvBufferPos := 0, processingField := True\<rparr>"
  have "opened f ctx ?c"
    using c i by (cases c; cases ctx) (simp add: opened_def settled_def same_but_header_def load_def set_chunk_def
        idle_def buffers_ok_def feeds_def)
  moreover have "tx_round ops (field f) (load (field f) ctx) = process_state ops (field f) ?c"
    using i st cl c(1) by (simp add: tx_round_def idle_def) (simp add: load_def)
  ultimately show ?thesis by (rule that)
qed

context field_store
begin

lemma whole_field:
  assumes o: "opened f ctx c" and f: "0 < length f" "length f < 2 ^ 24" "length f \<le> room" and ck: "check_blind check"
    and h: "hash_update ops (sha256 ctx) f = Some h" and s: "store f (c\<lparr>sha256 := h\<rparr>) = Inr c1"
  shows "andThen (receive ops (field f) check store c) (when_complete finish) = finish (advance (of_nat (length f)) c1)"
proof -
  have lf: "unat (of_nat (length f) :: u32) = length f" using f(2) by (intro unat_of_nat_small) simp
  have fd: "feeds (field f) c f" and p: "currentFieldPos c = 0" and cf: "currentFieldLength c = of_nat (length f)"
    and b: "buffers_ok c" and sh: "sha256 c = sha256 ctx"
    using o opened_fields(4) [OF o] by (simp_all add: opened_def)
  have cl: "commandLength c = of_nat (length f)" using fd by (metis feeds_def of_nat_unat ucast_id)
  have n: "chunk_length c = of_nat (length f)" by (simp add: chunk_length_def p cf cl)
  have lt: "currentFieldPos c < currentFieldLength c" using f(1) lf by (simp add: p cf word_less_nat_alt)
  have "check (of_nat (length f)) c = Inr ()" using ck cl by (simp add: check_blind_def)
  moreover have "work_read (field f) c (length f) = Inr f" using work_read_feeds [OF fd, of "length f"] by simp
  moreover have "hashTxData ops f c = Inr (c\<lparr>sha256 := h\<rparr>)" using h sh by (simp add: hashTxData_def CX_ASSERT_def)
  moreover have "kept (c\<lparr>sha256 := h\<rparr>) c1"
    using store_ends [of "c\<lparr>sha256 := h\<rparr>" f] b f p s
    by (simp add: buffers_ok_def ends_unless_def)
  then have "currentFieldPos c1 = 0" "currentFieldLength c1 = of_nat (length f)"
    using p cf by (simp_all add: kept_fields(4,5))
  ultimately show ?thesis
    using lt s n lf by (simp add: receive_def when_complete_def)
qed

end

text \<open>Where the parser stops after a field that ends the chunk.\<close>

definition pause :: "'h txProcessingContext_t \<Rightarrow> 'h txProcessingContext_t \<times> bytes \<times> parserStatus_e" where
  "pause c =
     (if confirmProcessing c then (blank (c\<lparr>confirmProcessing := False\<rparr>), [], STREAM_CONFIRM_PROCESSING)
      else if actionReady c then (blank (c\<lparr>actionReady := False\<rparr>), [], STREAM_ACTION_READY)
      else if state c = TLV_DONE then (blank c, [], STREAM_FINISHED)
      else (blank c, [], STREAM_PROCESSING))"

lemma consume_field:
  assumes "tx_round ops bs (load bs ctx) = Inr (c, None)" and "commandLength c = 0"
  shows "consume ops ctx bs = Some (pause c)"
proof -
  have "processTxInternal ops bs (load bs ctx) = processTxInternal ops bs c"
    using assms(1) by (rule processTxInternal_round)
  moreover have "outcome (processTxInternal ops bs c) = Some (forget_place (fst (pause c)), snd (snd (pause c)))"
    using assms(2)
    by (cases "confirmProcessing c"; cases "actionReady c"; cases "state c = TLV_DONE")
      (simp_all add: processTxInternal_round tx_round_def pause_def, simp_all add: forget_place_def blank_def set_chunk_def)
  ultimately show ?thesis
    using assms(2) by (simp add: consume_def consumed_def pause_def forget_place_def) (simp add: blank_def)
qed

section \<open>The fields of a transaction\<close>

text \<open>Feeding a field ends with a status and a context between two fields.\<close>

definition reads :: "'h hash_ops \<Rightarrow> 'h txProcessingContext_t \<Rightarrow> bytes \<Rightarrow> parserStatus_e
    \<Rightarrow> ('h txProcessingContext_t \<Rightarrow> bool) \<Rightarrow> bool" where
  "reads ops ctx f status P \<longleftrightarrow> (\<exists>c. consume ops ctx (field f) = Some (c, [], status) \<and> idle c \<and> P c)"

definition completed :: "'h txProcessingContext_t \<Rightarrow> bool" where
  "completed c \<longleftrightarrow> buffers_ok c \<and> \<not> processingField c \<and> tlvBufferPos c = 0"

lemma pause_reads:
  assumes "consume ops ctx (field f) = Some (pause c)" and "completed c" and "\<not> (confirmProcessing c \<and> actionReady c)"
    and "P (blank (c\<lparr>confirmProcessing := False, actionReady := False\<rparr>))"
  shows "reads ops ctx f (snd (snd (pause c))) P"
proof -
  have "fst (pause c) = blank (c\<lparr>confirmProcessing := False, actionReady := False\<rparr>)" "fst (snd (pause c)) = []"
    using assms(3) by (cases c; simp add: pause_def)+
  moreover have "idle (blank (c\<lparr>confirmProcessing := False, actionReady := False\<rparr>))"
    using assms(2) by (simp add: completed_def idle_def blank_def buffers_ok_def)
  ultimately show ?thesis using assms(1,4) unfolding reads_def by (metis prod.collapse)
qed

lemma settled_flags:
  "settled (c\<lparr>confirmProcessing := a, actionReady := b\<rparr>) = (settled c)\<lparr>confirmProcessing := a, actionReady := b\<rparr>"
  by (cases c) (simp add: settled_def)

lemma settledD:
  assumes "settled c = s"
  shows "state c = state s" "confirmProcessing c = confirmProcessing s" "actionReady c = actionReady s"
    "sha256 c = sha256 s" "dataSha256 c = dataSha256 s" "currentActionNumber c = currentActionNumber s"
    "currentActionIndex c = currentActionIndex s" "currentAutorizationNumber c = currentAutorizationNumber s"
    "currentAutorizationIndex c = currentAutorizationIndex s" "contractName c = contractName s"
    "contractActionName c = contractActionName s" "dataAllowed c = dataAllowed s" "content c = content s"
  using assms by auto

text \<open>The usual case: no flag is raised.\<close>

lemma quiet_reads:
  assumes "\<exists>c. consume ops ctx (field f) = Some (pause c) \<and> completed c \<and> settled c = s"
    and "\<not> confirmProcessing s" and "\<not> actionReady s" and st: "status = (if state s = TLV_DONE then STREAM_FINISHED else STREAM_PROCESSING)"
  shows "reads ops ctx f status (\<lambda>c. settled c = s)"
proof -
  obtain c where c: "consume ops ctx (field f) = Some (pause c)" "completed c" "settled c = s" using assms(1) by blast
  note k = settledD [OF c(3)]
  have "settled (c\<lparr>confirmProcessing := False, actionReady := False\<rparr>) = s"
    using c(3) k assms(2,3) by (cases c) (auto simp: settled_def)
  then have "reads ops ctx f (snd (snd (pause c))) (\<lambda>c. settled c = s)"
    using c(1,2) k assms(2,3) by (intro pause_reads) simp_all
  then show ?thesis using k assms(2,3) st by (simp add: pause_def split: if_splits)
qed

context field_store
begin

lemma field_reads:
  assumes i: "idle ctx" "state ctx \<noteq> TLV_DONE" and f: "0 < length f" "length f < 2 ^ 24" "length f \<le> room"
    and ck: "check_blind check" and b: "blind finish" and h: "hash_update ops (sha256 ctx) f = Some h"
    and ps: "\<And>c. opened f ctx c \<Longrightarrow> process_state ops (field f) c
      = andThen (andThen (receive ops (field f) check store c) (when_complete finish)) (\<lambda>c. Inr (c, None))"
    and s: "\<And>c. opened f ctx c \<Longrightarrow> \<exists>c1 c2. store f (c\<lparr>sha256 := h\<rparr>) = Inr c1
      \<and> finish (advance (of_nat (length f)) c1) = Inr c2 \<and> Q c2"
  shows "\<exists>c. consume ops ctx (field f) = Some (pause c) \<and> Q c"
proof -
  obtain c where o: "opened f ctx c" and r: "tx_round ops (field f) (load (field f) ctx) = process_state ops (field f) c"
    using open_field [OF i f(2)] by blast
  obtain c1 c2 where c: "store f (c\<lparr>sha256 := h\<rparr>) = Inr c1" "finish (advance (of_nat (length f)) c1) = Inr c2" "Q c2"
    using s [OF o] by blast
  have "tx_round ops (field f) (load (field f) ctx) = Inr (c2, None)"
    using r ps [OF o] whole_field [OF o f ck h c(1)] c(2) by simp
  moreover have "commandLength c2 = 0"
  proof -
    have "commandLength c = of_nat (length f)"
      using o by (metis opened_def feeds_def of_nat_unat ucast_id)
    moreover have "kept (c\<lparr>sha256 := h\<rparr>) c1"
      using store_ends [of "c\<lparr>sha256 := h\<rparr>" f] o f c(1) by (simp add: opened_def buffers_ok_def ends_unless_def)
    then have "commandLength c1 = commandLength c" by (simp add: kept_fields(10))
    ultimately show ?thesis using blind_keeps_chunk(2) [OF b c(2)] by simp
  qed
  ultimately show ?thesis using consume_field c(3) by blast
qed

end

definition plain_state :: "txProcessingState_e \<Rightarrow> bool" where
  "plain_state s \<longleftrightarrow> s \<in> {TLV_CHAIN_ID, TLV_HEADER_EXPITATION, TLV_HEADER_REF_BLOCK_NUM, TLV_HEADER_REF_BLOCK_PREFIX,
     TLV_HEADER_MAX_NET_USAGE_WORDS, TLV_HEADER_MAX_CPU_USAGE_MS, TLV_HEADER_DELAY_SEC, TLV_AUTHORIZATION_ACTOR,
     TLV_CONTEXT_FREE_DATA}"

lemma settled_next:
  assumes "opened f ctx c" and "idle ctx"
  shows "settled (to_state s (advance n (c\<lparr>sha256 := h\<rparr>))) = (settled ctx)\<lparr>state := s, sha256 := h\<rparr>"
  using assms by (cases c; cases ctx)
    (simp add: opened_def settled_def to_state_def advance_def work_skip_def idle_def)

lemma completed_to_state: "buffers_ok c \<Longrightarrow> tlvBufferPos c = 0 \<Longrightarrow> completed (to_state s c)"
  by (simp add: completed_def to_state_def buffers_ok_def)

lemma reads_plain:
  assumes i: "idle ctx" and st: "plain_state (state ctx) \<or> state ctx = TLV_ACTION_DATA_SIZE \<and> isKnownAction ctx"
    and f: "0 < length f" "length f < 2 ^ 24" and h: "hash_update ops (sha256 ctx) f = Some h"
  shows "reads ops ctx f (if state ctx = TLV_CONTEXT_FREE_DATA then STREAM_FINISHED else STREAM_PROCESSING)
    (\<lambda>c. settled c = (settled ctx)\<lparr>state := next_state (state ctx), sha256 := h\<rparr>)"
proof -
  let ?Q = "\<lambda>c. completed c \<and> settled c = (settled ctx)\<lparr>state := next_state (state ctx), sha256 := h\<rparr>"
  have "\<exists>c. consume ops ctx (field f) = Some (pause c) \<and> ?Q c"
  proof (rule none_store.field_reads [OF i _ _ _ _ check_blind_simps(1) [of "''processField''"] blind_finish_field h], goal_cases more pos len room ps s)
    case (ps c)
    then show ?case
      using st opened_fields(1,15) [OF ps] by (auto simp: process_state_def plain_state_def processField_def)
  next
    case (s c)
    then show ?case
      using settled_next [OF s i] opened_fields(1) [OF s]
      by (simp add: store_none_def) (simp add: opened_def advance_def work_skip_def completed_def to_state_def buffers_ok_def)
  qed (use f st in \<open>auto simp: plain_state_def\<close>)
  then show ?thesis using i st by (intro quiet_reads) (auto simp: idle_def plain_state_def)
qed

text \<open>A number in a size field.\<close>

lemma leb_length: "n < 2 ^ 32 \<Longrightarrow> 0 < length (leb_bytes n) \<and> length (leb_bytes n) \<le> 5"
  using length_leb_bytes [of n 5] leb_bytes.simps [of n] by auto

lemma size_stored:
  assumes o: "opened f ctx c" and f: "f = leb_bytes n" and n: "n < 2 ^ 32"
  obtains b where "store_size msg f (c\<lparr>sha256 := h\<rparr>) = Inr (c\<lparr>sha256 := h, sizeBuffer := b\<rparr>)" and "length b = 12"
    and "size_value (advance (of_nat (length f)) (c\<lparr>sha256 := h, sizeBuffer := b\<rparr>)) = Inr (of_nat n)"
proof -
  have lf: "0 < length f" "length f \<le> 5" using leb_length [OF n] f by simp_all
  have l: "length (sizeBuffer c) = 12" and p: "currentFieldPos c = 0" using o by (simp_all add: opened_def buffers_ok_def)
  define b where "b = f @ drop (length f) (sizeBuffer c)"
  have lb: "length b = 12" using l lf by (simp add: b_def)
  have u: "unat (of_nat (length f) :: u32) = length f" using lf by (intro unat_of_nat_small) simp
  have "(of_nat (length f) :: u32) \<le> 12" using u lf by (simp add: word_le_nat_alt)
  then have "store_size msg f (c\<lparr>sha256 := h\<rparr>) = Inr (c\<lparr>sha256 := h, sizeBuffer := b\<rparr>)"
    using p l lf by (simp add: store_size_def LEDGER_ASSERT_def mem_write_def b_def)
  moreover have "unat (of_nat (length f) + 1 :: u32) = length f + 1" using u lf by (simp add: unat_word_ariths)
  then have "unpack_variant32 b 0 (of_nat (length f) + 1) = Inr (length f, of_nat n)"
    using unpack_variant32_leb_bytes [OF n, of 0 b "drop (length f) (sizeBuffer c)" "of_nat (length f) + 1"] lf lb f b_def
    by simp
  ultimately show ?thesis using that lb p by (simp add: size_value_def) (simp add: advance_def work_skip_def)
qed

lemma reads_zero:
  assumes i: "idle ctx" and st: "state ctx = TLV_CFA_LIST_SIZE \<or> state ctx = TLV_TX_EXTENSION_LIST_SIZE"
    and h: "hash_update ops (sha256 ctx) [0] = Some h"
  shows "reads ops ctx [0] STREAM_PROCESSING (\<lambda>c. settled c = (settled ctx)\<lparr>state := next_state (state ctx), sha256 := h\<rparr>)"
proof -
  have z: "[0] = leb_bytes 0" by (simp add: leb_bytes.simps)
  let ?Q = "\<lambda>c. completed c \<and> settled c = (settled ctx)\<lparr>state := next_state (state ctx), sha256 := h\<rparr>"
  have "\<exists>c. consume ops ctx (field [0]) = Some (pause c) \<and> ?Q c"
  proof (rule size_store.field_reads [where msg = "''processZeroSizeField''", OF i _ _ _ _ check_blind_simps(1) [of "''processZeroSizeField''"]
      blind_finish_zero [of "''processCtxFreeAction Action Number must be 0''"] h], goal_cases more pos len room ps s)
    case (ps c)
    then show ?case using st opened_fields(1) [OF ps] by (auto simp: process_state_def processZeroSizeField_def)
  next
    case (s c)
    obtain b where b: "store_size ''processZeroSizeField'' [0] (c\<lparr>sha256 := h\<rparr>) = Inr (c\<lparr>sha256 := h, sizeBuffer := b\<rparr>)" "length b = 12"
      "size_value (advance (of_nat (length [0 :: u8])) (c\<lparr>sha256 := h, sizeBuffer := b\<rparr>)) = Inr (of_nat 0)"
      using size_stored [OF s z] by (metis zero_less_numeral zero_less_power)
    let ?c = "advance (of_nat (length [0 :: u8])) (c\<lparr>sha256 := h, sizeBuffer := b\<rparr>)"
    have "?Q (to_state (next_state (state ?c)) (?c\<lparr>sizeBuffer := zeros 12\<rparr>))"
      using s i b(2) by (cases c; cases ctx)
        (simp add: opened_def settled_def to_state_def advance_def work_skip_def idle_def completed_def buffers_ok_def)
    then show ?case using b by (simp add: LEDGER_ASSERT_def)
  qed (use st in auto)
  then show ?thesis using i st by (intro quiet_reads) (auto simp: idle_def)
qed

lemma reads_auths:
  assumes i: "idle ctx" and st: "state ctx = TLV_AUTHORIZATION_LIST_SIZE" and n: "n < 2 ^ 32"
    and h: "hash_update ops (sha256 ctx) (leb_bytes n) = Some h"
  shows "reads ops ctx (leb_bytes n) STREAM_PROCESSING (\<lambda>c. settled c = (settled ctx)\<lparr>state := TLV_AUTHORIZATION_ACTOR,
    sha256 := h, currentAutorizationNumber := of_nat n, currentAutorizationIndex := 0\<rparr>)"
proof -
  let ?f = "leb_bytes n"
  let ?Q = "\<lambda>c. completed c \<and> settled c = (settled ctx)\<lparr>state := TLV_AUTHORIZATION_ACTOR,
    sha256 := h, currentAutorizationNumber := of_nat n, currentAutorizationIndex := 0\<rparr>"
  have "\<exists>c. consume ops ctx (field ?f) = Some (pause c) \<and> ?Q c"
  proof (rule size_store.field_reads [where msg = "''processAuthorizationListSizeField''", OF i _ _ _ _ check_blind_simps(1) [of "''processAuthorizationListSizeField''"]
      blind_finish_auths h], goal_cases more pos len room ps s)
    case (ps c)
    then show ?case using st opened_fields(1) [OF ps] by (auto simp: process_state_def processAuthorizationListSizeField_def)
  next
    case (s c)
    obtain b where b: "store_size ''processAuthorizationListSizeField'' ?f (c\<lparr>sha256 := h\<rparr>) = Inr (c\<lparr>sha256 := h, sizeBuffer := b\<rparr>)"
      "length b = 12" "size_value (advance (of_nat (length ?f)) (c\<lparr>sha256 := h, sizeBuffer := b\<rparr>)) = Inr (of_nat n)"
      using size_stored [OF s refl n] by metis
    let ?c = "advance (of_nat (length ?f)) (c\<lparr>sha256 := h, sizeBuffer := b\<rparr>)"
    have "?Q (to_state (next_state (state ?c))
        (?c\<lparr>currentAutorizationNumber := of_nat n, currentAutorizationIndex := 0, sizeBuffer := zeros 12\<rparr>))"
      using s i st b(2) by (cases c; cases ctx)
        (simp add: opened_def settled_def to_state_def advance_def work_skip_def idle_def completed_def buffers_ok_def)
    then show ?case using b by simp
  qed (use st leb_length [OF n] in auto)
  then show ?thesis using i by (intro quiet_reads) (auto simp: idle_def)
qed

text \<open>The number of actions; the user confirms when there is more than one.\<close>

lemma reads_actions:
  assumes i: "idle ctx" and st: "state ctx = TLV_ACTION_LIST_SIZE" and n: "n < 2 ^ 32"
    and h: "hash_update ops (sha256 ctx) (leb_bytes n) = Some h"
  shows "reads ops ctx (leb_bytes n) (if 1 < n then STREAM_CONFIRM_PROCESSING else STREAM_PROCESSING)
    (\<lambda>c. settled c = (settled ctx)\<lparr>state := TLV_ACTION_ACCOUNT, sha256 := h,
      currentActionNumber := of_nat n, currentActionIndex := 0\<rparr>)"
proof -
  let ?f = "leb_bytes n"
  let ?s = "(settled ctx)\<lparr>state := TLV_ACTION_ACCOUNT, sha256 := h, currentActionNumber := of_nat n, currentActionIndex := 0\<rparr>"
  let ?Q = "\<lambda>c. completed c \<and> settled c = ?s\<lparr>confirmProcessing := 1 < n\<rparr>"
  have "unat (of_nat n :: u32) = n" using n by (rule unat_of_nat_small)
  then have gt: "1 < (of_nat n :: u32) \<longleftrightarrow> 1 < n" by (simp add: word_less_nat_alt)
  have "\<exists>c. consume ops ctx (field ?f) = Some (pause c) \<and> ?Q c"
  proof (rule size_store.field_reads [where msg = "''processActionListSizeField''", OF i _ _ _ _ check_blind_simps(1) [of "''processActionListSizeField''"]
      blind_finish_actions h], goal_cases more pos len room ps s)
    case (ps c)
    then show ?case using st opened_fields(1) [OF ps] by (auto simp: process_state_def processActionListSizeField_def)
  next
    case (s c)
    obtain b where b: "store_size ''processActionListSizeField'' ?f (c\<lparr>sha256 := h\<rparr>) = Inr (c\<lparr>sha256 := h, sizeBuffer := b\<rparr>)"
      "length b = 12" "size_value (advance (of_nat (length ?f)) (c\<lparr>sha256 := h, sizeBuffer := b\<rparr>)) = Inr (of_nat n)"
      using size_stored [OF s refl n] by metis
    let ?c = "advance (of_nat (length ?f)) (c\<lparr>sha256 := h, sizeBuffer := b\<rparr>)"
    let ?d = "to_state (next_state (state ?c)) (?c\<lparr>currentActionNumber := of_nat n, currentActionIndex := 0, sizeBuffer := zeros 12\<rparr>)"
    have q: "?Q (if 1 < n then ?d\<lparr>confirmProcessing := True\<rparr> else ?d)"
      using s i st b(2) by (cases c; cases ctx)
        (simp add: opened_def settled_def to_state_def advance_def work_skip_def idle_def completed_def buffers_ok_def)
    have e: "currentActionNumber ?d = of_nat n" by (simp add: to_state_def)
    show ?case
      using q b e gt by (cases "1 < n") (simp_all add: Let_def)
  qed (use st leb_length [OF n] in auto)
  then obtain c where c: "consume ops ctx (field ?f) = Some (pause c)" "completed c" "settled c = ?s\<lparr>confirmProcessing := 1 < n\<rparr>" by blast
  note k = settledD [OF c(3)]
  have q: "\<not> actionReady ctx" "\<not> confirmProcessing ctx" using i by (simp_all add: idle_def)
  have "settled (c\<lparr>confirmProcessing := False, actionReady := False\<rparr>) = ?s"
    unfolding settled_flags c(3) using q by (cases ctx) (simp add: settled_def)
  then have "reads ops ctx ?f (snd (snd (pause c))) (\<lambda>c. settled c = ?s)"
    using c(1,2) k q by (intro pause_reads) simp_all
  then show ?thesis using k q by (simp add: pause_def split: if_splits)
qed

text \<open>The names of an action.\<close>

lemma name_stored:
  assumes o: "opened (u64_bytes v) ctx c"
  shows "store_contract (u64_bytes v) (c\<lparr>sha256 := h\<rparr>) = Inr (c\<lparr>sha256 := h, contractName := v\<rparr>)"
    and "store_action (u64_bytes v) (c\<lparr>sha256 := h\<rparr>) = Inr (c\<lparr>sha256 := h, contractActionName := v\<rparr>)"
  using o by (simp_all add: opened_def store_contract_def store_action_def LEDGER_ASSERT_def mem_write_def)

lemma reads_account:
  assumes i: "idle ctx" and st: "state ctx = TLV_ACTION_ACCOUNT"
    and h: "hash_update ops (sha256 ctx) (u64_bytes v) = Some h"
  shows "reads ops ctx (u64_bytes v) STREAM_PROCESSING (\<lambda>c. settled c = (settled ctx)\<lparr>state := TLV_ACTION_NAME, sha256 := h,
    contractName := v, content := (content ctx)\<lparr>contract := padded 14 (name_text v)\<rparr>\<rparr>)"
proof -
  let ?f = "u64_bytes v"
  let ?Q = "\<lambda>c. completed c \<and> settled c = (settled ctx)\<lparr>state := TLV_ACTION_NAME, sha256 := h,
    contractName := v, content := (content ctx)\<lparr>contract := padded 14 (name_text v)\<rparr>\<rparr>"
  have "\<exists>c. consume ops ctx (field ?f) = Some (pause c) \<and> ?Q c"
  proof (rule contract_store.field_reads [OF i _ _ _ _ check_blind_simps(1) [of "''processActionAccount''"]
      blind_finish_account h], goal_cases more pos len room ps s)
    case (ps c)
    then show ?case using st opened_fields(1) [OF ps] by (auto simp: process_state_def processActionAccount_def)
  next
    case (s c)
    let ?c = "advance (of_nat (length ?f)) (c\<lparr>sha256 := h, contractName := v\<rparr>)"
    let ?d = "to_state (next_state (state ?c)) ?c"
    have q: "?Q (?d\<lparr>content := (content ?d)\<lparr>contract := padded 14 (name_text v)\<rparr>\<rparr>)"
      using s i st length_padded_name [of v] by (cases c; cases ctx)
        (simp add: opened_def settled_def to_state_def advance_def work_skip_def idle_def completed_def buffers_ok_def content_ok_def)
    have "contractName ?d = v" by (simp add: to_state_def advance_def work_skip_def)
    then show ?case using q name_stored(1) [OF s] by (simp add: Let_def name_to_string_ends)
  qed (use st in auto)
  then show ?thesis using i by (intro quiet_reads) (auto simp: idle_def)
qed

lemma reads_name:
  assumes i: "idle ctx" and st: "state ctx = TLV_ACTION_NAME"
    and h: "hash_update ops (sha256 ctx) (u64_bytes v) = Some h"
  shows "reads ops ctx (u64_bytes v) STREAM_PROCESSING (\<lambda>c. settled c = (settled ctx)\<lparr>state := TLV_AUTHORIZATION_LIST_SIZE,
    sha256 := h, contractActionName := v, content := (content ctx)\<lparr>action := padded 14 (name_text v)\<rparr>\<rparr>)"
proof -
  let ?f = "u64_bytes v"
  let ?Q = "\<lambda>c. completed c \<and> settled c = (settled ctx)\<lparr>state := TLV_AUTHORIZATION_LIST_SIZE,
    sha256 := h, contractActionName := v, content := (content ctx)\<lparr>action := padded 14 (name_text v)\<rparr>\<rparr>"
  have "\<exists>c. consume ops ctx (field ?f) = Some (pause c) \<and> ?Q c"
  proof (rule action_store.field_reads [OF i _ _ _ _ check_blind_simps(1) [of "''processActionName''"]
      blind_finish_name h], goal_cases more pos len room ps s)
    case (ps c)
    then show ?case using st opened_fields(1) [OF ps] by (auto simp: process_state_def processActionName_def)
  next
    case (s c)
    let ?c = "advance (of_nat (length ?f)) (c\<lparr>sha256 := h, contractActionName := v\<rparr>)"
    let ?d = "to_state (next_state (state ?c)) ?c"
    have q: "?Q (?d\<lparr>content := (content ?d)\<lparr>action := padded 14 (name_text v)\<rparr>\<rparr>)"
      using s i st length_padded_name [of v] by (cases c; cases ctx)
        (simp add: opened_def settled_def to_state_def advance_def work_skip_def idle_def completed_def buffers_ok_def content_ok_def)
    have "contractActionName ?d = v" by (simp add: to_state_def advance_def work_skip_def)
    then show ?case using q name_stored(2) [OF s] by (simp add: Let_def name_to_string_ends)
  qed (use st in auto)
  then show ?thesis using i by (intro quiet_reads) (auto simp: idle_def)
qed

text \<open>The permission ends one authorization.\<close>

lemma reads_permission:
  assumes i: "idle ctx" and st: "state ctx = TLV_AUTHORIZATION_PERMISSION"
    and f: "0 < length f" "length f < 2 ^ 24" and h: "hash_update ops (sha256 ctx) f = Some h"
  shows "reads ops ctx f STREAM_PROCESSING (\<lambda>c. settled c = (settled ctx)
    \<lparr>state := if currentAutorizationIndex ctx + 1 \<noteq> currentAutorizationNumber ctx then TLV_AUTHORIZATION_ACTOR
       else TLV_ACTION_DATA_SIZE,
     sha256 := h, currentAutorizationIndex := currentAutorizationIndex ctx + 1\<rparr>)"
proof -
  let ?Q = "\<lambda>c. completed c \<and> settled c = (settled ctx)
    \<lparr>state := if currentAutorizationIndex ctx + 1 \<noteq> currentAutorizationNumber ctx then TLV_AUTHORIZATION_ACTOR
       else TLV_ACTION_DATA_SIZE,
     sha256 := h, currentAutorizationIndex := currentAutorizationIndex ctx + 1\<rparr>"
  have "\<exists>c. consume ops ctx (field f) = Some (pause c) \<and> ?Q c"
  proof (rule none_store.field_reads [OF i _ f _ check_blind_simps(1) [of "''processAuthorizationPermission''"]
      blind_finish_permission h], goal_cases more room ps s)
    case (ps c)
    then show ?case using st opened_fields(1) [OF ps] by (auto simp: process_state_def processAuthorizationPermission_def)
  next
    case (s c)
    let ?c = "advance (of_nat (length f)) (c\<lparr>sha256 := h\<rparr>)"
    let ?d = "?c\<lparr>currentAutorizationIndex := currentAutorizationIndex ?c + 1, sizeBuffer := zeros 12\<rparr>"
    have "?Q (to_state (if currentAutorizationIndex ?d \<noteq> currentAutorizationNumber ?d then TLV_AUTHORIZATION_ACTOR
        else next_state (state ?d)) ?d)"
      using s i st by (cases c; cases ctx)
        (simp add: opened_def settled_def to_state_def advance_def work_skip_def idle_def completed_def buffers_ok_def)
    then show ?case by (simp add: Let_def store_none_def)
  qed (use st f in auto)
  then show ?thesis using i by (intro quiet_reads) (auto simp: idle_def)
qed

lemma action_bytes_nonempty: "0 < length (action_bytes a)"
  by (cases a) auto

text \<open>The data of an action: the parser stops for its review.\<close>

lemma ready_reads:
  assumes "\<exists>c. consume ops ctx (field f) = Some (pause c) \<and> completed c \<and> settled c = s\<lparr>actionReady := True\<rparr> \<and> P c"
    and q: "\<not> confirmProcessing s" "\<not> actionReady s" and P: "\<And>c. P c \<Longrightarrow> P (blank (c\<lparr>actionReady := False\<rparr>))"
  shows "reads ops ctx f STREAM_ACTION_READY (\<lambda>c. settled c = s \<and> P c)"
proof -
  obtain c where c: "consume ops ctx (field f) = Some (pause c)" "completed c" "settled c = s\<lparr>actionReady := True\<rparr>" "P c"
    using assms(1) by blast
  have k: "\<not> confirmProcessing c" "actionReady c"
    using settledD(2,3) [OF c(3)] q by simp_all
  let ?d = "blank (c\<lparr>confirmProcessing := False, actionReady := False\<rparr>)"
  have e: "c\<lparr>confirmProcessing := False, actionReady := False\<rparr> = c\<lparr>actionReady := False\<rparr>"
    using k by (cases c) simp
  have "settled ?d = s"
    using c(3) q by (cases s) (simp add: settled_flags)
  moreover have "P ?d" unfolding e using P [OF c(4)] .
  ultimately have "reads ops ctx f (snd (snd (pause c))) (\<lambda>c. settled c = s \<and> P c)"
    using c(1,2) k(1) by (intro pause_reads) simp_all
  then show ?thesis using k by (simp add: pause_def)
qed

lemma reads_data:
  assumes i: "idle ctx" and st: "state ctx = TLV_ACTION_DATA"
    and a: "contractActionName ctx = action_name a" "is_transfer a \<or> contractName ctx = EOSIO"
    and len: "length (action_bytes a) \<le> 511" and fine: "action_fine ripemd160 a"
    and h: "hash_update ops (sha256 ctx) (action_bytes a) = Some h"
    and nxt: "s = (if currentActionIndex ctx + 1 < currentActionNumber ctx then TLV_ACTION_ACCOUNT else TLV_TX_EXTENSION_LIST_SIZE)"
  shows "reads ops ctx (action_bytes a) STREAM_ACTION_READY (\<lambda>c. settled c = (settled ctx)\<lparr>state := s,
    sha256 := h, currentActionIndex := currentActionIndex ctx + 1,
    content := (content ctx)\<lparr>argumentCount := of_nat (length (action_screens ripemd160 a))\<rparr>\<rparr> \<and> holds_action c a)"
proof -
  let ?f = "action_bytes a"
  let ?s = "(settled ctx)\<lparr>state := s, sha256 := h, currentActionIndex := currentActionIndex ctx + 1,
    content := (content ctx)\<lparr>argumentCount := of_nat (length (action_screens ripemd160 a))\<rparr>\<rparr>"
  let ?Q = "\<lambda>c. completed c \<and> settled c = ?s\<lparr>actionReady := True\<rparr> \<and> holds_action c a"
  have known: "isKnownAction ctx" using known_action [OF a] .
  have u: "unat (of_nat (length ?f) :: u32) = length ?f" using len by (intro unat_of_nat_small) simp
  have "\<exists>c. consume ops ctx (field ?f) = Some (pause c) \<and> ?Q c"
  proof (rule data_store.field_reads [OF i _ _ _ _ check_blind_simps(2) blind_finish_data h], goal_cases more pos small room ps s)
    case (ps c)
    have "currentFieldLength c \<le> 511" using ps u len by (simp add: opened_def word_le_nat_alt)
    then show ?case using st known opened_fields(1,15) [OF ps] by (simp add: process_state_def processActionData_def LEDGER_ASSERT_def)
  next
    case (s c)
    note of = opened_fields [OF s]
    have la: "length (actionDataBuffer c) = 512" using s by (simp add: opened_def buffers_ok_def)
    define b where "b = ?f @ drop (length ?f) (actionDataBuffer c)"
    define c1 where "c1 = c\<lparr>sha256 := h, actionDataBuffer := b\<rparr>"
    have lb: "length b = 512" using la len by (simp add: b_def)
    have store: "store_data ?f (c\<lparr>sha256 := h\<rparr>) = Inr c1"
      using s la len by (simp add: store_data_def mem_write_def opened_def b_def c1_def)
    let ?c = "advance (of_nat (length ?f)) c1"
    let ?d = "?c\<lparr>currentActionDataBufferLength := currentFieldLength ?c\<rparr>"
    have "holds_action ?d a"
      using a len lb s of by (simp add: holds_action_def c1_def opened_def advance_def work_skip_def) (simp add: b_def)
    then have count: "count_arguments ?d = Inr (set_count (of_nat (length (action_screens ripemd160 a))) ?d)"
      using fine by (rule count_arguments_counts)
    have hd: "holds_action (after_action (set_count n ?d)) a = holds_action ?d a" for n
      by (simp add: holds_action_def after_action_def to_state_def set_count_def)
    have "settled (after_action (set_count (of_nat (length (action_screens ripemd160 a))) ?d)) = ?s\<lparr>actionReady := True\<rparr>"
      using s i by (cases c; cases ctx) (simp add: opened_def settled_def after_action_def to_state_def set_count_def c1_def
          advance_def work_skip_def idle_def nxt Let_def)
    moreover have "completed (after_action (set_count (of_nat (length (action_screens ripemd160 a))) ?d))"
      using s lb by (cases c) (simp add: opened_def completed_def after_action_def to_state_def set_count_def c1_def
          advance_def work_skip_def buffers_ok_def content_ok_def Let_def)
    ultimately have "?Q (after_action (set_count (of_nat (length (action_screens ripemd160 a))) ?d))"
      using hd \<open>holds_action ?d a\<close> by simp
    then show ?case using store count by (simp add: Let_def)
  qed (use st len action_bytes_nonempty in auto)
  then show ?thesis using i by (intro ready_reads) (auto simp: idle_def holds_action_def blank_def)
qed

text \<open>An action the application cannot decode: its size and its data go to the second hash as well.\<close>

lemma reads_unknown_size:
  assumes i: "idle ctx" and st: "state ctx = TLV_ACTION_DATA_SIZE" and k: "\<not> isKnownAction ctx" "dataAllowed ctx \<noteq> 0"
    and f: "0 < length f" "length f < 2 ^ 24" and h: "hash_update ops (sha256 ctx) f = Some h"
    and h2: "hash_update ops (dataSha256 ctx) f = Some h2"
  shows "reads ops ctx f STREAM_PROCESSING
    (\<lambda>c. settled c = (settled ctx)\<lparr>state := TLV_ACTION_DATA, sha256 := h, dataSha256 := h2\<rparr>)"
proof -
  let ?Q = "\<lambda>c. completed c \<and> settled c = (settled ctx)\<lparr>state := TLV_ACTION_DATA, sha256 := h, dataSha256 := h2\<rparr>"
  have "\<exists>c. consume ops ctx (field f) = Some (pause c) \<and> ?Q c"
  proof (rule hash_store.field_reads [where ops = ops and opsa = ops, OF i _ f _ check_blind_simps(1) [of "''processUnknownActionDataSize''"]
      blind_finish_field h], goal_cases more room ps s)
    case (ps c)
    then show ?case using st k opened_fields(1,13,15) [OF ps] by (simp add: process_state_def processUnknownActionDataSize_def)
  next
    case (s c)
    let ?c = "advance (of_nat (length f)) (c\<lparr>sha256 := h, dataSha256 := h2\<rparr>)"
    have "?Q (to_state (next_state (state ?c)) ?c)"
      using s i st by (cases c; cases ctx)
        (simp add: opened_def settled_def to_state_def advance_def work_skip_def idle_def completed_def buffers_ok_def)
    then show ?case using h2 opened_fields(5) [OF s] by (simp add: hashActionData_def CX_ASSERT_def)
  qed (use st f in auto)
  then show ?thesis using i by (intro quiet_reads) (auto simp: idle_def)
qed

lemma reads_unknown_data:
  assumes i: "idle ctx" and st: "state ctx = TLV_ACTION_DATA" and k: "\<not> isKnownAction ctx" "dataAllowed ctx = 1"
    and f: "0 < length f" "length f < 2 ^ 24" and h: "hash_update ops (sha256 ctx) f = Some h"
    and h2: "hash_update ops (dataSha256 ctx) f = Some h2" "hash_final ops h2 = Some (digest, h3)" and d: "digest_32 ops"
    and nxt: "s = (if currentActionIndex ctx + 1 < currentActionNumber ctx then TLV_ACTION_ACCOUNT else TLV_TX_EXTENSION_LIST_SIZE)"
  shows "reads ops ctx f STREAM_ACTION_READY (\<lambda>c. settled c = (settled ctx)\<lparr>state := s,
    sha256 := h, dataSha256 := hash_init ops, currentActionIndex := currentActionIndex ctx + 1,
    content := (content ctx)\<lparr>argumentCount := 3\<rparr>\<rparr> \<and> dataChecksum c = digest)"
proof -
  let ?s = "(settled ctx)\<lparr>state := s, sha256 := h, dataSha256 := hash_init ops,
    currentActionIndex := currentActionIndex ctx + 1, content := (content ctx)\<lparr>argumentCount := 3\<rparr>\<rparr>"
  let ?Q = "\<lambda>c. completed c \<and> settled c = ?s\<lparr>actionReady := True\<rparr> \<and> dataChecksum c = digest"
  have "\<exists>c. consume ops ctx (field f) = Some (pause c) \<and> ?Q c"
  proof (rule hash_store.field_reads [where ops = ops and opsa = ops, OF i _ f _ check_blind_simps(1) [of "''processUnknownActionData''"]
      blind_finish_unknown [of ops] h], goal_cases more room ps s)
    case (ps c)
    then show ?case using st k opened_fields(1,13,15) [OF ps] by (simp add: process_state_def processUnknownActionData_def)
  next
    case (s c)
    define c1 where "c1 = c\<lparr>sha256 := h, dataSha256 := h2\<rparr>"
    have store: "hashActionData ops f (c\<lparr>sha256 := h\<rparr>) = Inr c1"
      using h2 opened_fields(5) [OF s] by (simp add: hashActionData_def CX_ASSERT_def c1_def)
    let ?c = "advance (of_nat (length f)) c1"
    let ?d = "?c\<lparr>currentActionDataBufferLength := currentFieldLength ?c\<rparr>"
    let ?e = "set_count 3 (?d\<lparr>dataSha256 := h3, dataChecksum := digest\<rparr>)"
    have dd: "dataSha256 ?d = h2" by (simp add: c1_def advance_def work_skip_def)
    then have count: "processUnknownAction ops ?d = Inr ?e"
      using h2(2) unfolding processUnknownAction_def dd by (simp add: CX_ASSERT_def)
    have ld: "length digest = 32" using digest_32D [OF d h2(2)] by simp
    have "settled ((after_action ?e)\<lparr>dataSha256 := hash_init ops\<rparr>) = ?s\<lparr>actionReady := True\<rparr>"
      using s i by (cases c; cases ctx) (simp add: opened_def settled_def after_action_def to_state_def set_count_def c1_def
          advance_def work_skip_def idle_def nxt Let_def)
    moreover have "completed ((after_action ?e)\<lparr>dataSha256 := hash_init ops\<rparr>)"
      using s ld by (cases c) (simp add: opened_def completed_def after_action_def to_state_def set_count_def c1_def
          advance_def work_skip_def buffers_ok_def content_ok_def Let_def)
    moreover have "dataChecksum ((after_action ?e)\<lparr>dataSha256 := hash_init ops\<rparr>) = digest"
      by (simp add: after_action_def to_state_def set_count_def Let_def)
    ultimately have "?Q ((after_action ?e)\<lparr>dataSha256 := hash_init ops\<rparr>)" by blast
    then show ?case using store count by (simp add: Let_def)
  qed (use st f in auto)
  then show ?thesis using i by (intro ready_reads) (auto simp: idle_def blank_def)
qed

section \<open>Sequences of fields\<close>

text \<open>
  Feeding one field after the other, with approvals: \<open>Q\<close> holds of the reviews and the context at
  the end.
\<close>

type_synonym 'h review = "parserStatus_e \<times> 'h txProcessingContext_t"

primrec runs_to :: "'h hash_ops \<Rightarrow> 'h txProcessingContext_t \<Rightarrow> bytes list
    \<Rightarrow> ('h review list \<Rightarrow> 'h txProcessingContext_t \<Rightarrow> bool) \<Rightarrow> bool" where
  "runs_to ops ctx [] Q = Q [] ctx"
| "runs_to ops ctx (f # fs) Q = (\<exists>c status. consume ops ctx (field f) = Some (c, [], status) \<and> idle c
     \<and> (status = STREAM_PROCESSING \<and> runs_to ops c fs Q
        \<or> asks status \<and> runs_to ops c fs (\<lambda>log. Q ((status, c) # log))))"

lemma runs_to_mono: "runs_to ops ctx fs P \<Longrightarrow> (\<And>log c. P log c \<Longrightarrow> Q log c) \<Longrightarrow> runs_to ops ctx fs Q"
proof (induction fs arbitrary: ctx P Q)
  case (Cons f fs)
  then show ?case by simp metis
qed simp

lemma runs_to_append:
  "runs_to ops ctx (fs @ gs) Q = runs_to ops ctx fs (\<lambda>log c. runs_to ops c gs (\<lambda>log'. Q (log @ log')))"
  by (induction fs arbitrary: ctx Q) simp_all

lemma runs_quiet:
  assumes "reads ops ctx f STREAM_PROCESSING P" and "\<And>c. idle c \<Longrightarrow> P c \<Longrightarrow> runs_to ops c fs Q"
  shows "runs_to ops ctx (f # fs) Q"
  using assms by (auto simp: reads_def)

lemma runs_ask:
  assumes "reads ops ctx f status P" and "asks status"
    and "\<And>c. idle c \<Longrightarrow> P c \<Longrightarrow> runs_to ops c fs (\<lambda>log. Q ((status, c) # log))"
  shows "runs_to ops ctx (f # fs) Q"
  using assms by (auto simp: reads_def)

definition fields_bytes :: "bytes list \<Rightarrow> bytes" where
  "fields_bytes fs = concat (map field fs)"

text \<open>A run over the fields is a session with one command.\<close>

lemma runs_to_session:
  assumes law: "incremental ops" and d: "digest_32 ops"
  shows "runs_to ops ctx fs (\<lambda>log c. P log c) \<Longrightarrow> idle ctx \<Longrightarrow> length (fields_bytes fs @ rest) < 2 ^ 32 \<Longrightarrow>
    \<exists>log c. P log c \<and> (\<forall>log'. session ops c [rest] log' \<longrightarrow> session ops ctx [fields_bytes fs @ rest] (log @ log'))"
proof (induction fs arbitrary: ctx P)
  case Nil
  then show ?case by (intro exI [of _ "[]"] exI [of _ ctx]) (simp add: fields_bytes_def)
next
  case (Cons f fs)
  obtain c st where c: "consume ops ctx (field f) = Some (c, [], st)" "idle c"
    "st = STREAM_PROCESSING \<and> runs_to ops c fs P \<or> asks st \<and> runs_to ops c fs (\<lambda>log. P ((st, c) # log))"
    using Cons.prems(1) by auto
  let ?bs = "fields_bytes fs @ rest"
  have len: "length (field f) + length ?bs < 2 ^ 32" and len': "length ?bs < 2 ^ 32"
    using Cons.prems(3) by (simp_all add: fields_bytes_def)
  have split: "fields_bytes (f # fs) @ rest = field f @ ?bs" by (simp add: fields_bytes_def)
  note app = consume_append [OF idle_rest_ok [OF Cons.prems(2)] len law d]
  from c(3) show ?case
  proof (elim disjE conjE)
    assume st: "st = STREAM_PROCESSING" and r: "runs_to ops c fs P"
    have "consume ops ctx (field f @ ?bs) = consume ops c ?bs" using app c(1) st by simp
    then have "session ops ctx [field f @ ?bs] log = session ops c [?bs] log" for log by (rule session_cong)
    then show ?thesis using Cons.IH [OF r c(2) len'] unfolding split by simp
  next
    assume st: "asks st" and r: "runs_to ops c fs (\<lambda>log. P ((st, c) # log))"
    have "consume ops ctx (field f @ ?bs) = Some (c, ?bs, st)"
      using app c(1) st asks_stops(1) [of st] by auto
    then have "session ops c [?bs] log \<Longrightarrow> session ops ctx [field f @ ?bs] ((st, c) # log)" for log
      using st by (rule session_review)
    then show ?thesis using Cons.IH [OF r c(2) len'] unfolding split by (metis append_Cons)
  qed
qed

section \<open>Transactions\<close>

text \<open>
  The actions of a transaction: one the application can decode, or any other name with any data. The
  authorizations are pairs of an actor and a permission.
\<close>

datatype act_body = Decoded eos_action | Opaque u64 bytes

fun body_name :: "act_body \<Rightarrow> u64" where
  "body_name (Decoded b) = action_name b"
| "body_name (Opaque name bs) = name"

fun body_bytes :: "act_body \<Rightarrow> bytes" where
  "body_bytes (Decoded b) = action_bytes b"
| "body_bytes (Opaque name bs) = bs"

record act =
  act_account :: u64
  act_auths :: "(u64 \<times> u64) list"
  act_body :: act_body

definition auth_fields :: "(u64 \<times> u64) list \<Rightarrow> bytes list" where
  "auth_fields auths = concat (map (\<lambda>(actor, permission). [u64_bytes actor, u64_bytes permission]) auths)"

definition action_fields :: "act \<Rightarrow> bytes list" where
  "action_fields a =
     [u64_bytes (act_account a), u64_bytes (body_name (act_body a)), leb_bytes (length (act_auths a))]
     @ auth_fields (act_auths a)
     @ [leb_bytes (length (body_bytes (act_body a))), body_bytes (act_body a)]"

record transaction =
  tx_chain_id :: bytes
  tx_expiration :: u32
  tx_ref_block_num :: u16
  tx_ref_block_prefix :: u32
  tx_max_net :: nat
  tx_max_cpu :: u8
  tx_delay :: nat
  tx_actions :: "act list"
  tx_free_data :: bytes

definition header_fields :: "transaction \<Rightarrow> bytes list" where
  "header_fields t = [tx_chain_id t, u32_bytes (tx_expiration t), u16_bytes (tx_ref_block_num t),
     u32_bytes (tx_ref_block_prefix t), leb_bytes (tx_max_net t), [tx_max_cpu t], leb_bytes (tx_delay t)]"

definition tx_fields :: "transaction \<Rightarrow> bytes list" where
  "tx_fields t = header_fields t @ [[0], leb_bytes (length (tx_actions t))]
     @ concat (map action_fields (tx_actions t)) @ [[0], tx_free_data t]"

text \<open>What the host sends, and what is signed.\<close>

definition encoding :: "transaction \<Rightarrow> bytes" where
  "encoding t = fields_bytes (tx_fields t)"

definition signed_bytes :: "transaction \<Rightarrow> bytes" where
  "signed_bytes t = concat (tx_fields t)"

definition decodable :: "u64 \<Rightarrow> u64 \<Rightarrow> bool" where
  "decodable account name \<longleftrightarrow> (\<exists>b. name = action_name b \<and> (is_transfer b \<or> account = EOSIO))"

definition hash_of :: "'h hash_ops \<Rightarrow> bytes \<Rightarrow> bytes option" where
  "hash_of ops bs = Option.bind (hash_update ops (hash_init ops) bs) (\<lambda>h. map_option fst (hash_final ops h))"

definition body_ok :: "'h hash_ops \<Rightarrow> (bytes \<Rightarrow> bytes option) \<Rightarrow> bool \<Rightarrow> u64 \<Rightarrow> act_body \<Rightarrow> bool" where
  "body_ok ops ripemd160 allowed account b \<longleftrightarrow>
     (case b of
        Decoded b \<Rightarrow> (is_transfer b \<or> account = EOSIO) \<and> length (action_bytes b) \<le> 511 \<and> action_fine ripemd160 b
      | Opaque name bs \<Rightarrow> \<not> decodable account name \<and> allowed \<and> bs \<noteq> [] \<and> length bs < 2 ^ 24
          \<and> hash_of ops (leb_bytes (length bs) @ bs) \<noteq> None)"

definition act_ok :: "'h hash_ops \<Rightarrow> (bytes \<Rightarrow> bytes option) \<Rightarrow> bool \<Rightarrow> act \<Rightarrow> bool" where
  "act_ok ops ripemd160 allowed a \<longleftrightarrow> act_auths a \<noteq> [] \<and> length (act_auths a) < 2 ^ 32
     \<and> body_ok ops ripemd160 allowed (act_account a) (act_body a)"

text \<open>
  The context-free data may be any 32 bytes: the protocol document wants them zero, and the parser takes and
  hashes what it gets.
\<close>

definition tx_ok :: "'h hash_ops \<Rightarrow> (bytes \<Rightarrow> bytes option) \<Rightarrow> bool \<Rightarrow> transaction \<Rightarrow> bool" where
  "tx_ok ops ripemd160 allowed t \<longleftrightarrow> length (tx_chain_id t) = 32 \<and> length (tx_free_data t) = 32
     \<and> tx_max_net t < 2 ^ 32 \<and> tx_delay t < 2 ^ 32
     \<and> tx_actions t \<noteq> [] \<and> length (tx_actions t) < 2 ^ 32 \<and> list_all (act_ok ops ripemd160 allowed) (tx_actions t)"

text \<open>What the user has in front of them when the parser stops for action \<open>a\<close>, the \<open>i\<close>-th of \<open>n\<close>.\<close>

definition presents :: "'h hash_ops \<Rightarrow> (bytes \<Rightarrow> bytes option) \<Rightarrow> nat \<Rightarrow> nat \<Rightarrow> act \<Rightarrow> 'h txProcessingContext_t \<Rightarrow> bool" where
  "presents ops ripemd160 n i a c \<longleftrightarrow> currentActionNumber c = of_nat n \<and> currentActionIndex c = of_nat (Suc i)
     \<and> contract (content c) = padded 14 (name_text (act_account a))
     \<and> action (content c) = padded 14 (name_text (body_name (act_body a)))
     \<and> (case act_body a of
          Decoded b \<Rightarrow> holds_action c b \<and> argumentCount (content c) = of_nat (length (action_screens ripemd160 b))
        | Opaque name bs \<Rightarrow> argumentCount (content c) = 3 \<and> dataAllowed c = 1 \<and> \<not> isKnownAction c
            \<and> hash_of ops (leb_bytes (length bs) @ bs) = Some (dataChecksum c))"

definition kinds :: "eos_action list" where
  "kinds = [Delegate 0 0 (0, 0) (0, 0) 0, Undelegate 0 0 (0, 0) (0, 0), Refund 0, BuyRam 0 0 (0, 0),
     BuyRamBytes 0 0 0, SellRam 0 0, VoteProducer 0 0 [], UpdateAuth 0 0 0 (one_key []), DeleteAuth 0 0,
     LinkAuth 0 0 0 0, UnlinkAuth 0 0 0, NewAccount 0 0 [] []]"

lemma isKnownAction_decodable: "isKnownAction ctx = decodable (contractName ctx) (contractActionName ctx)"
proof
  assume "isKnownAction ctx"
  then have "contractActionName ctx = action_name (Transfer 0 0 (0, 0) []) \<or> contractName ctx = EOSIO
      \<and> (\<exists>a \<in> set kinds. contractActionName ctx = action_name a)"
    by (auto simp: isKnownAction_def kinds_def)
  then show "decodable (contractName ctx) (contractActionName ctx)"
    unfolding decodable_def by (metis is_transfer.simps(1))
qed (use known_action in \<open>auto simp: decodable_def\<close>)

text \<open>Hashing field by field is hashing the whole.\<close>

lemma hash_append:
  "incremental ops \<Longrightarrow> hash_update ops h (xs @ ys) = Some h' \<longleftrightarrow>
     (\<exists>h1. hash_update ops h xs = Some h1 \<and> hash_update ops h1 ys = Some h')"
  by (auto simp: incremental_def split: Option.bind_splits)

lemma hash_Nil: "incremental ops \<Longrightarrow> hash_update ops h [] = Some h"
  by (simp add: incremental_def)

lemma hash_Cons:
  "incremental ops \<Longrightarrow> hash_update ops h (concat (f # fs)) = Some h' \<longleftrightarrow>
     (\<exists>h1. hash_update ops h f = Some h1 \<and> hash_update ops h1 (concat fs) = Some h')"
  by (simp add: hash_append)

text \<open>The parser in front of a field of action \<open>i\<close> of \<open>n\<close>, with the first fields hashed to \<open>h\<close>.\<close>

definition stands :: "'h hash_ops \<Rightarrow> u8 \<Rightarrow> nat \<Rightarrow> nat \<Rightarrow> txProcessingState_e \<Rightarrow> 'h \<Rightarrow> 'h txProcessingContext_t \<Rightarrow> bool" where
  "stands ops allowed n i s h ctx \<longleftrightarrow> idle ctx \<and> state ctx = s \<and> sha256 ctx = h \<and> currentActionNumber ctx = of_nat n
     \<and> currentActionIndex ctx = of_nat i \<and> dataSha256 ctx = hash_init ops \<and> dataAllowed ctx = allowed"

lemma reads_quiet:
  assumes "idle ctx" and "state ctx = s" and "plain_state s" and "s \<noteq> TLV_CONTEXT_FREE_DATA"
    and "0 < length f" and "length f < 2 ^ 24" and "hash_update ops (sha256 ctx) f = Some h"
  shows "reads ops ctx f STREAM_PROCESSING (\<lambda>c. settled c = (settled ctx)\<lparr>state := next_state s, sha256 := h\<rparr>)"
  using reads_plain [of ctx f ops h] assms by simp

lemma runs_auths:
  assumes law: "incremental ops"
  shows "idle ctx \<Longrightarrow> state ctx = TLV_AUTHORIZATION_ACTOR \<Longrightarrow> auths \<noteq> [] \<Longrightarrow>
    currentAutorizationNumber ctx = of_nat k \<Longrightarrow> currentAutorizationIndex ctx = of_nat (k - length auths) \<Longrightarrow>
    length auths \<le> k \<Longrightarrow> k < 2 ^ 32 \<Longrightarrow> hash_update ops (sha256 ctx) (concat (auth_fields auths)) = Some h \<Longrightarrow>
    runs_to ops ctx (auth_fields auths) (\<lambda>log c. log = [] \<and> idle c \<and> settled c =
      (settled ctx)\<lparr>state := TLV_ACTION_DATA_SIZE, sha256 := h, currentAutorizationIndex := of_nat k\<rparr>)"
proof (induction auths arbitrary: ctx)
  case (Cons a auths)
  obtain actor permission where a: "a = (actor, permission)" by (cases a)
  have fs: "auth_fields (a # auths) = u64_bytes actor # u64_bytes permission # auth_fields auths"
    by (simp add: auth_fields_def a)
  obtain h1 h2 where h: "hash_update ops (sha256 ctx) (u64_bytes actor) = Some h1"
    "hash_update ops h1 (u64_bytes permission) = Some h2" "hash_update ops h2 (concat (auth_fields auths)) = Some h"
    using Cons.prems(8) unfolding fs by (auto simp: hash_Cons [OF law] simp del: concat.simps)
  let ?k = "k - length auths"
  have k: "0 < ?k" "k - length (a # auths) = ?k - 1" "?k \<le> k" using Cons.prems(6) by simp_all
  have next_index: "of_nat (?k - 1) + 1 = (of_nat ?k :: u32)" using k(1) by (simp add: of_nat_diff)
  have "unat (of_nat ?k :: u32) = ?k" "unat (of_nat k :: u32) = k"
    using Cons.prems(7) by (simp_all add: unat_of_nat_small)
  then have "(of_nat ?k :: u32) = of_nat k \<longleftrightarrow> ?k = k" by metis
  moreover have "?k = k \<longleftrightarrow> auths = []" using Cons.prems(6) by (cases auths) auto
  ultimately have last: "(of_nat ?k :: u32) = of_nat k \<longleftrightarrow> auths = []" by simp
  show ?case
    unfolding fs
  proof (rule runs_quiet [OF reads_quiet [OF Cons.prems(1,2) _ _ _ _ h(1)]], goal_cases plain other pos small permission)
    case (permission c)
    have c: "state c = TLV_AUTHORIZATION_PERMISSION" "sha256 c = h1" "currentAutorizationNumber c = of_nat k"
      "currentAutorizationIndex c = of_nat (?k - 1)"
      using settledD(1,4,8,9) [OF permission(2)] Cons.prems(4,5) k(2) by simp_all
    show ?case
    proof (rule runs_quiet [OF reads_permission [where h = h2]], goal_cases i st pos small hash rest)
      case (rest c')
      have s': "settled c' = (settled ctx)\<lparr>state := if auths = [] then TLV_ACTION_DATA_SIZE else TLV_AUTHORIZATION_ACTOR,
          sha256 := h2, currentAutorizationIndex := of_nat ?k\<rparr>"
        using rest(2) unfolding permission(2) c(3,4) next_index last by simp
      note c' = settledD(1,4,8,9) [OF s']
      show ?case
      proof (cases "auths = []")
        case True
        then show ?thesis
          using rest(1) s' h(3) k(3) hash_Nil [OF law] by (simp add: auth_fields_def)
      next
        case False
        have "runs_to ops c' (auth_fields auths) (\<lambda>log c. log = [] \<and> idle c \<and> settled c =
          (settled c')\<lparr>state := TLV_ACTION_DATA_SIZE, sha256 := h, currentAutorizationIndex := of_nat k\<rparr>)"
        proof (rule Cons.IH)
          show "state c' = TLV_AUTHORIZATION_ACTOR" "currentAutorizationNumber c' = of_nat k"
            "currentAutorizationIndex c' = of_nat ?k" "hash_update ops (sha256 c') (concat (auth_fields auths)) = Some h"
            using c' False h(3) Cons.prems(4) by simp_all
        qed (use False rest(1) Cons.prems(6,7) in simp_all)
        then show ?thesis
          by (rule runs_to_mono) (use s' in simp)
      qed
    qed (use permission(1) c h(2) in simp_all)
  qed (simp_all add: plain_state_def)
qed simp

lemma index_next:
  assumes "i < n" and "n < 2 ^ 32"
  shows "of_nat i + 1 < (of_nat n :: u32) \<longleftrightarrow> Suc i < n"
proof -
  have "unat (of_nat (Suc i) :: u32) = Suc i" "unat (of_nat n :: u32) = n"
    using assms by (intro unat_of_nat_small; simp)+
  moreover have "of_nat i + 1 = (of_nat (Suc i) :: u32)" by simp
  ultimately show ?thesis by (metis word_less_nat_alt)
qed

text \<open>The last two fields of an action: the size of its data and the data.\<close>

lemma runs_body:
  assumes law: "incremental ops" and d: "digest_32 ops"
    and s: "stands ops allowed n i TLV_ACTION_DATA_SIZE h ctx" and i: "i < n" "n < 2 ^ 32"
    and names: "contractName ctx = account" "contractActionName ctx = body_name b"
    and shown: "contract (content ctx) = account_text" "action (content ctx) = name_text'"
    and ok: "body_ok ops ripemd160 (allowed = 1) account b"
    and h: "hash_update ops h (concat [leb_bytes (length (body_bytes b)), body_bytes b]) = Some h'"
  shows "runs_to ops ctx [leb_bytes (length (body_bytes b)), body_bytes b]
    (\<lambda>log c. log = [(STREAM_ACTION_READY, c)]
      \<and> stands ops allowed n (Suc i) (if Suc i < n then TLV_ACTION_ACCOUNT else TLV_TX_EXTENSION_LIST_SIZE) h' c
      \<and> contract (content c) = account_text \<and> action (content c) = name_text'
      \<and> (case b of
          Decoded b \<Rightarrow> holds_action c b \<and> argumentCount (content c) = of_nat (length (action_screens ripemd160 b))
        | Opaque name bs \<Rightarrow> argumentCount (content c) = 3 \<and> dataAllowed c = 1 \<and> \<not> isKnownAction c
            \<and> hash_of ops (leb_bytes (length bs) @ bs) = Some (dataChecksum c)))"
proof -
  note st = s [unfolded stands_def]
  have known: "isKnownAction ctx = decodable account (body_name b)" using names by (simp add: isKnownAction_decodable)
  note idx = index_next [OF i]
  obtain h1 where h1: "hash_update ops h (leb_bytes (length (body_bytes b))) = Some h1" "hash_update ops h1 (body_bytes b) = Some h'"
    using h by (auto simp: hash_append [OF law])
  show ?thesis
  proof (cases b)
    case (Decoded e)
    have e: "is_transfer e \<or> account = EOSIO" "length (action_bytes e) \<le> 511" "action_fine ripemd160 e"
      using ok by (simp_all add: Decoded body_ok_def)
    have lb: "0 < length (leb_bytes (length (action_bytes e)))" "length (leb_bytes (length (action_bytes e))) < 2 ^ 24"
      using leb_length [of "length (action_bytes e)"] e(2) by simp_all
    have kn: "isKnownAction ctx" using known e(1) by (auto simp: Decoded decodable_def)
    have quiet: "reads ops ctx (leb_bytes (length (action_bytes e))) STREAM_PROCESSING
        (\<lambda>c. settled c = (settled ctx)\<lparr>state := TLV_ACTION_DATA, sha256 := h1\<rparr>)"
      using reads_plain [of ctx "leb_bytes (length (action_bytes e))" ops h1] st kn lb h1(1) by (simp add: Decoded)
    show ?thesis
      unfolding Decoded body_bytes.simps act_body.case
    proof (rule runs_quiet [OF quiet])
      fix c assume c: "idle c" "settled c = (settled ctx)\<lparr>state := TLV_ACTION_DATA, sha256 := h1\<rparr>"
      have f: "state c = TLV_ACTION_DATA" "sha256 c = h1" "contractActionName c = action_name e" "contractName c = account"
        "currentActionIndex c = of_nat i" "currentActionNumber c = of_nat n"
        using settledD(1,4,6,7,10,11) [OF c(2)] st names by (simp_all add: Decoded)
      have r: "reads ops c (action_bytes e) STREAM_ACTION_READY (\<lambda>c'. settled c' = (settled c)\<lparr>
          state := if Suc i < n then TLV_ACTION_ACCOUNT else TLV_TX_EXTENSION_LIST_SIZE, sha256 := h',
          currentActionIndex := currentActionIndex c + 1,
          content := (content c)\<lparr>argumentCount := of_nat (length (action_screens ripemd160 e))\<rparr>\<rparr> \<and> holds_action c' e)"
        by (rule reads_data [OF c(1) f(1,3) _ e(2,3)]) (use f e(1) h1(2) idx in \<open>simp_all add: Decoded\<close>)
      show "runs_to ops c [action_bytes e] (\<lambda>log c. log = [(STREAM_ACTION_READY, c)]
        \<and> stands ops allowed n (Suc i) (if Suc i < n then TLV_ACTION_ACCOUNT else TLV_TX_EXTENSION_LIST_SIZE) h' c
        \<and> contract (content c) = account_text \<and> action (content c) = name_text' \<and> holds_action c e
        \<and> argumentCount (content c) = of_nat (length (action_screens ripemd160 e)))"
      proof (rule runs_ask [OF r], goal_cases asks rest)
        case (rest c')
        have "settled c' = (settled ctx)\<lparr>state := if Suc i < n then TLV_ACTION_ACCOUNT else TLV_TX_EXTENSION_LIST_SIZE,
            sha256 := h', currentActionIndex := of_nat i + 1,
            content := (content ctx)\<lparr>argumentCount := of_nat (length (action_screens ripemd160 e))\<rparr>\<rparr>"
          using rest(2) settledD(13) [OF c(2)] f(5) unfolding c(2) by simp
        note f' = settledD(1,4,5,6,7,12,13) [OF this]
        show ?case using rest f' st shown by (simp add: stands_def add.commute)
      qed (simp add: asks_def)
    qed
  next
    case (Opaque name bs)
    have e: "\<not> decodable account name" "allowed = 1" "0 < length bs" "length bs < 2 ^ 24"
      "hash_of ops (leb_bytes (length bs) @ bs) \<noteq> None"
      using ok by (simp_all add: Opaque body_ok_def)
    have lb: "0 < length (leb_bytes (length bs))" "length (leb_bytes (length bs)) < 2 ^ 24"
      using leb_length [of "length bs"] e(4) by simp_all
    obtain g2 g3 digest where g: "hash_update ops (hash_init ops) (leb_bytes (length bs) @ bs) = Some g2"
      "hash_final ops g2 = Some (digest, g3)" using e(5) by (auto simp: hash_of_def split: Option.bind_splits)
    then have ho: "hash_of ops (leb_bytes (length bs) @ bs) = Some digest" by (simp add: hash_of_def)
    obtain g1 where g1: "hash_update ops (hash_init ops) (leb_bytes (length bs)) = Some g1" "hash_update ops g1 bs = Some g2"
      using g(1) by (auto simp: hash_append [OF law])
    have kn: "\<not> isKnownAction ctx" using known e(1) by (simp add: Opaque)
    have quiet: "reads ops ctx (leb_bytes (length bs)) STREAM_PROCESSING
        (\<lambda>c. settled c = (settled ctx)\<lparr>state := TLV_ACTION_DATA, sha256 := h1, dataSha256 := g1\<rparr>)"
      by (rule reads_unknown_size) (use st kn e(2) lb h1(1) g1(1) in \<open>simp_all add: Opaque\<close>)
    show ?thesis
      unfolding Opaque body_bytes.simps act_body.case
    proof (rule runs_quiet [OF quiet])
      fix c assume c: "idle c" "settled c = (settled ctx)\<lparr>state := TLV_ACTION_DATA, sha256 := h1, dataSha256 := g1\<rparr>"
      have f: "state c = TLV_ACTION_DATA" "sha256 c = h1" "dataSha256 c = g1" "dataAllowed c = 1"
        "currentActionIndex c = of_nat i" "currentActionNumber c = of_nat n"
        using settledD(1,4,5,6,7,12) [OF c(2)] st e(2) by simp_all
      have kc: "\<not> isKnownAction c" using kn settledD(10,11) [OF c(2)] by (simp add: isKnownAction_def)
      have r: "reads ops c bs STREAM_ACTION_READY (\<lambda>c'. settled c' = (settled c)\<lparr>
          state := if Suc i < n then TLV_ACTION_ACCOUNT else TLV_TX_EXTENSION_LIST_SIZE, sha256 := h',
          dataSha256 := hash_init ops, currentActionIndex := currentActionIndex c + 1,
          content := (content c)\<lparr>argumentCount := 3\<rparr>\<rparr> \<and> dataChecksum c' = digest)"
        by (rule reads_unknown_data [OF c(1) f(1) kc f(4) e(3,4) _ _ g(2) d]) (use f h1(2) g1(2) idx in \<open>simp_all add: Opaque\<close>)
      show "runs_to ops c [bs] (\<lambda>log c. log = [(STREAM_ACTION_READY, c)]
        \<and> stands ops allowed n (Suc i) (if Suc i < n then TLV_ACTION_ACCOUNT else TLV_TX_EXTENSION_LIST_SIZE) h' c
        \<and> contract (content c) = account_text \<and> action (content c) = name_text'
        \<and> argumentCount (content c) = 3 \<and> dataAllowed c = 1 \<and> \<not> isKnownAction c
        \<and> hash_of ops (leb_bytes (length bs) @ bs) = Some (dataChecksum c))"
      proof (rule runs_ask [OF r], goal_cases asks rest)
        case (rest c')
        have "settled c' = (settled ctx)\<lparr>state := if Suc i < n then TLV_ACTION_ACCOUNT else TLV_TX_EXTENSION_LIST_SIZE,
            sha256 := h', dataSha256 := hash_init ops, currentActionIndex := of_nat i + 1,
            content := (content ctx)\<lparr>argumentCount := 3\<rparr>\<rparr>"
          using rest(2) settledD(13) [OF c(2)] f(5) unfolding c(2) by simp
        note f' = settledD(1,4,5,6,7,12,13) [OF this] settledD(10,11) [OF this]
        have "isKnownAction c' = isKnownAction ctx" using f'(8,9) by (simp add: isKnownAction_def)
        then show ?case using rest f' st shown kn ho e(2) by (simp add: stands_def add.commute)
      qed (simp add: asks_def)
    qed
  qed
qed

lemma runs_action:
  assumes law: "incremental ops" and d: "digest_32 ops"
    and s: "stands ops allowed n i TLV_ACTION_ACCOUNT h ctx" and i: "i < n" "n < 2 ^ 32"
    and ok: "act_ok ops ripemd160 (allowed = 1) a"
    and h: "hash_update ops h (concat (action_fields a)) = Some h'"
  shows "runs_to ops ctx (action_fields a) (\<lambda>log c. log = [(STREAM_ACTION_READY, c)] \<and> presents ops ripemd160 n i a c
    \<and> stands ops allowed n (Suc i) (if Suc i < n then TLV_ACTION_ACCOUNT else TLV_TX_EXTENSION_LIST_SIZE) h' c)"
proof -
  let ?account = "act_account a" and ?name = "body_name (act_body a)" and ?auths = "act_auths a"
  let ?data = "[leb_bytes (length (body_bytes (act_body a))), body_bytes (act_body a)]"
  note st = s [unfolded stands_def]
  have ok': "?auths \<noteq> []" "length ?auths < 2 ^ 32" "body_ok ops ripemd160 (allowed = 1) ?account (act_body a)"
    using ok by (simp_all add: act_ok_def)
  have fs: "action_fields a = u64_bytes ?account # u64_bytes ?name # leb_bytes (length ?auths) # auth_fields ?auths @ ?data"
    by (simp add: action_fields_def)
  obtain h1 h2 h3 h4 where h4: "hash_update ops h (u64_bytes ?account) = Some h1" "hash_update ops h1 (u64_bytes ?name) = Some h2"
    "hash_update ops h2 (leb_bytes (length ?auths)) = Some h3" "hash_update ops h3 (concat (auth_fields ?auths)) = Some h4"
    "hash_update ops h4 (concat ?data) = Some h'"
    using h unfolding fs by (auto simp: hash_Cons [OF law] hash_append [OF law] simp del: concat.simps)
  show ?thesis
    unfolding fs
  proof (rule runs_quiet [OF reads_account [where h = h1]], goal_cases i state hash account)
    case (account c)
    note c = settledD [OF account(2)]
    have c1: "state c = TLV_ACTION_NAME" "sha256 c = h1" using c(1,4) by simp_all
    show ?case
    proof (rule runs_quiet [OF reads_name [OF account(1) c1(1), where h = h2]], goal_cases hash name)
      case (name c')
      have c': "state c' = TLV_AUTHORIZATION_LIST_SIZE" "sha256 c' = h2" using settledD(1,4) [OF name(2)] by simp_all
      show ?case
      proof (rule runs_quiet [OF reads_auths [OF name(1) c'(1) ok'(2), where h = h3]], goal_cases hash auths)
        case (auths e)
        have e: "state e = TLV_AUTHORIZATION_ACTOR" "sha256 e = h3" "currentAutorizationNumber e = of_nat (length ?auths)"
          "currentAutorizationIndex e = 0"
          using settledD(1,4,8,9) [OF auths(2)] by simp_all
        have "runs_to ops e (auth_fields ?auths) (\<lambda>log c. log = [] \<and> idle c \<and> settled c =
            (settled e)\<lparr>state := TLV_ACTION_DATA_SIZE, sha256 := h4, currentAutorizationIndex := of_nat (length ?auths)\<rparr>)"
          by (rule runs_auths [OF law auths(1)]) (use e ok'(1,2) h4(4) in simp_all)
        then show ?case
          unfolding runs_to_append
        proof (rule runs_to_mono, elim conjE, simp only: append_Nil)
          fix g assume g: "idle g" "settled g =
            (settled e)\<lparr>state := TLV_ACTION_DATA_SIZE, sha256 := h4, currentAutorizationIndex := of_nat (length ?auths)\<rparr>"
          have sg: "settled g = (settled ctx)\<lparr>state := TLV_ACTION_DATA_SIZE, sha256 := h4,
              currentAutorizationNumber := of_nat (length ?auths), currentAutorizationIndex := of_nat (length ?auths),
              contractName := ?account, contractActionName := ?name,
              content := (content ctx)\<lparr>contract := padded 14 (name_text ?account), action := padded 14 (name_text ?name)\<rparr>\<rparr>"
            using g(2) settledD(13) [OF account(2)] unfolding auths(2) name(2) account(2) by simp
          note f = settledD [OF sg]
          show "runs_to ops g ?data (\<lambda>log c. log = [(STREAM_ACTION_READY, c)] \<and> presents ops ripemd160 n i a c
            \<and> stands ops allowed n (Suc i) (if Suc i < n then TLV_ACTION_ACCOUNT else TLV_TX_EXTENSION_LIST_SIZE) h' c)"
          proof (rule runs_to_mono [OF runs_body [OF law d _ i _ _ _ _ ok'(3) h4(5),
              where account_text = "padded 14 (name_text ?account)" and name_text' = "padded 14 (name_text ?name)"]], goal_cases s account name shown_account shown_name shown)
            case (shown log c)
            then show ?case by (auto simp: presents_def stands_def split: act_body.splits)
          qed (use f g(1) st in \<open>simp_all add: stands_def\<close>)
        qed
      qed (use c' h4(3) in simp)
    qed (use c1 h4(2) in simp)
  qed (use st h4(1) in simp_all)
qed

text \<open>The reviews of a list of actions, from the \<open>i\<close>-th on.\<close>

primrec reviews_of :: "'h hash_ops \<Rightarrow> (bytes \<Rightarrow> bytes option) \<Rightarrow> nat \<Rightarrow> nat \<Rightarrow> act list \<Rightarrow> 'h review list \<Rightarrow> bool" where
  "reviews_of ops ripemd160 n i [] log \<longleftrightarrow> log = []"
| "reviews_of ops ripemd160 n i (a # acts) log \<longleftrightarrow> (\<exists>c rest. log = (STREAM_ACTION_READY, c) # rest
     \<and> presents ops ripemd160 n i a c \<and> reviews_of ops ripemd160 n (Suc i) acts rest)"

lemma reviews_of_nth:
  "reviews_of ops ripemd160 n i acts log \<longleftrightarrow> length log = length acts \<and>
     (\<forall>j < length acts. \<exists>c. log ! j = (STREAM_ACTION_READY, c) \<and> presents ops ripemd160 n (i + j) (acts ! j) c)"
proof (induction acts arbitrary: i log)
  case (Cons a acts)
  show ?case
    by (cases log) (auto simp: Cons.IH All_less_Suc2)
qed simp

lemma runs_actions:
  assumes law: "incremental ops" and d: "digest_32 ops" and n: "n < 2 ^ 32"
  shows "stands ops allowed n i TLV_ACTION_ACCOUNT h ctx \<Longrightarrow> acts \<noteq> [] \<Longrightarrow> i + length acts = n \<Longrightarrow>
    list_all (act_ok ops ripemd160 (allowed = 1)) acts \<Longrightarrow>
    hash_update ops h (concat (concat (map action_fields acts))) = Some h' \<Longrightarrow>
    runs_to ops ctx (concat (map action_fields acts)) (\<lambda>log c. stands ops allowed n n TLV_TX_EXTENSION_LIST_SIZE h' c
      \<and> reviews_of ops ripemd160 n i acts log)"
proof (induction acts arbitrary: i h ctx)
  case (Cons a acts)
  have i: "i < n" using Cons.prems(3) by simp
  obtain h1 where h1: "hash_update ops h (concat (action_fields a)) = Some h1"
    "hash_update ops h1 (concat (concat (map action_fields acts))) = Some h'"
    using Cons.prems(5) by (auto simp: hash_append [OF law])
  have "runs_to ops ctx (action_fields a) (\<lambda>log c. log = [(STREAM_ACTION_READY, c)] \<and> presents ops ripemd160 n i a c
    \<and> stands ops allowed n (Suc i) (if Suc i < n then TLV_ACTION_ACCOUNT else TLV_TX_EXTENSION_LIST_SIZE) h1 c)"
    using Cons.prems(4) h1(1) by (intro runs_action [OF law d Cons.prems(1) i n]) simp_all
  then show ?case
    unfolding list.map concat.simps runs_to_append
  proof (rule runs_to_mono, elim conjE)
    fix log c assume log: "log = [(STREAM_ACTION_READY, c)]" and p: "presents ops ripemd160 n i a c"
      and s: "stands ops allowed n (Suc i) (if Suc i < n then TLV_ACTION_ACCOUNT else TLV_TX_EXTENSION_LIST_SIZE) h1 c"
    show "runs_to ops c (concat (map action_fields acts)) (\<lambda>log'. \<lambda>c. stands ops allowed n n TLV_TX_EXTENSION_LIST_SIZE h' c
      \<and> reviews_of ops ripemd160 n i (a # acts) (log @ log'))"
    proof (cases "acts = []")
      case True
      then show ?thesis using s p log h1(2) Cons.prems(3) hash_Nil [OF law] by simp
    next
      case False
      then have "Suc i < n" using Cons.prems(3) by (cases acts) simp_all
      then have "runs_to ops c (concat (map action_fields acts)) (\<lambda>log c. stands ops allowed n n TLV_TX_EXTENSION_LIST_SIZE h' c
          \<and> reviews_of ops ripemd160 n (Suc i) acts log)"
        using s False Cons.prems(3,4) h1(2) by (intro Cons.IH) simp_all
      then show ?thesis by (rule runs_to_mono) (use log p in simp)
    qed
  qed
qed simp

text \<open>The fields before the first action.\<close>

definition opening_fields :: "transaction \<Rightarrow> bytes list" where
  "opening_fields t = header_fields t @ [[0], leb_bytes (length (tx_actions t))]"

definition opening_reviews :: "nat \<Rightarrow> 'h review list \<Rightarrow> bool" where
  "opening_reviews n log \<longleftrightarrow> (if 1 < n then \<exists>c. log = [(STREAM_CONFIRM_PROCESSING, c)] \<and> currentActionNumber c = of_nat n
     else log = [])"

definition starts :: "'h hash_ops \<Rightarrow> u8 \<Rightarrow> txProcessingState_e \<Rightarrow> 'h \<Rightarrow> 'h txProcessingContext_t \<Rightarrow> bool" where
  "starts ops allowed s h ctx \<longleftrightarrow> idle ctx \<and> state ctx = s \<and> sha256 ctx = h \<and> dataSha256 ctx = hash_init ops \<and> dataAllowed ctx = allowed"

lemma reads_start:
  assumes "starts ops allowed s h ctx" and "plain_state s" and "s \<noteq> TLV_CONTEXT_FREE_DATA"
    and "0 < length f" and "length f < 2 ^ 24" and "hash_update ops h f = Some h1"
    and "\<And>c. starts ops allowed (next_state s) h1 c \<Longrightarrow> runs_to ops c fs Q"
  shows "runs_to ops ctx (f # fs) Q"
proof (rule runs_quiet [OF reads_quiet [OF _ _ assms(2,3,4,5), of ctx ops h1]])
  show "idle ctx" "state ctx = s" "hash_update ops (sha256 ctx) f = Some h1" using assms(1,6) by (simp_all add: starts_def)
  fix c assume "idle c" and c: "settled c = (settled ctx)\<lparr>state := next_state s, sha256 := h1\<rparr>"
  then show "runs_to ops c fs Q"
    using assms(1,7) settledD(1,4,5,12) [OF c] by (simp add: starts_def)
qed

text \<open>A sequence of fields that are only hashed.\<close>

primrec after_fields :: "txProcessingState_e \<Rightarrow> bytes list \<Rightarrow> txProcessingState_e" where
  "after_fields s [] = s"
| "after_fields s (f # fs) = after_fields (next_state s) fs"

primrec plain_fields :: "txProcessingState_e \<Rightarrow> bytes list \<Rightarrow> bool" where
  "plain_fields s [] = True"
| "plain_fields s (f # fs) \<longleftrightarrow> plain_state s \<and> s \<noteq> TLV_CONTEXT_FREE_DATA \<and> 0 < length f \<and> length f < 2 ^ 24
     \<and> plain_fields (next_state s) fs"

lemma reads_starts:
  assumes law: "incremental ops"
  shows "starts ops allowed s h ctx \<Longrightarrow> plain_fields s fs \<Longrightarrow> hash_update ops h (concat fs) = Some h1 \<Longrightarrow>
    (\<And>c. starts ops allowed (after_fields s fs) h1 c \<Longrightarrow> runs_to ops c gs Q) \<Longrightarrow> runs_to ops ctx (fs @ gs) Q"
proof (induction fs arbitrary: s h ctx)
  case (Cons f fs)
  obtain h2 where h2: "hash_update ops h f = Some h2" "hash_update ops h2 (concat fs) = Some h1"
    using Cons.prems(3) hash_Cons [OF law] by blast
  have p: "plain_state s" "s \<noteq> TLV_CONTEXT_FREE_DATA" "0 < length f" "length f < 2 ^ 24" "plain_fields (next_state s) fs"
    using Cons.prems(2) by simp_all
  show ?case
    unfolding append_Cons
  proof (rule reads_start [OF Cons.prems(1) p(1-4) h2(1)])
    fix c assume "starts ops allowed (next_state s) h2 c"
    from Cons.IH [OF this p(5) h2(2)] Cons.prems(4) show "runs_to ops c (fs @ gs) Q" by simp
  qed
qed (use hash_Nil [OF law] in simp)

lemma runs_opening:
  assumes law: "incremental ops" and s: "starts ops allowed TLV_CHAIN_ID h ctx" and n: "length (tx_actions t) = n"
    and ok: "tx_ok ops ripemd160 (allowed = 1) t" and h: "hash_update ops h (concat (opening_fields t)) = Some h'"
  shows "runs_to ops ctx (opening_fields t) (\<lambda>log c. stands ops allowed n 0 TLV_ACTION_ACCOUNT h' c \<and> opening_reviews n log)"
proof -
  have ok': "length (tx_chain_id t) = 32" "tx_max_net t < 2 ^ 32" "tx_delay t < 2 ^ 32" "n < 2 ^ 32"
    using ok n by (simp_all add: tx_ok_def)
  have l: "0 < length (leb_bytes (tx_max_net t))" "length (leb_bytes (tx_max_net t)) < 2 ^ 24"
    "0 < length (leb_bytes (tx_delay t))" "length (leb_bytes (tx_delay t)) < 2 ^ 24"
    using leb_length [OF ok'(2)] leb_length [OF ok'(3)] by simp_all
  have plain: "plain_fields TLV_CHAIN_ID (header_fields t)"
    using ok' l by (simp add: header_fields_def plain_state_def)
  have "hash_update ops h (concat (header_fields t) @ [0] @ leb_bytes n) = Some h'"
    using h n by (simp add: opening_fields_def)
  then obtain h7 h8 where hs: "hash_update ops h (concat (header_fields t)) = Some h7"
    "hash_update ops h7 [0] = Some h8" "hash_update ops h8 (leb_bytes n) = Some h'"
    unfolding hash_append [OF law] by blast
  have zero: "runs_to ops c [[0], leb_bytes n] (\<lambda>log c. stands ops allowed n 0 TLV_ACTION_ACCOUNT h' c \<and> opening_reviews n log)"
    if c: "starts ops allowed TLV_CFA_LIST_SIZE h7 c" for c
  proof (rule runs_quiet [OF reads_zero [where h = h8]], goal_cases idle state hash rest)
    case (rest c')
    have c': "state c' = TLV_ACTION_LIST_SIZE" "sha256 c' = h8" "dataSha256 c' = hash_init ops" "dataAllowed c' = allowed"
      using settledD(1,4,5,12) [OF rest(2)] c by (simp_all add: starts_def)
    let ?s = "(settled c')\<lparr>state := TLV_ACTION_ACCOUNT, sha256 := h', currentActionNumber := of_nat n, currentActionIndex := 0\<rparr>"
    have r: "reads ops c' (leb_bytes n) (if 1 < n then STREAM_CONFIRM_PROCESSING else STREAM_PROCESSING) (\<lambda>e. settled e = ?s)"
      using hs(3) c'(2) by (intro reads_actions [OF rest(1) c'(1) ok'(4)]) simp
    have st: "stands ops allowed n 0 TLV_ACTION_ACCOUNT h' e" if "idle e" "settled e = ?s" for e
      using that(1) settledD(1,4,5,6,7,12) [OF that(2)] c' by (simp add: stands_def)
    show ?case
    proof (cases "1 < n")
      case True
      have r': "reads ops c' (leb_bytes n) STREAM_CONFIRM_PROCESSING (\<lambda>e. settled e = ?s)" using r True by simp
      show ?thesis
      proof (rule runs_ask [OF r'])
        fix e assume "idle e" "settled e = ?s"
        from st [OF this] show "runs_to ops e [] (\<lambda>log c. stands ops allowed n 0 TLV_ACTION_ACCOUNT h' c
            \<and> opening_reviews n ((STREAM_CONFIRM_PROCESSING, e) # log))"
          using True by (simp add: opening_reviews_def) (simp add: stands_def)
      qed (simp add: asks_def)
    next
      case False
      have r': "reads ops c' (leb_bytes n) STREAM_PROCESSING (\<lambda>e. settled e = ?s)" using r False by simp
      show ?thesis by (rule runs_quiet [OF r']) (use st False in \<open>simp add: opening_reviews_def\<close>)
    qed
  qed (use c hs(2) in \<open>simp_all add: starts_def\<close>)
  show ?thesis
    unfolding opening_fields_def n
    by (rule reads_starts [OF law s plain hs(1)]) (simp add: header_fields_def zero del: runs_to.simps)
qed

lemma session_closing:
  assumes law: "incremental ops" and d: "digest_32 ops"
    and s: "stands ops allowed n i TLV_TX_EXTENSION_LIST_SIZE h ctx"
    and f: "0 < length f" "length f < 2 ^ 24" and h: "hash_update ops h ([0] @ f) = Some h'"
  shows "\<exists>c. session ops ctx [fields_bytes [[0], f]] [(STREAM_FINISHED, c)] \<and> sha256 c = h' \<and> state c = TLV_DONE"
proof -
  note st = s [unfolded stands_def]
  obtain h1 where h1: "hash_update ops h [0] = Some h1" "hash_update ops h1 f = Some h'"
    using h unfolding hash_append [OF law] by blast
  have "reads ops ctx [0] STREAM_PROCESSING (\<lambda>c. settled c = (settled ctx)\<lparr>state := next_state (state ctx), sha256 := h1\<rparr>)"
    using st h1(1) by (intro reads_zero) simp_all
  then obtain c1 where c1: "consume ops ctx (field [0]) = Some (c1, [], STREAM_PROCESSING)" "idle c1"
    "settled c1 = (settled ctx)\<lparr>state := next_state (state ctx), sha256 := h1\<rparr>" by (auto simp: reads_def)
  have k: "state c1 = TLV_CONTEXT_FREE_DATA" "sha256 c1 = h1" using settledD(1,4) [OF c1(3)] st by simp_all
  have "reads ops c1 f STREAM_FINISHED (\<lambda>c. settled c = (settled c1)\<lparr>state := next_state (state c1), sha256 := h'\<rparr>)"
    using reads_plain [OF c1(2) _ f, of ops h'] h1(2) k by (simp add: plain_state_def)
  then obtain c2 where c2: "consume ops c1 (field f) = Some (c2, [], STREAM_FINISHED)"
    "settled c2 = (settled c1)\<lparr>state := next_state (state c1), sha256 := h'\<rparr>" by (auto simp: reads_def)
  have len: "length (field [0]) + length (field f) < 2 ^ 32"
    using f length_tlv_header [of "length f"] length_tlv_header [of 1] by (simp add: field_def)
  have "consume ops ctx (field [0] @ field f) = Some (c2, [], STREAM_FINISHED)"
    using consume_append [OF idle_rest_ok len law d, of ctx] st c1(1) c2(1) by simp
  then have "session ops ctx [fields_bytes [[0], f]] [(STREAM_FINISHED, c2)]"
    by (intro session_stop) (simp_all add: fields_bytes_def stops_def)
  then show ?thesis using settledD(1,4) [OF c2(2)] k by auto
qed

text \<open>A whole transaction, in one command.\<close>

lemma transaction_session:
  assumes law: "incremental ops" and d: "digest_32 ops" and c: "content_ok contents"
    and ok: "tx_ok ops ripemd160 (allowed = 1) t" and n: "n = length (tx_actions t)"
    and h: "hash_update ops (hash_init ops) (signed_bytes t) = Some h" and len: "length (encoding t) < 2 ^ 32"
  shows "\<exists>start reviews c. session ops (initTxContext ops contents allowed) [encoding t] (start @ reviews @ [(STREAM_FINISHED, c)])
    \<and> opening_reviews n start \<and> reviews_of ops ripemd160 n 0 (tx_actions t) reviews \<and> sha256 c = h \<and> state c = TLV_DONE"
proof -
  let ?ctx = "initTxContext ops contents allowed" and ?acts = "concat (map action_fields (tx_actions t))"
  have ok': "length (tx_free_data t) = 32" "tx_actions t \<noteq> []" "n < 2 ^ 32" "list_all (act_ok ops ripemd160 (allowed = 1)) (tx_actions t)"
    using ok n by (simp_all add: tx_ok_def)
  have fs: "tx_fields t = (opening_fields t @ ?acts) @ [[0], tx_free_data t]" by (simp add: tx_fields_def opening_fields_def)
  have "hash_update ops (hash_init ops) (concat (opening_fields t) @ concat ?acts @ [0] @ tx_free_data t) = Some h"
    using h by (simp add: signed_bytes_def fs)
  then obtain h1 h2 where hs: "hash_update ops (hash_init ops) (concat (opening_fields t)) = Some h1"
    "hash_update ops h1 (concat ?acts) = Some h2" "hash_update ops h2 ([0] @ tx_free_data t) = Some h"
    unfolding hash_append [OF law] by blast
  have i: "idle ?ctx" using c by (simp add: idle_def initTxContext_def buffers_ok_def)
  have "starts ops allowed TLV_CHAIN_ID (hash_init ops) ?ctx"
    using i by (simp add: starts_def) (simp add: initTxContext_def)
  from runs_opening [OF law this n [symmetric] ok hs(1)]
  have "runs_to ops ?ctx (opening_fields t) (\<lambda>log c. runs_to ops c ?acts (\<lambda>log' c.
      stands ops allowed n n TLV_TX_EXTENSION_LIST_SIZE h2 c \<and> opening_reviews n log
      \<and> reviews_of ops ripemd160 n 0 (tx_actions t) log'))"
  proof (rule runs_to_mono, elim conjE)
    fix log c assume "stands ops allowed n 0 TLV_ACTION_ACCOUNT h1 c" and o: "opening_reviews n log"
    from runs_actions [OF law d ok'(3) this(1) ok'(2) _ ok'(4) hs(2)] n
    have "runs_to ops c ?acts (\<lambda>log c. stands ops allowed n n TLV_TX_EXTENSION_LIST_SIZE h2 c
      \<and> reviews_of ops ripemd160 n 0 (tx_actions t) log)" by simp
    then show "runs_to ops c ?acts (\<lambda>log' c. stands ops allowed n n TLV_TX_EXTENSION_LIST_SIZE h2 c \<and> opening_reviews n log
      \<and> reviews_of ops ripemd160 n 0 (tx_actions t) log')" by (rule runs_to_mono) (use o in simp)
  qed
  then have run0: "runs_to ops ?ctx (opening_fields t @ ?acts) (\<lambda>log c. \<exists>start reviews. log = start @ reviews
      \<and> stands ops allowed n n TLV_TX_EXTENSION_LIST_SIZE h2 c \<and> opening_reviews n start
      \<and> reviews_of ops ripemd160 n 0 (tx_actions t) reviews)"
    unfolding runs_to_append by (elim runs_to_mono) blast
  have e: "encoding t = fields_bytes (opening_fields t @ ?acts) @ fields_bytes [[0], tx_free_data t]"
    by (simp add: encoding_def fs fields_bytes_def)
  from runs_to_session [OF law d run0 i len [unfolded e], folded e]
  obtain log c start reviews where l: "log = start @ reviews" "stands ops allowed n n TLV_TX_EXTENSION_LIST_SIZE h2 c"
    "opening_reviews n start" "reviews_of ops ripemd160 n 0 (tx_actions t) reviews"
    and run: "\<forall>log'. session ops c [fields_bytes [[0], tx_free_data t]] log' \<longrightarrow> session ops ?ctx [encoding t] (log @ log')"
    by (elim exE conjE)
  obtain c' where c': "session ops c [fields_bytes [[0], tx_free_data t]] [(STREAM_FINISHED, c')]" "sha256 c' = h" "state c' = TLV_DONE"
    using session_closing [OF law d l(2) _ _ hs(3)] ok'(1) by auto
  have "session ops ?ctx [encoding t] (start @ reviews @ [(STREAM_FINISHED, c')])" using run c'(1) l(1) by simp
  then show ?thesis using l(3,4) c'(2,3) by blast
qed

end
