(* ===== verification/Eos_Reviews.thy ===== *)
theory Eos_Reviews
  imports Eos_Session
begin

text \<open>
  The accounting of reviews: whatever the host sends, the parser reports the end of a transaction
  only after it has stopped once for every action that the transaction announces.
\<close>

text \<open>What the accounting of reviews looks at.\<close>

definition place :: "'h txProcessingContext_t \<Rightarrow> txProcessingState_e \<times> bool \<times> bool \<times> u32 \<times> u32 \<times> u8" where
  "place ctx = (state ctx, actionReady ctx, confirmProcessing ctx, currentActionNumber ctx, currentActionIndex ctx,
     dataAllowed ctx)"

definition keeps_place :: "'h store \<Rightarrow> bool" where
  "keeps_place store \<longleftrightarrow> (\<forall>bs ctx c. store bs ctx = Inr c \<longrightarrow> place c = place ctx)"

lemma stores_keep_place:
  "keeps_place store_none" "keeps_place (store_size msg)" "keeps_place store_contract" "keeps_place store_action"
  "keeps_place store_data" "keeps_place (hashActionData ops)"
  by (auto simp: keeps_place_def store_none_def store_size_Inr store_contract_Inr store_action_Inr store_data_def
      hashActionData_def andThen_eq_Inr place_def)

lemma receive_keeps_place:
  assumes "receive ops mem check store ctx = Inr c" and "keeps_place store"
  shows "place c = place ctx"
proof -
  have "place c1 = place ctx" if "store bs (ctx\<lparr>sha256 := h\<rparr>) = Inr c1" for bs h c1
    using that assms(2) unfolding keeps_place_def by (fastforce simp: place_def)
  then show ?thesis
    using assms(1) by (auto simp: receive_def andThen_eq_Inr hashTxData_def Let_def advance_def work_skip_def place_def split: if_splits)
qed

lemma field_place:
  assumes "andThen (receive ops mem check store ctx) (when_complete finish) = Inr c" and "keeps_place store"
  shows "place c = place ctx \<or> (\<exists>c1. place c1 = place ctx \<and> finish c1 = Inr c)"
  using assms receive_keeps_place by (fastforce simp: andThen_eq_Inr when_complete_def split: if_splits)

text \<open>\<open>k\<close> actions have been reviewed.\<close>

definition opening_state :: "txProcessingState_e \<Rightarrow> bool" where
  "opening_state s \<longleftrightarrow> s < TLV_ACTION_ACCOUNT"

definition closing_state :: "txProcessingState_e \<Rightarrow> bool" where
  "closing_state s \<longleftrightarrow> TLV_ACTION_DATA < s"

definition book :: "nat \<Rightarrow> 'h txProcessingContext_t \<Rightarrow> bool" where
  "book k ctx \<longleftrightarrow>
     (if opening_state (state ctx) then k = 0 \<and> \<not> actionReady ctx
      else unat (currentActionIndex ctx) = k + (if actionReady ctx then 1 else 0)
        \<and> (if closing_state (state ctx) then unat (currentActionIndex ctx) = max 1 (unat (currentActionNumber ctx))
           else currentActionIndex ctx < currentActionNumber ctx \<or> currentActionIndex ctx = 0))"

lemma book_place: "place c = place ctx \<Longrightarrow> book k c = book k ctx"
  by (simp add: book_def place_def)

lemmas state_order = opening_state_def closing_state_def less_txProcessingState_e_def less_eq_txProcessingState_e_def

lemma book_next:
  assumes "book k ctx" and "\<not> actionReady ctx" and "state ctx \<notin> {TLV_ACTION_LIST_SIZE, TLV_ACTION_DATA, TLV_DONE}"
    and "place c = (next_state (state ctx), False, confirmProcessing ctx, currentActionNumber ctx, currentActionIndex ctx,
     dataAllowed ctx)"
  shows "book k c"
  using assms by (cases "state ctx") (simp_all add: book_def place_def state_order)
text \<open>Counting the arguments of an action leaves the place alone.\<close>

lemma place_set_count [simp]: "place (set_count n ctx) = place ctx" "place (add_count n ctx) = place ctx"
  by (simp_all add: place_def set_count_def add_count_def)

lemma counts_counted:
  "processTokenTransfer ctx = Inr c \<Longrightarrow> counted ctx c"
  "processEosioDelegate ctx = Inr c \<Longrightarrow> counted ctx c"
  "processEosioUndelegate ctx = Inr c \<Longrightarrow> counted ctx c"
  "processEosioRefund ctx = Inr c \<Longrightarrow> counted ctx c"
  "processEosioBuyRam ctx = Inr c \<Longrightarrow> counted ctx c"
  "processEosioSellRam ctx = Inr c \<Longrightarrow> counted ctx c"
  "processEosioVoteProducer ctx = Inr c \<Longrightarrow> counted ctx c"
  "processEosioUpdateAuth ctx = Inr c \<Longrightarrow> counted ctx c"
  "processEosioDeleteAuth ctx = Inr c \<Longrightarrow> counted ctx c"
  "processEosioLinkAuth ctx = Inr c \<Longrightarrow> counted ctx c"
  "processEosioUnlinkAuth ctx = Inr c \<Longrightarrow> counted ctx c"
  "processEosioNewAccountAction ctx = Inr c \<Longrightarrow> counted ctx c"
  by (auto simp: processTokenTransfer_def processEosioDelegate_def processEosioUndelegate_def processEosioRefund_def
      processEosioBuyRam_def processEosioSellRam_def processEosioVoteProducer_def processEosioUpdateAuth_def
      processEosioDeleteAuth_def processEosioLinkAuth_def processEosioUnlinkAuth_def processEosioNewAccountAction_def
      andThen_eq_Inr Let_def split: if_splits prod.splits)

lemma count_arguments_counted: "count_arguments ctx = Inr c \<Longrightarrow> counted ctx c"
  unfolding count_arguments_def Let_def by (auto dest: counts_counted simp: counted_def set_count_def split: if_splits)

lemma counted_same: "counted ctx c \<Longrightarrow> place c = place ctx \<and> isKnownAction c = isKnownAction ctx"
  by (cases c; cases ctx) (simp add: counted_def set_count_def place_def isKnownAction_def)

lemma count_arguments_keeps_place: "count_arguments ctx = Inr c \<Longrightarrow> place c = place ctx"
  using count_arguments_counted counted_same by blast

text \<open>What each field function does to the place, when the field is complete.\<close>

definition moves :: "txProcessingState_e \<Rightarrow> 'h txProcessingContext_t \<Rightarrow> 'h txProcessingContext_t \<Rightarrow> bool" where
  "moves s ctx c \<longleftrightarrow> place c = (s, actionReady ctx, confirmProcessing ctx, currentActionNumber ctx, currentActionIndex ctx,
     dataAllowed ctx)"

lemma place_same:
  "place c = place ctx \<Longrightarrow> state c = state ctx \<and> actionReady c = actionReady ctx \<and> confirmProcessing c = confirmProcessing ctx
     \<and> currentActionNumber c = currentActionNumber ctx \<and> currentActionIndex c = currentActionIndex ctx
     \<and> dataAllowed c = dataAllowed ctx"
  by (simp add: place_def)

lemma place_updates [simp]:
  "place (ctx\<lparr>sizeBuffer := b\<rparr>) = place ctx" "place (ctx\<lparr>content := t\<rparr>) = place ctx"
  "place (ctx\<lparr>currentAutorizationNumber := n, currentAutorizationIndex := i, sizeBuffer := b\<rparr>) = place ctx"
  "place (ctx\<lparr>currentActionDataBufferLength := n\<rparr>) = place ctx" "place (ctx\<lparr>dataSha256 := h\<rparr>) = place ctx"
  "place (ctx\<lparr>dataSha256 := h, dataChecksum := b\<rparr>) = place ctx"
  by (simp_all add: place_def)

lemma moves_to_state: "place c = place ctx \<Longrightarrow> moves (next_state (state ctx)) ctx (to_state (next_state (state c)) c)"
  by (simp add: moves_def place_def to_state_def)

lemma moves_content: "moves s ctx (c\<lparr>content := t\<rparr>) = moves s ctx c"
  by (simp add: moves_def)

lemma moves_to_state_size:
  "place c = place ctx \<Longrightarrow> moves (next_state (state ctx)) ctx (to_state (next_state (state c)) (c\<lparr>sizeBuffer := b\<rparr>))"
  "place c = place ctx \<Longrightarrow> moves (next_state (state ctx)) ctx (to_state (next_state (state c))
     (c\<lparr>currentAutorizationNumber := n, currentAutorizationIndex := i, sizeBuffer := b\<rparr>))"
  by (simp_all add: moves_def place_def to_state_def)

lemma process_moves:
  "processField ops mem ctx = Inr c \<Longrightarrow> place c = place ctx \<or> moves (next_state (state ctx)) ctx c"
  "processZeroSizeField ops mem ctx = Inr c \<Longrightarrow> place c = place ctx \<or> moves (next_state (state ctx)) ctx c"
  "processActionAccount ops mem ctx = Inr c \<Longrightarrow> place c = place ctx \<or> moves (next_state (state ctx)) ctx c"
  "processActionName ops mem ctx = Inr c \<Longrightarrow> place c = place ctx \<or> moves (next_state (state ctx)) ctx c"
  "processAuthorizationListSizeField ops mem ctx = Inr c \<Longrightarrow> place c = place ctx \<or> moves (next_state (state ctx)) ctx c"
  "processUnknownActionDataSize ops mem ctx = Inr c \<Longrightarrow> place c = place ctx \<or> moves (next_state (state ctx)) ctx c"
  unfolding processField_def processZeroSizeField_def processActionAccount_def processActionName_def
    processAuthorizationListSizeField_def processUnknownActionDataSize_def
  by (drule field_place, rule stores_keep_place,
      (auto simp: andThen_eq_Inr Let_def moves_to_state moves_to_state_size moves_content split: prod.splits) [1])+

lemma permission_moves:
  assumes "processAuthorizationPermission ops mem ctx = Inr c"
  shows "place c = place ctx \<or> moves TLV_AUTHORIZATION_ACTOR ctx c \<or> moves (next_state (state ctx)) ctx c"
  using field_place [OF assms [unfolded processAuthorizationPermission_def] stores_keep_place(1)]
proof (elim disjE exE conjE)
  fix c1 assume "place c1 = place ctx" and "(let ctx = c1\<lparr>currentAutorizationIndex := currentAutorizationIndex c1 + 1, sizeBuffer := zeros 12\<rparr>
    in Inr (to_state (if currentAutorizationIndex ctx \<noteq> currentAutorizationNumber ctx then TLV_AUTHORIZATION_ACTOR
         else next_state (state ctx)) ctx)) = Inr c"
  then have c: "c = to_state (if currentAutorizationIndex c1 + 1 \<noteq> currentAutorizationNumber c1 then TLV_AUTHORIZATION_ACTOR
      else next_state (state c1)) (c1\<lparr>currentAutorizationIndex := currentAutorizationIndex c1 + 1, sizeBuffer := zeros 12\<rparr>)"
    and same: "place c1 = place ctx"
    by (simp_all add: Let_def eq_commute cong: if_cong)
  show ?thesis using place_same [OF same] by (simp add: c moves_def place_def to_state_def)
qed simp

lemma action_list_moves:
  assumes "processActionListSizeField ops mem ctx = Inr c"
  shows "place c = place ctx \<or>
     (\<exists>n b. place c = (next_state (state ctx), actionReady ctx, b, n, 0, dataAllowed ctx))"
  using field_place [OF assms [unfolded processActionListSizeField_def] stores_keep_place(2)]
proof (elim disjE exE conjE)
  fix c1 assume "place c1 = place ctx" and "andThen (size_value c1) (\<lambda>n.
    let ctx = c1\<lparr>currentActionNumber := n, currentActionIndex := 0, sizeBuffer := zeros 12\<rparr>;
        ctx = to_state (next_state (state ctx)) ctx
    in Inr (if currentActionNumber ctx > 1 then ctx\<lparr>confirmProcessing := True\<rparr> else ctx)) = Inr c"
  then obtain n where c: "c = (if n > 1
      then (to_state (next_state (state c1)) (c1\<lparr>currentActionNumber := n, currentActionIndex := 0, sizeBuffer := zeros 12\<rparr>))\<lparr>confirmProcessing := True\<rparr>
      else to_state (next_state (state c1)) (c1\<lparr>currentActionNumber := n, currentActionIndex := 0, sizeBuffer := zeros 12\<rparr>))"
    and same: "place c1 = place ctx"
    by (simp add: andThen_eq_Inr Let_def to_state_def cong: if_cong) metis
  show ?thesis using place_same [OF same] by (simp add: c place_def to_state_def)
qed simp

definition action_counted :: "'h txProcessingContext_t \<Rightarrow> 'h txProcessingContext_t \<Rightarrow> bool" where
  "action_counted ctx c \<longleftrightarrow> place c =
     (if currentActionIndex ctx + 1 < currentActionNumber ctx then TLV_ACTION_ACCOUNT else TLV_TX_EXTENSION_LIST_SIZE,
      True, confirmProcessing ctx, currentActionNumber ctx, currentActionIndex ctx + 1, dataAllowed ctx)"

lemma after_action_counted: "place c = place ctx \<Longrightarrow> action_counted ctx (after_action c)"
  by (simp add: action_counted_def after_action_def to_state_def place_def Let_def)

lemma action_counted_update: "action_counted ctx (c\<lparr>dataSha256 := h\<rparr>) = action_counted ctx c"
  by (simp add: action_counted_def)

lemma data_moves:
  "processActionData ops mem ctx = Inr c \<Longrightarrow> place c = place ctx \<or> action_counted ctx c"
  "processUnknownActionData ops mem ctx = Inr c \<Longrightarrow> place c = place ctx \<or> action_counted ctx c"
proof -
  assume "processActionData ops mem ctx = Inr c"
  then have "andThen (receive ops mem no_check store_data ctx) (when_complete (\<lambda>ctx.
          let ctx = ctx\<lparr>currentActionDataBufferLength := currentFieldLength ctx\<rparr> in
          andThen (count_arguments ctx) (\<lambda>ctx. Inr (after_action ctx)))) = Inr c"
    by (auto simp: processActionData_def andThen_eq_Inr LEDGER_ASSERT_eq_Inr)
  from field_place [OF this stores_keep_place(5)] show "place c = place ctx \<or> action_counted ctx c"
    by (auto simp: andThen_eq_Inr Let_def dest!: count_arguments_keeps_place intro!: after_action_counted)
next
  assume "processUnknownActionData ops mem ctx = Inr c"
  from field_place [OF this [unfolded processUnknownActionData_def] stores_keep_place(6)]
  show "place c = place ctx \<or> action_counted ctx c"
    by (auto simp: processUnknownAction_def andThen_eq_Inr Let_def action_counted_update intro!: after_action_counted)
qed

lemma book_counted:
  assumes "book k ctx" and "\<not> actionReady ctx" and "state ctx = TLV_ACTION_DATA" and "action_counted ctx c"
  shows "book k c"
proof -
  let ?i = "currentActionIndex ctx" and ?n = "currentActionNumber ctx"
  have i: "?i < ?n \<or> ?i = 0" and k: "unat ?i = k" using assms(1-3) by (simp_all add: book_def state_order)
  have u: "unat (?i + 1) = unat ?i + 1"
  proof (cases "?i = 0")
    case False
    then have "unat ?i < unat ?n" using i by (simp add: word_less_nat_alt)
    then show ?thesis using u32_room [of ?n] by (simp add: unat_word_ariths)
  qed simp
  have "?i + 1 < ?n \<longleftrightarrow> unat ?i + 1 < unat ?n" by (simp add: word_less_nat_alt u)
  then show ?thesis
    using assms(4) u k i by (auto simp: book_def action_counted_def place_def state_order word_less_nat_alt)
qed
lemma book_moves:
  assumes "book k ctx" and "\<not> actionReady ctx" and "state ctx \<notin> {TLV_ACTION_LIST_SIZE, TLV_ACTION_DATA, TLV_DONE}"
    and "moves s ctx c" and "s = next_state (state ctx) \<or> s = TLV_AUTHORIZATION_ACTOR \<and> state ctx = TLV_AUTHORIZATION_PERMISSION"
  shows "book k c"
  using assms by (cases "state ctx") (auto simp: book_def moves_def place_def state_order)

lemma book_action_list:
  assumes "book k ctx" and "\<not> actionReady ctx" and "state ctx = TLV_ACTION_LIST_SIZE"
    and "place c = (TLV_ACTION_ACCOUNT, actionReady ctx, b, n, 0, dataAllowed ctx)"
  shows "book k c"
  using assms by (auto simp: book_def place_def state_order)

lemma process_state_cases:
  assumes "process_state ops mem ctx = Inr (c, q)"
  obtains (fault) "c = ctx"
    | (field) "state ctx \<notin> {TLV_ACTION_LIST_SIZE, TLV_ACTION_DATA, TLV_DONE}" "place c = place ctx \<or> moves (next_state (state ctx)) ctx c"
    | (permission) "state ctx = TLV_AUTHORIZATION_PERMISSION" "processAuthorizationPermission ops mem ctx = Inr c"
    | (actions) "state ctx = TLV_ACTION_LIST_SIZE" "processActionListSizeField ops mem ctx = Inr c"
    | (data) "state ctx = TLV_ACTION_DATA" "processActionData ops mem ctx = Inr c \<or> processUnknownActionData ops mem ctx = Inr c"
proof -
  have "c = ctx \<or> (state ctx \<notin> {TLV_ACTION_LIST_SIZE, TLV_ACTION_DATA, TLV_DONE}
        \<and> (place c = place ctx \<or> moves (next_state (state ctx)) ctx c))
      \<or> (state ctx = TLV_AUTHORIZATION_PERMISSION \<and> processAuthorizationPermission ops mem ctx = Inr c)
      \<or> (state ctx = TLV_ACTION_LIST_SIZE \<and> processActionListSizeField ops mem ctx = Inr c)
      \<or> (state ctx = TLV_ACTION_DATA \<and> (processActionData ops mem ctx = Inr c \<or> processUnknownActionData ops mem ctx = Inr c))"
    using assms
    by (cases "state ctx") (auto simp: process_state_def andThen_eq_Inr Let_def dest: process_moves split: if_splits)
  then show ?thesis using that by blast
qed

lemma process_state_book:
  assumes b: "book k ctx" and r: "\<not> actionReady ctx" and p: "process_state ops mem ctx = Inr (c, q)"
  shows "book k c"
  using p
proof (cases rule: process_state_cases)
  case permission
  show ?thesis using permission_moves [OF permission(2)] book_moves [OF b r, of _ c] book_place [of c ctx] b permission(1) by auto
next
  case actions
  show ?thesis using action_list_moves [OF actions(2)] book_action_list [OF b r, of c] book_place [of c ctx] b actions(1) by auto
next
  case data
  show ?thesis using data_moves [of ops mem ctx c] data book_counted [OF b r data(1), of c] book_place [of c ctx] b by auto
next
  case field
  show ?thesis using field(2) book_moves [OF b r field(1)] book_place [of c ctx] b by auto
qed (use b in simp)

lemma process_state_status: "process_state ops mem ctx = Inr (c, r) \<Longrightarrow> r = None \<or> r = Some STREAM_FAULT"
  by (cases "state ctx") (auto simp: process_state_def andThen_eq_Inr Let_def split: if_splits)

lemma header_place: "same_but_header ctx c \<Longrightarrow> place c = place ctx"
  by (cases ctx; cases c) (simp add: same_but_header_def place_def)

text \<open>The contexts in which the parser stopped for the review of an action.\<close>

definition reviewed :: "(parserStatus_e \<times> 'h txProcessingContext_t) list \<Rightarrow> 'h txProcessingContext_t list" where
  "reviewed log = map snd (filter (\<lambda>r. fst r = STREAM_ACTION_READY) log)"

lemma reviewed_simps [simp]: "reviewed [] = []"
  "reviewed ((st, c) # log) = (if st = STREAM_ACTION_READY then c # reviewed log else reviewed log)"
  by (simp_all add: reviewed_def)

section \<open>Invariants of the rounds\<close>

text \<open>Reading a header changes no more than the header and the place in the command.\<close>

lemma read_tlv_same:
  "read_tlv mem ctx = Inr (c, q) \<Longrightarrow> same_but_header ctx c \<and> (\<forall>st. q = Inl st \<longrightarrow> st = STREAM_FAULT)"
proof (induction mem ctx arbitrary: c q rule: read_tlv.induct)
  case (1 mem ctx)
  show ?case
  proof (cases "commandLength ctx = 0")
    case True
    then show ?thesis using 1(2) by (subst (asm) read_tlv.simps) (auto simp: same_but_header_def)
  next
    case False
    obtain b c1 buf decoded len valid where r: "readTxByte mem ctx = Inr (b, c1)"
      "mem_write (tlvBuffer ctx) (unat (tlvBufferPos ctx)) [b] = Inr buf"
      "tlvTryDecode buf (tlvBufferPos ctx + 1) (currentFieldLength ctx) = Inr (decoded, len, valid)"
      using 1(2) False by (subst (asm) read_tlv.simps) (auto simp: andThen_eq_Inr Let_def)
    let ?c = "c1\<lparr>tlvBuffer := buf, tlvBufferPos := tlvBufferPos ctx + 1, currentFieldLength := len\<rparr>"
    have same: "same_but_header ctx ?c"
      using r(1) by (cases ctx) (auto simp: readTxByte_def andThen_eq_Inr work_skip_def same_but_header_def)
    show ?thesis
    proof (cases "\<not> valid \<or> decoded \<or> tlvBufferPos ctx + 1 = 5")
      case True
      then show ?thesis using 1(2) False r same by (subst (asm) read_tlv.simps) (auto simp: Let_def split: if_splits)
    next
      case nd: False
      then have "read_tlv mem ?c = Inr (c, q)" using 1(2) False r by (subst (asm) read_tlv.simps) (simp add: Let_def)
      from 1(1) [OF False r(1) refl r(2) refl r(3) refl refl refl _ _ _ this] nd show ?thesis
        using same_but_header_trans [OF same] by simp
    qed
  qed
qed

text \<open>
  A property of the context and of the number of actions reviewed that every round keeps: it may
  depend on anything but the chunk and the header buffer, and a review counts one more.
\<close>

locale review_invariant =
  fixes inv :: "nat \<Rightarrow> 'h txProcessingContext_t \<Rightarrow> bool"
  assumes inv_header: "same_but_header ctx c \<Longrightarrow> inv k ctx \<Longrightarrow> inv k c"
    and inv_field: "inv k ctx \<Longrightarrow> inv k (ctx\<lparr>currentFieldPos := 0, tlvBufferPos := 0, processingField := True\<rparr>)"
    and inv_state: "process_state ops mem ctx = Inr (c, q) \<Longrightarrow> \<not> actionReady ctx \<Longrightarrow> inv k ctx \<Longrightarrow> inv k c"
    and inv_confirmed: "inv k ctx \<Longrightarrow> inv k (ctx\<lparr>confirmProcessing := False\<rparr>)"
    and inv_reviewed: "inv k ctx \<Longrightarrow> actionReady ctx \<Longrightarrow> inv (Suc k) (ctx\<lparr>actionReady := False\<rparr>)"
begin

lemma inv_chunk: "inv k (set_chunk w n ctx) = inv k ctx"
proof -
  have "same_but_header (set_chunk w n ctx) ctx" "same_but_header ctx (set_chunk w n ctx)"
    by (cases ctx; simp add: same_but_header_def set_chunk_def)+
  then show ?thesis using inv_header by blast
qed

text \<open>What holds when the parser has returned with a status.\<close>

definition ended :: "nat \<Rightarrow> parserStatus_e \<Rightarrow> 'h txProcessingContext_t \<Rightarrow> bool" where
  "ended k st c \<longleftrightarrow> inv (if st = STREAM_ACTION_READY then Suc k else k) c
     \<and> (st = STREAM_ACTION_READY \<longrightarrow> (\<exists>b. c = b\<lparr>actionReady := False\<rparr> \<and> actionReady b \<and> inv k b))
     \<and> (st = STREAM_FINISHED \<longrightarrow> state c = TLV_DONE \<and> \<not> actionReady c)"

lemma tx_round_inv:
  assumes b: "inv k ctx" and t: "tx_round ops mem ctx = Inr (c, r)"
  shows "case r of None \<Rightarrow> inv k c | Some st \<Rightarrow> ended k st c"
proof (cases "confirmProcessing ctx \<or> actionReady ctx \<or> state ctx = TLV_DONE \<or> commandLength ctx = 0")
  case True
  then show ?thesis
    using t b inv_confirmed inv_reviewed by (auto simp: tx_round_def ended_def split: if_splits)
next
  case False
  have fault: "case r of None \<Rightarrow> inv k c | Some st \<Rightarrow> ended k st c"
    if "inv k c" "r \<noteq> Some STREAM_ACTION_READY" "r \<noteq> Some STREAM_FINISHED"
    using that by (auto simp: ended_def split: option.splits)
  show ?thesis
  proof (cases "processingField ctx")
    case True
    then have p: "process_state ops mem ctx = Inr (c, r)" using t False by (simp add: tx_round_def)
    show ?thesis using fault inv_state [OF p _ b] process_state_status [OF p] False by auto
  next
    case h: False
    obtain c1 q where q: "read_tlv mem ctx = Inr (c1, q)"
      using t False h by (cases "read_tlv mem ctx") (auto simp: tx_round_def)
    then have same: "same_but_header ctx c1" and hr: "\<forall>st. q = Inl st \<longrightarrow> st = STREAM_FAULT" using read_tlv_same by blast+
    let ?c = "c1\<lparr>currentFieldPos := 0, tlvBufferPos := 0, processingField := True\<rparr>"
    show ?thesis
    proof (cases "q = Inr True")
      case True
      then have p: "process_state ops mem ?c = Inr (c, r)" using t False h q by (simp add: tx_round_def)
      have "\<not> actionReady ?c" using place_same [OF header_place [OF same]] False by simp
      then show ?thesis
        using fault inv_state [OF p _ inv_field [OF inv_header [OF same b]]] process_state_status [OF p] by auto
    next
      case qn: False
      then have "c = c1 \<and> (r = Some STREAM_FAULT \<or> r = Some STREAM_PROCESSING)"
        using t False h q hr by (auto simp: tx_round_def split: sum.splits if_splits)
      then show ?thesis using fault inv_header [OF same b] by auto
    qed
  qed
qed

lemma processTxInternal_inv:
  assumes "processTxInternal ops mem ctx = Some (Inr (c, st))" and "inv k ctx"
  shows "ended k st c"
proof -
  have "\<forall>c st k. r = Inr (c, st) \<longrightarrow> inv k ctx \<longrightarrow> ended k st c" if "processTxInternal ops mem ctx = Some r" for r
  proof (rule processTxInternal.raw_induct [OF _ that], intro allI impI)
    fix parse ops mem ctx r c st k
    assume later: "\<And>ops mem ctx r. parse ops mem ctx = Some r \<Longrightarrow> \<forall>c st k. r = Inr (c, st) \<longrightarrow> inv k ctx \<longrightarrow> ended k st c"
      and now: "(case tx_round ops mem ctx of Inl e \<Rightarrow> Some (Inl e) | Inr (ctx', None) \<Rightarrow> parse ops mem ctx'
        | Inr (ctx', Some status) \<Rightarrow> Some (Inr (ctx', status))) = Some r"
      and r: "r = Inr (c, st)" and b: "inv k ctx"
    obtain c1 q where t: "tx_round ops mem ctx = Inr (c1, q)"
      using now r by (cases "tx_round ops mem ctx") auto
    show "ended k st c" using tx_round_inv [OF b t] later now t r by (cases q) auto
  qed
  then show ?thesis using assms by blast
qed

lemma ended_blank: "ended k st c \<Longrightarrow> ended k st (blank c)"
proof -
  have "b\<lparr>actionReady := False\<rparr> = c \<Longrightarrow> (blank b)\<lparr>actionReady := False\<rparr> = blank c" for b c :: "'h txProcessingContext_t"
    by (auto simp: blank_def set_chunk_def)
  moreover have "actionReady (blank b) = actionReady b" "inv j (blank b) = inv j b" "state (blank b) = state b" for b j
    by (simp_all add: blank_def inv_chunk)
  ultimately show "ended k st c \<Longrightarrow> ended k st (blank c)" unfolding ended_def by metis
qed

lemma consume_inv:
  assumes "rest_ok ctx" and "length bs < 2 ^ 32" and d: "digest_32 ops" and b: "inv k ctx"
    and c: "consume ops ctx bs = Some (c, r, st)"
  shows "ended k st c"
proof -
  obtain c' where c': "processTxInternal ops bs (load bs ctx) = Some (Inr (c', st))" "c = blank c'"
    using c by (auto simp: consume_eq_Some)
  have "inv k (load bs ctx)" using b by (simp add: load_def inv_chunk)
  from processTxInternal_inv [OF c'(1) this]
  show ?thesis using c'(2) ended_blank by simp
qed

text \<open>In a session, the invariant holds of the context at each review before the flag is taken back.\<close>

lemma session_inv:
  assumes digest: "digest_32 ops"
  shows "session ops ctx cs log \<Longrightarrow> rest_ok ctx \<Longrightarrow> inv k ctx \<Longrightarrow> \<forall>bs \<in> set cs. length bs < 2 ^ 32 \<Longrightarrow>
    (\<forall>j < length (reviewed log). ended (k + j) STREAM_ACTION_READY (reviewed log ! j))
    \<and> (\<forall>c. (STREAM_FINISHED, c) \<in> set log \<longrightarrow> ended (k + length (reviewed log)) STREAM_FINISHED c)"
proof (induction ctx cs log arbitrary: k rule: session.induct)
  case (session_more ctx bs c r cs log)
  have "ended k STREAM_PROCESSING c" using session_more consume_inv [OF _ _ digest, of ctx bs k c r] by simp
  moreover have "rest_ok c" using session_more consume_keeps [OF _ _ digest, of ctx bs c r] by simp
  ultimately show ?case using session_more.IH [of k] session_more.prems(3) by (simp add: ended_def)
next
  case (session_review ctx bs c r status cs log)
  have a: "ended k status c" using session_review consume_inv [OF _ _ digest, of ctx bs k c r] by simp
  have k: "rest_ok c" using session_review consume_keeps [OF _ _ digest, of ctx bs c r status] by (auto simp: asks_def)
  have l: "\<forall>bs \<in> set (r # cs). length bs < 2 ^ 32"
    using session_review.prems(3) consume_shorter [OF session_review.hyps(1)] by auto
  show ?case
  proof (cases "status = STREAM_ACTION_READY")
    case True
    have "inv (Suc k) c" using a True by (simp add: ended_def)
    from session_review.IH [OF k this l] show ?thesis
      using a True by (auto simp: All_less_Suc2)
  next
    case False
    then show ?thesis using session_review.IH [OF k _ l, of k] a session_review.hyps(2) by (auto simp: ended_def asks_def)
  qed
next
  case (session_stop ctx bs c r status cs)
  have "ended k status c" using session_stop consume_inv [OF _ _ digest, of ctx bs k c r] by simp
  then show ?case using session_stop.hyps(2) by (auto simp: stops_def)
qed simp

end

section \<open>The accounting\<close>

lemma same_but_header_field: "place (ctx\<lparr>currentFieldPos := 0, tlvBufferPos := 0, processingField := True\<rparr>) = place ctx"
  by (simp add: place_def)

interpretation accounting: review_invariant book
proof (unfold_locales, goal_cases header field state confirmed reviewed)
  case (header ctx c k)
  then show ?case using book_place [OF header_place] by blast
next
  case (field k ctx)
  then show ?case using book_place [OF same_but_header_field] by blast
next
  case (state ops mem ctx c q k)
  then show ?case using process_state_book by blast
qed (auto simp: book_def)

lemma session_book:
  assumes d: "digest_32 ops" and s: "session ops ctx cs log" "rest_ok ctx" "book 0 ctx" "\<forall>bs \<in> set cs. length bs < 2 ^ 32"
  shows "map (\<lambda>c. unat (currentActionIndex c)) (reviewed log) = [1 ..< Suc (length (reviewed log))]"
    and "(STREAM_FINISHED, c) \<in> set log \<Longrightarrow> length (reviewed log) = max 1 (unat (currentActionNumber c))"
proof -
  note inv = accounting.session_inv [OF d s]
  have "unat (currentActionIndex (reviewed log ! j)) = Suc j" if "j < length (reviewed log)" for j
  proof -
    have "accounting.ended j STREAM_ACTION_READY (reviewed log ! j)" using inv that by simp
    then obtain b where "reviewed log ! j = b\<lparr>actionReady := False\<rparr>" "actionReady b" "book j b"
      by (auto simp: accounting.ended_def)
    then show ?thesis by (simp add: book_def split: if_splits)
  qed
  then show "map (\<lambda>c. unat (currentActionIndex c)) (reviewed log) = [1 ..< Suc (length (reviewed log))]"
    by (intro nth_equalityI) (simp_all del: upt_Suc)
  assume "(STREAM_FINISHED, c) \<in> set log"
  then show "length (reviewed log) = max 1 (unat (currentActionNumber c))"
    using inv by (auto simp: accounting.ended_def book_def state_order)
qed

lemma book_start: "book 0 (initTxContext ops contents allowed)"
  by (simp add: book_def initTxContext_def state_order)

section \<open>Actions the application cannot decode\<close>

text \<open>An action that is ready for its review is one the application can decode, unless the setting allows others.\<close>

definition vetted :: "u8 \<Rightarrow> nat \<Rightarrow> 'h txProcessingContext_t \<Rightarrow> bool" where
  "vetted allowed k ctx \<longleftrightarrow> dataAllowed ctx = allowed \<and> (actionReady ctx \<longrightarrow> isKnownAction ctx \<or> allowed = 1)"

lemma known_updates:
  "isKnownAction (after_action ctx) = isKnownAction ctx"
  "isKnownAction (ctx\<lparr>currentActionDataBufferLength := n\<rparr>) = isKnownAction ctx"
  "isKnownAction (ctx\<lparr>currentFieldPos := m, tlvBufferPos := n, processingField := b\<rparr>) = isKnownAction ctx"
  "isKnownAction (ctx\<lparr>confirmProcessing := b\<rparr>) = isKnownAction ctx"
  "isKnownAction (ctx\<lparr>actionReady := b\<rparr>) = isKnownAction ctx"
  by (simp_all add: after_action_def to_state_def isKnownAction_def Let_def)

lemma data_keeps_known:
  assumes "processActionData ops mem ctx = Inr c"
  shows "isKnownAction c = isKnownAction ctx"
proof -
  obtain c1 where c1: "receive ops mem no_check store_data ctx = Inr c1"
    "when_complete (\<lambda>ctx. let ctx = ctx\<lparr>currentActionDataBufferLength := currentFieldLength ctx\<rparr> in
       andThen (count_arguments ctx) (\<lambda>ctx. Inr (after_action ctx))) c1 = Inr c"
    using assms by (auto simp: processActionData_def andThen_eq_Inr)
  have "isKnownAction c = isKnownAction c1"
    using c1(2) by (auto simp: when_complete_def andThen_eq_Inr Let_def known_updates
        dest!: count_arguments_counted counted_same split: if_splits)
  then show ?thesis using receive_keeps_known(2) [OF c1(1)] by simp
qed

lemma process_state_vetted:
  assumes v: "vetted allowed k ctx" and r: "\<not> actionReady ctx" and p: "process_state ops mem ctx = Inr (c, q)"
  shows "vetted allowed k c"
  using p
proof (cases rule: process_state_cases)
  case data
  have "dataAllowed c = dataAllowed ctx"
    using data_moves [of ops mem ctx c] data(2) place_same by (auto simp: action_counted_def place_def)
  moreover have "isKnownAction c \<or> dataAllowed ctx = 1 \<or> c = ctx"
    using p data(1) data_keeps_known [of ops mem ctx c]
    by (auto simp: process_state_def andThen_eq_Inr Let_def split: if_splits)
  ultimately show ?thesis using v r by (auto simp: vetted_def)
next
  case permission
  show ?thesis using permission_moves [OF permission(2)] v r by (auto simp: vetted_def moves_def place_def)
next
  case actions
  show ?thesis using action_list_moves [OF actions(2)] v r by (auto simp: vetted_def place_def)
next
  case field
  show ?thesis using field(2) v r by (auto simp: vetted_def moves_def place_def)
qed (use v in simp)

interpretation vetting: review_invariant "vetted allowed"
proof (unfold_locales, goal_cases header field state confirmed reviewed)
  case (header ctx c k)
  then show ?case by (cases ctx; cases c) (simp add: vetted_def same_but_header_def isKnownAction_def)
next
  case (state ops mem ctx c q k)
  then show ?case using process_state_vetted by blast
qed (simp_all add: vetted_def known_updates)

lemma session_vetted:
  assumes d: "digest_32 ops" and s: "session ops ctx cs log" "rest_ok ctx" "vetted allowed 0 ctx"
    "\<forall>bs \<in> set cs. length bs < 2 ^ 32" and c: "c \<in> set (reviewed log)"
  shows "isKnownAction c \<or> allowed = 1"
proof -
  obtain j where j: "j < length (reviewed log)" "c = reviewed log ! j" using c by (auto simp: in_set_conv_nth)
  have "vetting.ended allowed (0 + j) STREAM_ACTION_READY c"
    unfolding j(2) using vetting.session_inv [OF d s] j(1) by blast
  then obtain b where b: "c = b\<lparr>actionReady := False\<rparr>" "actionReady b" "vetted allowed (0 + j) b"
    unfolding vetting.ended_def by blast
  then have "isKnownAction b \<or> allowed = 1" by (simp add: vetted_def)
  then show ?thesis unfolding b(1) known_updates .
qed

lemma vetted_start: "vetted allowed 0 (initTxContext ops contents allowed)"
  by (simp add: vetted_def initTxContext_def)

end
