(* ===== verification/Eos_Device.thy ===== *)
theory Eos_Device
  imports Eos_Signature Eos_Transaction Eos_Reviews
begin

unbundle bit_operations_syntax

text \<open>
  The device as a state machine of commands and of the user's decisions, and what the host sees of it:
  the refused commands, the public key, and the signing of a transaction, where the device with its one
  buffer follows a session of the parser and answers the end of it with the signature.
\<close>

section \<open>The device as a state machine\<close>

text \<open>
  A command arrives when no review is on the screen (the host waits for its answer); the user decides
  when one is.
\<close>

datatype event = Command bytes | Approve | Reject

definition signing_screen :: "display_t \<Rightarrow> bool" where
  "signing_screen d \<longleftrightarrow> d = SingleActionFlow \<or> d = MultipleActionFlow"

inductive device_step :: "'h device_library \<Rightarrow> 'h device_t \<Rightarrow> event \<Rightarrow> bytes option \<Rightarrow> 'h device_t \<Rightarrow> bool" for lib where
  step_command: "display dev = IdleScreen \<Longrightarrow> app_round lib bs dev = Some (Inr (dev', reply)) \<Longrightarrow>
    device_step lib dev (Command bs) reply dev'"
| step_address_ok: "display dev = PublicKeyFlow \<Longrightarrow> user_action_address_ok lib dev = Inr (dev', answer) \<Longrightarrow>
    device_step lib dev Approve (Some answer) dev'"
| step_address_cancel: "display dev = PublicKeyFlow \<Longrightarrow> user_action_address_cancel dev = Inr (dev', answer) \<Longrightarrow>
    device_step lib dev Reject (Some answer) dev'"
| step_sign_ok: "signing_screen (display dev) \<Longrightarrow> user_action_sign_flow_ok lib dev = Some (Inr (dev', reply)) \<Longrightarrow>
    device_step lib dev Approve reply dev'"
| step_tx_cancel: "signing_screen (display dev) \<Longrightarrow> user_action_tx_cancel dev = Inr (dev', answer) \<Longrightarrow>
    device_step lib dev Reject (Some answer) dev'"

inductive_simps device_step_simps:
  "device_step lib dev (Command bs) reply dev'"
  "device_step lib dev Approve reply dev'"
  "device_step lib dev Reject reply dev'"

text \<open>A run is the list of the states in which something happened, of what happened and of the answers.\<close>

type_synonym 'h trace = "('h device_t \<times> event \<times> bytes option) list"

inductive device_run :: "'h device_library \<Rightarrow> 'h device_t \<Rightarrow> 'h trace \<Rightarrow> 'h device_t \<Rightarrow> bool" for lib where
  run_end: "device_run lib dev [] dev"
| run_step: "device_step lib dev e reply dev1 \<Longrightarrow> device_run lib dev1 trace dev' \<Longrightarrow>
    device_run lib dev ((dev, e, reply) # trace) dev'"

inductive_simps device_run_Nil [simp]: "device_run lib dev [] dev'"
inductive_simps device_run_Cons: "device_run lib dev (x # trace) dev'"

text \<open>What the host sent, what it got, and what the user approved.\<close>

definition sent :: "'h trace \<Rightarrow> bytes list" where
  "sent trace = concat (map (\<lambda>(_, e, _). case e of Command bs \<Rightarrow> [bs] | _ \<Rightarrow> []) trace)"

definition answered :: "'h trace \<Rightarrow> bytes list" where
  "answered trace = concat (map (\<lambda>(_, _, reply). case reply of Some a \<Rightarrow> [a] | None \<Rightarrow> []) trace)"

definition approved :: "'h trace \<Rightarrow> (display_t \<times> 'h txProcessingContext_t) list" where
  "approved trace = concat (map (\<lambda>(dev, e, _). if e = Approve then [(display dev, blank (txProcessingCtx dev))] else []) trace)"

lemma trace_views [simp]:
  "sent [] = []" "answered [] = []" "approved [] = []"
  "sent ((dev, Command bs, reply) # trace) = bs # sent trace"
  "sent ((dev, Approve, reply) # trace) = sent trace"
  "sent ((dev, Reject, reply) # trace) = sent trace"
  "answered ((dev, e, None) # trace) = answered trace"
  "answered ((dev, e, Some a) # trace) = a # answered trace"
  "approved ((dev, Command bs, reply) # trace) = approved trace"
  "approved ((dev, Reject, reply) # trace) = approved trace"
  "approved ((dev, Approve, reply) # trace) = (display dev, blank (txProcessingCtx dev)) # approved trace"
  by (simp_all add: sent_def answered_def approved_def)

section \<open>The parser behind a command\<close>

text \<open>The screen of a status, and the context in front of which it stands.\<close>

definition screen_of :: "parserStatus_e \<Rightarrow> display_t" where
  "screen_of status = (if status = STREAM_CONFIRM_PROCESSING then MultipleActionFlow else SingleActionFlow)"

text \<open>What is left of the command lies behind its header and the status bytes.\<close>

definition tail_kept :: "'h txProcessingContext_t \<Rightarrow> bool" where
  "tail_kept ctx \<longleftrightarrow> commandLength ctx = 0 \<or> (\<exists>off. workBuffer ctx = Some off \<and> 5 \<le> off)"

lemma bytes_left_behind:
  assumes "tail_kept ctx" and "length w \<le> 5"
  shows "bytes_left (w @ drop (length w) mem) ctx = bytes_left mem ctx"
proof (cases "commandLength ctx = 0")
  case False
  then obtain off where "workBuffer ctx = Some off" "5 \<le> off" using assms(1) by (auto simp: tail_kept_def)
  then show ?thesis using assms(2) by (simp add: bytes_left_def)
qed (simp add: bytes_left_def split: option.splits)

lemma stream_ok_length: "length mem' = length mem \<Longrightarrow> stream_ok mem' ctx = stream_ok mem ctx"
  by (simp add: stream_ok_def chunk_ok_def)

lemma length_bytes_left: "stream_ok mem ctx \<Longrightarrow> length (bytes_left mem ctx) = unat (commandLength ctx)"
  by (auto simp: stream_ok_def chunk_ok_def bytes_left_def split: option.splits)

lemma parse_outcome:
  assumes ok: "stream_ok mem ctx" and cmd: "command_ok mem buffer len" and d: "digest_32 ops"
    and c: "consume ops ctx (input_bytes mem ctx buffer len) = Some (c, r, st)"
    and b: "\<forall>off. buffer = Some off \<longrightarrow> 5 \<le> off" and kept: "tail_kept ctx" and st: "st \<noteq> STREAM_FAULT"
  shows "\<exists>c'. parseTx ops mem ctx buffer len = Some (Inr (c', st)) \<and> blank c' = c \<and> bytes_left mem c' = r
    \<and> stream_ok mem c' \<and> tail_kept c'"
proof -
  let ?start = "if commandLength ctx = 0 then ctx\<lparr>workBuffer := buffer, commandLength := len\<rparr> else ctx"
  have "abstracted mem (parseTx ops mem ctx buffer len) = Some (c, r, st)" using parseTx_refines [OF ok cmd d] c by simp
  then obtain c' where c': "parseTx ops mem ctx buffer len = Some (Inr (c', st))" "blank c' = c" "bytes_left mem c' = r"
    by (auto simp: abstracted_def split: option.splits sum.splits)
  have len: "buffer = None \<Longrightarrow> len = 0" using cmd by (simp add: command_ok_def)
  have ok': "stream_ok mem ?start"
    using ok cmd b by (cases buffer) (auto simp: stream_ok_def chunk_ok_def buffers_ok_def position_ok_def command_ok_def)
  have p: "processTxInternal ops mem ?start = Some (Inr (c', st))" using c'(1) by (simp add: parseTx_def)
  have "stream_ok mem c'"
    using processTxInternal_returns [OF ok' d] p st by (auto simp: kept_ok_def)
  moreover from this have "tail_kept c'"
  proof -
    have e: "chunk_end c' = chunk_end ?start" using processTxInternal_chunk_end [OF ok' d p] .
    have "input_bytes mem ctx buffer len = bytes_left mem ?start"
      by (simp add: input_bytes_def command_bytes_def bytes_left_def split: option.splits)
    then have "length (bytes_left mem c') \<le> length (bytes_left mem ?start)"
      using consume_shorter [OF c] c'(3) by auto
    then have s: "unat (commandLength c') \<le> unat (commandLength ?start)"
      using length_bytes_left [OF ok'] length_bytes_left [OF \<open>stream_ok mem c'\<close>] by simp
    have "tail_kept ?start" using kept b len by (cases buffer) (auto simp: tail_kept_def)
    then show ?thesis using e s by (auto simp: tail_kept_def chunk_end_def unat_eq_0)
  qed
  ultimately show ?thesis using c' by blast
qed
section \<open>Commands on the wire\<close>

text \<open>A path as the host sends it, and the two commands of a transaction.\<close>

definition path_bytes :: "u32 list \<Rightarrow> bytes" where
  "path_bytes path = of_nat (length path) # concat (map (\<lambda>i. [ucast (drop_bit 24 i), ucast (drop_bit 16 i), ucast (drop_bit 8 i), ucast i]) path)"

definition more_apdu :: "bytes \<Rightarrow> bytes" where
  "more_apdu bs = [CLA, INS_SIGN, P1_MORE, 0, of_nat (length bs)] @ bs"

definition first_apdu :: "u32 list \<Rightarrow> bytes \<Rightarrow> bytes" where
  "first_apdu path bs = [CLA, INS_SIGN, P1_FIRST, 0, of_nat (length (path_bytes path @ bs))] @ path_bytes path @ bs"

lemma word32_of_parts:
  "push_bit 24 (ucast (ucast (drop_bit 24 i) :: u8)) OR push_bit 16 (ucast (ucast (drop_bit 16 i) :: u8))
     OR push_bit 8 (ucast (ucast (drop_bit 8 i) :: u8)) OR ucast (ucast i :: u8) = (i :: u32)" (is "?w = i")
proof (rule bit_word_eqI)
  fix n assume "n < LENGTH(32)"
  consider "n < 8" | "8 \<le> n" "n < 16" | "16 \<le> n" "n < 24" | "24 \<le> n" by linarith
  then show "bit ?w n = bit i n"
    using \<open>n < LENGTH(32)\<close> by cases (auto simp: bit_simps)
qed

lemma read_path_eq:
  "read_path (pre @ concat (map (\<lambda>i. [ucast (drop_bit 24 i), ucast (drop_bit 16 i), ucast (drop_bit 8 i), ucast i]) path) @ post)
     (length pre) (length path) = Inr path"
proof (induction path arbitrary: pre)
  case (Cons i path)
  have get: "mem_get (pre @ a # b # c # d # xs) (length pre) = Inr a" "mem_get (pre @ a # b # c # d # xs) (length pre + 1) = Inr b"
    "mem_get (pre @ a # b # c # d # xs) (length pre + 2) = Inr c" "mem_get (pre @ a # b # c # d # xs) (length pre + 3) = Inr d"
    for a b c d :: u8 and xs by (simp_all add: mem_get_def nth_append)
  have "length (pre @ [ucast (drop_bit 24 i), ucast (drop_bit 16 i), ucast (drop_bit 8 i), ucast i :: u8]) = length pre + 4" by simp
  from Cons.IH [of "pre @ [ucast (drop_bit 24 i), ucast (drop_bit 16 i), ucast (drop_bit 8 i), ucast i]", unfolded this]
  show ?case using word32_of_parts [of i] by (simp add: get [simplified])
qed simp

lemma length_path_bytes: "length (path_bytes path) = Suc (4 * length path)"
proof -
  have "length (concat (map (\<lambda>i :: u32. [ucast (drop_bit 24 i), ucast (drop_bit 16 i), ucast (drop_bit 8 i), ucast i :: u8]) path)) = 4 * length path"
    by (induction path) simp_all
  then show ?thesis by (simp add: path_bytes_def)
qed
section \<open>A parser that has started stays started\<close>

definition started :: "nat \<Rightarrow> 'h txProcessingContext_t \<Rightarrow> bool" where
  "started k ctx \<longleftrightarrow> state ctx \<noteq> TLV_NONE"

lemma next_state_started: "next_state s \<noteq> TLV_NONE"
  by (cases s) simp_all

lemma started_place: "place c = place ctx \<Longrightarrow> started k c = started k ctx"
  by (simp add: started_def place_def)

lemma started_moves: "moves s ctx c \<Longrightarrow> s \<noteq> TLV_NONE \<Longrightarrow> started k c"
  by (simp add: started_def moves_def place_def)

lemma process_state_started:
  assumes s: "started k ctx" and p: "process_state ops mem ctx = Inr (c, q)"
  shows "started k c"
  using p
proof (cases rule: process_state_cases)
  case field
  then show ?thesis using s started_place started_moves next_state_started by blast
next
  case permission
  then show ?thesis using permission_moves [OF permission(2)] s started_place started_moves [of _ ctx c k] next_state_started
    by (metis txProcessingState_e.distinct(1) txProcessingState_e.simps)
next
  case actions
  then show ?thesis using action_list_moves [OF actions(2)] s started_place
    by (auto simp: started_def place_def next_state_started)
next
  case data
  then show ?thesis using data_moves [of ops mem ctx c] s started_place
    by (auto simp: started_def place_def action_counted_def split: if_splits)
qed (use s in simp)

interpretation starting: review_invariant started
proof (unfold_locales, goal_cases header field state confirmed reviewed)
  case (header ctx c k)
  then show ?case using started_place [OF header_place] by blast
next
  case (state ops mem ctx c q k)
  then show ?case using process_state_started by blast
qed (auto simp: started_def)

lemma consume_started:
  assumes "rest_ok ctx" and "length bs < 2 ^ 32" and "digest_32 ops" and "state ctx \<noteq> TLV_NONE"
    and "consume ops ctx bs = Some (c, r, st)"
  shows "state c \<noteq> TLV_NONE"
  using starting.consume_inv [OF assms(1-3) _ assms(5)] assms(4) by (simp add: starting.ended_def started_def)
section \<open>The device follows the parser\<close>

text \<open>
  The signing device between two commands and in a review: the key path is stored, and what the
  parser has left of the command is \<open>r\<close>.
\<close>

definition serving :: "u32 list \<Rightarrow> 'h device_t \<Rightarrow> bool" where
  "serving path dev \<longleftrightarrow> 260 \<le> length (G_io_apdu_buffer dev) \<and> (\<exists>t. tmpCtx dev = TransactionMember t
     \<and> length (transactionHash t) = 32 \<and> unat (pathLength t) = length path \<and> length path \<le> length (bip32Path t)
     \<and> take (length path) (bip32Path t) = path)"

definition idle_with :: "u32 list \<Rightarrow> 'h device_t \<Rightarrow> 'h txProcessingContext_t \<Rightarrow> bool" where
  "idle_with path dev ctx \<longleftrightarrow> serving path dev \<and> display dev = IdleScreen \<and> commandLength (txProcessingCtx dev) = 0
     \<and> stream_ok (G_io_apdu_buffer dev) (txProcessingCtx dev) \<and> state ctx \<noteq> TLV_NONE \<and> blank (txProcessingCtx dev) = ctx"

definition review_with :: "u32 list \<Rightarrow> 'h device_t \<Rightarrow> 'h txProcessingContext_t \<Rightarrow> bytes \<Rightarrow> bool" where
  "review_with path dev ctx r \<longleftrightarrow> serving path dev \<and> signing_screen (display dev) \<and> tail_kept (txProcessingCtx dev)
     \<and> stream_ok (G_io_apdu_buffer dev) (txProcessingCtx dev) \<and> state ctx \<noteq> TLV_NONE \<and> blank (txProcessingCtx dev) = ctx
     \<and> bytes_left (G_io_apdu_buffer dev) (txProcessingCtx dev) = r"

abbreviation ok_bytes :: bytes where "ok_bytes \<equiv> [0x90, 0x00]"

text \<open>The signature that the device answers at the end of a transaction.\<close>

definition closes :: "'h device_library \<Rightarrow> (bytes \<Rightarrow> bytes \<Rightarrow> bytes) \<Rightarrow> u32 list \<Rightarrow> signature \<Rightarrow> 'h txProcessingContext_t \<Rightarrow> bool" where
  "closes lib H path sig ctx \<longleftrightarrow> (\<exists>digest sha. hash_final (lib_sha256 lib) (sha256 ctx) = Some (digest, sha)
     \<and> length digest = 32 \<and> signature_of lib H path digest sig)"

text \<open>What a step of the device does when the parser stops with a status.\<close>

definition follows :: "u32 list \<Rightarrow> signature \<Rightarrow> 'h txProcessingContext_t \<Rightarrow> bytes \<Rightarrow> parserStatus_e
    \<Rightarrow> bytes option \<Rightarrow> 'h device_t \<Rightarrow> bool" where
  "follows path sig c r status reply dev' \<longleftrightarrow>
     (if status = STREAM_PROCESSING then reply = Some ok_bytes \<and> idle_with path dev' c
      else if status = STREAM_FINISHED then reply = Some (signature_bytes sig @ ok_bytes)
      else reply = None \<and> review_with path dev' c r \<and> display dev' = screen_of status)"

lemma status_ok: "status_bytes 0x9000 = ok_bytes"
  by (simp add: status_bytes_def)

lemma blank_keeps: "blank a = blank b \<Longrightarrow> sha256 a = sha256 b \<and> state a = state b"
  by (cases a; cases b) (simp add: blank_def set_chunk_def)

lemma blank_same [simp]: "sha256 (blank a) = sha256 a" "state (blank a) = state a"
  by (simp_all add: blank_def)

lemma serving_update:
  "serving path dev \<Longrightarrow> length buf = length (G_io_apdu_buffer dev) \<Longrightarrow>
    serving path (dev\<lparr>G_io_apdu_buffer := buf, txProcessingCtx := ctx, display := d\<rparr>)"
  "serving path (dev\<lparr>txProcessingCtx := ctx, display := d\<rparr>) = serving path dev"
  "serving path (dev\<lparr>txProcessingCtx := ctx\<rparr>) = serving path dev"
  "length buf = length (G_io_apdu_buffer dev) \<Longrightarrow> serving path (dev\<lparr>G_io_apdu_buffer := buf\<rparr>) = serving path dev"
  by (simp_all add: serving_def)

text \<open>The status bytes leave what the parser has not read.\<close>

lemma answer_kept:
  assumes "stream_ok mem c" and "tail_kept c" and "260 \<le> length mem" and "length w = 2"
  shows "mem_write mem 0 w = Inr (w @ drop 2 mem)" and "stream_ok (w @ drop 2 mem) c"
    and "bytes_left (w @ drop 2 mem) c = bytes_left mem c"
  using assms stream_ok_length [of "w @ drop 2 mem" mem c] bytes_left_behind [OF assms(2), of w mem]
  by (simp_all add: mem_write_def numeral_2_eq_2)

lemma sign_answer:
  assumes law: "hmac_total (lib_hmac lib) H" and s: "serving path dev" and c: "closes lib H path sig (txProcessingCtx dev)"
  shows "\<exists>dev'. sign_hash_and_set_result lib dev = Some (Inr (dev', 65)) \<and> 260 \<le> length (G_io_apdu_buffer dev')
    \<and> take 65 (G_io_apdu_buffer dev') = signature_bytes sig"
proof -
  obtain t where t: "tmpCtx dev = TransactionMember t" "length (transactionHash t) = 32" "unat (pathLength t) = length path"
    "length path \<le> length (bip32Path t)" "take (length path) (bip32Path t) = path"
    using s by (auto simp: serving_def)
  obtain digest sha where d: "hash_final (lib_sha256 lib) (sha256 (txProcessingCtx dev)) = Some (digest, sha)"
    "length digest = 32" "signature_of lib H path digest sig"
    using c by (auto simp: closes_def)
  have "260 \<le> length (G_io_apdu_buffer dev)" using s by (simp add: serving_def)
  then show ?thesis using sign_hash_eq [OF law d(1,2) t(1,2), of sig] t(3-5) d(3) by auto
qed

lemma answer_taken:
  assumes "260 \<le> length buf" and "take 65 buf = a"
  shows "mem_write buf 65 w = (if 65 + length w \<le> length buf then Inr (a @ w @ drop (65 + length w) buf) else Inl OutOfBounds)"
    and "length a = 65"
  using assms by (auto simp: mem_write_def)
lemma sign_parse_follows:
  assumes law: "hmac_total (lib_hmac lib) H" and d: "digest_32 (lib_sha256 lib)" and s: "serving path dev"
    and i: "display dev = IdleScreen" and k: "tail_kept (txProcessingCtx dev)"
    and ok: "stream_ok (G_io_apdu_buffer dev) (txProcessingCtx dev)" and n: "state (txProcessingCtx dev) \<noteq> TLV_NONE"
    and off: "5 \<le> off" "off + unat len \<le> length (G_io_apdu_buffer dev)"
    and xs: "xs = (if commandLength (txProcessingCtx dev) = 0 then take (unat len) (drop off (G_io_apdu_buffer dev))
      else bytes_left (G_io_apdu_buffer dev) (txProcessingCtx dev))"
    and c: "consume (lib_sha256 lib) (txProcessingCtx dev) xs = Some (c, r, st)"
    and st: "st \<noteq> STREAM_FAULT" and fin: "st = STREAM_FINISHED \<Longrightarrow> closes lib H path sig c"
  shows "\<exists>res dev' reply. sign_parse lib off len dev = Some (Inr res) \<and> finish_round res = Inr (dev', reply)
    \<and> follows path sig c r st reply dev'"
proof -
  let ?buf = "G_io_apdu_buffer dev" and ?ops = "lib_sha256 lib"
  have l16: "unat len < 2 ^ 16" using unsigned_less [of len] by simp
  then have l: "unat (ucast len :: u32) = unat len" by (simp add: unsigned_ucast_eq take_bit_nat_eq_self)
  have cmd: "command_ok ?buf (Some off) (ucast len)" using off(2) l by (simp add: command_ok_def)
  have inp: "input_bytes ?buf (txProcessingCtx dev) (Some off) (ucast len) = xs"
    using l by (simp add: xs input_bytes_def command_bytes_def)
  have l260: "260 \<le> length ?buf" using s by (simp add: serving_def)
  obtain c' where c': "parseTx ?ops ?buf (txProcessingCtx dev) (Some off) (ucast len) = Some (Inr (c', st))"
    "blank c' = c" "bytes_left ?buf c' = r" "stream_ok ?buf c'" "tail_kept c'"
    using parse_outcome [OF ok cmd d c [folded inp] _ k st] off(1) by auto
  have rest: "rest_ok (txProcessingCtx dev)" using ok by (simp add: stream_ok_def rest_ok_def)
  have lb: "length xs < 2 ^ 32"
    using l16 length_bytes_left [OF ok] u32_room [of "commandLength (txProcessingCtx dev)"] by (simp add: xs min_def)
  have nc: "state c \<noteq> TLV_NONE" by (rule consume_started [OF rest lb d n c])
  note kept = answer_kept [OF c'(4,5) l260, of ok_bytes, simplified]
  let ?buf' = "0x90 # 0 # drop 2 ?buf"
  have len': "length ?buf' = length ?buf" using l260 by simp
  show ?thesis
  proof (cases st)
    case STREAM_PROCESSING
    let ?dev = "dev\<lparr>txProcessingCtx := c', G_io_apdu_buffer := ?buf'\<rparr>"
    have r: "r = []" using consume_waiting(1) [OF rest lb d c [unfolded STREAM_PROCESSING]] .
    then have "commandLength c' = 0" using length_bytes_left [OF c'(4)] c'(3) by (simp add: unat_eq_0)
    then have "idle_with path ?dev c"
      using s i c'(2) nc kept(2) len' by (simp add: idle_with_def serving_def)
    then show ?thesis
      using c'(1) kept(1) STREAM_PROCESSING
      by (simp add: sign_parse_def finish_round_def status_ok follows_def)
  next
    case STREAM_FINISHED
    have cl: "closes lib H path sig (txProcessingCtx (dev\<lparr>txProcessingCtx := c'\<rparr>))"
      using fin [OF STREAM_FINISHED] c'(2) by (auto simp: closes_def)
    obtain dev' where dev': "sign_hash_and_set_result lib (dev\<lparr>txProcessingCtx := c'\<rparr>) = Some (Inr (dev', 65))"
      "260 \<le> length (G_io_apdu_buffer dev')" "take 65 (G_io_apdu_buffer dev') = signature_bytes sig"
      using sign_answer [OF law _ cl] s by (auto simp: serving_def)
    note a = answer_taken [OF dev'(2,3)]
    show ?thesis
      using c'(1) STREAM_FINISHED dev'(1,2) a
      by (simp add: sign_parse_def finish_round_def status_ok follows_def)
  next
    case STREAM_ACTION_READY
    let ?dev = "dev\<lparr>txProcessingCtx := c', display := SingleActionFlow, G_io_apdu_buffer := ?buf'\<rparr>"
    have "review_with path ?dev c r"
      using s c' nc kept len' by (simp add: review_with_def serving_def signing_screen_def)
    then show ?thesis
      using c'(1) kept(1) STREAM_ACTION_READY
      by (simp add: sign_parse_def finish_round_def status_ok follows_def screen_of_def)
  next
    case STREAM_CONFIRM_PROCESSING
    let ?dev = "dev\<lparr>txProcessingCtx := c', display := MultipleActionFlow, G_io_apdu_buffer := ?buf'\<rparr>"
    have "review_with path ?dev c r"
      using s c' nc kept len' by (simp add: review_with_def serving_def signing_screen_def)
    then show ?thesis
      using c'(1) kept(1) STREAM_CONFIRM_PROCESSING
      by (simp add: sign_parse_def finish_round_def status_ok follows_def screen_of_def)
  qed (use st in simp)
qed
section \<open>Signing commands and approvals\<close>

text \<open>A command that is longer than nothing and fits the buffer is handled in a buffer that starts with it.\<close>

lemma app_round_eq:
  assumes "length bs \<le> length (G_io_apdu_buffer dev)" and "bs \<noteq> []"
  shows "app_round lib bs dev =
    runThen (handleApdu lib (dev\<lparr>G_io_apdu_buffer := bs @ drop (length bs) (G_io_apdu_buffer dev)\<rparr>)) (\<lambda>r. Some (finish_round r))"
  using assms by (simp add: app_round_def mem_write_def)

lemma handleApdu_sign:
  assumes "G_io_apdu_buffer dev = CLA # INS_SIGN # p1 # p2 # lc # rest"
  shows "handleApdu lib dev = handleSign lib p1 p2 5 (ucast lc) dev"
  using assms by (simp add: handleApdu_def mem_read_def command_codes)

lemma more_step:
  assumes law: "hmac_total (lib_hmac lib) H" and d: "digest_32 (lib_sha256 lib)" and i: "idle_with path dev ctx"
    and bs: "length bs \<le> 255" and c: "consume (lib_sha256 lib) ctx bs = Some (c, r, st)" and st: "st \<noteq> STREAM_FAULT"
    and fin: "st = STREAM_FINISHED \<Longrightarrow> closes lib H path sig c"
  shows "\<exists>dev' reply. device_step lib dev (Command (more_apdu bs)) reply dev' \<and> follows path sig c r st reply dev'"
proof -
  let ?cmd = "more_apdu bs" and ?buf = "G_io_apdu_buffer dev"
  let ?dev = "dev\<lparr>G_io_apdu_buffer := ?cmd @ drop (length ?cmd) ?buf\<rparr>"
  have l: "260 \<le> length ?buf" using i by (simp add: idle_with_def serving_def)
  have lc: "length ?cmd = 5 + length bs" by (simp add: more_apdu_def)
  have lb: "length (?cmd @ drop (length ?cmd) ?buf) = length ?buf" using l lc bs by simp
  have u: "unat (ucast (of_nat (length bs) :: u8) :: u16) = length bs"
    using bs by (simp add: unsigned_ucast_eq take_bit_nat_eq_self unat_of_nat)
  have "handleApdu lib ?dev = handleSign lib P1_MORE 0 5 (ucast (of_nat (length bs) :: u8)) ?dev"
    by (rule handleApdu_sign) (simp add: more_apdu_def)
  also have "\<dots> = sign_parse lib 5 (ucast (of_nat (length bs) :: u8)) ?dev"
    using i by (auto simp: handleSign_def command_codes idle_with_def)
  finally have h: "handleApdu lib ?dev = sign_parse lib 5 (ucast (of_nat (length bs) :: u8)) ?dev" .
  have data: "take (length bs) (drop 5 (?cmd @ drop (length ?cmd) ?buf)) = bs" by (simp add: more_apdu_def)
  have b: "blank (txProcessingCtx dev) = ctx" using i by (simp add: idle_with_def)
  obtain res dev' reply where r: "sign_parse lib 5 (ucast (of_nat (length bs) :: u8)) ?dev = Some (Inr res)"
    "finish_round res = Inr (dev', reply)" "follows path sig c r st reply dev'"
  proof -
    have "\<exists>res dev' reply. sign_parse lib 5 (ucast (of_nat (length bs) :: u8)) ?dev = Some (Inr res)
      \<and> finish_round res = Inr (dev', reply) \<and> follows path sig c r st reply dev'"
    proof (rule sign_parse_follows [OF law d])
      show "serving path ?dev" using i lb by (simp add: idle_with_def serving_def)
      show "stream_ok (G_io_apdu_buffer ?dev) (txProcessingCtx ?dev)"
        using i lb stream_ok_length [of "?cmd @ drop (length ?cmd) ?buf" ?buf "txProcessingCtx dev"] by (simp add: idle_with_def)
      show "state (txProcessingCtx ?dev) \<noteq> TLV_NONE" using i by (auto simp: idle_with_def)
      have "consume (lib_sha256 lib) (txProcessingCtx dev) bs = Some (c, r, st)" using c b consume_blank by metis
      then show "consume (lib_sha256 lib) (txProcessingCtx ?dev) bs = Some (c, r, st)" by simp
      show "bs = (if commandLength (txProcessingCtx ?dev) = 0
          then take (unat (ucast (of_nat (length bs) :: u8) :: u16)) (drop 5 (G_io_apdu_buffer ?dev))
          else bytes_left (G_io_apdu_buffer ?dev) (txProcessingCtx ?dev))"
        using i data unfolding u by (simp add: idle_with_def)
      show "5 + unat (ucast (of_nat (length bs) :: u8) :: u16) \<le> length (G_io_apdu_buffer ?dev)"
        unfolding u using l lb bs by simp
    qed (use i st fin in \<open>simp_all add: idle_with_def tail_kept_def\<close>)
    then show ?thesis using that by blast
  qed
  have "app_round lib ?cmd dev = Some (Inr (dev', reply))"
    using app_round_eq [of ?cmd dev lib] h r l lc bs by (auto simp: more_apdu_def)
  then have "device_step lib dev (Command ?cmd) reply dev'"
    using i by (intro step_command) (simp_all add: idle_with_def)
  then show ?thesis using r(3) by blast
qed
text \<open>The device before a transaction: the sizes of its arrays, and what a signing session starts from.\<close>

definition at_rest :: "'h device_library \<Rightarrow> 'h device_t \<Rightarrow> bool" where
  "at_rest lib dev \<longleftrightarrow> display dev = IdleScreen \<and> 260 \<le> length (G_io_apdu_buffer dev) \<and> content_ok (content (txProcessingCtx dev))
     \<and> length (bip32Path (transaction_member lib (tmpCtx dev))) = MAX_BIP32_PATH
     \<and> length (transactionHash (transaction_member lib (tmpCtx dev))) = 32"

definition setting :: "'h device_t \<Rightarrow> u8" where
  "setting dev = (if is_data_allowed (N_storage dev) then 1 else 0)"

definition fresh_context :: "'h device_library \<Rightarrow> 'h device_t \<Rightarrow> 'h txProcessingContext_t" where
  "fresh_context lib dev = initTxContext (lib_sha256 lib) (content (txProcessingCtx dev)) (setting dev)"

definition path_ok :: "u32 list \<Rightarrow> bool" where
  "path_ok path \<longleftrightarrow> 1 \<le> length path \<and> length path \<le> MAX_BIP32_PATH"

lemma fresh_context_simps: "commandLength (fresh_context lib dev) = 0" "state (fresh_context lib dev) = TLV_CHAIN_ID"
  by (simp_all add: fresh_context_def initTxContext_def)

lemma word_eqI_unat: "unat a = unat b \<Longrightarrow> a = b"
  by (simp add: word_unat_eq_iff)

lemma ucast_small: "k \<le> 255 \<Longrightarrow> ucast (of_nat k :: u8) = (of_nat k :: u16)"
  by (rule word_eqI_unat) (simp add: unsigned_ucast_eq take_bit_nat_eq_self unat_of_nat)

text \<open>The first command stores the path and starts afresh.\<close>

lemma sign_start_eq:
  assumes p: "path_ok path" and buf: "G_io_apdu_buffer dev = hdr @ path_bytes path @ post" and off: "length hdr = off"
    and t: "t = transaction_member lib (tmpCtx dev)"
  shows "sign_start lib off len dev = Inr (Inr (dev\<lparr>tmpCtx := TransactionMember (t\<lparr>pathLength := of_nat (length path),
      bip32Path := path @ drop (length path) (bip32Path t)\<rparr>), txProcessingCtx := fresh_context lib dev\<rparr>,
    off + 1 + 4 * length path, len - 1 - 4 * of_nat (length path)))"
proof -
  have n: "unat (of_nat (length path) :: u8) = length path" "\<not> (of_nat (length path) :: u8) < 1"
    using p by (auto simp: path_ok_def MAX_BIP32_PATH_def unat_of_nat word_less_nat_alt)
  have g: "mem_get (G_io_apdu_buffer dev) off = Inr (of_nat (length path))"
    using off by (simp add: buf path_bytes_def mem_get_def nth_append)
  have r: "read_path (G_io_apdu_buffer dev) (off + 1) (length path) = Inr path"
    using read_path_eq [of "hdr @ [of_nat (length path)]" path post] off by (simp add: buf path_bytes_def)
  have u: "ucast (of_nat (length path) :: u8) = (of_nat (length path) :: u16)"
    using p by (intro ucast_small) (simp add: path_ok_def MAX_BIP32_PATH_def)
  have s: "(if is_data_allowed (N_storage dev) then 0x01 else 0x00) = setting dev" by (simp add: setting_def)
  show ?thesis
    using g r n p by (simp add: sign_start_def Let_def t u fresh_context_def s path_ok_def del: of_nat_Suc)
qed

lemma middle_slice: "length pre = n \<Longrightarrow> take (length bs) (drop n (pre @ bs @ rest)) = bs"
  by auto

lemma first_step:
  assumes law: "hmac_total (lib_hmac lib) H" and d: "digest_32 (lib_sha256 lib)" and a: "at_rest lib dev" and p: "path_ok path"
    and bs: "length (path_bytes path @ bs) \<le> 255" and c: "consume (lib_sha256 lib) (fresh_context lib dev) bs = Some (c, r, st)"
    and st: "st \<noteq> STREAM_FAULT" and fin: "st = STREAM_FINISHED \<Longrightarrow> closes lib H path sig c"
  shows "\<exists>dev' reply. device_step lib dev (Command (first_apdu path bs)) reply dev' \<and> follows path sig c r st reply dev'"
proof -
  let ?cmd = "first_apdu path bs" and ?buf = "G_io_apdu_buffer dev"
  let ?lc = "of_nat (length (path_bytes path @ bs)) :: u8"
  define dev1 where "dev1 = dev\<lparr>G_io_apdu_buffer := ?cmd @ drop (length ?cmd) ?buf\<rparr>"
  define t where "t = transaction_member lib (tmpCtx dev)"
  define dev2 where "dev2 = dev1\<lparr>tmpCtx := TransactionMember (t\<lparr>pathLength := of_nat (length path),
      bip32Path := path @ drop (length path) (bip32Path t)\<rparr>), txProcessingCtx := fresh_context lib dev\<rparr>"
  have l: "260 \<le> length ?buf" using a by (simp add: at_rest_def)
  have lc: "length ?cmd = 5 + length (path_bytes path @ bs)" by (simp add: first_apdu_def)
  have lp: "length (path_bytes path) = 1 + 4 * length path" by (simp add: length_path_bytes)
  have lb: "length (G_io_apdu_buffer dev2) = length ?buf" using l lc bs by (simp add: dev1_def dev2_def)
  define len where "len = (ucast ?lc - 1 - 4 * of_nat (length path) :: u16)"
  have u: "ucast ?lc = (of_nat (1 + 4 * length path + length bs) :: u16)"
    using ucast_small [of "length (path_bytes path @ bs)"] bs by (simp add: lp)
  have "len = of_nat (length bs)" unfolding len_def u by simp
  then have ulen: "unat len = length bs" using bs by (simp add: unat_of_nat)
  have hs: "handleApdu lib dev1 = handleSign lib P1_FIRST 0 5 (ucast ?lc) dev1"
    by (rule handleApdu_sign) (simp add: dev1_def first_apdu_def)
  have fc: "fresh_context lib dev1 = fresh_context lib dev" by (simp add: dev1_def fresh_context_def setting_def)
  have "sign_start lib 5 (ucast ?lc) dev1 = Inr (Inr (dev2, 5 + 1 + 4 * length path, len))"
    unfolding dev2_def len_def fc [symmetric]
    by (rule sign_start_eq [OF p, of _ "[CLA, INS_SIGN, P1_FIRST, 0, ?lc]" "bs @ drop (length ?cmd) ?buf"])
      (simp_all add: dev1_def first_apdu_def t_def)
  then have h: "handleApdu lib dev1 = sign_parse lib (6 + 4 * length path) len dev2"
    unfolding hs by (simp add: handleSign_def command_codes dev2_def fresh_context_simps)
  have data: "take (length bs) (drop (6 + 4 * length path) (G_io_apdu_buffer dev2)) = bs"
  proof -
    have "G_io_apdu_buffer dev2 = ([CLA, INS_SIGN, P1_FIRST, 0, ?lc] @ path_bytes path) @ bs @ drop (length ?cmd) ?buf"
      by (simp add: dev2_def dev1_def first_apdu_def)
    then show ?thesis using middle_slice [of "[CLA, INS_SIGN, P1_FIRST, 0, ?lc] @ path_bytes path"] lp by simp
  qed
  have t': "length (transactionHash t) = 32" "length (bip32Path t) = MAX_BIP32_PATH" using a by (simp_all add: at_rest_def t_def)
  have ex: "\<exists>res dev' reply. sign_parse lib (6 + 4 * length path) len dev2 = Some (Inr res)
      \<and> finish_round res = Inr (dev', reply) \<and> follows path sig c r st reply dev'"
  proof (rule sign_parse_follows [OF law d])
    show "serving path dev2" using l lb t' p
      by (simp add: serving_def) (simp add: dev2_def path_ok_def MAX_BIP32_PATH_def unat_of_nat)
    show "stream_ok (G_io_apdu_buffer dev2) (txProcessingCtx dev2)"
      using a by (simp add: dev2_def fresh_context_def initTxContext_ok at_rest_def)
    show "consume (lib_sha256 lib) (txProcessingCtx dev2) bs = Some (c, r, st)" using c by (simp add: dev2_def)
    show "bs = (if commandLength (txProcessingCtx dev2) = 0 then take (unat len) (drop (6 + 4 * length path) (G_io_apdu_buffer dev2))
        else bytes_left (G_io_apdu_buffer dev2) (txProcessingCtx dev2))"
      using data by (simp add: ulen) (simp add: dev2_def fresh_context_simps)
    show "6 + 4 * length path + unat len \<le> length (G_io_apdu_buffer dev2)" using lb l bs lp ulen by simp
    show "tail_kept (txProcessingCtx dev2)" "state (txProcessingCtx dev2) \<noteq> TLV_NONE" "display dev2 = IdleScreen"
      using a by (simp_all add: dev2_def fresh_context_simps tail_kept_def) (simp add: dev1_def at_rest_def)
  qed (use st fin in simp_all)
  then obtain res dev' reply where r: "sign_parse lib (6 + 4 * length path) len dev2 = Some (Inr res)"
    "finish_round res = Inr (dev', reply)" "follows path sig c r st reply dev'" by blast
  have "app_round lib ?cmd dev = Some (Inr (dev', reply))"
    using app_round_eq [of ?cmd dev lib] h r l lc bs by (auto simp: first_apdu_def dev1_def)
  then have "device_step lib dev (Command ?cmd) reply dev'" using a by (intro step_command) (simp_all add: at_rest_def)
  then show ?thesis using r(3) by blast
qed
lemma approve_step:
  assumes law: "hmac_total (lib_hmac lib) H" and d: "digest_32 (lib_sha256 lib)" and i: "review_with path dev ctx bs"
    and c: "consume (lib_sha256 lib) ctx bs = Some (c, r, st)" and st: "st \<noteq> STREAM_FAULT" "st \<noteq> STREAM_CONFIRM_PROCESSING"
    and fin: "st = STREAM_FINISHED \<Longrightarrow> closes lib H path sig c"
  shows "\<exists>dev' reply. device_step lib dev Approve reply dev' \<and> follows path sig c r st reply dev'"
proof -
  let ?buf = "G_io_apdu_buffer dev" and ?ops = "lib_sha256 lib" and ?ctx = "txProcessingCtx dev"
  have s: "serving path dev" and k: "tail_kept ?ctx" and ok: "stream_ok ?buf ?ctx" and b: "blank ?ctx = ctx"
    and left: "bytes_left ?buf ?ctx = bs" and scr: "signing_screen (display dev)" and n: "state ctx \<noteq> TLV_NONE"
    using i by (simp_all add: review_with_def)
  have l260: "260 \<le> length ?buf" using s by (simp add: serving_def)
  have inp: "input_bytes ?buf ?ctx None 0 = bs"
    using left by (auto simp: input_bytes_def command_bytes_def bytes_left_def split: option.splits)
  have c0: "consume ?ops ?ctx bs = Some (c, r, st)" using c b consume_blank by metis
  obtain c' where c': "parseTx ?ops ?buf ?ctx None 0 = Some (Inr (c', st))"
    "blank c' = c" "bytes_left ?buf c' = r" "stream_ok ?buf c'" "tail_kept c'"
    using parse_outcome [OF ok _ d c0 [folded inp] _ k st(1)] by (auto simp: command_ok_def)
  have rest: "rest_ok ?ctx" using ok by (simp add: stream_ok_def rest_ok_def)
  have lb: "length bs < 2 ^ 32" using length_bytes_left [OF ok] left u32_room [of "commandLength ?ctx"] by simp
  have nc: "state c \<noteq> TLV_NONE" using consume_started [OF rest lb d _ c0] n b by auto
  note kept = answer_kept [OF c'(4,5) l260, of ok_bytes, simplified]
  let ?buf' = "0x90 # 0 # drop 2 ?buf"
  have len': "length ?buf' = length ?buf" using l260 by simp
  have "\<exists>dev' reply. user_action_sign_flow_ok lib dev = Some (Inr (dev', reply)) \<and> follows path sig c r st reply dev'"
  proof (cases st)
    case STREAM_PROCESSING
    let ?dev = "dev\<lparr>txProcessingCtx := c', G_io_apdu_buffer := ?buf', display := IdleScreen\<rparr>"
    have "r = []" using consume_waiting(1) [OF rest lb d c0 [unfolded STREAM_PROCESSING]] .
    then have "commandLength c' = 0" using length_bytes_left [OF c'(4)] c'(3) by (simp add: unat_eq_0)
    then have "idle_with path ?dev c" using s c'(2) nc kept(2) len' by (simp add: idle_with_def serving_def)
    then show ?thesis
      using c'(1) kept(1) STREAM_PROCESSING l260
      by (simp add: user_action_sign_flow_ok_def io_exchange_with_code_def status_ok follows_def)
  next
    case STREAM_FINISHED
    have cl: "closes lib H path sig (txProcessingCtx (dev\<lparr>txProcessingCtx := c'\<rparr>))"
      using fin [OF STREAM_FINISHED] c'(2) by (auto simp: closes_def)
    obtain dev' where dev': "sign_hash_and_set_result lib (dev\<lparr>txProcessingCtx := c'\<rparr>) = Some (Inr (dev', 65))"
      "260 \<le> length (G_io_apdu_buffer dev')" "take 65 (G_io_apdu_buffer dev') = signature_bytes sig"
      using sign_answer [OF law _ cl] s by (auto simp: serving_def)
    note a = answer_taken [OF dev'(2,3)]
    show ?thesis
      using c'(1) STREAM_FINISHED dev'(1,2) a
      by (simp add: user_action_sign_flow_ok_def io_exchange_with_code_def status_ok follows_def)
  next
    case STREAM_ACTION_READY
    let ?dev = "dev\<lparr>txProcessingCtx := c', display := SingleActionFlow\<rparr>"
    have "review_with path ?dev c r"
      using s c' nc by (simp add: review_with_def serving_def signing_screen_def)
    then show ?thesis
      using c'(1) STREAM_ACTION_READY by (simp add: user_action_sign_flow_ok_def follows_def screen_of_def)
  qed (use st in simp_all)
  then show ?thesis using step_sign_ok [OF scr] by blast
qed

section \<open>A session of the device\<close>

text \<open>
  The log of a session that the device can follow: it ends with the end of the transaction, and its only
  announcement of several actions is at its beginning.
\<close>

definition finishing :: "'h device_library \<Rightarrow> (bytes \<Rightarrow> bytes \<Rightarrow> bytes) \<Rightarrow> u32 list \<Rightarrow> signature
    \<Rightarrow> (parserStatus_e \<times> 'h txProcessingContext_t) list \<Rightarrow> bool" where
  "finishing lib H path sig log \<longleftrightarrow> log \<noteq> [] \<and> fst (last log) = STREAM_FINISHED \<and> closes lib H path sig (snd (last log))"

definition asked :: "(parserStatus_e \<times> 'h txProcessingContext_t) list \<Rightarrow> (display_t \<times> 'h txProcessingContext_t) list" where
  "asked log = map (\<lambda>(st, c). (screen_of st, c)) (butlast log)"
text \<open>
  The rest of a run: \<open>k\<close> more commands; every answer but the last one is a success, and there is one for
  each command and for the one that waits, when a review is on the screen.
\<close>

definition runs_on :: "'h device_library \<Rightarrow> signature \<Rightarrow> 'h device_t \<Rightarrow> bool \<Rightarrow> bytes list
    \<Rightarrow> (display_t \<times> 'h txProcessingContext_t) list \<Rightarrow> bool" where
  "runs_on lib sig dev pending cs reviews \<longleftrightarrow> (\<exists>trace dev' k m. device_run lib dev trace dev' \<and> k \<le> length cs
     \<and> sent trace = map more_apdu (take k cs) \<and> Suc m = k + (if pending then 1 else 0)
     \<and> answered trace = replicate m ok_bytes @ [signature_bytes sig @ ok_bytes] \<and> approved trace = reviews)"

lemma runs_on_E:
  assumes "runs_on lib sig dev pending cs reviews"
  obtains trace dev' k m where "device_run lib dev trace dev'" "k \<le> length cs" "sent trace = map more_apdu (take k cs)"
    "Suc m = k + (if pending then 1 else 0)" "answered trace = replicate m ok_bytes @ [signature_bytes sig @ ok_bytes]"
    "approved trace = reviews"
  using assms unfolding runs_on_def by blast

text \<open>One step, and what must hold after it.\<close>

definition goes_on :: "'h device_library \<Rightarrow> signature \<Rightarrow> parserStatus_e \<Rightarrow> 'h device_t \<Rightarrow> bytes list
    \<Rightarrow> (display_t \<times> 'h txProcessingContext_t) list \<Rightarrow> bool" where
  "goes_on lib sig status dev cs reviews \<longleftrightarrow>
     (if status = STREAM_PROCESSING then runs_on lib sig dev False cs reviews
      else if status = STREAM_FINISHED then reviews = []
      else runs_on lib sig dev True cs reviews)"

text \<open>After a step with the reply of \<open>follows\<close>: the rest of the run with one command more, or with one review more.\<close>

lemma goes_on_trace:
  assumes f: "follows path sig c r status reply dev1" and st: "status \<noteq> STREAM_FAULT"
    and g: "goes_on lib sig status dev1 cs reviews"
  shows "\<exists>trace dev' k. device_run lib dev1 trace dev' \<and> k \<le> length cs \<and> sent trace = map more_apdu (take k cs)
    \<and> answered ((dev, e, reply) # trace) = replicate k ok_bytes @ [signature_bytes sig @ ok_bytes] \<and> approved trace = reviews"
proof (cases "status = STREAM_FINISHED")
  case True
  then show ?thesis using f g by (intro exI [of _ "[]"] exI [of _ dev1] exI [of _ 0]) (simp add: follows_def goes_on_def)
next
  case False
  then obtain pending where p: "runs_on lib sig dev1 pending cs reviews"
    "reply = (if pending then None else Some ok_bytes)"
    using f g by (auto simp: follows_def goes_on_def split: if_splits)
  obtain trace dev' k m where t: "device_run lib dev1 trace dev'" "k \<le> length cs" "sent trace = map more_apdu (take k cs)"
    "Suc m = k + (if pending then 1 else 0)" "answered trace = replicate m ok_bytes @ [signature_bytes sig @ ok_bytes]"
    "approved trace = reviews"
    using p(1) by (rule runs_on_E)
  have "answered ((dev, e, reply) # trace) = replicate k ok_bytes @ [signature_bytes sig @ ok_bytes]"
    using t(4,5) p(2) by (cases pending; cases k) simp_all
  then show ?thesis using t by blast
qed

lemma runs_on_command:
  assumes step: "device_step lib dev (Command (more_apdu bs)) reply dev1" and f: "follows path sig c r status reply dev1"
    and st: "status \<noteq> STREAM_FAULT" and g: "goes_on lib sig status dev1 cs reviews"
  shows "runs_on lib sig dev False (bs # cs) reviews"
proof -
  obtain trace dev' k where t: "device_run lib dev1 trace dev'" "k \<le> length cs" "sent trace = map more_apdu (take k cs)"
    "answered ((dev, Command (more_apdu bs), reply) # trace) = replicate k ok_bytes @ [signature_bytes sig @ ok_bytes]"
    "approved trace = reviews"
    using goes_on_trace [OF f st g] by blast
  show ?thesis
    unfolding runs_on_def
    using run_step [OF step t(1)] t
    by (intro exI [of _ "(dev, Command (more_apdu bs), reply) # trace"] exI [of _ dev'] exI [of _ "Suc k"] exI [of _ k]) simp
qed

lemma runs_on_approval:
  assumes step: "device_step lib dev Approve reply dev1" and f: "follows path sig c r status reply dev1"
    and st: "status \<noteq> STREAM_FAULT" and g: "goes_on lib sig status dev1 cs reviews"
  shows "runs_on lib sig dev True cs ((display dev, blank (txProcessingCtx dev)) # reviews)"
proof -
  obtain trace dev' k where t: "device_run lib dev1 trace dev'" "k \<le> length cs" "sent trace = map more_apdu (take k cs)"
    "answered ((dev, Approve, reply) # trace) = replicate k ok_bytes @ [signature_bytes sig @ ok_bytes]"
    "approved trace = reviews"
    using goes_on_trace [OF f st g] by blast
  show ?thesis
    unfolding runs_on_def
    using run_step [OF step t(1)] t
    by (intro exI [of _ "(dev, Approve, reply) # trace"] exI [of _ dev'] exI [of _ k] exI [of _ k]) simp
qed

lemma round_runs_on:
  assumes law: "hmac_total (lib_hmac lib) H" and d: "digest_32 (lib_sha256 lib)" and l: "length bs \<le> 255"
    and c: "consume (lib_sha256 lib) ctx bs = Some (c, r, st)" and st: "st \<noteq> STREAM_FAULT"
    and fin: "st = STREAM_FINISHED \<Longrightarrow> closes lib H path sig c"
    and further: "\<And>dev1 reply. follows path sig c r st reply dev1 \<Longrightarrow> goes_on lib sig st dev1 cs reviews"
  shows "(\<forall>dev. idle_with path dev ctx \<longrightarrow> runs_on lib sig dev False (bs # cs) reviews)
    \<and> (\<forall>dev. review_with path dev ctx bs \<longrightarrow> st \<noteq> STREAM_CONFIRM_PROCESSING \<longrightarrow>
        runs_on lib sig dev True cs ((display dev, ctx) # reviews))"
proof (intro conjI allI impI)
  fix dev assume "idle_with path dev ctx"
  from more_step [OF law d this l c st fin]
  obtain dev1 reply where s: "device_step lib dev (Command (more_apdu bs)) reply dev1" "follows path sig c r st reply dev1"
    by blast
  show "runs_on lib sig dev False (bs # cs) reviews" by (rule runs_on_command [OF s st further [OF s(2)]])
next
  fix dev assume i: "review_with path dev ctx bs" and nc: "st \<noteq> STREAM_CONFIRM_PROCESSING"
  from approve_step [OF law d i c st nc fin]
  obtain dev1 reply where s: "device_step lib dev Approve reply dev1" "follows path sig c r st reply dev1" by blast
  have "blank (txProcessingCtx dev) = ctx" using i by (simp add: review_with_def)
  then show "runs_on lib sig dev True cs ((display dev, ctx) # reviews)"
    using runs_on_approval [OF s st further [OF s(2)]] by simp
qed

lemma device_follows_session:
  assumes law: "hmac_total (lib_hmac lib) H" and d: "digest_32 (lib_sha256 lib)"
  shows "session (lib_sha256 lib) ctx cs log \<Longrightarrow> finishing lib H path sig log \<Longrightarrow>
    \<forall>x \<in> set (tl log). fst x \<noteq> STREAM_CONFIRM_PROCESSING \<Longrightarrow> \<forall>bs \<in> set cs. length bs \<le> 255 \<Longrightarrow>
    (\<forall>dev. idle_with path dev ctx \<longrightarrow> runs_on lib sig dev False cs (asked log))
    \<and> (\<forall>dev. review_with path dev ctx (hd cs) \<longrightarrow> fst (hd log) \<noteq> STREAM_CONFIRM_PROCESSING \<longrightarrow>
        runs_on lib sig dev True (tl cs) ((display dev, ctx) # asked log))"
proof (induction ctx cs log rule: session.induct)
  case (session_end ctx)
  then show ?case by (simp add: finishing_def)
next
  case (session_more ctx bs c r cs log)
  have "goes_on lib sig STREAM_PROCESSING dev1 cs (asked log)" if "follows path sig c r STREAM_PROCESSING reply dev1" for dev1 reply
    using session_more.IH [OF session_more.prems(1,2)] session_more.prems(3) that by (simp add: goes_on_def follows_def)
  from round_runs_on [OF law d _ session_more.hyps(1) _ _ this] session_more.prems(3) show ?case by simp
next
  case (session_review ctx bs c r status cs log)
  have f: "finishing lib H path sig log"
    using session_review.prems(1) session_review.hyps(2) by (auto simp: finishing_def asks_def split: if_splits)
  have t: "\<forall>x \<in> set (tl log). fst x \<noteq> STREAM_CONFIRM_PROCESSING" and h: "fst (hd log) \<noteq> STREAM_CONFIRM_PROCESSING"
    using session_review.prems(2) f by (cases log; auto simp: finishing_def)+
  have l: "length bs \<le> 255" and l': "\<forall>bs \<in> set (r # cs). length bs \<le> 255"
    using session_review.prems(3) consume_shorter [OF session_review.hyps(1)] by auto
  have st: "status \<noteq> STREAM_FAULT" "status \<noteq> STREAM_FINISHED" using session_review.hyps(2) by (auto simp: asks_def)
  have log: "asked ((status, c) # log) = (screen_of status, c) # asked log" using f by (simp add: asked_def finishing_def)
  have "goes_on lib sig status dev1 cs (asked ((status, c) # log))" if "follows path sig c r status reply dev1" for dev1 reply
    using session_review.IH [OF f t l'] that session_review.hyps(2) h unfolding log by (auto simp: goes_on_def follows_def asks_def)
  from round_runs_on [OF law d l session_review.hyps(1) st(1) _ this] st(2) show ?case by simp
next
  case (session_stop ctx bs c r status cs)
  have st: "status = STREAM_FINISHED" and fin: "closes lib H path sig c"
    using session_stop.prems(1) session_stop.hyps(2) by (simp_all add: finishing_def)
  have "goes_on lib sig status dev1 cs (asked [(status, c)])" for dev1 by (simp add: goes_on_def st asked_def)
  from round_runs_on [OF law d _ session_stop.hyps(1) _ fin this] session_stop.prems(3) st show ?case by simp
qed
text \<open>A session from its first command on.\<close>

lemma device_signs_session:
  assumes law: "hmac_total (lib_hmac lib) H" and d: "digest_32 (lib_sha256 lib)" and a: "at_rest lib dev" and p: "path_ok path"
    and s: "session (lib_sha256 lib) (fresh_context lib dev) (bs # cs) log" and f: "finishing lib H path sig log"
    and t: "\<forall>x \<in> set (tl log). fst x \<noteq> STREAM_CONFIRM_PROCESSING"
    and bs: "length (path_bytes path @ bs) \<le> 255" and cs: "\<forall>bs \<in> set cs. length bs \<le> 255"
  shows "\<exists>trace dev' k. device_run lib dev trace dev' \<and> k \<le> length cs
    \<and> sent trace = first_apdu path bs # map more_apdu (take k cs)
    \<and> answered trace = replicate k ok_bytes @ [signature_bytes sig @ ok_bytes] \<and> approved trace = asked log"
proof -
  note follow = device_follows_session [OF law d]
  obtain c r st where c: "consume (lib_sha256 lib) (fresh_context lib dev) bs = Some (c, r, st)" and st: "st \<noteq> STREAM_FAULT"
    and fin: "st = STREAM_FINISHED \<Longrightarrow> closes lib H path sig c"
    and further: "\<And>dev1 reply. follows path sig c r st reply dev1 \<Longrightarrow> goes_on lib sig st dev1 cs (asked log)"
    using s
  proof (cases rule: session.cases)
    case (session_more c r)
    have "goes_on lib sig STREAM_PROCESSING dev1 cs (asked log)" if "follows path sig c r STREAM_PROCESSING reply dev1" for dev1 reply
      using follow [OF session_more(2) f t cs] that by (simp add: goes_on_def follows_def)
    then show ?thesis using that [OF session_more(1)] by simp
  next
    case (session_review c r status log')
    have f': "finishing lib H path sig log'"
      using f session_review by (auto simp: finishing_def asks_def split: if_splits)
    have t': "\<forall>x \<in> set (tl log'). fst x \<noteq> STREAM_CONFIRM_PROCESSING" and h: "fst (hd log') \<noteq> STREAM_CONFIRM_PROCESSING"
      using t f' session_review(1) by (cases log'; auto simp: finishing_def)+
    have l': "\<forall>bs \<in> set (r # cs). length bs \<le> 255" using cs bs consume_shorter [OF session_review(2)] by auto
    have log: "asked log = (screen_of status, c) # asked log'" using f' session_review(1) by (simp add: asked_def finishing_def)
    have "goes_on lib sig status dev1 cs (asked log)" if "follows path sig c r status reply dev1" for dev1 reply
      using follow [OF session_review(4) f' t' l'] that session_review(3) h unfolding log
      by (auto simp: goes_on_def follows_def asks_def)
    then show ?thesis using that [OF session_review(2)] session_review(3) by (auto simp: asks_def)
  next
    case (session_stop c r status)
    have st: "status = STREAM_FINISHED" and fin: "closes lib H path sig c"
      using f session_stop by (simp_all add: finishing_def)
    have "goes_on lib sig status dev1 cs (asked log)" for dev1 using session_stop(1) by (simp add: goes_on_def st asked_def)
    then show ?thesis using that [OF session_stop(2)] st fin by simp
  qed
  obtain dev1 reply where s1: "device_step lib dev (Command (first_apdu path bs)) reply dev1" "follows path sig c r st reply dev1"
    using first_step [OF law d a p bs c st fin] by blast
  obtain trace dev' k where tr: "device_run lib dev1 trace dev'" "k \<le> length cs" "sent trace = map more_apdu (take k cs)"
    "answered ((dev, Command (first_apdu path bs), reply) # trace) = replicate k ok_bytes @ [signature_bytes sig @ ok_bytes]"
    "approved trace = asked log"
    using goes_on_trace [OF s1(2) st further [OF s1(2)]] by blast
  show ?thesis
    using run_step [OF s1(1) tr(1)] tr
    by (intro exI [of _ "(dev, Command (first_apdu path bs), reply) # trace"] exI [of _ dev'] exI [of _ k]) simp
qed

section \<open>A whole transaction\<close>

text \<open>The screens of a transaction with \<open>n\<close> actions, in their order.\<close>

definition review_screens :: "nat \<Rightarrow> display_t list" where
  "review_screens n = (if 1 < n then [MultipleActionFlow] else []) @ replicate n SingleActionFlow"

lemma asked_transaction:
  assumes "opening_reviews n start" and "reviews_of ops ripemd160 n 0 acts reviews" and "n = length acts"
  shows "map fst (asked (start @ reviews @ [(STREAM_FINISHED, c)])) = review_screens n"
    and "\<forall>i < n. presents ops ripemd160 n i (acts ! i)
      (snd (asked (start @ reviews @ [(STREAM_FINISHED, c)]) ! (length (review_screens n) - n + i)))"
    and "\<forall>x \<in> set (tl (start @ reviews @ [(STREAM_FINISHED, c)])). fst x \<noteq> STREAM_CONFIRM_PROCESSING"
proof -
  have r: "length reviews = n" "\<And>i. i < n \<Longrightarrow> \<exists>c'. reviews ! i = (STREAM_ACTION_READY, c') \<and> presents ops ripemd160 n i (acts ! i) c'"
    using assms(2,3) by (auto simp: reviews_of_nth)
  have ready: "fst x = STREAM_ACTION_READY" if "x \<in> set reviews" for x
    using that r by (metis fst_conv in_set_conv_nth)
  have a: "asked (start @ reviews @ [(STREAM_FINISHED, c)]) = map (\<lambda>(st, c). (screen_of st, c)) (start @ reviews)"
    by (simp add: asked_def butlast_append)
  have m: "map (fst \<circ> (\<lambda>(st, c). (screen_of st, c))) reviews = replicate n SingleActionFlow"
    using ready r(1) by (intro nth_equalityI) (auto simp: screen_of_def split_beta)
  show "map fst (asked (start @ reviews @ [(STREAM_FINISHED, c)])) = review_screens n"
    using assms(1) m unfolding a by (auto simp: opening_reviews_def review_screens_def screen_of_def comp_def split: if_splits)
  have st: "length start = length (review_screens n) - n"
    using assms(1) by (auto simp: opening_reviews_def review_screens_def split: if_splits)
  show "\<forall>i < n. presents ops ripemd160 n i (acts ! i)
      (snd (asked (start @ reviews @ [(STREAM_FINISHED, c)]) ! (length (review_screens n) - n + i)))"
  proof (intro allI impI)
    fix i assume i: "i < n"
    then obtain c' where c': "reviews ! i = (STREAM_ACTION_READY, c')" "presents ops ripemd160 n i (acts ! i) c'" using r(2) by blast
    have "map (\<lambda>(st, c). (screen_of st, c)) (start @ reviews) ! (length start + i) = (screen_of STREAM_ACTION_READY, c')"
      using c'(1) i r(1) by (subst nth_map) simp_all
    then show "presents ops ripemd160 n i (acts ! i)
      (snd (asked (start @ reviews @ [(STREAM_FINISHED, c)]) ! (length (review_screens n) - n + i)))"
      unfolding a st [symmetric] using c'(2) by simp
  qed
  show "\<forall>x \<in> set (tl (start @ reviews @ [(STREAM_FINISHED, c)])). fst x \<noteq> STREAM_CONFIRM_PROCESSING"
  proof (cases start)
    case Nil
    then show ?thesis using ready list.set_sel(2) by (cases reviews) auto
  next
    case (Cons s ss)
    then have "ss = []" using assms(1) by (auto simp: opening_reviews_def split: if_splits)
    then show ?thesis using Cons ready by auto
  qed
qed

lemma device_signs_transaction:
  assumes law: "hmac_total (lib_hmac lib) H" and inc: "incremental (lib_sha256 lib)" and d: "digest_32 (lib_sha256 lib)"
    and a: "at_rest lib dev" and p: "path_ok path"
    and ok: "tx_ok (lib_sha256 lib) ripemd160 (setting dev = 1) t" and n: "n = length (tx_actions t)"
    and h: "hash_update (lib_sha256 lib) (hash_init (lib_sha256 lib)) (signed_bytes t) = Some h"
    and dg: "hash_final (lib_sha256 lib) h = Some (digest, sha)" "length digest = 32" "signature_of lib H path digest sig"
    and enc: "bs @ concat cs = encoding t" "length (encoding t) < 2 ^ 32"
    and bs: "length (path_bytes path @ bs) \<le> 255" and cs: "\<forall>bs \<in> set cs. length bs \<le> 255"
  shows "\<exists>trace dev' k. device_run lib dev trace dev' \<and> k \<le> length cs
    \<and> sent trace = first_apdu path bs # map more_apdu (take k cs)
    \<and> answered trace = replicate k ok_bytes @ [signature_bytes sig @ ok_bytes]
    \<and> map fst (approved trace) = review_screens n
    \<and> (\<forall>i < n. presents (lib_sha256 lib) ripemd160 n i (tx_actions t ! i) (snd (approved trace ! (length (review_screens n) - n + i))))"
proof -
  have c: "content_ok (content (txProcessingCtx dev))" using a by (simp add: at_rest_def)
  obtain start reviews c where s: "session (lib_sha256 lib) (fresh_context lib dev) [encoding t] (start @ reviews @ [(STREAM_FINISHED, c)])"
    "opening_reviews n start" "reviews_of (lib_sha256 lib) ripemd160 n 0 (tx_actions t) reviews" "sha256 c = h"
    using transaction_session [OF inc d c ok n h enc(2)] unfolding fresh_context_def by blast
  have "session (lib_sha256 lib) (fresh_context lib dev) (bs # cs) (start @ reviews @ [(STREAM_FINISHED, c)])"
    using session_chunks [of "fresh_context lib dev" bs cs "lib_sha256 lib"] fresh_rest_ok [OF c, of "lib_sha256 lib" "setting dev"] inc d enc s(1)
    by (simp add: fresh_context_def)
  moreover have "finishing lib H path sig (start @ reviews @ [(STREAM_FINISHED, c)])"
    using dg s(4) by (auto simp: finishing_def closes_def)
  ultimately show ?thesis
    using device_signs_session [OF law d a p _ _ asked_transaction(3) [OF s(2,3) n] bs cs, where sig = sig]
      asked_transaction(1,2) [OF s(2,3) n, of c] by metis
qed

end
