(* ===== verification/Eos_Commands.thy ===== *)
theory Eos_Commands
  imports Eos_Device
begin

unbundle bit_operations_syntax

text \<open>
  The commands outside a signing session, and what is left of one: the commands that are refused, the
  answers with a public key, a review that was rejected, a first command shorter than its path, and
  the setting that no command changes.
\<close>

section \<open>Refused commands\<close>

text \<open>
  The status of a command that is refused before the parser sees it, from its header, the byte behind
  it (the length of a path) and whether a transaction was begun.
\<close>

definition refusal :: "u8 \<Rightarrow> u8 \<Rightarrow> u8 \<Rightarrow> u8 \<Rightarrow> u8 \<Rightarrow> bool \<Rightarrow> u16 option" where
  "refusal cla ins p1 p2 n begun =
     (if cla \<noteq> 0xD4 then Some 0x6E00
      else if ins = 0x02 then
        (if n = 0 \<or> 10 < n then Some 0x6A80 else if 1 < p1 \<or> 1 < p2 then Some 0x6B00 else None)
      else if ins = 0x04 then
        (if p1 = 0 \<and> (n = 0 \<or> 10 < n) then Some 0x6A80
         else if p1 \<noteq> 0 \<and> p1 \<noteq> 0x80 \<or> p2 \<noteq> 0 then Some 0x6B00
         else if p1 = 0x80 \<and> \<not> begun then Some 0x6985 else None)
      else if ins = 0x06 then None
      else Some 0x6D00)"

lemma u8_below_one: "(n :: u8) < 1 \<longleftrightarrow> n = 0" "(1 :: u8) < n \<longleftrightarrow> n \<noteq> 0 \<and> n \<noteq> 1"
  unfolding word_less_nat_alt word_unat_eq_iff by (simp_all, linarith)

lemma u8_above_ten: "10 < unat (n :: u8) \<longleftrightarrow> 10 < n"
  by (simp add: word_less_nat_alt)

lemma read_path_ok: "off + 4 * n \<le> length mem \<Longrightarrow> \<exists>path. read_path mem off n = Inr path \<and> length path = n"
proof (induction n arbitrary: off)
  case (Suc n)
  then have "off + 4 + 4 * n \<le> length mem" by simp
  from Suc.IH [OF this] obtain path where "read_path mem (off + 4) n = Inr path" "length path = n" by blast
  then show ?case using Suc.prems by (simp add: mem_get_def)
qed simp

definition bad_path :: "u8 \<Rightarrow> bool" where
  "bad_path n \<longleftrightarrow> n = 0 \<or> 10 < n"

lemma bad_path_eq: "n < 1 \<or> MAX_BIP32_PATH < unat n \<longleftrightarrow> bad_path n"
  by (simp add: bad_path_def u8_below_one u8_above_ten MAX_BIP32_PATH_def)

lemma getPublicKey_refuses:
  assumes "mem_get (G_io_apdu_buffer dev) off = Inr n"
  shows "bad_path n \<Longrightarrow> handleGetPublicKey lib p1 p2 off dev = Inr (dev, 0x6A80, False, 0)"
    and "\<not> bad_path n \<Longrightarrow> 1 < p1 \<or> 1 < p2 \<Longrightarrow> handleGetPublicKey lib p1 p2 off dev = Inr (dev, 0x6B00, False, 0)"
  unfolding handleGetPublicKey_def Let_def assms andThen.simps bad_path_eq
  by (simp_all add: command_codes u8_below_one) auto

lemma sign_start_refuses:
  assumes "mem_get (G_io_apdu_buffer dev) off = Inr n" and "off + 41 \<le> length (G_io_apdu_buffer dev)"
  shows "bad_path n \<Longrightarrow> \<exists>t. sign_start lib off len dev = Inr (Inl (dev\<lparr>tmpCtx := t\<rparr>, 0x6A80))"
    and "\<not> bad_path n \<Longrightarrow> \<exists>t ctx k. sign_start lib off len dev = Inr (Inr (dev\<lparr>tmpCtx := t, txProcessingCtx := ctx\<rparr>,
      off + 1 + 4 * unat n, len - 1 - 4 * ucast n))"
proof -
  show "\<exists>t. sign_start lib off len dev = Inr (Inl (dev\<lparr>tmpCtx := t\<rparr>, 0x6A80))" if "bad_path n"
    using that unfolding sign_start_def Let_def assms(1) andThen.simps bad_path_eq by auto
  assume n: "\<not> bad_path n"
  then have "unat n \<le> 10" by (simp add: bad_path_def flip: u8_above_ten)
  then obtain path where "read_path (G_io_apdu_buffer dev) (off + 1) (unat n) = Inr path"
    using read_path_ok [of "off + 1" "unat n" "G_io_apdu_buffer dev"] assms(2) by auto
  then show "\<exists>t ctx k. sign_start lib off len dev = Inr (Inr (dev\<lparr>tmpCtx := t, txProcessingCtx := ctx\<rparr>,
      off + 1 + 4 * unat n, len - 1 - 4 * ucast n))"
    using n unfolding sign_start_def Let_def assms(1) andThen.simps bad_path_eq by auto
qed

lemma handleApdu_refuses:
  assumes buf: "G_io_apdu_buffer dev = cla # ins # p1 # p2 # lc # n # rest" and l: "260 \<le> length (G_io_apdu_buffer dev)"
    and r: "refusal cla ins p1 p2 n (state (txProcessingCtx dev) \<noteq> TLV_NONE) = Some sw"
  shows "\<exists>dev'. handleApdu lib dev = Some (Inr (dev', sw, False, 0))
    \<and> G_io_apdu_buffer dev' = G_io_apdu_buffer dev \<and> N_storage dev' = N_storage dev \<and> display dev' = display dev
    \<and> (ins = 4 \<and> p1 = 0 \<or> dev' = dev)"
proof -
  have hdr: "mem_read (G_io_apdu_buffer dev) 0 5 = Inr [cla, ins, p1, p2, lc]" by (simp add: buf mem_read_def)
  have n: "mem_get (G_io_apdu_buffer dev) 5 = Inr n" by (simp add: buf mem_get_def)
  have h: "handleApdu lib dev = (if cla \<noteq> 0xD4 then Some (Inr (dev, 0x6E00, False, 0))
      else if ins = 2 then Some (handleGetPublicKey lib p1 p2 5 dev)
      else if ins = 4 then handleSign lib p1 p2 5 (ucast lc) dev
      else if ins = 6 then Some (handleGetAppConfiguration lib dev) else Some (Inr (dev, 0x6D00, False, 0)))"
    by (simp add: handleApdu_def hdr command_codes)
  consider "cla \<noteq> 0xD4" | "cla = 0xD4" "ins = 2" | "cla = 0xD4" "ins = 4" "p1 = 0" | "cla = 0xD4" "ins = 4" "p1 \<noteq> 0"
    | "cla = 0xD4" "ins \<notin> {2, 4}" by auto
  then show ?thesis
  proof cases
    case 2
    have r': "(if bad_path n then Some 0x6A80 else if 1 < p1 \<or> 1 < p2 then Some 0x6B00 else None) = Some sw"
      using r 2 by (simp add: refusal_def bad_path_def)
    then show ?thesis unfolding h using 2 getPublicKey_refuses [OF n] by (auto split: if_splits)
  next
    case 3
    have r': "(if bad_path n then Some 0x6A80 else if p2 \<noteq> 0 then Some 0x6B00 else None) = Some sw"
      using r 3 by (simp add: refusal_def bad_path_def split: if_splits)
    have s: "handleSign lib p1 p2 5 len dev = thenRun (sign_start lib 5 len dev) (\<lambda>r. case r of
        Inl (dev, sw) \<Rightarrow> Some (Inr (dev, sw, False, 0))
      | Inr (dev, buffer_at, dataLength) \<Rightarrow>
          if p2 \<noteq> 0 then Some (Inr (dev, 0x6B00, False, 0))
          else if state (txProcessingCtx dev) = TLV_NONE then Some (Inr (dev, 0x6985, False, 0))
          else sign_parse lib buffer_at dataLength dev)" for len
      using 3 by (simp add: handleSign_def command_codes)
    have off: "5 + 41 \<le> length (G_io_apdu_buffer dev)" using l by simp
    show ?thesis
    proof (cases "bad_path n")
      case True
      then show ?thesis unfolding h s using 3 r' sign_start_refuses(1) [OF n off True, of lib "ucast lc"] by auto
    next
      case False
      then show ?thesis unfolding h s using 3 r' sign_start_refuses(2) [OF n off False, of lib "ucast lc"] by auto
    qed
  next
    case 4
    have "(if p1 \<noteq> 0x80 \<or> p2 \<noteq> 0 then Some 0x6B00
       else if state (txProcessingCtx dev) = TLV_NONE then Some 0x6985 else None) = Some sw"
      using r 4 by (simp add: refusal_def split: if_splits)
    moreover have "handleSign lib p1 p2 5 len dev = (if p1 \<noteq> 0x80 \<or> p2 \<noteq> 0 then Some (Inr (dev, 0x6B00, False, 0))
      else if state (txProcessingCtx dev) = TLV_NONE then Some (Inr (dev, 0x6985, False, 0)) else sign_parse lib 5 len dev)" for len
      using 4 by (simp add: handleSign_def command_codes)
    ultimately show ?thesis unfolding h using 4 by (auto split: if_splits)
  next
    case 5
    then show ?thesis using r unfolding h by (simp add: refusal_def split: if_splits)
  next
    case 1
    then show ?thesis using r unfolding h by (simp add: refusal_def)
  qed
qed

text \<open>What is behind the command in the buffer counts when the command is too short.\<close>

definition in_buffer :: "'h device_t \<Rightarrow> bytes \<Rightarrow> bytes" where
  "in_buffer dev bs = bs @ drop (length bs) (G_io_apdu_buffer dev)"

lemma first_six: "6 \<le> length b \<Longrightarrow> b = b ! 0 # b ! 1 # b ! 2 # b ! 3 # b ! 4 # b ! 5 # drop 6 b"
proof -
  assume "6 \<le> length b"
  then have d: "drop i b = b ! i # drop j b" if "i < 6" "j = i + 1" for i j using that by (simp add: Cons_nth_drop_Suc)
  have "drop 0 b = b ! 0 # b ! 1 # b ! 2 # b ! 3 # b ! 4 # b ! 5 # drop 6 b"
    by (simp add: d [of 0 1] d [of 1 2] d [of 2 3] d [of 3 4] d [of 4 5] d [of 5 6] del: drop0 One_nat_def)
  then show ?thesis by simp
qed

lemma device_refuses:
  assumes l: "260 \<le> length (G_io_apdu_buffer dev)" and bs: "bs \<noteq> []" "length bs \<le> 260" and i: "display dev = IdleScreen"
    and r: "refusal (in_buffer dev bs ! 0) (in_buffer dev bs ! 1) (in_buffer dev bs ! 2) (in_buffer dev bs ! 3) (in_buffer dev bs ! 5)
      (state (txProcessingCtx dev) \<noteq> TLV_NONE) = Some sw"
  shows "\<exists>dev'. device_step lib dev (Command bs) (Some (status_bytes sw)) dev'
    \<and> N_storage dev' = N_storage dev \<and> display dev' = IdleScreen
    \<and> (in_buffer dev bs ! 1 = 4 \<and> in_buffer dev bs ! 2 = 0 \<or> txProcessingCtx dev' = txProcessingCtx dev \<and> tmpCtx dev' = tmpCtx dev)"
proof -
  let ?b = "in_buffer dev bs" and ?dev = "dev\<lparr>G_io_apdu_buffer := in_buffer dev bs\<rparr>"
  have lb: "length ?b = length (G_io_apdu_buffer dev)" using l bs by (simp add: in_buffer_def)
  have split: "G_io_apdu_buffer ?dev = ?b ! 0 # ?b ! 1 # ?b ! 2 # ?b ! 3 # ?b ! 4 # ?b ! 5 # drop 6 ?b"
    using lb l first_six [of ?b] by simp
  obtain dev' where dev': "handleApdu lib ?dev = Some (Inr (dev', sw, False, 0))" "G_io_apdu_buffer dev' = ?b"
    "N_storage dev' = N_storage dev" "display dev' = IdleScreen" "?b ! 1 = 4 \<and> ?b ! 2 = 0 \<or> dev' = ?dev"
    using handleApdu_refuses [OF split, of sw lib] lb l r i by auto
  have w: "mem_write ?b 0 (status_bytes sw) = Inr (status_bytes sw @ drop 2 ?b)"
    using lb l by (simp add: mem_write_def status_bytes_def numeral_2_eq_2)
  let ?dev' = "dev'\<lparr>G_io_apdu_buffer := status_bytes sw @ drop 2 ?b\<rparr>"
  have "app_round lib bs dev = Some (Inr (?dev', Some (status_bytes sw)))"
    using app_round_eq [of bs dev lib] bs l dev'(1,2) w
    by (simp add: in_buffer_def [symmetric] finish_round_def) (simp add: status_bytes_def)
  then have "device_step lib dev (Command bs) (Some (status_bytes sw)) ?dev'" using i by (intro step_command)
  then show ?thesis using dev' by (intro exI [of _ ?dev']) auto
qed
section \<open>Public keys\<close>

text \<open>Writing behind what was written.\<close>

lemma write_prefix:
  "length a = n \<Longrightarrow> n + length bs \<le> length buf \<Longrightarrow>
    mem_write (a @ drop n buf) n bs = Inr ((a @ bs) @ drop (n + length bs) buf)"
  by (auto simp: mem_write_def add.commute)

definition compressed :: "bytes \<Rightarrow> bytes \<Rightarrow> bytes" where
  "compressed X Y = (if odd (be_nat Y) then 0x03 else 0x02) # X"

text \<open>The answer: the point, the text of its compressed form, the chain code if it was asked for.\<close>

definition key_answer :: "bytes \<Rightarrow> bytes \<Rightarrow> bytes \<Rightarrow> bytes \<Rightarrow> bytes" where
  "key_answer X Y addr code = [65] @ (0x04 # X @ Y) @ [of_nat (length addr)] @ addr @ code"

lemma get_public_key_eq:
  assumes W: "publicKey p = 0x04 # X @ Y" "length X = 32" "length Y = 32"
    and a: "address p = padded 60 addr" "0 \<notin> set addr" "length addr < 60"
    and c: "getChaincode p \<Longrightarrow> length (chainCode p) = 32" "code = (if getChaincode p then chainCode p else [])"
    and l: "260 \<le> length buf"
  shows "get_public_key_and_set_result p buf
    = Inr (length (key_answer X Y addr code), key_answer X Y addr code @ drop (length (key_answer X Y addr code)) buf)"
proof -
  let ?n = "length addr"
  have w0: "mem_write buf 0 [65] = Inr ([65] @ drop 1 buf)" using l by (simp add: mem_write_def)
  have w1: "mem_write ([65] @ drop 1 buf) 1 (0x04 # X @ Y) = Inr (([65] @ 0x04 # X @ Y) @ drop 66 buf)"
    using write_prefix [of "[65]" 1 "0x04 # X @ Y" buf] W l by simp
  have w2: "mem_write (([65] @ 0x04 # X @ Y) @ drop 66 buf) 66 [of_nat ?n]
      = Inr ((([65] @ 0x04 # X @ Y) @ [of_nat ?n]) @ drop 67 buf)"
    using write_prefix [of "[65] @ 0x04 # X @ Y" 66 "[of_nat ?n]" buf] W l by simp
  have w3: "mem_write ((([65] @ 0x04 # X @ Y) @ [of_nat ?n]) @ drop 67 buf) 67 addr
      = Inr (key_answer X Y addr [] @ drop (67 + ?n) buf)"
    using write_prefix [of "([65] @ 0x04 # X @ Y) @ [of_nat ?n]" 67 addr buf] W l a(3) by (simp add: key_answer_def)
  have w4: "mem_write (key_answer X Y addr [] @ drop (67 + ?n) buf) (67 + ?n) (chainCode p)
      = Inr (key_answer X Y addr (chainCode p) @ drop (67 + ?n + 32) buf)" if "length (chainCode p) = 32"
    using write_prefix [of "key_answer X Y addr []" "67 + ?n" "chainCode p" buf] W l a(3) that by (simp add: key_answer_def)
  have len: "length (key_answer X Y addr xs) = 67 + ?n + length xs" for xs using W by (simp add: key_answer_def)
  have r1: "mem_read (publicKey p) 0 65 = Inr (0x04 # X @ Y)" using W by (simp add: mem_read_def)
  have r2: "mem_read (address p) 0 ?n = Inr addr" using a by (simp add: mem_read_def padded_def)
  have s: "strlen (address p) = Inr ?n" using a strlen_padded by simp
  show ?thesis
  proof (cases "getChaincode p")
    case True
    then have "mem_read (chainCode p) 0 32 = Inr (chainCode p)" using c(1) by (simp add: mem_read_def)
    then show ?thesis
      using True c w4 [OF c(1) [OF True]]
      unfolding get_public_key_and_set_result_def Let_def w0 andThen.simps r1 w1 s w2 r2 w3
      by (simp add: len)
  next
    case False
    then show ?thesis
      using c unfolding get_public_key_and_set_result_def Let_def w0 andThen.simps r1 w1 s w2 r2 w3
      by (simp add: len)
  qed
qed

text \<open>The command, and what the device's library makes of its path.\<close>

definition key_apdu :: "u8 \<Rightarrow> u8 \<Rightarrow> u32 list \<Rightarrow> bytes" where
  "key_apdu p1 p2 path = [CLA, INS_GET_PUBLIC_KEY, p1, p2, of_nat (length (path_bytes path))] @ path_bytes path"

definition has_key :: "'h device_library \<Rightarrow> u32 list \<Rightarrow> bytes \<Rightarrow> bytes \<Rightarrow> bytes \<Rightarrow> bytes \<Rightarrow> bool" where
  "has_key lib path X Y code check \<longleftrightarrow> length X = 32 \<and> length Y = 32 \<and> length code = 32 \<and> 4 \<le> length check
     \<and> lib_ripemd160 lib (compressed X Y) = Some check
     \<and> (\<exists>key d. lib_derive lib path = Some (key, code) \<and> lib_private_key lib (take 32 key) = Some d
          \<and> lib_public_key lib d = Some (0x04 # X @ Y))"

lemma wif_of_key:
  assumes "has_key lib path X Y code check" and "length out = 60"
  shows "public_key_to_wif (lib_ripemd160 lib) (0x04 # X @ Y) 65 out 60
    = Inr (length (wif_text (compressed X Y) check) + 1, padded 60 (wif_text (compressed X Y) check))"
    and "length (wif_text (compressed X Y) check) \<le> 55"
proof -
  have l: "length X = 32" "length Y = 32" "lib_ripemd160 lib (compressed X Y) = Some check" "4 \<le> length check"
    using assms(1) by (simp_all add: has_key_def)
  then have k: "length (compressed X Y) = 33" by (simp add: compressed_def)
  show "length (wif_text (compressed X Y) check) \<le> 55" using length_wif_text [OF k l(4)] .
  have "public_key_to_wif (lib_ripemd160 lib) (0x04 # X @ Y) 65 out 60
    = compressed_public_key_to_wif (lib_ripemd160 lib) (compressed X Y) 0 33 out 60"
    using public_key_to_wif_eq [OF l(1,2), of 65 60 "lib_ripemd160 lib" out] by (simp add: compressed_def)
  also have "\<dots> = Inr (length (wif_text (compressed X Y) check) + 1, padded 60 (wif_text (compressed X Y) check))"
    using k l assms(2)
    by (subst compressed_public_key_to_wif_eq [where off = 0 and key = "compressed X Y" and check = check]) simp_all
  finally show "public_key_to_wif (lib_ripemd160 lib) (0x04 # X @ Y) 65 out 60
    = Inr (length (wif_text (compressed X Y) check) + 1, padded 60 (wif_text (compressed X Y) check))" .
qed
text \<open>The context of a public key as the command leaves it.\<close>

definition key_context :: "publicKeyContext_t \<Rightarrow> u8 \<Rightarrow> bytes \<Rightarrow> bytes \<Rightarrow> bytes \<Rightarrow> bytes \<Rightarrow> publicKeyContext_t" where
  "key_context p p2 X Y code check =
     (if p2 = 1 then p\<lparr>getChaincode := True, chainCode := code\<rparr> else p\<lparr>getChaincode := False\<rparr>)
       \<lparr>publicKey := 0x04 # X @ Y, address := padded 60 (wif_text (compressed X Y) check)\<rparr>"

lemma handleGetPublicKey_eq:
  assumes buf: "G_io_apdu_buffer dev = hdr @ path_bytes path @ post" "length hdr = 5" and p: "path_ok path"
    and p1: "p1 = 0 \<or> p1 = 1" and p2: "p2 = 0 \<or> p2 = 1" and k: "has_key lib path X Y code check"
    and a: "length (address (public_key_member lib (tmpCtx dev))) = 60"
    and dev1: "dev1 = dev\<lparr>tmpCtx := PublicKeyMember (key_context (public_key_member lib (tmpCtx dev)) p2 X Y code check)\<rparr>"
  shows "handleGetPublicKey lib p1 p2 5 dev =
    (if p1 = 0 then
       andThen (get_public_key_and_set_result (key_context (public_key_member lib (tmpCtx dev)) p2 X Y code check) (G_io_apdu_buffer dev))
         (\<lambda>(tx, buf). Inr (dev1\<lparr>G_io_apdu_buffer := buf\<rparr>, 0x9000, False, tx))
     else Inr (dev1\<lparr>display := PublicKeyFlow\<rparr>, 0x9000, True, 0))"
proof -
  have n: "unat (of_nat (length path) :: u8) = length path" using p by (simp add: path_ok_def MAX_BIP32_PATH_def unat_of_nat)
  have bp: "\<not> ((of_nat (length path) :: u8) < 1 \<or> length path > MAX_BIP32_PATH)"
    using p n by (auto simp: path_ok_def word_less_nat_alt)
  have g: "mem_get (G_io_apdu_buffer dev) 5 = Inr (of_nat (length path))"
    using buf by (simp add: path_bytes_def mem_get_def nth_append)
  have r: "read_path (G_io_apdu_buffer dev) 6 (length path) = Inr path"
    using read_path_eq [of "hdr @ [of_nat (length path)]" path post] buf by (simp add: path_bytes_def)
  have c: "\<not> (p1 \<noteq> P1_CONFIRM \<and> p1 \<noteq> P1_NON_CONFIRM)" "\<not> (p2 \<noteq> P2_CHAINCODE \<and> p2 \<noteq> P2_NO_CHAINCODE)"
    using p1 p2 by (auto simp: command_codes)
  obtain key d where kd: "lib_derive lib path = Some (key, code)" "lib_private_key lib (take 32 key) = Some d"
    "lib_public_key lib d = Some (0x04 # X @ Y)"
    using k by (auto simp: has_key_def)
  let ?p0 = "(public_key_member lib (tmpCtx dev))\<lparr>getChaincode := (p2 = P2_CHAINCODE)\<rparr>"
  let ?p1 = "if getChaincode ?p0 then ?p0\<lparr>chainCode := code\<rparr> else ?p0"
  have a': "length (address ?p1) = 60" using a by simp
  have kc: "key_context (public_key_member lib (tmpCtx dev)) p2 X Y code check
      = ?p1\<lparr>publicKey := 0x04 # X @ Y, address := padded 60 (wif_text (compressed X Y) check)\<rparr>"
    by (simp add: key_context_def command_codes)
  note w = wif_of_key(1) [OF k a']
  have n1: "(p1 = P1_NON_CONFIRM) = (p1 = 0)" by (simp add: command_codes)
  have r': "read_path (G_io_apdu_buffer dev) (5 + 1) (length path) = Inr path" using r by simp
  show ?thesis
    unfolding handleGetPublicKey_def Let_def g andThen.simps if_not_P [OF bp] if_not_P [OF c(1)] if_not_P [OF c(2)] n r' kd
      CX_ASSERT_simps prod.case w n1 dev1 kc
    using p1 by (auto simp: command_codes)
qed
lemma key_context_simps:
  "publicKey (key_context p p2 X Y code check) = 0x04 # X @ Y"
  "address (key_context p p2 X Y code check) = padded 60 (wif_text (compressed X Y) check)"
  "getChaincode (key_context p p2 X Y code check) = (p2 = 1)"
  "p2 = 1 \<Longrightarrow> chainCode (key_context p p2 X Y code check) = code"
  by (simp_all add: key_context_def)

lemma key_context_answer:
  assumes k: "has_key lib path X Y code check" and l: "260 \<le> length buf"
    and A: "A = key_answer X Y (wif_text (compressed X Y) check) (if p2 = 1 then code else [])"
  shows "get_public_key_and_set_result (key_context p p2 X Y code check) buf = Inr (length A, A @ drop (length A) buf)"
    and "length A + 2 \<le> 260"
proof -
  have kl: "length X = 32" "length Y = 32" "length code = 32" using k by (simp_all add: has_key_def)
  have t: "length (wif_text (compressed X Y) check) \<le> 55" using wif_of_key(2) [OF k, of "zeros 60"] by simp
  show "get_public_key_and_set_result (key_context p p2 X Y code check) buf = Inr (length A, A @ drop (length A) buf)"
    unfolding A using kl t l wif_text_printable by (intro get_public_key_eq) (simp_all add: key_context_simps)
  show "length A + 2 \<le> 260" using kl t by (simp add: A key_answer_def)
qed

text \<open>Answering with the first bytes of the buffer.\<close>

lemma answer_prefix:
  assumes "length a + 2 \<le> length buf"
  shows "mem_write (a @ drop (length a) buf) (length a) ok_bytes = Inr ((a @ ok_bytes) @ drop (length a + 2) buf)"
    and "take (length a + 2) ((a @ ok_bytes) @ rest) = a @ ok_bytes"
  using write_prefix [of a "length a" ok_bytes buf] assms by simp_all

lemma key_command:
  assumes i: "display dev = IdleScreen" and l: "260 \<le> length (G_io_apdu_buffer dev)" and p: "path_ok path"
    and p2: "p2 = 0 \<or> p2 = 1" and k: "has_key lib path X Y code check"
    and a: "length (address (public_key_member lib (tmpCtx dev))) = 60"
    and A: "A = key_answer X Y (wif_text (compressed X Y) check) (if p2 = 1 then code else [])"
  shows "\<exists>dev'. device_step lib dev (Command (key_apdu 0 p2 path)) (Some (A @ ok_bytes)) dev'" (is ?direct)
    and "\<exists>dev1 dev2 dev3. device_step lib dev (Command (key_apdu 1 p2 path)) None dev1
      \<and> display dev1 = PublicKeyFlow
      \<and> c_string (address (public_key_member lib (tmpCtx dev1))) = wif_text (compressed X Y) check
      \<and> device_step lib dev1 Approve (Some (A @ ok_bytes)) dev2 \<and> device_step lib dev1 Reject (Some [0x69, 0x85]) dev3"
      (is ?confirmed)
proof -
  have lp: "length (path_bytes path) \<le> 41" using p by (simp add: length_path_bytes path_ok_def MAX_BIP32_PATH_def)
  define buf where "buf = (\<lambda>p1. key_apdu p1 p2 path @ drop (length (key_apdu p1 p2 path)) (G_io_apdu_buffer dev))"
  have lk: "length (key_apdu p1 p2 path) \<le> 46" for p1 using lp by (simp add: key_apdu_def)
  have lb: "length (buf p1) = length (G_io_apdu_buffer dev)" for p1
    using lk [of p1] l unfolding buf_def length_append length_drop by linarith
  define dev0 where "dev0 = (\<lambda>p1. dev\<lparr>G_io_apdu_buffer := buf p1\<rparr>)"
  let ?p = "key_context (public_key_member lib (tmpCtx dev)) p2 X Y code check"
  define dev1 where "dev1 = (\<lambda>p1. (dev0 p1)\<lparr>tmpCtx := PublicKeyMember ?p\<rparr>)"
  have b0: "G_io_apdu_buffer (dev0 p1) = [CLA, INS_GET_PUBLIC_KEY, p1, p2, of_nat (length (path_bytes path))] @ path_bytes path
      @ drop (length (key_apdu p1 p2 path)) (G_io_apdu_buffer dev)" for p1
    by (simp add: dev0_def buf_def key_apdu_def)
  have d1: "dev1 p1 = dev0 p1\<lparr>tmpCtx := PublicKeyMember (key_context (public_key_member lib (tmpCtx (dev0 p1))) p2 X Y code check)\<rparr>" for p1
    by (simp add: dev1_def dev0_def)
  have a0: "length (address (public_key_member lib (tmpCtx (dev0 p1)))) = 60" for p1 using a by (simp add: dev0_def)
  have h: "handleApdu lib (dev0 p1) = Some (handleGetPublicKey lib p1 p2 5 (dev0 p1))" for p1
    using b0 [of p1] by (simp add: handleApdu_def mem_read_def command_codes)
  note get = handleGetPublicKey_eq [OF b0 _ p _ p2 k a0 d1, simplified]
  note ans = key_context_answer [OF k _ A]
  have round: "app_round lib (key_apdu p1 p2 path) dev = runThen (handleApdu lib (dev0 p1)) (\<lambda>r. Some (finish_round r))" for p1
    unfolding dev0_def buf_def using lk [of p1] l by (intro app_round_eq) (simp_all add: key_apdu_def)
  have lbuf: "260 \<le> length (G_io_apdu_buffer (dev0 p1))" for p1 using lb l by (simp add: dev0_def)
  have lA: "length A + 2 \<le> length (G_io_apdu_buffer (dev0 p1))" for p1 using ans(2) [OF lbuf] lbuf [of p1] by linarith
  note pre = answer_prefix [OF lA]
  have tmp: "public_key_member lib (tmpCtx (dev0 p1)) = public_key_member lib (tmpCtx dev)" for p1 by (simp add: dev0_def)
  show ?direct
  proof -
    let ?dev' = "(dev1 0)\<lparr>G_io_apdu_buffer := (A @ ok_bytes) @ drop (length A + 2) (G_io_apdu_buffer (dev0 0))\<rparr>"
    have "app_round lib (key_apdu 0 p2 path) dev = Some (Inr (?dev', Some (A @ ok_bytes)))"
      unfolding round h using get [of 0] ans(1) [OF lbuf, of "public_key_member lib (tmpCtx dev)"] pre
      by (simp add: tmp finish_round_def status_ok)
    then show ?thesis using i by (blast intro: step_command)
  qed
  show ?confirmed
  proof -
    let ?dev1 = "(dev1 1)\<lparr>display := PublicKeyFlow, G_io_apdu_buffer := ok_bytes @ drop 2 (buf 1)\<rparr>"
    have w: "mem_write (buf 1) 0 ok_bytes = Inr (ok_bytes @ drop 2 (buf 1))"
      using lb [of 1] l by (simp add: mem_write_def numeral_2_eq_2)
    have "app_round lib (key_apdu 1 p2 path) dev = Some (Inr (?dev1, None))"
      unfolding round h using get [of 1] w by (simp add: finish_round_def status_ok) (simp add: dev1_def dev0_def)
    then have s: "device_step lib dev (Command (key_apdu 1 p2 path)) None ?dev1" using i by (intro step_command)
    have l1: "260 \<le> length (G_io_apdu_buffer ?dev1)" using lb [of 1] l by simp
    have t: "tmpCtx ?dev1 = PublicKeyMember ?p" by (simp add: dev1_def)
    have lA1: "length A + 2 \<le> length (G_io_apdu_buffer ?dev1)" using ans(2) [OF l1] l1 by linarith
    have "\<exists>dev2. user_action_address_ok lib ?dev1 = Inr (dev2, A @ ok_bytes)"
      using ans(1) [OF l1] answer_prefix [OF lA1] unfolding user_action_address_ok_def t io_exchange_with_code_def
      by (simp add: public_key_member_def status_ok)
    then obtain dev2 where s2: "device_step lib ?dev1 Approve (Some (A @ ok_bytes)) dev2"
      using step_address_ok [of ?dev1 lib] by auto
    have "\<exists>dev3. user_action_address_cancel ?dev1 = Inr (dev3, [0x69, 0x85])"
      using l1 by (simp add: user_action_address_cancel_def io_exchange_with_code_def mem_write_def status_bytes_def)
    then obtain dev3 where s3: "device_step lib ?dev1 Reject (Some [0x69, 0x85]) dev3"
      using step_address_cancel [of ?dev1 _ _ lib] by auto
    have tl: "length (wif_text (compressed X Y) check) < 60" using wif_of_key(2) [OF k, of "zeros 60"] by simp
    have "c_string (address (public_key_member lib (tmpCtx ?dev1))) = wif_text (compressed X Y) check"
      unfolding t using c_string_padded [OF wif_text_printable tl] by (simp add: public_key_member_def key_context_simps)
    moreover have "display ?dev1 = PublicKeyFlow" by simp
    ultimately show ?thesis using s s2 s3 by blast
  qed
qed
section \<open>A rejected review\<close>

text \<open>
  The rejection answers the host and leaves the parser where it is, in front of what is left of the
  command.
\<close>

lemma status_cancel: "status_bytes 0x6985 = [0x69, 0x85]"
  by (simp add: status_bytes_def)

lemma reject_step:
  assumes s: "signing_screen (display dev)" and l: "2 \<le> length (G_io_apdu_buffer dev)"
  shows "device_step lib dev Reject (Some [0x69, 0x85])
    (dev\<lparr>G_io_apdu_buffer := [0x69, 0x85] @ drop 2 (G_io_apdu_buffer dev), display := IdleScreen\<rparr>)"
proof -
  have w: "mem_write (G_io_apdu_buffer dev) 0 [0x69, 0x85] = Inr ([0x69, 0x85] @ drop 2 (G_io_apdu_buffer dev))"
    using l by (simp add: mem_write_def numeral_2_eq_2)
  have "user_action_tx_cancel dev = Inr (dev\<lparr>G_io_apdu_buffer := [0x69, 0x85] @ drop 2 (G_io_apdu_buffer dev),
      display := IdleScreen\<rparr>, [0x69, 0x85])"
    using w by (simp add: user_action_tx_cancel_def io_exchange_with_code_def status_cancel)
  then show ?thesis using s step_tx_cancel by blast
qed

text \<open>An empty command after the rejection does what the approval would have done.\<close>

lemma reject_then_more:
  assumes law: "hmac_total (lib_hmac lib) H" and d: "digest_32 (lib_sha256 lib)" and i: "review_with path dev ctx bs"
    and c: "consume (lib_sha256 lib) ctx bs = Some (c, r, st)" and st: "st \<noteq> STREAM_FAULT"
    and fin: "st = STREAM_FINISHED \<Longrightarrow> closes lib H path sig c"
  shows "\<exists>dev1 dev2 reply. device_step lib dev Reject (Some [0x69, 0x85]) dev1
    \<and> device_step lib dev1 (Command (more_apdu [])) reply dev2 \<and> follows path sig c r st reply dev2"
proof -
  let ?buf = "G_io_apdu_buffer dev" and ?ctx = "txProcessingCtx dev"
  have s: "serving path dev" and k: "tail_kept ?ctx" and ok: "stream_ok ?buf ?ctx" and b: "blank ?ctx = ctx"
    and left: "bytes_left ?buf ?ctx = bs" and scr: "signing_screen (display dev)" and n: "state ctx \<noteq> TLV_NONE"
    using i by (simp_all add: review_with_def)
  have l: "260 \<le> length ?buf" using s by (simp add: serving_def)
  let ?buf1 = "[0x69, 0x85] @ drop 2 ?buf" and ?cmd = "more_apdu []"
  let ?dev1 = "dev\<lparr>G_io_apdu_buffer := ?buf1, display := IdleScreen\<rparr>"
  let ?buf2 = "?cmd @ drop (length ?cmd) ?buf" and ?dev2 = "?dev1\<lparr>G_io_apdu_buffer := ?cmd @ drop (length ?cmd) ?buf1\<rparr>"
  have lc: "length ?cmd = 5" by (simp add: more_apdu_def)
  have b2: "G_io_apdu_buffer ?dev2 = ?buf2" using lc by simp
  have lb: "length ?buf2 = length ?buf" using lc l by simp
  have nn: "state (txProcessingCtx ?dev2) \<noteq> TLV_NONE" using n b by auto
  have split: "G_io_apdu_buffer ?dev2 = CLA # INS_SIGN # P1_MORE # 0 # 0 # drop 5 ?buf"
    unfolding b2 lc by (simp add: more_apdu_def)
  have h: "handleApdu lib ?dev2 = sign_parse lib 5 0 ?dev2"
    unfolding handleApdu_sign [OF split] using nn by (simp add: handleSign_def command_codes)
  have c0: "consume (lib_sha256 lib) (txProcessingCtx ?dev2) bs = Some (c, r, st)" using c b consume_blank [of _ ?ctx] by simp
  have "\<exists>res dev' reply. sign_parse lib 5 0 ?dev2 = Some (Inr res)
      \<and> finish_round res = Inr (dev', reply) \<and> follows path sig c r st reply dev'"
  proof (rule sign_parse_follows [OF law d _ _ _ _ _ _ _ _ c0 st fin])
    have "length (G_io_apdu_buffer ?dev2) = length ?buf" unfolding b2 by (rule lb)
    then show "serving path ?dev2" unfolding serving_def using s by (simp add: serving_def)
    show "tail_kept (txProcessingCtx ?dev2)" using k by simp
    show "stream_ok (G_io_apdu_buffer ?dev2) (txProcessingCtx ?dev2)"
      unfolding b2 using ok stream_ok_length [OF lb, of ?ctx] by simp
    show "state (txProcessingCtx ?dev2) \<noteq> TLV_NONE" by (rule nn)
    have "bytes_left ?buf2 ?ctx = bs" using bytes_left_behind [OF k, of ?cmd ?buf] lc left by simp
    moreover have "commandLength ?ctx = 0 \<Longrightarrow> bs = []" using length_bytes_left [OF ok] left by simp
    ultimately show "bs = (if commandLength (txProcessingCtx ?dev2) = 0
        then take (unat (0 :: u16)) (drop 5 (G_io_apdu_buffer ?dev2))
        else bytes_left (G_io_apdu_buffer ?dev2) (txProcessingCtx ?dev2))"
      unfolding b2 by simp
    show "5 + unat (0 :: u16) \<le> length (G_io_apdu_buffer ?dev2)" unfolding b2 using lb l by simp
  qed simp_all
  then obtain res dev' reply where r: "sign_parse lib 5 0 ?dev2 = Some (Inr res)" "finish_round res = Inr (dev', reply)"
    "follows path sig c r st reply dev'" by blast
  have "app_round lib ?cmd ?dev1 = Some (Inr (dev', reply))"
    using app_round_eq [of ?cmd ?dev1 lib] h r l lc by (auto simp: more_apdu_def)
  then have "device_step lib ?dev1 (Command ?cmd) reply dev'" by (intro step_command) simp_all
  moreover have "device_step lib dev Reject (Some [0x69, 0x85]) ?dev1" using reject_step [OF scr] l by simp
  ultimately show ?thesis using r(3) by blast
qed

section \<open>A first command shorter than its path\<close>

text \<open>
  The length of the data behind the path wraps at 16 bits when the command does not hold its path, and the
  parser gets a chunk that reaches beyond the buffer.
\<close>

lemma short_command_wraps:
  assumes n: "1 \<le> n" "n \<le> MAX_BIP32_PATH" and lc: "unat lc < 1 + 4 * n" and l: "length (G_io_apdu_buffer dev) = 260"
    and buf: "mem_get (G_io_apdu_buffer dev) 5 = Inr (of_nat n)"
  shows "\<exists>dev' len. sign_start lib 5 (ucast (lc :: u8)) dev = Inr (Inr (dev', 6 + 4 * n, len))
    \<and> unat len = 65536 + unat lc - (1 + 4 * n) \<and> \<not> command_ok (G_io_apdu_buffer dev') (Some (6 + 4 * n)) (ucast len)"
proof -
  have u: "unat (of_nat n :: u8) = n" using n by (simp add: MAX_BIP32_PATH_def unat_of_nat)
  have nb: "\<not> bad_path (of_nat n)" using n u by (auto simp: bad_path_def MAX_BIP32_PATH_def u8_above_ten [symmetric])
  have c: "ucast (of_nat n :: u8) = (of_nat n :: u16)" using n by (intro ucast_small) (simp add: MAX_BIP32_PATH_def)
  define len where "len = (ucast lc :: u16) - 1 - 4 * of_nat n"
  obtain t ctx where s: "sign_start lib 5 (ucast lc) dev
      = Inr (Inr (dev\<lparr>tmpCtx := t, txProcessingCtx := ctx\<rparr>, 6 + 4 * n, len))"
    using sign_start_refuses(2) [OF buf _ nb, of lib "ucast lc"] l by (auto simp: u c len_def)
  have "len = ucast lc - of_nat (1 + 4 * n)" by (simp add: len_def)
  moreover have "unat (ucast lc :: u16) = unat lc"
  proof -
    have "unat lc < 256" by simp
    then have "unat lc < 2 ^ 16" by (rule less_trans) simp
    from take_bit_nat_eq_self [OF this] show ?thesis by (simp add: unsigned_ucast_eq)
  qed
  moreover have "unat (of_nat (1 + 4 * n) :: u16) = 1 + 4 * n"
    using n unfolding unat_of_nat by (simp add: MAX_BIP32_PATH_def)
  ultimately have ul: "unat len = 65536 + unat lc - (1 + 4 * n)"
    using lc by (simp add: unat_sub_if_size word_size del: of_nat_add of_nat_mult of_nat_Suc)
  have "unat len < 2 ^ 32" using ul lc n by (simp add: MAX_BIP32_PATH_def)
  then have "unat (ucast len :: u32) = unat len" by (simp add: unsigned_ucast_eq take_bit_nat_eq_self)
  then have "\<not> command_ok (G_io_apdu_buffer dev) (Some (6 + 4 * n)) (ucast len)"
    using l ul n by (simp add: command_ok_def MAX_BIP32_PATH_def)
  then show ?thesis using s ul by auto
qed

text \<open>
  When what lies behind the path in the buffer is the header of a field that is longer than the rest of the
  buffer, the parser reads that field up to beyond the end.
\<close>

lemma readTxByte_any:
  assumes "readTxByte mem ctx = Inr (b, c)"
  shows "c = work_skip 1 ctx \<and> 1 \<le> unat (commandLength ctx)"
    and "unat (commandLength ctx) + unat n < 2 ^ 32 \<Longrightarrow> readTxByte mem (lengthen n ctx) = Inr (b, work_skip 1 (lengthen n ctx))"
proof -
  obtain bs where bs: "1 \<le> commandLength ctx" "work_read mem ctx 1 = Inr bs" "b = hd bs" "c = work_skip 1 ctx"
    using assms by (auto simp: readTxByte_def res_simps)
  then have "length bs = 1" by (auto simp: work_read_def split: option.splits dest: length_mem_read)
  then have r: "1 \<le> commandLength ctx" "work_read mem ctx 1 = Inr [b]" "c = work_skip 1 ctx"
    using bs by (auto simp: length_Suc_conv)
  then show "c = work_skip 1 ctx \<and> 1 \<le> unat (commandLength ctx)" by (simp add: word_le_nat_alt)
  assume "unat (commandLength ctx) + unat n < 2 ^ 32"
  then have "unat (commandLength ctx + n) = unat (commandLength ctx) + unat n" by (simp add: unat_word_ariths)
  then have "1 \<le> commandLength (lengthen n ctx)" using r(1) by (simp add: lengthen_def word_le_nat_alt)
  moreover have "work_read mem (lengthen n ctx) 1 = Inr [b]" using r(2) by (simp add: work_read_def lengthen_def)
  ultimately show "readTxByte mem (lengthen n ctx) = Inr (b, work_skip 1 (lengthen n ctx))" by (simp add: readTxByte_def)
qed

lemma read_tlv_enough:
  "read_tlv mem ctx = Inr (c, Inr True) \<Longrightarrow> unat (commandLength ctx) + unat n < 2 ^ 32 \<Longrightarrow>
     read_tlv mem (lengthen n ctx) = Inr (lengthen n c, Inr True)"
proof (induction "unat (commandLength ctx)" arbitrary: ctx rule: less_induct)
  case less
  have cl: "commandLength ctx \<noteq> 0" using less.prems(1) by (subst (asm) read_tlv.simps) (auto split: if_splits)
  obtain b where b: "readTxByte mem ctx = Inr (b, work_skip 1 ctx)"
    using less.prems(1) cl readTxByte_any(1) by (subst (asm) read_tlv.simps) (fastforce simp: andThen_eq_Inr)
  have one: "1 \<le> unat (commandLength ctx)" by (rule readTxByte_any(1) [OF b, THEN conjunct2])
  have skip: "unat (commandLength (work_skip 1 ctx)) = unat (commandLength ctx) - 1"
    using one by (simp add: work_skip_length word_le_nat_alt)
  have "unat (commandLength (lengthen n ctx)) = unat (commandLength ctx) + unat n"
    using less.prems(2) by (simp add: lengthen_def unat_word_ariths)
  then have cl': "commandLength (lengthen n ctx) \<noteq> 0" using one by (metis add_is_0 not_one_le_zero unat_0)
  note step = read_tlv_step [OF cl b] and step' = read_tlv_step [OF cl' readTxByte_any(2) [OF b less.prems(2)]]
  have IH: "read_tlv mem (lengthen n (header_store buf l (work_skip 1 ctx))) = Inr (lengthen n c, Inr True)"
    if "read_tlv mem (header_store buf l (work_skip 1 ctx)) = Inr (c, Inr True)" for buf l
  proof (rule less.hyps [OF _ that])
    show "unat (commandLength (header_store buf l (work_skip 1 ctx))) < unat (commandLength ctx)"
      "unat (commandLength (header_store buf l (work_skip 1 ctx))) + unat n < 2 ^ 32"
      using skip one less.prems(2) by (simp_all add: header_store_def)
  qed
  show ?case
    using less.prems(1) unfolding step step' lengthen_header
    by (cases "header_byte b ctx") (auto simp: Let_def IH split: if_splits)
qed

lemma read_tlv_moves:
  "workBuffer ctx = Some off \<Longrightarrow> read_tlv mem ctx = Inr (c, r) \<Longrightarrow>
     unat (commandLength c) \<le> unat (commandLength ctx)
     \<and> workBuffer c = Some (off + (unat (commandLength ctx) - unat (commandLength c)))"
proof (induction "unat (commandLength ctx)" arbitrary: ctx off rule: less_induct)
  case less
  show ?case
  proof (cases "commandLength ctx = 0")
    case True
    then show ?thesis using less.prems by (simp add: read_tlv_empty)
  next
    case False
    obtain b where b: "readTxByte mem ctx = Inr (b, work_skip 1 ctx)"
      using less.prems(2) False readTxByte_any(1) by (subst (asm) read_tlv.simps) (fastforce simp: andThen_eq_Inr)
    have one: "1 \<le> unat (commandLength ctx)" by (rule readTxByte_any(1) [OF b, THEN conjunct2])
    have skip: "unat (commandLength (work_skip 1 ctx)) = unat (commandLength ctx) - 1" "workBuffer (work_skip 1 ctx) = Some (off + 1)"
      using one less.prems(1) by (simp_all add: work_skip_length word_le_nat_alt) (simp add: work_skip_def)
    have IH: "unat (commandLength c) \<le> unat (commandLength ctx) - 1
        \<and> workBuffer c = Some (off + 1 + (unat (commandLength ctx) - 1 - unat (commandLength c)))"
      if "read_tlv mem (header_store buf l (work_skip 1 ctx)) = Inr (c, r)" for buf l
      using less.hyps [OF _ _ that, of "off + 1"] skip one by (simp add: header_store_def)
    have store: "commandLength (header_store buf l c) = commandLength c" "workBuffer (header_store buf l c) = workBuffer c" for buf l c
      by (simp_all add: header_store_def)
    show ?thesis
      using less.prems(2) skip one unfolding read_tlv_step [OF False b]
      by (cases "header_byte b ctx") (auto simp: Let_def store dest!: IH split: if_splits)
  qed
qed

lemma short_command_reads:
  assumes l: "length (G_io_apdu_buffer dev) = 260" and bs: "bs \<noteq> []" "length bs \<le> 260"
    and buf: "in_buffer dev bs = [CLA, INS_SIGN, P1_FIRST, 0, lc, of_nat n] @ path @ tlv_header k @ rest"
    and p: "length path = 4 * n" and n: "1 \<le> n" "n \<le> 10" and lc: "unat lc < 1 + 4 * n" and k: "length rest < k" "k < 2 ^ 24"
  shows "app_round lib bs dev = Some (Inl OutOfBounds)"
proof -
  let ?buf = "in_buffer dev bs" and ?h = "tlv_header k"
  let ?dev = "dev\<lparr>G_io_apdu_buffer := ?buf\<rparr>"
  have lb: "length ?buf = 260" using l bs by (simp add: in_buffer_def)
  then have lr: "6 + 4 * n + length ?h + length rest = 260" using buf p by simp
  have lh: "2 \<le> length ?h" "length ?h \<le> 5" using length_tlv_header by simp_all
  have n5: "mem_get (G_io_apdu_buffer ?dev) 5 = Inr (of_nat n)" by (simp add: buf mem_get_def)
  have "n \<le> MAX_BIP32_PATH" using n by (simp add: MAX_BIP32_PATH_def)
  from short_command_wraps [OF n(1) this lc _ n5, of lib] lb
  obtain dev' len where s: "sign_start lib 5 (ucast lc) ?dev = Inr (Inr (dev', 6 + 4 * n, len))"
    and len: "unat len = 65536 + unat lc - (1 + 4 * n)" by auto
  have dev': "G_io_apdu_buffer dev' = ?buf" "\<exists>content allowed. txProcessingCtx dev' = initTxContext (lib_sha256 lib) content allowed"
    using s by (auto simp: sign_start_def Let_def andThen_eq_Inr split: if_splits) blast+
  then obtain cont allowed where ctx: "txProcessingCtx dev' = initTxContext (lib_sha256 lib) cont allowed" by blast
  define c0 where "c0 = (initTxContext (lib_sha256 lib) cont allowed)\<lparr>workBuffer := Some (6 + 4 * n), commandLength := of_nat (length ?h)\<rparr>"
  define m :: u32 where "m = ucast len - of_nat (length ?h)"
  have uh: "unat (of_nat (length ?h) :: u32) = length ?h" using lh by (intro unat_of_nat_u32_small) simp
  have "unat len < 2 ^ 32" using len lc n by simp
  then have ul: "unat (ucast len :: u32) = unat len" by (simp add: unsigned_ucast_eq take_bit_nat_eq_self)
  have um: "unat m = unat len - length ?h" using ul uh len lh n by (simp add: m_def unat_sub word_le_nat_alt)
  have feeds: "feeds ?buf c0 ?h"
  proof -
    have "drop (6 + 4 * n) ?buf = ?h @ rest" unfolding buf by (simp only: drop_append) (simp add: p)
    then show ?thesis using lr lb by (simp add: feeds_def c0_def uh)
  qed
  obtain c where c: "read_tlv ?buf c0 = Inr (c, Inr True)" "same_but_header c0 c" "currentFieldLength c = of_nat k" "feeds ?buf c []"
    using read_tlv_header [OF k(2), of 0 c0 ?buf "[]"] feeds lh
    by (auto simp: c0_def initTxContext_def)
  have z: "commandLength c = 0" using c(4) by (simp add: feeds_def unat_eq_0)
  have wb: "workBuffer c = Some (6 + 4 * n + length ?h)"
    using read_tlv_moves [OF _ c(1), of "6 + 4 * n"] z uh by (simp add: c0_def)
  have room: "unat (commandLength c0) + unat m < 2 ^ 32"
    using um uh len lh n lc by (simp add: c0_def)
  have lc0: "lengthen m c0 = (initTxContext (lib_sha256 lib) cont allowed)\<lparr>workBuffer := Some (6 + 4 * n), commandLength := ucast len\<rparr>"
    by (simp add: lengthen_def c0_def m_def)
  have head: "read_tlv ?buf (lengthen m c0) = Inr (lengthen m c, Inr True)" by (rule read_tlv_enough [OF c(1) room])
  let ?c = "(lengthen m c)\<lparr>currentFieldPos := 0, tlvBufferPos := 0, processingField := True\<rparr>"
  have uk: "unat (of_nat k :: u32) = k" using k(2) by (intro unat_of_nat_u32_small) simp
  have fl: "currentFieldLength ?c = of_nat k" using c(3) by (simp add: lengthen_def)
  have cm: "commandLength ?c = m" by (simp add: lengthen_def z)
  have "254 < unat m" using um len lh n lc by linarith
  then have big: "length rest < unat (chunk_length ?c)"
    using k(1) uk lr unfolding chunk_length_def fl cm by (simp add: lengthen_def)
  have "state c = state c0" using c(2) by (cases c; cases c0; simp add: same_but_header_def)
  then have st: "state ?c = TLV_CHAIN_ID" by (simp add: lengthen_def c0_def initTxContext_def)
  have read: "work_read ?buf ?c (unat (chunk_length ?c)) = Inl OutOfBounds"
    using big lr lb by (simp add: work_read_def mem_read_def wb lengthen_def)
  have pos: "currentFieldPos ?c < currentFieldLength ?c" unfolding fl using k(1) uk by (simp add: word_less_nat_alt)
  have "chunk_length ?c \<le> commandLength ?c" by (rule chunk_length_le)
  then have "process_state (lib_sha256 lib) ?buf ?c = Inl OutOfBounds"
    using st read pos by (simp add: process_state_def processField_def receive_def checked_ok Let_def)
  then have "tx_round (lib_sha256 lib) ?buf (lengthen m c0) = Inl OutOfBounds"
    using head len lc n ul by (auto simp: tx_round_def lc0 initTxContext_def)
  then have "parseTx (lib_sha256 lib) ?buf (txProcessingCtx dev') (Some (6 + 4 * n)) (ucast len) = Some (Inl OutOfBounds)"
    unfolding lc0 by (subst parseTx_def, subst processTxInternal.simps) (simp add: ctx initTxContext_def)
  moreover have "handleApdu lib ?dev = handleSign lib P1_FIRST 0 5 (ucast lc) ?dev"
    by (rule handleApdu_sign) (simp add: buf)
  ultimately have "handleApdu lib ?dev = Some (Inl OutOfBounds)"
    using s dev'(1) by (simp add: handleSign_def ctx initTxContext_def sign_parse_def)
  then show ?thesis using app_round_eq [of bs dev lib] bs l by (simp add: in_buffer_def)
qed

section \<open>The settings\<close>

text \<open>No command and no decision in a review changes them.\<close>

text \<open>A result, if there is one, satisfies \<open>P\<close>.\<close>

definition yields :: "('a \<Rightarrow> bool) \<Rightarrow> 'a result \<Rightarrow> bool" where
  "yields P m \<longleftrightarrow> (\<forall>x. m = Inr x \<longrightarrow> P x)"

lemma yields_andThen: "(\<And>x. yields P (f x)) \<Longrightarrow> yields P (andThen m f)"
  by (auto simp: yields_def andThen_eq_Inr)

lemma yields_cases:
  "(b \<Longrightarrow> yields P m) \<Longrightarrow> (\<not> b \<Longrightarrow> yields P m') \<Longrightarrow> yields P (if b then m else m')"
  "P x \<Longrightarrow> yields P (Inr x)"
  by (simp_all add: yields_def)

lemma yields_pair: "(\<And>x y. p = (x, y) \<Longrightarrow> yields P (g x y)) \<Longrightarrow> yields P (case p of (x, y) \<Rightarrow> g x y)"
  by (cases p) simp

lemma yieldsD: "yields (\<lambda>(x, y). P x y) m \<Longrightarrow> m = Inr (x, y) \<Longrightarrow> P x y"
  by (simp add: yields_def)

lemmas yields_intros = yields_andThen yields_cases yields_pair

lemma handlers_yield:
  "yields (\<lambda>(dev', rep). N_storage dev' = N_storage dev) (handleGetPublicKey lib p1 p2 off dev)"
  "yields (\<lambda>(dev', rep). N_storage dev' = N_storage dev) (handleGetAppConfiguration lib dev)"
  "yields (\<lambda>(dev', a). N_storage dev' = N_storage dev) (user_action_address_ok lib dev)"
  "yields (\<lambda>(dev', a). N_storage dev' = N_storage dev) (user_action_address_cancel dev)"
  "yields (\<lambda>(dev', a). N_storage dev' = N_storage dev) (user_action_tx_cancel dev)"
  unfolding handleGetPublicKey_def handleGetAppConfiguration_def user_action_address_ok_def user_action_address_cancel_def
    user_action_tx_cancel_def Let_def
  by (intro yields_intros; simp)+

lemmas handlers_keep_settings = handlers_yield [THEN yieldsD]

lemma sign_hash_keeps_settings:
  "sign_hash_and_set_result lib dev = Some (Inr (dev', tx)) \<Longrightarrow> N_storage dev' = N_storage dev"
  by (auto simp: sign_hash_and_set_result_def thenRun_eq_Inr runThen_eq_Inr Let_def split: prod.splits)

lemma sign_start_keeps_settings:
  "sign_start lib off len dev = Inr (Inl (dev', sw)) \<Longrightarrow> N_storage dev' = N_storage dev"
  "sign_start lib off len dev = Inr (Inr (dev', at, len')) \<Longrightarrow> N_storage dev' = N_storage dev"
  by (auto simp: sign_start_def andThen_eq_Inr Let_def split: if_splits)

lemma sign_parse_keeps_settings:
  "sign_parse lib off len dev = Some (Inr (dev', rep)) \<Longrightarrow> N_storage dev' = N_storage dev"
  unfolding sign_parse_def runThen_eq_Inr
proof (elim exE conjE, goal_cases)
  case (1 r)
  then show ?case
    by (cases "snd r") (auto simp: Let_def runThen_eq_Inr split_beta dest: sign_hash_keeps_settings)
qed

lemma handleSign_keeps_settings:
  "handleSign lib p1 p2 off len dev = Some (Inr (dev', rep)) \<Longrightarrow> N_storage dev' = N_storage dev"
  unfolding handleSign_def thenRun_eq_Inr
proof (elim exE conjE, goal_cases)
  case (1 r)
  have "case r of Inl (d, sw) \<Rightarrow> N_storage d = N_storage dev | Inr (d, _) \<Rightarrow> N_storage d = N_storage dev"
    using 1(1) sign_start_keeps_settings by (cases r) (auto split: if_splits)
  then show ?case
    using 1(2) by (cases r) (auto split: if_splits dest!: sign_parse_keeps_settings)
qed

lemma sign_flow_keeps_settings:
  "user_action_sign_flow_ok lib dev = Some (Inr (dev', rep)) \<Longrightarrow> N_storage dev' = N_storage dev"
  unfolding user_action_sign_flow_ok_def runThen_eq_Inr
proof (elim exE conjE, goal_cases)
  case (1 r)
  then show ?case
    by (cases "snd r") (auto simp: Let_def runThen_eq_Inr thenRun_eq_Inr split_beta dest: sign_hash_keeps_settings)
qed

lemma handleApdu_keeps_settings:
  "handleApdu lib dev = Some (Inr (dev', rep)) \<Longrightarrow> N_storage dev' = N_storage dev"
  by (auto simp: handleApdu_def thenRun_eq_Inr Let_def dest: handlers_keep_settings handleSign_keeps_settings split: if_splits)

lemma app_round_keeps_settings:
  "app_round lib bs dev = Some (Inr (dev', rep)) \<Longrightarrow> N_storage dev' = N_storage dev"
  by (auto simp: app_round_def finish_round_def thenRun_eq_Inr runThen_eq_Inr andThen_eq_Inr Let_def
      dest!: handleApdu_keeps_settings split: if_splits)

lemma device_step_keeps_settings:
  "device_step lib dev e reply dev' \<Longrightarrow> N_storage dev' = N_storage dev"
  by (induction rule: device_step.induct)
    (blast dest: app_round_keeps_settings handlers_keep_settings sign_flow_keeps_settings)+

lemma device_run_keeps_settings:
  "device_run lib dev trace dev' \<Longrightarrow> N_storage dev' = N_storage dev"
  by (induction rule: device_run.induct) (simp_all add: device_step_keeps_settings)

text \<open>The state at every event of a run.\<close>

lemma run_states_keep_settings:
  "device_run lib dev trace dev' \<Longrightarrow> (dev1, e, reply) \<in> set trace \<Longrightarrow> N_storage dev1 = N_storage dev"
  by (induction rule: device_run.induct) (auto dest: device_step_keeps_settings)
section \<open>A transaction of which every review is rejected\<close>

text \<open>
  The rest of a run without any approval that ends with the signature; the host sends what is left of the
  transaction, and empty commands.
\<close>

definition unapproved :: "'h device_library \<Rightarrow> signature \<Rightarrow> 'h device_t \<Rightarrow> bytes list \<Rightarrow> bool" where
  "unapproved lib sig dev cs \<longleftrightarrow> (\<exists>trace dev'. device_run lib dev trace dev' \<and> approved trace = []
     \<and> set (sent trace) \<subseteq> more_apdu ` insert [] (set cs)
     \<and> answered trace \<noteq> [] \<and> last (answered trace) = signature_bytes sig @ ok_bytes)"

lemma unapproved_step:
  assumes s: "device_step lib dev e reply dev1" and e: "e = Reject \<or> e = Command (more_apdu bs) \<and> bs \<in> insert [] (set cs)"
    and u: "reply = Some (signature_bytes sig @ ok_bytes) \<or> unapproved lib sig dev1 cs"
  shows "unapproved lib sig dev cs"
  using u
proof
  assume r: "reply = Some (signature_bytes sig @ ok_bytes)"
  have "device_run lib dev [(dev, e, reply)] dev1" using s by (blast intro: device_run.intros)
  then show ?thesis unfolding unapproved_def using e r by (intro exI [of _ "[(dev, e, reply)]"] exI [of _ dev1]) auto
next
  assume "unapproved lib sig dev1 cs"
  then obtain trace dev' where t: "device_run lib dev1 trace dev'" "approved trace = []"
    "set (sent trace) \<subseteq> more_apdu ` insert [] (set cs)" "answered trace \<noteq> []" "last (answered trace) = signature_bytes sig @ ok_bytes"
    by (auto simp: unapproved_def)
  have "answered ((dev, e, reply) # trace) \<noteq> [] \<and> last (answered ((dev, e, reply) # trace)) = signature_bytes sig @ ok_bytes"
    using t(4,5) by (cases reply) simp_all
  then show ?thesis
    unfolding unapproved_def using run_step [OF s t(1)] t(2,3) e
    by (intro exI [of _ "(dev, e, reply) # trace"] exI [of _ dev']) auto
qed

lemma unapproved_more:
  assumes "unapproved lib sig dev cs" and "set cs \<subseteq> set ds"
  shows "unapproved lib sig dev ds"
  using assms unfolding unapproved_def by (meson image_mono insert_mono subset_trans)

text \<open>One round, with a command or with a rejection and an empty command.\<close>

lemma round_unapproved:
  assumes law: "hmac_total (lib_hmac lib) H" and d: "digest_32 (lib_sha256 lib)" and l: "length bs \<le> 255"
    and c: "consume (lib_sha256 lib) ctx bs = Some (c, r, st)" and st: "st \<noteq> STREAM_FAULT"
    and fin: "st = STREAM_FINISHED \<Longrightarrow> closes lib H path sig c"
    and further: "\<And>dev1 reply. follows path sig c r st reply dev1 \<Longrightarrow> st \<noteq> STREAM_FINISHED \<Longrightarrow> unapproved lib sig dev1 cs"
  shows "(\<forall>dev. idle_with path dev ctx \<longrightarrow> unapproved lib sig dev (bs # cs))
    \<and> (\<forall>dev. review_with path dev ctx bs \<longrightarrow> unapproved lib sig dev cs)"
proof (intro conjI allI impI)
  have after: "reply = Some (signature_bytes sig @ ok_bytes) \<or> unapproved lib sig dev1 cs"
    if "follows path sig c r st reply dev1" for dev1 reply
    using that further [OF that] by (auto simp: follows_def split: if_splits)
  {
    fix dev assume "idle_with path dev ctx"
    from more_step [OF law d this l c st fin]
    obtain dev1 reply where s: "device_step lib dev (Command (more_apdu bs)) reply dev1" "follows path sig c r st reply dev1"
      by blast
    have "reply = Some (signature_bytes sig @ ok_bytes) \<or> unapproved lib sig dev1 (bs # cs)"
      using after [OF s(2)] unapproved_more [of lib sig dev1 cs "bs # cs"] by auto
    then show "unapproved lib sig dev (bs # cs)" using unapproved_step [OF s(1), of bs "bs # cs" sig] by simp
  next
    fix dev assume "review_with path dev ctx bs"
    from reject_then_more [OF law d this c st fin]
    obtain dev1 dev2 reply where s: "device_step lib dev Reject (Some [0x69, 0x85]) dev1"
      "device_step lib dev1 (Command (more_apdu [])) reply dev2" "follows path sig c r st reply dev2" by blast
    have "unapproved lib sig dev1 cs" using unapproved_step [OF s(2) _ after [OF s(3)], of "[]"] by simp
    then show "unapproved lib sig dev cs" using unapproved_step [OF s(1)] by blast
  }
qed

lemma session_unapproved:
  assumes law: "hmac_total (lib_hmac lib) H" and d: "digest_32 (lib_sha256 lib)"
  shows "session (lib_sha256 lib) ctx cs log \<Longrightarrow> finishing lib H path sig log \<Longrightarrow> \<forall>bs \<in> set cs. length bs \<le> 255 \<Longrightarrow>
    (\<forall>dev. idle_with path dev ctx \<longrightarrow> unapproved lib sig dev cs)
    \<and> (\<forall>dev. review_with path dev ctx (hd cs) \<longrightarrow> unapproved lib sig dev (tl cs))"
proof (induction ctx cs log rule: session.induct)
  case (session_end ctx)
  then show ?case by (simp add: finishing_def)
next
  case (session_more ctx bs c r cs log)
  have "unapproved lib sig dev1 cs" if "follows path sig c r STREAM_PROCESSING reply dev1" for dev1 reply
    using session_more.IH [OF session_more.prems(1)] session_more.prems(2) that by (simp add: follows_def)
  from round_unapproved [OF law d _ session_more.hyps(1) _ _ this] session_more.prems(2) show ?case by simp
next
  case (session_review ctx bs c r status cs log)
  have f: "finishing lib H path sig log"
    using session_review.prems(1) session_review.hyps(2) by (auto simp: finishing_def asks_def split: if_splits)
  have l: "length bs \<le> 255" and l': "\<forall>bs \<in> set (r # cs). length bs \<le> 255"
    using session_review.prems(2) consume_shorter [OF session_review.hyps(1)] by auto
  have st: "status \<noteq> STREAM_FAULT" "status \<noteq> STREAM_FINISHED" "status \<noteq> STREAM_PROCESSING"
    using session_review.hyps(2) by (auto simp: asks_def)
  have "unapproved lib sig dev1 cs" if "follows path sig c r status reply dev1" for dev1 reply
    using session_review.IH [OF f l'] that st by (simp add: follows_def)
  from round_unapproved [OF law d l session_review.hyps(1) st(1) _ this] st(2) show ?case by simp
next
  case (session_stop ctx bs c r status cs)
  have st: "status = STREAM_FINISHED" and fin: "closes lib H path sig c"
    using session_stop.prems(1) session_stop.hyps(2) by (simp_all add: finishing_def)
  from round_unapproved [OF law d _ session_stop.hyps(1) _ fin, of cs] session_stop.prems(2) st show ?case by simp
qed

lemma transaction_finishes:
  assumes inc: "incremental (lib_sha256 lib)" and d: "digest_32 (lib_sha256 lib)" and c: "content_ok (content (txProcessingCtx dev))"
    and ok: "tx_ok (lib_sha256 lib) ripemd160 (setting dev = 1) t"
    and h: "hash_update (lib_sha256 lib) (hash_init (lib_sha256 lib)) (signed_bytes t) = Some h"
    and dg: "hash_final (lib_sha256 lib) h = Some (digest, sha)" "length digest = 32" "signature_of lib H path digest sig"
    and enc: "bs @ concat cs = encoding t" "length (encoding t) < 2 ^ 32"
  shows "\<exists>log. session (lib_sha256 lib) (fresh_context lib dev) (bs # cs) log \<and> finishing lib H path sig log"
proof -
  obtain start reviews c where s: "session (lib_sha256 lib) (fresh_context lib dev) [encoding t] (start @ reviews @ [(STREAM_FINISHED, c)])"
    "sha256 c = h"
    using transaction_session [OF inc d c ok refl h enc(2)] unfolding fresh_context_def by blast
  have "session (lib_sha256 lib) (fresh_context lib dev) (bs # cs) (start @ reviews @ [(STREAM_FINISHED, c)])"
    using session_chunks [of "fresh_context lib dev" bs cs "lib_sha256 lib"] fresh_rest_ok [OF c, of "lib_sha256 lib" "setting dev"] inc d enc s(1)
    by (simp add: fresh_context_def)
  moreover have "finishing lib H path sig (start @ reviews @ [(STREAM_FINISHED, c)])"
    using dg s(2) by (auto simp: finishing_def closes_def)
  ultimately show ?thesis by blast
qed

lemma signed_without_approval:
  assumes law: "hmac_total (lib_hmac lib) H" and d: "digest_32 (lib_sha256 lib)" and a: "at_rest lib dev" and p: "path_ok path"
    and s: "session (lib_sha256 lib) (fresh_context lib dev) (bs # cs) log" "finishing lib H path sig log"
    and bs: "length (path_bytes path @ bs) \<le> 255" and cs: "\<forall>bs \<in> set cs. length bs \<le> 255"
  shows "\<exists>trace dev'. device_run lib dev trace dev' \<and> approved trace = []
    \<and> set (sent trace) \<subseteq> insert (first_apdu path bs) (more_apdu ` insert [] (set cs))
    \<and> answered trace \<noteq> [] \<and> last (answered trace) = signature_bytes sig @ ok_bytes"
proof -
  note follow = session_unapproved [OF law d]
  obtain c r st where c: "consume (lib_sha256 lib) (fresh_context lib dev) bs = Some (c, r, st)" "st \<noteq> STREAM_FAULT"
    and fin: "st = STREAM_FINISHED \<Longrightarrow> closes lib H path sig c"
    and further: "\<And>dev1 reply. follows path sig c r st reply dev1 \<Longrightarrow> st \<noteq> STREAM_FINISHED \<Longrightarrow> unapproved lib sig dev1 cs"
    using s(1)
  proof (cases rule: session.cases)
    case (session_more c r)
    then show ?thesis using that [OF session_more(1)] follow [OF session_more(2) s(2) cs] by (simp add: follows_def)
  next
    case (session_review c r status log')
    have f: "finishing lib H path sig log'"
      using s(2) session_review(1,3) by (auto simp: finishing_def asks_def split: if_splits)
    have l': "\<forall>bs \<in> set (r # cs). length bs \<le> 255" using cs bs consume_shorter [OF session_review(2)] by auto
    show ?thesis using that [OF session_review(2)] follow [OF session_review(4) f l'] session_review(3) by (auto simp: asks_def follows_def)
  next
    case (session_stop c r status)
    then show ?thesis using that [OF session_stop(2)] s(2) by (simp add: finishing_def)
  qed
  obtain dev1 reply where s1: "device_step lib dev (Command (first_apdu path bs)) reply dev1" "follows path sig c r st reply dev1"
    using first_step [OF law d a p bs c fin] by blast
  show ?thesis
  proof (cases "st = STREAM_FINISHED")
    case True
    then show ?thesis using s1 run_step [OF s1(1) run_end]
      by (intro exI [of _ "[(dev, Command (first_apdu path bs), reply)]"] exI [of _ dev1]) (simp add: follows_def)
  next
    case False
    then obtain trace dev' where t: "device_run lib dev1 trace dev'" "approved trace = []"
      "set (sent trace) \<subseteq> more_apdu ` insert [] (set cs)" "answered trace \<noteq> []" "last (answered trace) = signature_bytes sig @ ok_bytes"
      using further [OF s1(2)] by (auto simp: unapproved_def)
    have "answered ((dev, Command (first_apdu path bs), reply) # trace) \<noteq> []
      \<and> last (answered ((dev, Command (first_apdu path bs), reply) # trace)) = signature_bytes sig @ ok_bytes"
      using t(4,5) by (cases reply) simp_all
    then show ?thesis using run_step [OF s1(1) t(1)] t(2,3)
      by (intro exI [of _ "(dev, Command (first_apdu path bs), reply) # trace"] exI [of _ dev']) auto
  qed
qed

end
