(* ===== verification/Eos_Screens.thy ===== *)
theory Eos_Screens
  imports Eos_Transaction
begin

text \<open>
  What a review shows, for both user interfaces: a context under review in which printing the arguments one
  by one gives the screens of the action, whatever was printed before, and how the texts are read.
\<close>

section \<open>Printed arguments\<close>

definition with_arg :: "'h txProcessingContext_t \<Rightarrow> actionArgument_t \<Rightarrow> 'h txProcessingContext_t" where
  "with_arg ctx a = ctx\<lparr>content := (content ctx)\<lparr>arg := a\<rparr>\<rparr>"

lemma with_arg_simps [simp]: "arg (content (with_arg ctx a)) = a" "contract (content (with_arg ctx a)) = contract (content ctx)"
  "action (content (with_arg ctx a)) = action (content ctx)" "with_arg (with_arg ctx a) b = with_arg ctx b"
  by (simp_all add: with_arg_def)

text \<open>A context whose arguments print as the screens, whatever was printed before.\<close>

definition prints :: "(bytes \<Rightarrow> bytes option) \<Rightarrow> 'h txProcessingContext_t \<Rightarrow> screen list \<Rightarrow> bool" where
  "prints ripemd160 ctx scr \<longleftrightarrow> length scr = unat (argumentCount (content ctx)) \<and> scr \<noteq> []
     \<and> (\<forall>k a. k < length scr \<longrightarrow>
          printArgument ripemd160 (of_nat k) (with_arg ctx a) = Inr (with_arg ctx (show_screen (scr ! k))))"

lemma prints_length: "prints h ctx scr \<Longrightarrow> length scr \<le> 255"
proof -
  assume "prints h ctx scr"
  moreover have "unat (argumentCount (content ctx)) < 256" by simp
  ultimately show ?thesis unfolding prints_def by linarith
qed

section \<open>Texts\<close>

text \<open>How a user reads a C string in a fixed array.\<close>

definition read_screen :: "screen \<Rightarrow> bytes \<times> bytes" where
  "read_screen s = (c_string (label (show_screen s)), c_string (data (show_screen s)))"

lemma text_written:
  assumes "length txt < n" and "n \<le> length dst" and "0 \<notin> set txt"
  shows "\<exists>m. mem_write dst 0 (take (n - 1) txt @ [0]) = Inr m \<and> length m = length dst \<and> c_string m = txt"
  using assms by (simp add: mem_write_def c_string_append_zero)

lemma length_index_text32: "length (int_text (sint (i :: u32))) \<le> 11"
proof -
  have s: "- (2 ^ 31) \<le> sint i" "sint i < 2 ^ 31" using sint_ge [of i] sint_lt [of i] by simp_all
  have d: "length (dec_string n) \<le> 10" if "n \<le> 2 ^ 31" for n
  proof -
    have "n < 10 ^ 10" using that by (rule order_le_less_trans) simp
    then show ?thesis by (rule length_dec_string) simp
  qed
  have "nat (sint i) \<le> 2 ^ 31" "nat (- sint i) \<le> 2 ^ 31" using s by simp_all
  then show ?thesis using d [of "nat (sint i)"] d [of "nat (- sint i)"] by (simp add: int_text_def)
qed

section \<open>The review of an action\<close>

text \<open>The screens of an action: those of its arguments, or the checksum of data that cannot be decoded.\<close>

definition unknown_screens :: "bytes \<Rightarrow> screen list" where
  "unknown_screens checksum = [(cstr ''WARNING'', cstr ''Arbitrary Data''), (cstr ''WARNING'', cstr ''Verify checksum''),
     (cstr ''Checksum'', hex_string checksum)]"

definition body_screens :: "'h hash_ops \<Rightarrow> (bytes \<Rightarrow> bytes option) \<Rightarrow> act_body \<Rightarrow> screen list" where
  "body_screens ops ripemd160 b = (case b of
     Decoded b \<Rightarrow> action_screens ripemd160 b
   | Opaque name bs \<Rightarrow> unknown_screens (the (hash_of ops (leb_bytes (length bs) @ bs))))"

lemma printString_shown:
  assumes "length txt \<le> 128" and "length f \<le> 32"
  shows "printString txt f a = Inr (shown f txt)"
  using assms by (simp add: printString_def arg_with_label_eq mem_write_zeros shown_def)

lemma print_unknown_screens:
  assumes k: "k < 3" and d: "dataAllowed ctx = 1" and l: "length (dataChecksum ctx) = 32"
  shows "print_unknown ctx (of_nat k) a = Inr (show_screen (unknown_screens (dataChecksum ctx) ! k))"
proof -
  have hex: "array_hexstr (zeros 65) (dataChecksum ctx) 32 = Inr (hex_string (dataChecksum ctx) @ 0 # drop 65 (zeros 65))"
    using array_hexstr_eq [of 32 "dataChecksum ctx" "zeros 65"] l by simp
  have c: "c_string (hex_string (dataChecksum ctx) @ 0 # drop 65 (zeros 65)) = hex_string (dataChecksum ctx)"
    using hex_string_printable by (rule c_string_append_zero)
  have "k = 0 \<or> k = 1 \<or> k = 2" using k by arith
  then show ?thesis
    using d l hex c
    by (elim disjE) (simp_all add: print_unknown_def parseUnknownAction_def unknown_screens_def show_screen_def printString_shown cstr_def)
qed

lemma unknown_prints:
  assumes "\<not> isKnownAction ctx"
  shows "printArgument h k ctx = andThen (print_unknown ctx k (arg (content ctx))) (\<lambda>a. Inr (with_arg ctx a))"
  using assms by (simp add: printArgument_def isKnownAction_def with_arg_def Let_def)

lemma with_arg_holds: "holds_action (with_arg ctx a) b = holds_action ctx b" "isKnownAction (with_arg ctx a) = isKnownAction ctx"
  "dataAllowed (with_arg ctx a) = dataAllowed ctx" "dataChecksum (with_arg ctx a) = dataChecksum ctx"
  by (simp_all add: with_arg_def holds_action_def isKnownAction_def)

text \<open>What an action presents prints as its screens.\<close>

lemma presents_prints:
  assumes d: "digest_32 ops" and ok: "act_ok ops ripemd160 allowed a" and p: "presents ops ripemd160 n i a c"
    and scr: "scr = body_screens ops ripemd160 (act_body a)" and some: "scr \<noteq> []" and len: "length scr \<le> 255"
  shows "prints ripemd160 c scr"
proof (cases "act_body a")
  case (Decoded b)
  then have h: "holds_action c b" "argumentCount (content c) = of_nat (length scr)" "scr = action_screens ripemd160 b"
    and fine: "action_fine ripemd160 b"
    using p ok scr by (simp_all add: presents_def act_ok_def body_ok_def body_screens_def)
  have "printArgument ripemd160 (of_nat k) (with_arg c arg) = Inr (with_arg c (show_screen (scr ! k)))" if "k < length scr" for k arg
  proof -
    have "holds_action (with_arg c arg) b" using h(1) by (simp add: with_arg_holds)
    from printArgument_shows [OF this fine, of k] show ?thesis
      using that h(3) by (simp add: with_arg_def)
  qed
  moreover have "length scr = unat (argumentCount (content c))" using h(2) len by (simp add: unat_of_nat)
  ultimately show ?thesis using some by (simp add: prints_def)
next
  case (Opaque name bs)
  then have u: "argumentCount (content c) = 3" "dataAllowed c = 1" "\<not> isKnownAction c"
    "hash_of ops (leb_bytes (length bs) @ bs) = Some (dataChecksum c)"
    using p by (simp_all add: presents_def)
  have l: "length (dataChecksum c) = 32"
    using u(4) d by (auto simp: hash_of_def digest_32_def bind_eq_Some_conv)
  have s: "scr = unknown_screens (dataChecksum c)" using scr Opaque u(4) by (simp add: body_screens_def)
  have "printArgument ripemd160 (of_nat k) (with_arg c arg) = Inr (with_arg c (show_screen (scr ! k)))" if "k < 3" for k arg
    using print_unknown_screens [OF that, of "with_arg c arg"] u l
    by (simp add: unknown_prints with_arg_holds s)
  moreover have "length scr = 3" by (simp add: s unknown_screens_def)
  ultimately show ?thesis using u(1) by (auto simp: prints_def)
qed
text \<open>An action has at least one screen and few enough for their number to fit a byte.\<close>

lemma length_list_bytes_ge: "(\<And>x. x \<in> set xs \<Longrightarrow> k \<le> length (f x)) \<Longrightarrow> k * length xs \<le> length (list_bytes f xs)"
proof -
  assume "\<And>x. x \<in> set xs \<Longrightarrow> k \<le> length (f x)"
  then have "k * length xs \<le> length (concat (map f xs))"
    by (induction xs) (simp_all add: add_mono)
  then show ?thesis by (simp add: list_bytes_def)
qed

lemma action_screens_size:
  assumes "action_fine h b"
  shows "action_screens h b \<noteq> []" and "length (action_screens h b) \<le> 255"
proof -
  show "action_screens h b \<noteq> []" by (cases b) simp_all
  show "length (action_screens h b) \<le> 255"
  proof (cases b)
    case (UpdateAuth account permission parent auth)
    have "36 * length (auth_keys auth) \<le> length (list_bytes key_entry (auth_keys auth))"
      using assms UpdateAuth
      by (intro length_list_bytes_ge) (auto simp: key_entry_def authority_fine_def key_fine_def list_all_iff)
    moreover have "18 * length (auth_accounts auth) \<le> length (list_bytes account_entry (auth_accounts auth))"
      by (rule length_list_bytes_ge) (simp add: account_entry_def)
    moreover have "6 * length (auth_delays auth) \<le> length (list_bytes delay_entry (auth_delays auth))"
      by (rule length_list_bytes_ge) (simp add: delay_entry_def)
    ultimately show ?thesis using assms UpdateAuth
      by (simp add: authority_bytes_def authority_lists_bytes_def key_screens_def account_screens_def delay_screens_def length_two_screens)
  qed (use assms in auto)
qed
lemma body_screens_size:
  assumes "act_ok ops ripemd160 allowed a"
  shows "body_screens ops ripemd160 (act_body a) \<noteq> []" and "length (body_screens ops ripemd160 (act_body a)) \<le> 255"
proof -
  have "body_screens ops ripemd160 (act_body a) \<noteq> [] \<and> length (body_screens ops ripemd160 (act_body a)) \<le> 255"
  proof (cases "act_body a")
    case (Decoded b)
    then show ?thesis using assms action_screens_size [of ripemd160 b] by (simp add: act_ok_def body_ok_def body_screens_def)
  next
    case (Opaque name bs)
    then show ?thesis by (simp add: body_screens_def unknown_screens_def)
  qed
  then show "body_screens ops ripemd160 (act_body a) \<noteq> []" and "length (body_screens ops ripemd160 (act_body a)) \<le> 255" by simp_all
qed

text \<open>An action under review is shown by its names and the screens of its arguments.\<close>

lemma action_shown:
  assumes "digest_32 ops" and ok: "act_ok ops ripemd160 allowed a" and p: "presents ops ripemd160 n i a c"
  shows "prints ripemd160 c (body_screens ops ripemd160 (act_body a))"
    and "c_string (contract (content c)) = name_text (act_account a)"
    and "c_string (action (content c)) = name_text (body_name (act_body a))"
proof -
  show "prints ripemd160 c (body_screens ops ripemd160 (act_body a))"
    using presents_prints [OF assms refl] body_screens_size [OF ok] .
  have names: "c_string (padded 14 (name_text v)) = name_text v" for v
    using name_text_printable [of v] length_name_text [of v] by (intro c_string_padded) auto
  show "c_string (contract (content c)) = name_text (act_account a)"
    "c_string (action (content c)) = name_text (body_name (act_body a))"
    using p names by (simp_all add: presents_def)
qed

end
