(* ===== verification/Eos_Bagl.thy ===== *)
theory Eos_Bagl
  imports Eos_Screens Eos_Config
begin

text \<open>
  \<^verbatim>\<open>src/ui_bagl.c\<close>: the screens of the devices with buttons. A flow is a list of steps, of which one is on
  the screen; two buttons go to the next and to the previous one. A border step is never seen: when the flow
  comes to it, its function moves on at once, so that one step of the flow shows all arguments in turn.
  The flow itself belongs to the device's library: \<open>fwd\<close> and \<open>bwd\<close> are the steps behind and before
  a step (\<^verbatim>\<open>ux_flow_next\<close>, \<^verbatim>\<open>ux_flow_prev\<close>).
\<close>

section \<open>State\<close>

datatype flow_t = ux_idle_flow | ux_settings_flow | ux_display_public_flow | ux_single_action_sign_flow
  | ux_multiple_action_sign_flow

datatype single_step = review_step | contract_step | action_step | init_left_border | variable_step | init_right_border
  | accept_step | cancel_step

text \<open>The steps of \<^verbatim>\<open>ux_single_action_sign_flow\<close>.\<close>

definition single_action_steps :: "single_step list" where
  "single_action_steps = [review_step, contract_step, action_step, init_left_border, variable_step, init_right_border,
     accept_step, cancel_step]"

record ux_t =
  ux_flow :: flow_t
  ux_at :: nat
  ux_step :: u32
  ux_step_count :: u32
  actionCounter :: bytes
  confirmLabel :: bytes
  confirm_text1 :: bytes
  confirm_text2 :: bytes

definition STATE_LEFT_BORDER :: u8 where "STATE_LEFT_BORDER = 0"
definition STATE_VARIABLE :: u8 where "STATE_VARIABLE = 1"
definition STATE_RIGHT_BORDER :: u8 where "STATE_RIGHT_BORDER = 2"

text \<open>\<open>strlcpy\<close> of the C library.\<close>

definition strlcpy :: "bytes \<Rightarrow> bytes \<Rightarrow> nat \<Rightarrow> bytes result" where
  "strlcpy dst src n = mem_write dst 0 (take (n - 1) src @ [0])"

text \<open>A flow starts with its first step.\<close>

definition ux_flow_init :: "flow_t \<Rightarrow> ux_t \<Rightarrow> ux_t" where
  "ux_flow_init f u = u\<lparr>ux_flow := f, ux_at := 0\<rparr>"

section \<open>Operations\<close>

definition ui_idle :: "ux_t \<Rightarrow> ux_t" where
  "ui_idle u = ux_flow_init ux_idle_flow u"

definition display_settings :: "internalStorage_t \<Rightarrow> ux_t \<Rightarrow> ux_t result" where
  "display_settings s u =
     andThen (strlcpy (confirmLabel u) (if is_data_allowed s then cstr ''Allowed'' else cstr ''NOT Allowed'') 32) (\<lambda>l.
       Inr (ux_flow_init ux_settings_flow (u\<lparr>confirmLabel := l\<rparr>)))"

definition switch_settings_contract_data :: "internalStorage_t \<Rightarrow> ux_t \<Rightarrow> (internalStorage_t \<times> ux_t) result" where
  "switch_settings_contract_data s u =
     (let s = toogle_data_allowed s in andThen (display_settings s u) (\<lambda>u. Inr (s, u)))"

definition ui_display_public_key_flow :: "ux_t \<Rightarrow> ux_t" where
  "ui_display_public_key_flow u = ux_flow_init ux_display_public_flow u"

definition ui_display_public_key_done :: "bool \<Rightarrow> ux_t \<Rightarrow> ux_t" where
  "ui_display_public_key_done validated u = ui_idle u"

text \<open>What the function of a step does to the flow.\<close>

datatype move = Stay | FlowNext | FlowPrev

definition display_next_state :: "(bytes \<Rightarrow> bytes option) \<Rightarrow> u8 \<Rightarrow> ux_t \<Rightarrow> 'h txProcessingContext_t
    \<Rightarrow> (ux_t \<times> 'h txProcessingContext_t \<times> move) result" where
  "display_next_state ripemd160 border u ctx =
     (if border = STATE_LEFT_BORDER then
        (if ux_step u = 0 then Inr (u\<lparr>ux_step := 1\<rparr>, ctx, FlowNext)
         else if ux_step u = 1 then Inr (u\<lparr>ux_step := ux_step u - 1\<rparr>, ctx, FlowPrev)
         else Inr (u\<lparr>ux_step := ux_step u - 1\<rparr>, ctx, FlowNext))
      else if border = STATE_VARIABLE then
        andThen (printArgument ripemd160 (ucast (ux_step u - 1)) ctx) (\<lambda>ctx. Inr (u, ctx, Stay))
      else if border = STATE_RIGHT_BORDER then
        (if ux_step u < ux_step_count u then Inr (u\<lparr>ux_step := ux_step u + 1\<rparr>, ctx, FlowPrev)
         else if ux_step u = ux_step_count u then Inr (u\<lparr>ux_step := ux_step u + 1\<rparr>, ctx, FlowNext)
         else Inr (u\<lparr>ux_step := ux_step_count u\<rparr>, ctx, FlowPrev))
      else Inr (u, ctx, Stay))"

definition ui_display_single_action_sign_flow :: "'h txProcessingContext_t \<Rightarrow> ux_t \<Rightarrow> ux_t result" where
  "ui_display_single_action_sign_flow ctx u =
     (let u = u\<lparr>ux_step := 0, ux_step_count := ucast (argumentCount (content ctx))\<rparr> in
      andThen
        (if currentActionNumber ctx > 1
         then snprintf (confirmLabel u) 32 (cstr ''Action #'' @ int_text (sint (currentActionIndex ctx)))
         else strlcpy (confirmLabel u) (cstr ''Transaction'') 32) (\<lambda>l.
      let final = (currentActionIndex ctx = currentActionNumber ctx) in
      andThen (strlcpy (confirm_text1 u) (if final then cstr ''Sign'' else cstr ''Accept'') 16) (\<lambda>t1.
      andThen (strlcpy (confirm_text2 u) (if final then cstr ''transaction'' else cstr ''& review next'') 16) (\<lambda>t2.
        Inr (ux_flow_init ux_single_action_sign_flow (u\<lparr>confirmLabel := l, confirm_text1 := t1, confirm_text2 := t2\<rparr>))))))"

definition ui_display_action_sign_done :: "parserStatus_e \<Rightarrow> bool \<Rightarrow> ux_t \<Rightarrow> ux_t" where
  "ui_display_action_sign_done status validated u = ui_idle u"

definition ui_display_multiple_action_sign_flow :: "'h txProcessingContext_t \<Rightarrow> ux_t \<Rightarrow> ux_t result" where
  "ui_display_multiple_action_sign_flow ctx u =
     andThen (snprintf (actionCounter u) 32 (int_text (sint (currentActionNumber ctx)) @ cstr '' actions'')) (\<lambda>c.
       Inr (ux_flow_init ux_multiple_action_sign_flow (u\<lparr>actionCounter := c\<rparr>)))"

section \<open>Walking through a flow\<close>

text \<open>The function of a step, if it has one.\<close>

definition step_function :: "single_step \<Rightarrow> u8 option" where
  "step_function s = (case s of init_left_border \<Rightarrow> Some STATE_LEFT_BORDER | variable_step \<Rightarrow> Some STATE_VARIABLE
     | init_right_border \<Rightarrow> Some STATE_RIGHT_BORDER | _ \<Rightarrow> None)"

text \<open>
  The flow comes to the step \<open>ux_at\<close>: the function of the step runs, and moves on or stays. \<open>None\<close> is
  fuel that ran out.
\<close>

fun enter_step :: "(bytes \<Rightarrow> bytes option) \<Rightarrow> (nat \<Rightarrow> nat) \<Rightarrow> (nat \<Rightarrow> nat) \<Rightarrow> nat \<Rightarrow> ux_t \<Rightarrow> 'h txProcessingContext_t
    \<Rightarrow> (ux_t \<times> 'h txProcessingContext_t) result option" where
  "enter_step ripemd160 fwd bwd 0 u ctx = None"
| "enter_step ripemd160 fwd bwd (Suc fuel) u ctx =
     (case step_function (single_action_steps ! ux_at u) of
        None \<Rightarrow> Some (Inr (u, ctx))
      | Some border \<Rightarrow>
          (case display_next_state ripemd160 border u ctx of
             Inl e \<Rightarrow> Some (Inl e)
           | Inr (u, ctx, Stay) \<Rightarrow> Some (Inr (u, ctx))
           | Inr (u, ctx, FlowNext) \<Rightarrow> enter_step ripemd160 fwd bwd fuel (u\<lparr>ux_at := fwd (ux_at u)\<rparr>) ctx
           | Inr (u, ctx, FlowPrev) \<Rightarrow> enter_step ripemd160 fwd bwd fuel (u\<lparr>ux_at := bwd (ux_at u)\<rparr>) ctx))"

datatype button = LeftButton | RightButton

definition press :: "(bytes \<Rightarrow> bytes option) \<Rightarrow> (nat \<Rightarrow> nat) \<Rightarrow> (nat \<Rightarrow> nat) \<Rightarrow> nat \<Rightarrow> button
    \<Rightarrow> ux_t \<times> 'h txProcessingContext_t \<Rightarrow> (ux_t \<times> 'h txProcessingContext_t) result option" where
  "press ripemd160 fwd bwd fuel b s = (case s of (u, ctx) \<Rightarrow>
     enter_step ripemd160 fwd bwd fuel (u\<lparr>ux_at := (if b = RightButton then fwd else bwd) (ux_at u)\<rparr>) ctx)"

text \<open>What the user reads in a step: its title and its text.\<close>

definition seen :: "ux_t \<times> 'h txProcessingContext_t \<Rightarrow> bytes \<times> bytes" where
  "seen s = (case s of (u, ctx) \<Rightarrow> (case single_action_steps ! ux_at u of
       review_step \<Rightarrow> (cstr ''Review'', c_string (confirmLabel u))
     | contract_step \<Rightarrow> (cstr ''Contract'', c_string (contract (content ctx)))
     | action_step \<Rightarrow> (cstr ''Action'', c_string (action (content ctx)))
     | variable_step \<Rightarrow> (c_string (label (arg (content ctx))), c_string (data (arg (content ctx))))
     | accept_step \<Rightarrow> (c_string (confirm_text1 u), c_string (confirm_text2 u))
     | cancel_step \<Rightarrow> (cstr ''Cancel'', cstr ''signature'')
     | _ \<Rightarrow> ([], [])))"
section \<open>The screens in their order\<close>

text \<open>The order of the steps in a flow of \<open>n\<close> steps, as the library goes through it.\<close>

definition flow_order :: "nat \<Rightarrow> (nat \<Rightarrow> nat) \<Rightarrow> (nat \<Rightarrow> nat) \<Rightarrow> bool" where
  "flow_order n fwd bwd \<longleftrightarrow> (\<forall>i j. j = i + 1 \<and> j < n \<longrightarrow> fwd i = j \<and> bwd j = i)"

text \<open>A flow at the step \<open>i\<close> with the counter \<open>c\<close>.\<close>

definition at_step :: "ux_t \<Rightarrow> nat \<Rightarrow> nat \<Rightarrow> ux_t" where
  "at_step u i c = u\<lparr>ux_at := i, ux_step := of_nat c\<rparr>"

lemma at_step_simps [simp]: "ux_at (at_step u i c) = i" "ux_step (at_step u i c) = of_nat c"
  "ux_step_count (at_step u i c) = ux_step_count u" "(at_step u i c)\<lparr>ux_at := j\<rparr> = at_step u j c"
  "confirmLabel (at_step u i c) = confirmLabel u" "confirm_text1 (at_step u i c) = confirm_text1 u"
  "confirm_text2 (at_step u i c) = confirm_text2 u"
  by (simp_all add: at_step_def)

lemma at_step_count: "(at_step u i c)\<lparr>ux_step := of_nat d\<rparr> = at_step u i d" "(at_step u i c)\<lparr>ux_step := 0\<rparr> = at_step u i 0"
  "(at_step u i c)\<lparr>ux_step := 1\<rparr> = at_step u i 1"
  by (simp_all add: at_step_def)

lemma counter_less: "a \<le> 256 \<Longrightarrow> b \<le> 256 \<Longrightarrow> (of_nat a :: u32) < of_nat b \<longleftrightarrow> a < b"
  by (simp add: word_less_nat_alt unat_of_nat)

lemma counter_eq: "a \<le> 256 \<Longrightarrow> b \<le> 256 \<Longrightarrow> (of_nat a :: u32) = of_nat b \<longleftrightarrow> a = b"
  by (simp add: word_unat_eq_iff unat_of_nat)

lemma counter_arg: "k \<le> 255 \<Longrightarrow> ucast ((of_nat (Suc k) :: u32) - 1) = (of_nat k :: u8)"
  by (simp add: word_unat_eq_iff unsigned_ucast_eq unat_of_nat take_bit_nat_eq_self)

lemma step_functions [simp]:
  "step_function (single_action_steps ! 0) = None" "step_function (single_action_steps ! 1) = None"
  "step_function (single_action_steps ! 2) = None" "step_function (single_action_steps ! 3) = Some STATE_LEFT_BORDER"
  "step_function (single_action_steps ! 4) = Some STATE_VARIABLE" "step_function (single_action_steps ! 5) = Some STATE_RIGHT_BORDER"
  "step_function (single_action_steps ! 6) = None" "step_function (single_action_steps ! 7) = None"
  by (simp_all add: step_function_def single_action_steps_def)

text \<open>Entering each step, with the counter it finds.\<close>

lemma enter_plain:
  "step_function (single_action_steps ! i) = None \<Longrightarrow>
    enter_step h fwd bwd (Suc fuel) (at_step u i c) ctx = Some (Inr (at_step u i c, ctx))"
  by simp

lemma enter_variable:
  assumes p: "prints h ctx scr" and k: "k < length scr"
  shows "enter_step h fwd bwd (Suc fuel) (at_step u 4 (Suc k)) (with_arg ctx a)
    = Some (Inr (at_step u 4 (Suc k), with_arg ctx (show_screen (scr ! k))))"
proof -
  have "ucast ((of_nat (Suc k) :: u32) - 1) = (of_nat k :: u8)" using k prints_length [OF p] by (intro counter_arg) simp
  then show ?thesis
    using p k by (simp add: display_next_state_def STATE_LEFT_BORDER_def STATE_VARIABLE_def prints_def del: of_nat_Suc)
qed

lemma enter_left_border:
  "enter_step h fwd bwd (Suc fuel) (at_step u 3 0) ctx = enter_step h fwd bwd fuel (at_step u (fwd 3) 1) ctx"
  "enter_step h fwd bwd (Suc fuel) (at_step u 3 1) ctx = enter_step h fwd bwd fuel (at_step u (bwd 3) 0) ctx"
  "Suc (Suc j) \<le> 256 \<Longrightarrow>
    enter_step h fwd bwd (Suc fuel) (at_step u 3 (Suc (Suc j))) ctx = enter_step h fwd bwd fuel (at_step u (fwd 3) (Suc j)) ctx"
proof -
  show "enter_step h fwd bwd (Suc fuel) (at_step u 3 0) ctx = enter_step h fwd bwd fuel (at_step u (fwd 3) 1) ctx"
    "enter_step h fwd bwd (Suc fuel) (at_step u 3 1) ctx = enter_step h fwd bwd fuel (at_step u (bwd 3) 0) ctx"
    by (simp_all add: display_next_state_def at_step_count)
  assume j: "Suc (Suc j) \<le> 256"
  have "(of_nat (Suc (Suc j)) :: u32) \<noteq> 0" "(of_nat (Suc (Suc j)) :: u32) \<noteq> 1"
    using counter_eq [of "Suc (Suc j)" 0] counter_eq [of "Suc (Suc j)" 1] j by simp_all
  moreover have "(of_nat (Suc (Suc j)) :: u32) - 1 = of_nat (Suc j)" by simp
  ultimately show "enter_step h fwd bwd (Suc fuel) (at_step u 3 (Suc (Suc j))) ctx
      = enter_step h fwd bwd fuel (at_step u (fwd 3) (Suc j)) ctx"
    by (simp add: display_next_state_def at_step_count del: of_nat_Suc)
qed

lemma enter_right_border:
  assumes "ux_step_count u = of_nat n" and "n \<le> 255" and "c \<le> 256"
  shows "c < n \<Longrightarrow> enter_step h fwd bwd (Suc fuel) (at_step u 5 c) ctx = enter_step h fwd bwd fuel (at_step u (bwd 5) (Suc c)) ctx"
    and "c = n \<Longrightarrow> enter_step h fwd bwd (Suc fuel) (at_step u 5 c) ctx = enter_step h fwd bwd fuel (at_step u (fwd 5) (Suc n)) ctx"
    and "n < c \<Longrightarrow> enter_step h fwd bwd (Suc fuel) (at_step u 5 c) ctx = enter_step h fwd bwd fuel (at_step u (bwd 5) n) ctx"
proof -
  have cmp: "(of_nat c :: u32) < of_nat n \<longleftrightarrow> c < n" "(of_nat c :: u32) = of_nat n \<longleftrightarrow> c = n"
    using counter_less [of c n] counter_eq [of c n] assms(2,3) by simp_all
  have inc: "(of_nat c :: u32) + 1 = of_nat (Suc c)" by simp
  show "enter_step h fwd bwd (Suc fuel) (at_step u 5 c) ctx = enter_step h fwd bwd fuel (at_step u (bwd 5) (Suc c)) ctx" if "c < n"
    using that by (simp add: display_next_state_def STATE_LEFT_BORDER_def STATE_VARIABLE_def STATE_RIGHT_BORDER_def assms(1) cmp inc
        at_step_count del: of_nat_Suc)
  show "enter_step h fwd bwd (Suc fuel) (at_step u 5 c) ctx = enter_step h fwd bwd fuel (at_step u (fwd 5) (Suc n)) ctx" if "c = n"
    using that cmp(1) by (simp add: display_next_state_def STATE_LEFT_BORDER_def STATE_VARIABLE_def STATE_RIGHT_BORDER_def assms(1) inc [unfolded that]
        at_step_count del: of_nat_Suc)
  show "enter_step h fwd bwd (Suc fuel) (at_step u 5 c) ctx = enter_step h fwd bwd fuel (at_step u (bwd 5) n) ctx" if "n < c"
    using that by (simp add: display_next_state_def STATE_LEFT_BORDER_def STATE_VARIABLE_def STATE_RIGHT_BORDER_def assms(1) cmp
        at_step_count)
qed
text \<open>
  The position \<open>p\<close> in the list of the screens: three titles, the \<open>n\<close> arguments, the two decisions.
\<close>

definition place_of :: "ux_t \<Rightarrow> nat \<Rightarrow> nat \<Rightarrow> ux_t" where
  "place_of u n p = (if p < 3 then at_step u p 0 else if p < n + 3 then at_step u 4 (p - 2) else at_step u (p + 3 - n) (n + 1))"

definition at_position :: "screen list \<Rightarrow> ux_t \<Rightarrow> 'h txProcessingContext_t \<Rightarrow> nat \<Rightarrow> ux_t \<times> 'h txProcessingContext_t \<Rightarrow> bool" where
  "at_position scr u ctx p s \<longleftrightarrow> (\<exists>a. s = (place_of u (length scr) p, with_arg ctx a)
     \<and> (3 \<le> p \<and> p < length scr + 3 \<longrightarrow> a = show_screen (scr ! (p - 3))))"

lemma press_eq: "press h fwd bwd fuel RightButton (at_step u i c, ctx) = enter_step h fwd bwd fuel (at_step u (fwd i) c) ctx"
  "press h fwd bwd fuel LeftButton (at_step u i c, ctx) = enter_step h fwd bwd fuel (at_step u (bwd i) c) ctx"
  by (simp_all add: press_def)

lemma flow_order_eight:
  assumes "flow_order 8 fwd bwd"
  shows "fwd 0 = 1" "fwd 1 = 2" "fwd 2 = 3" "fwd 3 = 4" "fwd 4 = 5" "fwd 5 = 6" "fwd 6 = 7"
    and "bwd 1 = 0" "bwd 2 = 1" "bwd 3 = 2" "bwd 4 = 3" "bwd 5 = 4" "bwd 6 = 5" "bwd 7 = 6"
proof -
  have s: "fwd i = j \<and> bwd j = i" if "j = i + 1" "j < 8" for i j using assms that by (simp add: flow_order_def)
  show "fwd 0 = 1" "fwd 1 = 2" "fwd 2 = 3" "fwd 3 = 4" "fwd 4 = 5" "fwd 5 = 6" "fwd 6 = 7"
    "bwd 1 = 0" "bwd 2 = 1" "bwd 3 = 2" "bwd 4 = 3" "bwd 5 = 4" "bwd 6 = 5" "bwd 7 = 6"
    using s [of 1 0] s [of 2 1] s [of 3 2] s [of 4 3] s [of 5 4] s [of 6 5] s [of 7 6] by simp_all
qed

lemma on_argument: "j < length scr \<Longrightarrow> at_position scr u ctx (j + 3) (at_step u 4 (Suc j), with_arg ctx (show_screen (scr ! j)))"
  by (simp add: at_position_def place_of_def)

lemma position_cases:
  assumes "pos < n + 4" and "0 < n"
  obtains "pos = 0" | "pos = 1" | "pos = 2" | j where "pos = j + 3" "Suc j < n" | j where "pos = j + 3" "n = Suc j"
    | "pos = n + 3"
proof -
  have "pos = 0 \<or> pos = 1 \<or> pos = 2 \<or> (pos = pos - 3 + 3 \<and> Suc (pos - 3) < n) \<or> (pos = pos - 3 + 3 \<and> n = Suc (pos - 3))
      \<or> pos = n + 3"
    using assms by arith
  then show ?thesis using that by blast
qed

text \<open>The two buttons move by one position.\<close>

lemma press_right:
  assumes o: "flow_order 8 fwd bwd" and p: "prints h ctx scr" and c: "ux_step_count u = of_nat (length scr)"
    and s: "at_position scr u ctx pos s" and pos: "pos < length scr + 4"
  shows "\<exists>s'. press h fwd bwd (Suc (Suc k)) RightButton s = Some (Inr s') \<and> at_position scr u ctx (Suc pos) s'"
proof -
  let ?n = "length scr"
  have "scr \<noteq> []" using p by (simp add: prints_def)
  then have n: "0 < ?n" "?n \<le> 255" using prints_length [OF p] by simp_all
  note f = flow_order_eight [OF o]
  obtain a where a: "s = (place_of u ?n pos, with_arg ctx a)" using s by (auto simp: at_position_def)
  note arg = enter_variable [OF p, of _ fwd bwd _ u a]
  from pos n(1) show ?thesis
  proof (cases rule: position_cases)
    case 1
    have "press h fwd bwd (Suc (Suc k)) RightButton s = Some (Inr (at_step u 1 0, with_arg ctx a))"
      unfolding a 1 place_of_def by (simp add: press_eq f enter_plain del: enter_step.simps One_nat_def)
    then show ?thesis using 1 by (auto simp: at_position_def place_of_def)
  next
    case 2
    have "press h fwd bwd (Suc (Suc k)) RightButton s = Some (Inr (at_step u 2 0, with_arg ctx a))"
      unfolding a 2 place_of_def by (simp add: press_eq f enter_plain del: enter_step.simps One_nat_def)
    then show ?thesis using 2 by (auto simp: at_position_def place_of_def numeral_2_eq_2)
  next
    case 3
    have "press h fwd bwd (Suc (Suc k)) RightButton s = Some (Inr (at_step u 4 (Suc 0), with_arg ctx (show_screen (scr ! 0))))"
      unfolding a 3 place_of_def using n by (simp add: press_eq f enter_left_border arg [of 0] del: enter_step.simps)
    then show ?thesis using on_argument [of 0 scr u ctx] n 3 by (simp add: numeral_3_eq_3 numeral_2_eq_2)
  next
    case (4 j)
    have "press h fwd bwd (Suc (Suc k)) RightButton s
        = Some (Inr (at_step u 4 (Suc (Suc j)), with_arg ctx (show_screen (scr ! Suc j))))"
      unfolding a 4 place_of_def using n 4
      by (simp add: press_eq f enter_right_border(1) [OF c n(2)] arg del: enter_step.simps)
    then show ?thesis using on_argument [of "Suc j" scr u ctx] 4 by simp
  next
    case (5 j)
    have "press h fwd bwd (Suc (Suc k)) RightButton s = Some (Inr (at_step u 6 (Suc ?n), with_arg ctx a))"
      unfolding a 5 place_of_def using n 5(2)
      by (simp add: press_eq f enter_right_border(2) [OF c n(2)] enter_plain del: enter_step.simps)
    then show ?thesis using 5 by (auto simp: at_position_def place_of_def)
  next
    case 6
    have "press h fwd bwd (Suc (Suc k)) RightButton s = Some (Inr (at_step u 7 (Suc ?n), with_arg ctx a))"
      unfolding a 6 place_of_def by (simp add: press_eq f enter_plain del: enter_step.simps)
    then show ?thesis using 6 by (auto simp: at_position_def place_of_def)
  qed
qed

lemma press_left:
  assumes o: "flow_order 8 fwd bwd" and p: "prints h ctx scr" and c: "ux_step_count u = of_nat (length scr)"
    and s: "at_position scr u ctx (Suc pos) s" and pos: "pos < length scr + 4"
  shows "\<exists>s'. press h fwd bwd (Suc (Suc k)) LeftButton s = Some (Inr s') \<and> at_position scr u ctx pos s'"
proof -
  let ?n = "length scr"
  have "scr \<noteq> []" using p by (simp add: prints_def)
  then have n: "0 < ?n" "?n \<le> 255" using prints_length [OF p] by simp_all
  note f = flow_order_eight [OF o]
  obtain a where a: "s = (place_of u ?n (Suc pos), with_arg ctx a)" using s by (auto simp: at_position_def)
  note arg = enter_variable [OF p, of _ fwd bwd _ u a]
  from pos n(1) show ?thesis
  proof (cases rule: position_cases)
    case 1
    have "press h fwd bwd (Suc (Suc k)) LeftButton s = Some (Inr (at_step u 0 0, with_arg ctx a))"
      unfolding a 1 place_of_def by (simp add: press_eq f [simplified] enter_plain del: enter_step.simps)
    then show ?thesis using 1 by (auto simp: at_position_def place_of_def)
  next
    case 2
    have "press h fwd bwd (Suc (Suc k)) LeftButton s = Some (Inr (at_step u 1 0, with_arg ctx a))"
      unfolding a 2 place_of_def by (simp add: press_eq f enter_plain numeral_2_eq_2 [symmetric] del: enter_step.simps One_nat_def)
    then show ?thesis using 2 by (auto simp: at_position_def place_of_def)
  next
    case 3
    have "press h fwd bwd (Suc (Suc k)) LeftButton s = Some (Inr (at_step u 2 0, with_arg ctx a))"
      unfolding a 3 place_of_def using n
      by (simp add: press_eq f enter_left_border(2) [unfolded One_nat_def] enter_plain del: enter_step.simps)
    then show ?thesis using 3 by (auto simp: at_position_def place_of_def)
  next
    case (4 j)
    have "press h fwd bwd (Suc (Suc k)) LeftButton s
        = Some (Inr (at_step u 4 (Suc j), with_arg ctx (show_screen (scr ! j))))"
      unfolding a 4 place_of_def using n 4
      by (simp add: press_eq f enter_left_border(3) arg del: enter_step.simps)
    then show ?thesis using on_argument [of j scr u ctx] 4 by simp
  next
    case (5 j)
    have "press h fwd bwd (Suc (Suc k)) LeftButton s
        = Some (Inr (at_step u 4 (Suc j), with_arg ctx (show_screen (scr ! j))))"
      unfolding a 5 place_of_def using n 5(2)
      by (simp add: press_eq f enter_right_border(3) [OF c n(2)] arg del: enter_step.simps)
    then show ?thesis using on_argument [of j scr u ctx] 5 by simp
  next
    case 6
    have "press h fwd bwd (Suc (Suc k)) LeftButton s = Some (Inr (at_step u 6 (Suc ?n), with_arg ctx a))"
      unfolding a 6 place_of_def by (simp add: press_eq f enter_plain del: enter_step.simps)
    then show ?thesis using 6 by (auto simp: at_position_def place_of_def)
  qed
qed
section \<open>A review\<close>

text \<open>The screens of a review, with its title and the decision it asks for.\<close>

definition review_list :: "bytes \<Rightarrow> bytes \<Rightarrow> bytes \<Rightarrow> screen list \<Rightarrow> bool \<Rightarrow> (bytes \<times> bytes) list" where
  "review_list title con act scr final = [(cstr ''Review'', title), (cstr ''Contract'', con), (cstr ''Action'', act)]
     @ map read_screen scr
     @ [if final then (cstr ''Sign'', cstr ''transaction'') else (cstr ''Accept'', cstr ''& review next''),
        (cstr ''Cancel'', cstr ''signature'')]"

definition review_title :: "'h txProcessingContext_t \<Rightarrow> bytes" where
  "review_title ctx = (if currentActionNumber ctx > 1 then cstr ''Action #'' @ int_text (sint (currentActionIndex ctx))
     else cstr ''Transaction'')"

definition ux_sizes :: "ux_t \<Rightarrow> bool" where
  "ux_sizes u \<longleftrightarrow> length (actionCounter u) = 32 \<and> length (confirmLabel u) = 32 \<and> length (confirm_text1 u) = 16
     \<and> length (confirm_text2 u) = 16"

lemma sign_flow_opens:
  assumes "ux_sizes u"
  shows "\<exists>u0. ui_display_single_action_sign_flow ctx u = Inr u0 \<and> ux_sizes u0 \<and> ux_flow u0 = ux_single_action_sign_flow
    \<and> ux_step_count u0 = of_nat (unat (argumentCount (content ctx))) \<and> u0 = at_step u0 0 0
    \<and> c_string (confirmLabel u0) = review_title ctx
    \<and> (let final = (currentActionIndex ctx = currentActionNumber ctx) in
       c_string (confirm_text1 u0) = (if final then cstr ''Sign'' else cstr ''Accept'')
       \<and> c_string (confirm_text2 u0) = (if final then cstr ''transaction'' else cstr ''& review next''))"
proof -
  let ?final = "currentActionIndex ctx = currentActionNumber ctx"
  have len: "length (confirmLabel u) = 32" "length (confirm_text1 u) = 16" "length (confirm_text2 u) = 16"
    using assms by (simp_all add: ux_sizes_def)
  have title: "length (review_title ctx) < 32" "0 \<notin> set (review_title ctx)"
    using length_index_text32 [of "currentActionIndex ctx"] int_text_printable
    by (auto simp: review_title_def cstr_def)
  obtain l where l: "mem_write (confirmLabel u) 0 (take 31 (review_title ctx) @ [0]) = Inr l" "length l = 32"
    "c_string l = review_title ctx"
    using text_written [OF title(1) _ title(2), of "confirmLabel u"] len by auto
  define w1 w2 where "w1 = (if ?final then cstr ''Sign'' else cstr ''Accept'')"
    and "w2 = (if ?final then cstr ''transaction'' else cstr ''& review next'')"
  have w: "length w1 < 16" "0 \<notin> set w1" "length w2 < 16" "0 \<notin> set w2" by (simp_all add: w1_def w2_def cstr_def)
  obtain t1 where t1: "mem_write (confirm_text1 u) 0 (take 15 w1 @ [0]) = Inr t1" "length t1 = 16" "c_string t1 = w1"
    using text_written [OF w(1) _ w(2), of "confirm_text1 u"] len by auto
  obtain t2 where t2: "mem_write (confirm_text2 u) 0 (take 15 w2 @ [0]) = Inr t2" "length t2 = 16" "c_string t2 = w2"
    using text_written [OF w(3) _ w(4), of "confirm_text2 u"] len by auto
  have "(if currentActionNumber ctx > 1
         then snprintf (confirmLabel u) 32 (cstr ''Action #'' @ int_text (sint (currentActionIndex ctx)))
         else strlcpy (confirmLabel u) (cstr ''Transaction'') 32) = Inr l"
    using l(1) by (cases "currentActionNumber ctx > 1") (simp_all add: snprintf_def strlcpy_def review_title_def)
  moreover have "strlcpy (confirm_text1 u) w1 16 = Inr t1" "strlcpy (confirm_text2 u) w2 16 = Inr t2"
    using t1(1) t2(1) by (simp_all add: strlcpy_def)
  moreover have "ucast (argumentCount (content ctx)) = (of_nat (unat (argumentCount (content ctx))) :: u32)" by simp
  ultimately show ?thesis
    using assms l(2,3) t1(2,3) t2(2,3) unfolding ui_display_single_action_sign_flow_def Let_def w1_def [symmetric] w2_def [symmetric]
    by (cases "currentActionNumber ctx > 1") (simp_all add: ux_flow_init_def ux_sizes_def at_step_def)
qed

lemma seen_at:
  assumes "at_position scr u ctx p s" and "p < length scr + 5"
    and "confirm = (c_string (confirm_text1 u), c_string (confirm_text2 u))"
    and "confirm = (if final then (cstr ''Sign'', cstr ''transaction'') else (cstr ''Accept'', cstr ''& review next''))"
  shows "seen s = review_list (c_string (confirmLabel u)) (c_string (contract (content ctx))) (c_string (action (content ctx)))
    scr final ! p"
proof -
  obtain a where a: "s = (place_of u (length scr) p, with_arg ctx a)"
    "3 \<le> p \<Longrightarrow> p < length scr + 3 \<Longrightarrow> a = show_screen (scr ! (p - 3))"
    using assms(1) by (auto simp: at_position_def)
  consider "p = 0" | "p = 1" | "p = 2" | "3 \<le> p" "p < length scr + 3" | "p = length scr + 3" | "p = length scr + 4"
    using assms(2) by linarith
  then show ?thesis
  proof cases
    case 4
    then obtain k where k: "p = k + 3" "k < length scr" by (metis add.commute add_less_cancel_right le_Suc_ex)
    then show ?thesis
      using a by (simp add: review_list_def seen_def place_of_def single_action_steps_def read_screen_def nth_append)
  next
    case 5
    then show ?thesis using a(1) assms(3,4) by (simp add: review_list_def seen_def place_of_def single_action_steps_def nth_append)
  next
    case 6
    then show ?thesis using a(1) by (simp add: review_list_def seen_def place_of_def single_action_steps_def nth_append)
  qed (use a(1) in \<open>simp_all add: review_list_def seen_def place_of_def single_action_steps_def\<close>)
qed
text \<open>Pressing the right button \<open>p\<close> times.\<close>

primrec walk :: "(bytes \<Rightarrow> bytes option) \<Rightarrow> (nat \<Rightarrow> nat) \<Rightarrow> (nat \<Rightarrow> nat) \<Rightarrow> nat \<Rightarrow> nat
    \<Rightarrow> ux_t \<times> 'h txProcessingContext_t \<Rightarrow> (ux_t \<times> 'h txProcessingContext_t) result option" where
  "walk h fwd bwd fuel 0 s = Some (Inr s)"
| "walk h fwd bwd fuel (Suc p) s =
     (case walk h fwd bwd fuel p s of Some (Inr s) \<Rightarrow> press h fwd bwd fuel RightButton s | r \<Rightarrow> r)"

lemma walk_position:
  assumes o: "flow_order 8 fwd bwd" and p: "prints h ctx scr" and c: "ux_step_count u = of_nat (length scr)"
    and u: "u = at_step u 0 0"
  shows "pos < length scr + 5 \<Longrightarrow>
    \<exists>s. walk h fwd bwd (Suc (Suc k)) pos (u, ctx) = Some (Inr s) \<and> at_position scr u ctx pos s"
proof (induction pos)
  case 0
  have "ctx = with_arg ctx (arg (content ctx))" by (simp add: with_arg_def)
  then have "at_position scr u ctx 0 (u, ctx)" unfolding at_position_def place_of_def using u by auto
  then show ?case by simp
next
  case (Suc pos)
  then obtain s where s: "walk h fwd bwd (Suc (Suc k)) pos (u, ctx) = Some (Inr s)" "at_position scr u ctx pos s" by auto
  then show ?case using press_right [OF o p c s(2), of k] Suc.prems by auto
qed

lemma review_walk:
  assumes o: "flow_order 8 fwd bwd" and p: "prints h ctx scr" and u: "ux_sizes u"
    and l: "xs = review_list (review_title ctx) (c_string (contract (content ctx))) (c_string (action (content ctx))) scr
      (currentActionIndex ctx = currentActionNumber ctx)"
  shows "\<exists>u0. ui_display_single_action_sign_flow ctx u = Inr u0 \<and> (\<forall>pos < length xs.
    \<exists>s. walk h fwd bwd (Suc (Suc k)) pos (u0, ctx) = Some (Inr s) \<and> seen s = xs ! pos
      \<and> (pos \<noteq> 0 \<longrightarrow> (\<exists>s'. press h fwd bwd (Suc (Suc k)) LeftButton s = Some (Inr s') \<and> seen s' = xs ! (pos - 1))))"
proof -
  obtain u0 where u0: "ui_display_single_action_sign_flow ctx u = Inr u0" "ux_step_count u0 = of_nat (unat (argumentCount (content ctx)))"
    "u0 = at_step u0 0 0" "c_string (confirmLabel u0) = review_title ctx"
    "c_string (confirm_text1 u0) = (if currentActionIndex ctx = currentActionNumber ctx then cstr ''Sign'' else cstr ''Accept'')"
    "c_string (confirm_text2 u0)
      = (if currentActionIndex ctx = currentActionNumber ctx then cstr ''transaction'' else cstr ''& review next'')"
    using sign_flow_opens [OF u, of ctx] by (auto simp: Let_def)
  have c: "ux_step_count u0 = of_nat (length scr)" using u0(2) p by (simp add: prints_def)
  have len: "length xs = length scr + 5" by (simp add: l review_list_def)
  have seen: "seen s = xs ! pos" if "at_position scr u0 ctx pos s" "pos < length scr + 5" for s pos
    using seen_at [OF that refl, of "currentActionIndex ctx = currentActionNumber ctx"] u0(4-6) by (simp add: l)
  have "\<exists>s. walk h fwd bwd (Suc (Suc k)) pos (u0, ctx) = Some (Inr s) \<and> seen s = xs ! pos
      \<and> (pos \<noteq> 0 \<longrightarrow> (\<exists>s'. press h fwd bwd (Suc (Suc k)) LeftButton s = Some (Inr s') \<and> seen s' = xs ! (pos - 1)))"
    if pos: "pos < length xs" for pos
  proof -
    obtain s where s: "walk h fwd bwd (Suc (Suc k)) pos (u0, ctx) = Some (Inr s)" "at_position scr u0 ctx pos s"
      using walk_position [OF o p c u0(3), of pos k] pos len by auto
    have "\<exists>s'. press h fwd bwd (Suc (Suc k)) LeftButton s = Some (Inr s') \<and> seen s' = xs ! (pos - 1)" if nz: "pos \<noteq> 0"
    proof -
      have "at_position scr u0 ctx (Suc (pos - 1)) s" using s(2) nz by simp
      moreover have "pos - 1 < length scr + 4" using pos len nz by simp
      ultimately obtain s' where
        s': "press h fwd bwd (Suc (Suc k)) LeftButton s = Some (Inr s')" "at_position scr u0 ctx (pos - 1) s'"
        using press_left [OF o p c] by blast
      then show ?thesis using seen [OF s'(2)] pos len by auto
    qed
    then show ?thesis using s seen pos len by auto
  qed
  then show ?thesis using u0(1) by blast
qed
text \<open>What pressing both buttons does in a step.\<close>

datatype callback = NoCallback | DisplaySettings | QuitApp | SwitchContractData | BackToIdle | AddressOk | AddressCancel
  | SignFlowOk | TxCancel

text \<open>
  The steps of the other flows: the lines of text, and the callback. The application's version and the key
  on the screen are given; the icons are left out.
\<close>

definition ux_idle_flow_steps :: "bytes \<Rightarrow> (bytes list \<times> callback) list" where
  "ux_idle_flow_steps version =
     [([cstr ''Application'', cstr ''is ready''], NoCallback),
      ([cstr ''Version'', version], NoCallback),
      ([cstr ''Settings''], DisplaySettings),
      ([cstr ''Quit''], QuitApp)]"

definition ux_settings_flow_steps :: "ux_t \<Rightarrow> (bytes list \<times> callback) list" where
  "ux_settings_flow_steps u =
     [([cstr ''Contract data'', cstr ''Allow contract data'', cstr ''in transactions'', c_string (confirmLabel u)], SwitchContractData),
      ([cstr ''Back''], BackToIdle)]"

definition ux_display_public_flow_steps :: "bytes \<Rightarrow> (bytes list \<times> callback) list" where
  "ux_display_public_flow_steps key =
     [([cstr ''Verify'', cstr ''Public Key''], NoCallback),
      ([cstr ''Public Key'', c_string key], NoCallback),
      ([cstr ''Approve''], AddressOk),
      ([cstr ''Reject''], AddressCancel)]"

definition ux_multiple_action_sign_flow_steps :: "ux_t \<Rightarrow> (bytes list \<times> callback) list" where
  "ux_multiple_action_sign_flow_steps u =
     [([cstr ''Review'', cstr ''Transaction''], NoCallback),
      ([cstr ''With'', c_string (actionCounter u)], NoCallback),
      ([cstr ''Continue'', cstr ''review''], SignFlowOk),
      ([cstr ''Cancel'', cstr ''review''], TxCancel)]"

definition single_callback :: "single_step \<Rightarrow> callback" where
  "single_callback s = (case s of accept_step \<Rightarrow> SignFlowOk | cancel_step \<Rightarrow> TxCancel | _ \<Rightarrow> NoCallback)"

text \<open>All flows: the lines and the callback of every step.\<close>

definition flow_steps :: "bytes \<Rightarrow> bytes \<Rightarrow> 'h txProcessingContext_t \<Rightarrow> ux_t \<Rightarrow> (bytes list \<times> callback) list" where
  "flow_steps version key ctx u =
     (case ux_flow u of
        ux_idle_flow \<Rightarrow> ux_idle_flow_steps version
      | ux_settings_flow \<Rightarrow> ux_settings_flow_steps u
      | ux_display_public_flow \<Rightarrow> ux_display_public_flow_steps key
      | ux_multiple_action_sign_flow \<Rightarrow> ux_multiple_action_sign_flow_steps u
      | ux_single_action_sign_flow \<Rightarrow>
          map (\<lambda>i. (let (a, b) = seen (u\<lparr>ux_at := i\<rparr>, ctx) in [a, b], single_callback (single_action_steps ! i))) [0 ..< 8])"

lemma single_callbacks [simp]:
  "single_callback (single_action_steps ! 6) = SignFlowOk" "single_callback (single_action_steps ! 7) = TxCancel"
  "i < 6 \<Longrightarrow> single_callback (single_action_steps ! i) = NoCallback"
proof -
  show "single_callback (single_action_steps ! 6) = SignFlowOk" "single_callback (single_action_steps ! 7) = TxCancel"
    by (simp_all add: single_callback_def single_action_steps_def)
  assume "i < 6"
  then have "i = 0 \<or> i = 1 \<or> i = 2 \<or> i = 3 \<or> i = 4 \<or> i = 5" by arith
  then show "single_callback (single_action_steps ! i) = NoCallback"
    by (elim disjE) (simp_all add: single_callback_def single_action_steps_def)
qed

text \<open>The review of an action of a transaction, from its announcement to the two decisions.\<close>

lemma action_walk:
  assumes o: "flow_order 8 fwd bwd" and d: "digest_32 ops" and ok: "act_ok ops ripemd160 allowed a"
    and p: "presents ops ripemd160 n i a c" and u: "ux_sizes u" and n: "i < n" "n < 2 ^ 31"
    and xs: "xs = review_list (if 1 < n then cstr ''Action #'' @ int_text (int (Suc i)) else cstr ''Transaction'')
      (name_text (act_account a)) (name_text (body_name (act_body a))) (body_screens ops ripemd160 (act_body a)) (Suc i = n)"
  shows "\<exists>u0. ui_display_single_action_sign_flow c u = Inr u0 \<and> (\<forall>pos < length xs.
    \<exists>s. walk ripemd160 fwd bwd (Suc (Suc k)) pos (u0, c) = Some (Inr s) \<and> seen s = xs ! pos
      \<and> (pos \<noteq> 0 \<longrightarrow> (\<exists>s'. press ripemd160 fwd bwd (Suc (Suc k)) LeftButton s = Some (Inr s') \<and> seen s' = xs ! (pos - 1))))"
proof -
  note s = action_shown [OF d ok p]
  have w: "unat (of_nat k :: u32) = k" if "k < 2 ^ 31" for k
    using that by (simp add: unat_of_nat)
  have num: "currentActionNumber c = of_nat n" "currentActionIndex c = of_nat (Suc i)" using p by (simp_all add: presents_def)
  have eq: "(currentActionIndex c = currentActionNumber c) = (Suc i = n)"
    unfolding num word_unat_eq_iff using w [of "Suc i"] w [of n] n by simp
  have gt: "(1 < currentActionNumber c) = (1 < n)"
    unfolding num word_less_nat_alt using w [of n] n by simp
  have si: "sint (currentActionIndex c) = int (Suc i)"
    unfolding num using n by (simp add: signed_of_nat signed_take_bit_int_eq_self del: of_nat_Suc)
  have title: "review_title c = (if 1 < n then cstr ''Action #'' @ int_text (int (Suc i)) else cstr ''Transaction'')"
    unfolding review_title_def gt si by simp
  show ?thesis
    by (rule review_walk [OF o s(1) u]) (simp only: xs s title eq)
qed

end
