(* ===== verification/Eos_Buttons.thy ===== *)
theory Eos_Buttons
  imports Eos_Commands Eos_Bagl
begin

text \<open>
  The device with its buttons: the commands of the host and the presses of the user change the device and
  the flow on the screen. The flow fits what the device waits for, and every step of the device with its
  buttons is a step of the device, the display of an argument, or the switch of the setting.
\<close>

section \<open>Steps\<close>

datatype input = Host bytes | Turn button | Both

text \<open>The flow that a function of the device opens, by what waits for the user.\<close>

definition open_flow :: "'h device_t \<Rightarrow> ux_t \<Rightarrow> ux_t result" where
  "open_flow dev u =
     (case display dev of
        IdleScreen \<Rightarrow> Inr (ui_idle u)
      | PublicKeyFlow \<Rightarrow> Inr (ui_display_public_key_flow u)
      | SingleActionFlow \<Rightarrow> ui_display_single_action_sign_flow (txProcessingCtx dev) u
      | MultipleActionFlow \<Rightarrow> ui_display_multiple_action_sign_flow (txProcessingCtx dev) u)"

text \<open>The callback of the step on the screen.\<close>

definition callback_of :: "'h device_library \<Rightarrow> 'h device_t \<Rightarrow> ux_t \<Rightarrow> callback" where
  "callback_of lib dev u =
     (let steps = flow_steps [] (address (public_key_member lib (tmpCtx dev))) (txProcessingCtx dev) u in
      if ux_at u < length steps then snd (steps ! ux_at u) else NoCallback)"

text \<open>
  \<open>fwd n\<close> and \<open>bwd n\<close> go through a flow of \<open>n\<close> steps. A command is read when nothing waits for the
  user; it opens a flow when its answer does. A callback that answers opens what comes next.
\<close>

inductive button_step :: "'h device_library \<Rightarrow> (nat \<Rightarrow> nat \<Rightarrow> nat) \<Rightarrow> (nat \<Rightarrow> nat \<Rightarrow> nat) \<Rightarrow> nat
    \<Rightarrow> 'h device_t \<times> ux_t \<Rightarrow> input \<Rightarrow> bytes option \<Rightarrow> 'h device_t \<times> ux_t \<Rightarrow> bool" for lib fwd bwd fuel where
  press_host: "display dev = IdleScreen \<Longrightarrow> app_round lib bs dev = Some (Inr (dev', reply)) \<Longrightarrow>
    (if display dev' = IdleScreen then Inr u else open_flow dev' u) = Inr u' \<Longrightarrow>
    button_step lib fwd bwd fuel (dev, u) (Host bs) reply (dev', u')"
| press_turn_review: "ux_flow u = ux_single_action_sign_flow \<Longrightarrow>
    press (lib_ripemd160 lib) (fwd 8) (bwd 8) fuel b (u, txProcessingCtx dev) = Some (Inr (u', ctx')) \<Longrightarrow>
    button_step lib fwd bwd fuel (dev, u) (Turn b) None (dev\<lparr>txProcessingCtx := ctx'\<rparr>, u')"
| press_turn: "ux_flow u \<noteq> ux_single_action_sign_flow \<Longrightarrow> n = length (flow_steps [] [] (txProcessingCtx dev) u) \<Longrightarrow>
    button_step lib fwd bwd fuel (dev, u) (Turn b) None
      (dev, u\<lparr>ux_at := (if b = RightButton then fwd n else bwd n) (ux_at u)\<rparr>)"
| press_settings: "callback_of lib dev u = DisplaySettings \<Longrightarrow> display_settings (N_storage dev) u = Inr u' \<Longrightarrow>
    button_step lib fwd bwd fuel (dev, u) Both None (dev, u')"
| press_switch: "callback_of lib dev u = SwitchContractData \<Longrightarrow> switch_settings_contract_data (N_storage dev) u = Inr (s, u') \<Longrightarrow>
    button_step lib fwd bwd fuel (dev, u) Both None (dev\<lparr>N_storage := s\<rparr>, u')"
| press_back: "callback_of lib dev u = BackToIdle \<Longrightarrow> button_step lib fwd bwd fuel (dev, u) Both None (dev, ui_idle u)"
| press_nothing: "callback_of lib dev u = NoCallback \<Longrightarrow> button_step lib fwd bwd fuel (dev, u) Both None (dev, u)"
| press_address_yes: "callback_of lib dev u = AddressOk \<Longrightarrow> user_action_address_ok lib dev = Inr (dev', answer) \<Longrightarrow>
    open_flow dev' u = Inr u' \<Longrightarrow> button_step lib fwd bwd fuel (dev, u) Both (Some answer) (dev', u')"
| press_address_no: "callback_of lib dev u = AddressCancel \<Longrightarrow> user_action_address_cancel dev = Inr (dev', answer) \<Longrightarrow>
    open_flow dev' u = Inr u' \<Longrightarrow> button_step lib fwd bwd fuel (dev, u) Both (Some answer) (dev', u')"
| press_sign_yes: "callback_of lib dev u = SignFlowOk \<Longrightarrow> user_action_sign_flow_ok lib dev = Some (Inr (dev', reply)) \<Longrightarrow>
    open_flow dev' u = Inr u' \<Longrightarrow> button_step lib fwd bwd fuel (dev, u) Both reply (dev', u')"
| press_sign_no: "callback_of lib dev u = TxCancel \<Longrightarrow> user_action_tx_cancel dev = Inr (dev', answer) \<Longrightarrow>
    open_flow dev' u = Inr u' \<Longrightarrow> button_step lib fwd bwd fuel (dev, u) Both (Some answer) (dev', u')"

section \<open>The flow fits the device\<close>

definition flow_fits :: "'h device_t \<times> ux_t \<Rightarrow> bool" where
  "flow_fits s \<longleftrightarrow> (case s of (dev, u) \<Rightarrow> ux_sizes u \<and> (case display dev of
       IdleScreen \<Rightarrow> ux_flow u = ux_idle_flow \<or> ux_flow u = ux_settings_flow
     | PublicKeyFlow \<Rightarrow> ux_flow u = ux_display_public_flow
     | SingleActionFlow \<Rightarrow> ux_flow u = ux_single_action_sign_flow
     | MultipleActionFlow \<Rightarrow> ux_flow u = ux_multiple_action_sign_flow))"

text \<open>The callbacks of the flows.\<close>

definition callbacks :: "flow_t \<Rightarrow> callback list" where
  "callbacks f = (case f of
       ux_idle_flow \<Rightarrow> [NoCallback, NoCallback, DisplaySettings, QuitApp]
     | ux_settings_flow \<Rightarrow> [SwitchContractData, BackToIdle]
     | ux_display_public_flow \<Rightarrow> [NoCallback, NoCallback, AddressOk, AddressCancel]
     | ux_multiple_action_sign_flow \<Rightarrow> [NoCallback, NoCallback, SignFlowOk, TxCancel]
     | ux_single_action_sign_flow \<Rightarrow> map single_callback single_action_steps)"

lemma length_steps: "length single_action_steps = 8"
  by (simp add: single_action_steps_def)

lemma callbacks_eq: "map snd (flow_steps version key ctx u) = callbacks (ux_flow u)"
proof (cases "ux_flow u")
  case ux_single_action_sign_flow
  have "map snd (flow_steps version key ctx u) = map (\<lambda>i. single_callback (single_action_steps ! i)) [0 ..< 8]"
    by (simp add: flow_steps_def ux_single_action_sign_flow Let_def split_beta comp_def)
  also have "\<dots> = map single_callback (map (nth single_action_steps) [0 ..< length single_action_steps])"
    by (simp add: length_steps comp_def)
  finally show ?thesis by (simp only: map_nth ux_single_action_sign_flow callbacks_def flow_t.case)
qed (simp_all add: flow_steps_def callbacks_def ux_idle_flow_steps_def ux_settings_flow_steps_def ux_display_public_flow_steps_def
    ux_multiple_action_sign_flow_steps_def)

lemma callback_of_eq:
  "callback_of lib dev u = (if ux_at u < length (callbacks (ux_flow u)) then callbacks (ux_flow u) ! ux_at u else NoCallback)"
proof -
  let ?steps = "flow_steps [] (address (public_key_member lib (tmpCtx dev))) (txProcessingCtx dev) u"
  have m: "map snd ?steps = callbacks (ux_flow u)" by (rule callbacks_eq)
  then have "length ?steps = length (callbacks (ux_flow u))" by (metis length_map)
  then show ?thesis unfolding callback_of_def Let_def m [symmetric] by simp
qed

text \<open>Which callback a flow can call.\<close>

lemma callback_flows:
  assumes "callback_of lib dev u = cb" and "cb \<noteq> NoCallback"
  shows "cb \<in> set (callbacks (ux_flow u))"
  using assms by (auto simp: callback_of_eq split: if_splits)

lemma callbacks_sets:
  "set (callbacks ux_idle_flow) = {NoCallback, DisplaySettings, QuitApp}"
  "set (callbacks ux_settings_flow) = {SwitchContractData, BackToIdle}"
  "set (callbacks ux_display_public_flow) = {NoCallback, AddressOk, AddressCancel}"
  "set (callbacks ux_multiple_action_sign_flow) = {NoCallback, SignFlowOk, TxCancel}"
  "set (callbacks ux_single_action_sign_flow) = {NoCallback, SignFlowOk, TxCancel}"
  by (auto simp: callbacks_def single_action_steps_def single_callback_def)

lemma callback_display:
  assumes "flow_fits (dev, u)"
  shows "callback_of lib dev u \<in> {DisplaySettings, SwitchContractData, BackToIdle} \<Longrightarrow> display dev = IdleScreen"
    and "callback_of lib dev u \<in> {AddressOk, AddressCancel} \<Longrightarrow> display dev = PublicKeyFlow"
    and "callback_of lib dev u \<in> {SignFlowOk, TxCancel} \<Longrightarrow> signing_screen (display dev)"
  using callback_flows [OF refl, of lib dev u] assms
  by (auto simp: flow_fits_def callbacks_sets signing_screen_def split: display_t.splits)
lemma multiple_flow_opens:
  assumes "ux_sizes u" and "ui_display_multiple_action_sign_flow ctx u = Inr u'"
  shows "ux_sizes u' \<and> ux_flow u' = ux_multiple_action_sign_flow"
  using assms by (auto simp: ui_display_multiple_action_sign_flow_def andThen_eq_Inr snprintf_def ux_flow_init_def ux_sizes_def
      dest: length_mem_write)

lemma settings_flow_opens:
  assumes "ux_sizes u" and "display_settings s u = Inr u'"
  shows "ux_sizes u' \<and> ux_flow u' = ux_settings_flow"
  using assms by (auto simp: display_settings_def andThen_eq_Inr strlcpy_def ux_flow_init_def ux_sizes_def dest: length_mem_write)

lemma open_flow_fits:
  assumes u: "ux_sizes u" and o: "open_flow dev u = Inr u'"
  shows "flow_fits (dev, u')"
proof (cases "display dev")
  case SingleActionFlow
  then show ?thesis using o sign_flow_opens [OF u, of "txProcessingCtx dev"] by (auto simp: open_flow_def flow_fits_def)
next
  case MultipleActionFlow
  then show ?thesis using o multiple_flow_opens [OF u, of "txProcessingCtx dev"] by (auto simp: open_flow_def flow_fits_def)
qed (use u o in \<open>auto simp: open_flow_def flow_fits_def ui_idle_def ui_display_public_key_flow_def ux_flow_init_def ux_sizes_def\<close>)

lemma printArgument_arg: "printArgument h k ctx = Inr ctx' \<Longrightarrow> \<exists>a. ctx' = with_arg ctx a"
  by (auto simp: printArgument_def with_arg_def andThen_eq_Inr Let_def split: if_splits)

lemma display_next_state_arg:
  assumes "display_next_state h b u ctx = Inr (u', ctx', m)"
  shows "(\<exists>a. ctx' = with_arg ctx a) \<and> ux_flow u' = ux_flow u \<and> ux_sizes u' = ux_sizes u"
proof -
  have "ctx = with_arg ctx (arg (content ctx))" by (simp add: with_arg_def)
  then show ?thesis
    using assms by (auto simp: display_next_state_def andThen_eq_Inr ux_sizes_def split: if_splits dest: printArgument_arg)
qed

lemma enter_step_arg:
  "enter_step h fwd bwd fuel u ctx = Some (Inr (u', ctx')) \<Longrightarrow>
    (\<exists>a. ctx' = with_arg ctx a) \<and> ux_flow u' = ux_flow u \<and> ux_sizes u' = ux_sizes u"
proof (induction h fwd bwd fuel u ctx rule: enter_step.induct)
  case (2 h fwd bwd fuel u ctx)
  have id: "ctx = with_arg ctx (arg (content ctx))" by (simp add: with_arg_def)
  show ?case
  proof (cases "step_function (single_action_steps ! ux_at u)")
    case None
    then show ?thesis using 2(3) id by auto
  next
    case (Some b)
    then obtain u1 ctx1 mv where s: "display_next_state h b u ctx = Inr (u1, ctx1, mv)"
      using 2(3) by (cases "display_next_state h b u ctx") auto
    note d = display_next_state_arg [OF s]
    have pos: "ux_sizes (u1\<lparr>ux_at := i\<rparr>) = ux_sizes u1" for i by (simp add: ux_sizes_def)
    show ?thesis
      using 2(1,2) [OF Some s refl refl] 2(3) Some s d by (cases mv) (auto simp: pos)
  qed
qed simp
section \<open>Every step is a step of the device\<close>

text \<open>What the user may do to the device without deciding: printing an argument, switching the setting.\<close>

definition browsed :: "'h device_t \<Rightarrow> 'h device_t \<Rightarrow> bool" where
  "browsed dev dev' \<longleftrightarrow> (\<exists>a. dev' = dev\<lparr>txProcessingCtx := with_arg (txProcessingCtx dev) a\<rparr>)"

definition switched :: "'h device_t \<Rightarrow> 'h device_t" where
  "switched dev = dev\<lparr>N_storage := toogle_data_allowed (N_storage dev)\<rparr>"

text \<open>The decision that a callback stands for.\<close>

definition decision :: "callback \<Rightarrow> event option" where
  "decision cb = (if cb = AddressOk \<or> cb = SignFlowOk then Some Approve
     else if cb = AddressCancel \<or> cb = TxCancel then Some Reject else None)"

text \<open>The specification of a step, from the input and the callback of the step on the screen.\<close>

definition device_move :: "'h device_library \<Rightarrow> 'h device_t \<Rightarrow> input \<Rightarrow> callback \<Rightarrow> bytes option \<Rightarrow> 'h device_t \<Rightarrow> bool" where
  "device_move lib dev e cb reply dev' \<longleftrightarrow>
     (case e of
        Host bs \<Rightarrow> device_step lib dev (Command bs) reply dev'
      | Turn b \<Rightarrow> reply = None \<and> browsed dev dev'
      | Both \<Rightarrow> (case decision cb of
            Some d \<Rightarrow> device_step lib dev d reply dev'
          | None \<Rightarrow> reply = None \<and> dev' = (if cb = SwitchContractData then switched dev else dev)))"

lemma browsed_same: "browsed dev dev"
  unfolding browsed_def by (intro exI [of _ "arg (content (txProcessingCtx dev))"]) (simp add: with_arg_def)

lemma flow_fits_sizes: "flow_fits (dev, u) \<Longrightarrow> ux_sizes u"
  by (simp add: flow_fits_def)

lemma flow_fits_same:
  "flow_fits (dev, u) \<Longrightarrow> ux_flow u' = ux_flow u \<Longrightarrow> ux_sizes u' = ux_sizes u \<Longrightarrow> display dev' = display dev \<Longrightarrow> flow_fits (dev', u')"
  by (cases "display dev") (simp_all add: flow_fits_def)

lemma button_step_refines:
  "button_step lib fwd bwd fuel s e reply s' \<Longrightarrow> flow_fits s \<Longrightarrow>
    flow_fits s' \<and> device_move lib (fst s) e (callback_of lib (fst s) (snd s)) reply (fst s')"
proof (induction rule: button_step.induct)
  case (press_host dev bs dev' reply u u')
  then have "device_step lib dev (Command bs) reply dev'" by (intro step_command)
  moreover have "flow_fits (dev', u')"
  proof (cases "display dev' = IdleScreen")
    case True
    then show ?thesis using press_host flow_fits_same [of dev u u dev'] by simp
  next
    case False
    then show ?thesis using press_host(3) open_flow_fits [OF flow_fits_sizes [OF press_host(4)]] by simp
  qed
  ultimately show ?case by (simp add: device_move_def)
next
  case (press_turn_review u b dev u' ctx')
  have pos: "ux_sizes (u\<lparr>ux_at := i\<rparr>) = ux_sizes u" for i by (simp add: ux_sizes_def)
  have "(\<exists>a. ctx' = with_arg (txProcessingCtx dev) a) \<and> ux_flow u' = ux_flow u \<and> ux_sizes u' = ux_sizes u"
    using press_turn_review(2) unfolding press_def prod.case by (auto simp: pos dest: enter_step_arg)
  then show ?case using press_turn_review(3) by (auto simp: device_move_def browsed_def intro: flow_fits_same)
next
  case (press_turn u n dev b)
  then show ?case using browsed_same by (auto simp: device_move_def ux_sizes_def intro: flow_fits_same)
next
  case (press_settings dev u u')
  then have "display dev = IdleScreen" using callback_display(1) by blast
  then show ?case using press_settings settings_flow_opens [OF flow_fits_sizes [OF press_settings(3)] press_settings(2)]
    by (auto simp: device_move_def decision_def flow_fits_def)
next
  case (press_switch dev u s u')
  then have "display dev = IdleScreen" using callback_display(1) by blast
  moreover have s: "s = toogle_data_allowed (N_storage dev)" "display_settings s u = Inr u'"
    using press_switch(2) by (auto simp: switch_settings_contract_data_def Let_def andThen_eq_Inr)
  ultimately show ?case using press_switch(1) settings_flow_opens [OF flow_fits_sizes [OF press_switch(3)] s(2)]
    by (auto simp: device_move_def decision_def flow_fits_def switched_def)
next
  case (press_back dev u)
  then have "display dev = IdleScreen" using callback_display(1) by blast
  then show ?case using press_back by (auto simp: device_move_def decision_def flow_fits_def ui_idle_def ux_flow_init_def ux_sizes_def)
next
  case (press_nothing dev u)
  then show ?case by (simp add: device_move_def decision_def)
next
  case (press_address_yes dev u dev' answer u')
  then have "display dev = PublicKeyFlow" using callback_display(2) by blast
  from step_address_ok [OF this press_address_yes(2)] show ?case
    using press_address_yes open_flow_fits [OF flow_fits_sizes [OF press_address_yes(4)] press_address_yes(3)] by (simp add: device_move_def decision_def)
next
  case (press_address_no dev u dev' answer u')
  then have "display dev = PublicKeyFlow" using callback_display(2) by blast
  from step_address_cancel [OF this press_address_no(2)] show ?case
    using press_address_no open_flow_fits [OF flow_fits_sizes [OF press_address_no(4)] press_address_no(3)] by (simp add: device_move_def decision_def)
next
  case (press_sign_yes dev u dev' reply u')
  then have "signing_screen (display dev)" using callback_display(3) by blast
  from step_sign_ok [OF this press_sign_yes(2)] show ?case
    using press_sign_yes open_flow_fits [OF flow_fits_sizes [OF press_sign_yes(4)] press_sign_yes(3)] by (simp add: device_move_def decision_def)
next
  case (press_sign_no dev u dev' answer u')
  then have "signing_screen (display dev)" using callback_display(3) by blast
  from step_tx_cancel [OF this press_sign_no(2)] show ?case
    using press_sign_no open_flow_fits [OF flow_fits_sizes [OF press_sign_no(4)] press_sign_no(3)] by (simp add: device_move_def decision_def)
qed

section \<open>Runs\<close>

text \<open>A run with the buttons, as the list of its inputs, with the callback that each could call.\<close>

inductive button_run :: "'h device_library \<Rightarrow> (nat \<Rightarrow> nat \<Rightarrow> nat) \<Rightarrow> (nat \<Rightarrow> nat \<Rightarrow> nat) \<Rightarrow> nat
    \<Rightarrow> 'h device_t \<times> ux_t \<Rightarrow> (input \<times> callback) list \<Rightarrow> 'h device_t \<times> ux_t \<Rightarrow> bool" for lib fwd bwd fuel where
  button_end: "button_run lib fwd bwd fuel s [] s"
| button_more: "button_step lib fwd bwd fuel s e reply s1 \<Longrightarrow> button_run lib fwd bwd fuel s1 es s' \<Longrightarrow>
    button_run lib fwd bwd fuel s ((e, callback_of lib (fst s) (snd s)) # es) s'"

text \<open>How often the user switched the setting.\<close>

definition switch_count :: "(input \<times> callback) list \<Rightarrow> nat" where
  "switch_count es = length (filter (\<lambda>x. x = (Both, SwitchContractData)) es)"

lemma browsed_keeps: "browsed dev dev' \<Longrightarrow> N_storage dev' = N_storage dev"
  by (auto simp: browsed_def)

lemma device_move_setting:
  assumes "device_move lib dev e cb reply dev'"
  shows "N_storage dev' = (if e = Both \<and> cb = SwitchContractData then toogle_data_allowed (N_storage dev) else N_storage dev)"
proof (cases e)
  case Both
  then show ?thesis
    using assms by (cases "decision cb") (auto simp: device_move_def switched_def decision_def dest: device_step_keeps_settings split: if_splits)
qed (use assms in \<open>auto simp: device_move_def dest: device_step_keeps_settings browsed_keeps\<close>)

lemma button_run_fits:
  "button_run lib fwd bwd fuel s es s' \<Longrightarrow> flow_fits s \<Longrightarrow> flow_fits s'"
proof (induction rule: button_run.induct)
  case (button_more s e reply s1 es s')
  then show ?case using button_step_refines by blast
qed

lemma button_run_setting:
  "button_run lib fwd bwd fuel s es s' \<Longrightarrow> flow_fits s \<Longrightarrow>
    is_data_allowed (N_storage (fst s')) = (is_data_allowed (N_storage (fst s)) \<noteq> odd (switch_count es))"
proof (induction rule: button_run.induct)
  case (button_more s e reply s1 es s')
  note r = button_step_refines [OF button_more(1,4)]
  have "is_data_allowed (N_storage (fst s1))
      = (is_data_allowed (N_storage (fst s)) \<noteq> (e = Both \<and> callback_of lib (fst s) (snd s) = SwitchContractData))"
    using device_move_setting [OF conjunct2 [OF r]] data_setting.switch_on by simp
  then show ?case using button_more.IH [OF conjunct1 [OF r]] by (auto simp: switch_count_def)
qed (simp add: switch_count_def)

end
