(* ===== verification/Eos_Approvals.thy ===== *)
theory Eos_Approvals
  imports Eos_Buttons
begin

text \<open>
  What a signature takes: whatever the host sends and whatever is pressed, a signature is given only when the
  user has decided, in their order, on the review of every action of the transaction that is signed.
\<close>

section \<open>One call of the parser\<close>

text \<open>The invariants of the accounting, whatever memory and chunk the parser is given.\<close>

lemma parse_books:
  assumes p: "parseTx ops mem ctx buffer len = Some (Inr (c, st))"
    and b: "book k ctx" and v: "vetted a 0 ctx" and s: "state ctx \<noteq> TLV_NONE"
  shows "state c \<noteq> TLV_NONE" and "vetted a 0 c" and "book (if st = STREAM_ACTION_READY then Suc k else k) c"
    and "st = STREAM_ACTION_READY \<Longrightarrow> unat (currentActionIndex c) = Suc k \<and> (isKnownAction c \<or> a = 1)"
    and "st = STREAM_FINISHED \<Longrightarrow> k = max 1 (unat (currentActionNumber c))"
proof -
  obtain ctx0 where c0: "processTxInternal ops mem ctx0 = Some (Inr (c, st))" "ctx0 = ctx \<or> ctx0 = set_chunk buffer len ctx"
    using p by (auto simp: parseTx_def set_chunk_def split: if_splits)
  have inv: "book k ctx0" "vetted a 0 ctx0" "started k ctx0"
    using c0(2) b v s accounting.inv_chunk [of k buffer len ctx] vetting.inv_chunk [where allowed = a and k = 0 and w = buffer and n = len and ctx = ctx]
    by (auto simp: started_def set_chunk_def)
  note e = accounting.processTxInternal_inv [OF c0(1) inv(1)]
    and w = vetting.processTxInternal_inv [OF c0(1) inv(2)]
    and t = starting.processTxInternal_inv [OF c0(1) inv(3)]
  show "state c \<noteq> TLV_NONE" using t by (auto simp: starting.ended_def started_def)
  show "vetted a 0 c" using w by (auto simp: vetting.ended_def vetted_def)
  show "book (if st = STREAM_ACTION_READY then Suc k else k) c" using e by (simp add: accounting.ended_def)
  show "unat (currentActionIndex c) = Suc k \<and> (isKnownAction c \<or> a = 1)" if st: "st = STREAM_ACTION_READY"
  proof -
    obtain b1 where b1: "c = b1\<lparr>actionReady := False\<rparr>" "actionReady b1" "book k b1" using e st by (auto simp: accounting.ended_def)
    obtain b2 where b2: "c = b2\<lparr>actionReady := False\<rparr>" "actionReady b2" "vetted a 0 b2" using w st by (auto simp: vetting.ended_def)
    have "isKnownAction b2 \<or> a = 1" using b2(2,3) by (simp add: vetted_def)
    then have "isKnownAction c \<or> a = 1" unfolding b2(1) known_updates .
    moreover have "unat (currentActionIndex c) = Suc k" using b1 by (simp add: book_def split: if_splits)
    ultimately show ?thesis by simp
  qed
  show "k = max 1 (unat (currentActionNumber c))" if "st = STREAM_FINISHED"
    using e that by (auto simp: accounting.ended_def book_def state_order)
qed

section \<open>The user's decisions\<close>

text \<open>The decisions taken on reviews of actions since the command that started the transaction.\<close>

type_synonym 'h decisions = "(bool \<times> 'h txProcessingContext_t) list"

definition starts_tx :: "'h device_t \<Rightarrow> bytes \<Rightarrow> bool" where
  "starts_tx dev bs \<longleftrightarrow> (let buf = in_buffer dev bs in
     bs \<noteq> [] \<and> buf ! 0 = CLA \<and> buf ! 1 = INS_SIGN \<and> buf ! 2 = P1_FIRST \<and> \<not> bad_path (buf ! 5))"

definition noted :: "'h device_t \<Rightarrow> input \<Rightarrow> callback \<Rightarrow> 'h decisions \<Rightarrow> 'h decisions" where
  "noted dev e cb acc =
     (case e of
        Host bs \<Rightarrow> if starts_tx dev bs then [] else acc
      | Turn _ \<Rightarrow> acc
      | Both \<Rightarrow> if display dev = SingleActionFlow \<and> decision cb \<noteq> None
          then acc @ [(decision cb = Some Approve, txProcessingCtx dev)] else acc)"

text \<open>The reviews were those of the first, the second action and so on, each known or allowed.\<close>

definition in_order :: "'h decisions \<Rightarrow> bool" where
  "in_order acc \<longleftrightarrow> map (\<lambda>(_, c). unat (currentActionIndex c)) acc = [1 ..< Suc (length acc)]
     \<and> (\<forall>(_, c) \<in> set acc. isKnownAction c \<or> dataAllowed c = 1)"

definition all_decided :: "'h decisions \<Rightarrow> 'h txProcessingContext_t \<Rightarrow> bool" where
  "all_decided acc ctx \<longleftrightarrow> in_order acc \<and> length acc = max 1 (unat (currentActionNumber ctx))"

definition decided :: "'h decisions \<Rightarrow> 'h txProcessingContext_t \<Rightarrow> bool" where
  "decided acc ctx \<longleftrightarrow> state ctx \<noteq> TLV_NONE \<and> book (length acc) ctx \<and> vetted (dataAllowed ctx) 0 ctx \<and> in_order acc"

definition ledger :: "'h decisions \<Rightarrow> 'h device_t \<Rightarrow> bool" where
  "ledger acc dev \<longleftrightarrow> (let ctx = txProcessingCtx dev in
     case display dev of
       SingleActionFlow \<Rightarrow> (\<forall>d. decided (acc @ [(d, ctx)]) ctx)
     | MultipleActionFlow \<Rightarrow> decided acc ctx
     | _ \<Rightarrow> state ctx \<noteq> TLV_NONE \<longrightarrow> decided acc ctx)"

lemma in_order_snoc:
  "in_order (acc @ [(d, c)]) \<longleftrightarrow> in_order acc \<and> unat (currentActionIndex c) = Suc (length acc) \<and> (isKnownAction c \<or> dataAllowed c = 1)"
  by (auto simp: in_order_def)

lemma parse_decided:
  assumes p: "parseTx ops mem ctx buffer len = Some (Inr (c, st))" and d: "decided acc ctx"
  shows "st = STREAM_ACTION_READY \<Longrightarrow> decided (acc @ [(b, c)]) c"
    and "st \<noteq> STREAM_ACTION_READY \<Longrightarrow> decided acc c"
    and "st = STREAM_FINISHED \<Longrightarrow> all_decided acc c"
proof -
  have d': "book (length acc) ctx" "vetted (dataAllowed ctx) 0 ctx" "state ctx \<noteq> TLV_NONE" "in_order acc"
    using d by (simp_all add: decided_def)
  note books = parse_books [OF p d'(1-3)]
  have a: "dataAllowed c = dataAllowed ctx" using books(2) by (simp add: vetted_def)
  show "decided (acc @ [(b, c)]) c" if "st = STREAM_ACTION_READY"
    using books(1-4) that d'(4) a by (simp add: decided_def in_order_snoc)
  show "decided acc c" if "st \<noteq> STREAM_ACTION_READY" using books(1-3) that d'(4) a by (simp add: decided_def)
  show "all_decided acc c" if "st = STREAM_FINISHED" using books(5) that d'(4) by (simp add: all_decided_def)
qed

text \<open>Only the hash, the union and the buffer change when a signature is made; what was printed is of no account.\<close>

lemma decided_sha [simp]: "decided acc (ctx\<lparr>sha256 := h\<rparr>) = decided acc ctx" "all_decided acc (ctx\<lparr>sha256 := h\<rparr>) = all_decided acc ctx"
  by (simp_all add: decided_def all_decided_def book_def vetted_def isKnownAction_def)

lemma decided_arg [simp]: "decided acc (with_arg ctx a) = decided acc ctx"
  by (simp add: decided_def with_arg_def book_def vetted_def isKnownAction_def)

lemma decided_snoc_arg [simp]: "decided (acc @ [(d, with_arg ctx a)]) ctx = decided (acc @ [(d, ctx)]) ctx"
  by (simp add: decided_def in_order_snoc with_arg_def isKnownAction_def)

lemma sign_hash_decided:
  assumes "sign_hash_and_set_result lib dev = Some (Inr (dev', tx))"
  shows "tx = 65 \<and> display dev' = display dev \<and> (\<forall>acc. decided acc (txProcessingCtx dev') = decided acc (txProcessingCtx dev))
    \<and> (\<forall>acc. all_decided acc (txProcessingCtx dev') = all_decided acc (txProcessingCtx dev))"
  using assms by (auto simp: sign_hash_and_set_result_def thenRun_eq_Inr runThen_eq_Inr Let_def split: prod.splits)

section \<open>The two functions that call the parser\<close>

text \<open>What they do is decided by the status that the parser answers.\<close>

definition user_answer :: "u16 \<Rightarrow> nat \<Rightarrow> 'h device_t \<Rightarrow> ('h device_t \<times> bytes option) result option" where
  "user_answer code tx dev = thenRun (io_exchange_with_code code tx (G_io_apdu_buffer dev)) (\<lambda>(buf, answer).
     Some (Inr (dev\<lparr>G_io_apdu_buffer := buf, display := IdleScreen\<rparr>, Some answer)))"

lemma sign_parse_parsed:
  assumes "parseTx (lib_sha256 lib) (G_io_apdu_buffer dev) (txProcessingCtx dev) (Some off) (ucast len) = Some (Inr (ctx, st))"
    and "d = dev\<lparr>txProcessingCtx := ctx\<rparr>"
  shows "sign_parse lib off len dev = (case st of
       STREAM_CONFIRM_PROCESSING \<Rightarrow> Some (Inr (d\<lparr>display := MultipleActionFlow\<rparr>, SWO_SUCCESS, True, 0))
     | STREAM_ACTION_READY \<Rightarrow> Some (Inr (d\<lparr>display := SingleActionFlow\<rparr>, SWO_SUCCESS, True, 0))
     | STREAM_FINISHED \<Rightarrow> runThen (sign_hash_and_set_result lib d) (\<lambda>(dev, tx). Some (Inr (dev, SWO_SUCCESS, False, tx)))
     | STREAM_PROCESSING \<Rightarrow> Some (Inr (d, SWO_SUCCESS, False, 0))
     | STREAM_FAULT \<Rightarrow> Some (Inr (d, 0x6A80, False, 0)))"
  using assms unfolding sign_parse_def by (cases st) (simp_all add: Let_def runThen_def)

lemma sign_flow_parsed:
  assumes "parseTx (lib_sha256 lib) (G_io_apdu_buffer dev) (txProcessingCtx dev) None 0 = Some (Inr (ctx, st))"
    and "d = dev\<lparr>txProcessingCtx := ctx\<rparr>"
  shows "user_action_sign_flow_ok lib dev = (case st of
       STREAM_ACTION_READY \<Rightarrow> Some (Inr (d\<lparr>display := SingleActionFlow\<rparr>, None))
     | STREAM_PROCESSING \<Rightarrow> user_answer 0x9000 0 d
     | STREAM_FINISHED \<Rightarrow> runThen (sign_hash_and_set_result lib d) (\<lambda>(dev, tx). user_answer 0x9000 tx dev)
     | STREAM_CONFIRM_PROCESSING \<Rightarrow> user_answer 0x6A80 0 d
     | STREAM_FAULT \<Rightarrow> user_answer 0x6A80 0 d)"
  using assms unfolding user_action_sign_flow_ok_def user_answer_def by (cases st) (simp_all add: Let_def runThen_def)

section \<open>The handlers\<close>

text \<open>What a handler leaves to the main loop: only the end of a transaction makes an answer of 65 bytes.\<close>

definition kept_books :: "'h decisions \<Rightarrow> 'h device_t \<Rightarrow> nat \<Rightarrow> bool" where
  "kept_books acc dev tx \<longleftrightarrow> ledger acc dev \<and> (tx = 65 \<longrightarrow> all_decided acc (txProcessingCtx dev))"

lemma sign_parse_books:
  assumes s: "sign_parse lib off len dev = Some (Inr (dev', sw, wait, tx))" and d: "decided acc (txProcessingCtx dev)"
    and i: "display dev = IdleScreen"
  shows "kept_books acc dev' tx"
proof -
  obtain ctx st where p: "parseTx (lib_sha256 lib) (G_io_apdu_buffer dev) (txProcessingCtx dev) (Some off) (ucast len) = Some (Inr (ctx, st))"
    using s by (auto simp: sign_parse_def runThen_eq_Inr)
  note r = s [unfolded sign_parse_parsed [OF p refl]]
  note q = parse_decided [OF p d]
  show ?thesis
  proof (cases st)
    case STREAM_FINISHED
    then obtain dev1 where h: "sign_hash_and_set_result lib (dev\<lparr>txProcessingCtx := ctx\<rparr>) = Some (Inr (dev1, tx))" and e: "dev' = dev1"
      using r by (auto simp: Let_def runThen_eq_Inr)
    then show ?thesis using sign_hash_decided [OF h] q STREAM_FINISHED i by (simp add: kept_books_def ledger_def Let_def)
  qed (use r q i in \<open>auto simp: kept_books_def ledger_def Let_def\<close>)
qed

lemma all_decided_start: "decided [] (initTxContext ops contents allowed)"
  by (simp add: decided_def in_order_def book_start vetted_def) (simp add: initTxContext_def)

lemma handleSign_books:
  assumes s: "handleSign lib p1 p2 off len dev = Some (Inr (dev', sw, wait, tx))"
    and l: "ledger acc dev" "display dev = IdleScreen"
  shows "kept_books (if p1 = P1_FIRST \<and> \<not> bad_path (G_io_apdu_buffer dev ! off) then [] else acc) dev' tx"
proof -
  obtain r where r: "(if p1 = P1_FIRST then sign_start lib off len dev
              else if p1 \<noteq> P1_MORE then Inr (Inl (dev, 0x6B00)) else Inr (Inr (dev, off, len))) = Inr r"
    and s': "(case r of
       Inl (dev, sw) \<Rightarrow> Some (Inr (dev, sw, False, 0))
     | Inr (dev, buffer_at, dataLength) \<Rightarrow>
         if p2 \<noteq> 0 then Some (Inr (dev, 0x6B00, False, 0))
         else if state (txProcessingCtx dev) = TLV_NONE then Some (Inr (dev, 0x6985, False, 0))
         else sign_parse lib buffer_at dataLength dev) = Some (Inr (dev', sw, wait, tx))"
    using s unfolding handleSign_def thenRun_eq_Inr by blast
  let ?acc = "if p1 = P1_FIRST \<and> \<not> bad_path (G_io_apdu_buffer dev ! off) then [] else acc"
  have kept: "case r of Inl (d, _) \<Rightarrow> ledger ?acc d | Inr (d, _) \<Rightarrow> ledger ?acc d \<and> display d = IdleScreen"
  proof (cases "p1 = P1_FIRST")
    case True
    then show ?thesis using r l
      by (auto simp: sign_start_def andThen_eq_Inr mem_get_def bad_path_eq [symmetric] ledger_def Let_def all_decided_start split: if_splits)
  next
    case False
    then show ?thesis using r l by (auto split: if_splits)
  qed
  show ?thesis
  proof (cases r)
    case (Inl x)
    then show ?thesis using s' kept by (auto simp: kept_books_def)
  next
    case (Inr x)
    obtain d off' len' where x: "x = (d, off', len')" by (cases x) auto
    have d: "ledger ?acc d" "display d = IdleScreen" using kept Inr x by auto
    show ?thesis
    proof (cases "p2 \<noteq> 0 \<or> state (txProcessingCtx d) = TLV_NONE")
      case True
      then show ?thesis using s' Inr x d by (auto simp: kept_books_def split: if_splits)
    next
      case False
      then have "decided ?acc (txProcessingCtx d)" "sign_parse lib off' len' d = Some (Inr (dev', sw, wait, tx))"
        using s' Inr x d by (simp_all add: ledger_def Let_def)
      then show ?thesis using sign_parse_books d(2) by blast
    qed
  qed
qed

lemma yields_then: "yields Q m \<Longrightarrow> (\<And>x. Q x \<Longrightarrow> yields P (f x)) \<Longrightarrow> yields P (andThen m f)"
  by (auto simp: yields_def andThen_eq_Inr)

lemma key_length: "yields (\<lambda>(tx, buf). 67 \<le> tx) (get_public_key_and_set_result p buf)"
  unfolding get_public_key_and_set_result_def Let_def by (intro yields_intros) simp_all

definition untouched :: "'h device_t \<Rightarrow> 'h device_t \<times> reply \<Rightarrow> bool" where
  "untouched dev r \<longleftrightarrow> (case r of (dev', sw, wait, tx) \<Rightarrow>
     txProcessingCtx dev' = txProcessingCtx dev \<and> tx \<noteq> 65 \<and> (display dev' = display dev \<or> display dev' = PublicKeyFlow))"

lemma other_handlers:
  "yields (untouched dev) (handleGetPublicKey lib p1 p2 off dev)"
  "yields (untouched dev) (handleGetAppConfiguration lib dev)"
proof -
  have k: "yields (untouched dev) (andThen (get_public_key_and_set_result p buf) f)"
    if "\<And>tx buf. 67 \<le> tx \<Longrightarrow> yields (untouched dev) (f (tx, buf))" for p buf f
    using that by (intro yields_then [OF key_length]) auto
  show "yields (untouched dev) (handleGetPublicKey lib p1 p2 off dev)"
    unfolding handleGetPublicKey_def Let_def
    by (intro yields_cases k yields_andThen yields_pair) (simp_all add: untouched_def)
  show "yields (untouched dev) (handleGetAppConfiguration lib dev)"
    unfolding handleGetAppConfiguration_def by (intro yields_intros) (simp add: untouched_def)
qed

lemma exchange_length: "yields (\<lambda>(buf', a). length a = tx + 2) (io_exchange_with_code code tx buf)"
  by (auto simp: yields_def io_exchange_with_code_def andThen_eq_Inr mem_write_def status_bytes_def split: if_splits)

definition plain_answer :: "'h device_t \<Rightarrow> 'h device_t \<times> bytes \<Rightarrow> bool" where
  "plain_answer dev r \<longleftrightarrow> (case r of (dev', a) \<Rightarrow>
     txProcessingCtx dev' = txProcessingCtx dev \<and> display dev' = IdleScreen \<and> length a \<noteq> 67)"

lemma user_answers:
  "yields (plain_answer dev) (user_action_address_ok lib dev)"
  "yields (plain_answer dev) (user_action_address_cancel dev)"
  "yields (plain_answer dev) (user_action_tx_cancel dev)"
proof -
  have x: "yields (plain_answer dev) (andThen (io_exchange_with_code code tx buf) (\<lambda>(buf, a).
      Inr (dev\<lparr>G_io_apdu_buffer := buf, display := IdleScreen\<rparr>, a)))" if "tx \<noteq> 65" for code tx buf
    using that by (intro yields_then [OF exchange_length]) (auto simp: yields_def plain_answer_def)
  show "yields (plain_answer dev) (user_action_address_cancel dev)" "yields (plain_answer dev) (user_action_tx_cancel dev)"
    unfolding user_action_address_cancel_def user_action_tx_cancel_def by (rule x, simp)+
  show "yields (plain_answer dev) (user_action_address_ok lib dev)"
    unfolding user_action_address_ok_def by (rule yields_then [OF key_length]) (auto intro!: x)
qed

section \<open>The device\<close>

definition books_after :: "'h decisions \<Rightarrow> bytes option \<Rightarrow> 'h device_t \<Rightarrow> bool" where
  "books_after acc reply dev \<longleftrightarrow> ledger acc dev
     \<and> (\<forall>a. reply = Some a \<longrightarrow> length a = 67 \<longrightarrow> all_decided acc (txProcessingCtx dev))"

lemma ledger_cong: "txProcessingCtx dev' = txProcessingCtx dev \<Longrightarrow> display dev' = display dev \<Longrightarrow> ledger acc dev' = ledger acc dev"
  by (simp add: ledger_def)

lemma ledger_plain:
  "ledger acc dev \<Longrightarrow> txProcessingCtx dev' = txProcessingCtx dev \<Longrightarrow> display dev = IdleScreen \<or> display dev = PublicKeyFlow \<Longrightarrow>
    display dev' = IdleScreen \<or> display dev' = PublicKeyFlow \<Longrightarrow> ledger acc dev'"
  by (auto simp: ledger_def)

lemma untouched_books:
  assumes "untouched dev (dev', sw, wait, tx)" and "ledger acc dev" "display dev = IdleScreen"
  shows "kept_books acc dev' tx"
  using assms ledger_plain [OF assms(2)] by (auto simp: untouched_def kept_books_def)

lemma handleApdu_books:
  assumes h: "handleApdu lib dev = Some (Inr (dev', sw, wait, tx))" and l: "ledger acc dev" "display dev = IdleScreen"
    and n: "bs \<noteq> []" "in_buffer dev0 bs = G_io_apdu_buffer dev"
  shows "kept_books (if starts_tx dev0 bs then [] else acc) dev' tx"
proof -
  let ?b = "G_io_apdu_buffer dev"
  have r: "mem_read ?b 0 5 = Inr (take 5 ?b)" using h by (cases "5 \<le> length ?b") (simp_all add: handleApdu_def Let_def mem_read_def)
  consider (key) "\<not> starts_tx dev0 bs" "handleGetPublicKey lib (?b ! 2) (?b ! 3) 5 dev = Inr (dev', sw, wait, tx)"
    | (config) "\<not> starts_tx dev0 bs" "handleGetAppConfiguration lib dev = Inr (dev', sw, wait, tx)"
    | (sign) "?b ! 0 = CLA" "?b ! 1 = INS_SIGN" "handleSign lib (?b ! 2) (?b ! 3) 5 (ucast (?b ! 4)) dev = Some (Inr (dev', sw, wait, tx))"
    | (refused) "\<not> starts_tx dev0 bs" "dev' = dev" "tx = 0"
    using h n by (auto simp: handleApdu_def r starts_tx_def Let_def INS_SIGN_def INS_GET_PUBLIC_KEY_def INS_GET_APP_CONFIGURATION_def split: if_splits)
  then show ?thesis
  proof cases
    case key
    then have "untouched dev (dev', sw, wait, tx)" using other_handlers(1) [of dev lib "?b ! 2" "?b ! 3" 5] by (simp add: yields_def)
    then show ?thesis using untouched_books l key(1) by simp
  next
    case config
    then have "untouched dev (dev', sw, wait, tx)" using other_handlers(2) [of dev lib] by (simp add: yields_def)
    then show ?thesis using untouched_books l config(1) by simp
  next
    case sign
    then have "starts_tx dev0 bs \<longleftrightarrow> ?b ! 2 = P1_FIRST \<and> \<not> bad_path (?b ! 5)" using n by (simp add: starts_tx_def Let_def)
    then show ?thesis using handleSign_books [OF sign(3) l] by simp
  next
    case refused
    then show ?thesis using l by (simp add: kept_books_def)
  qed
qed

lemma finish_round_books:
  assumes f: "finish_round (dev, sw, wait, tx) = Inr (dev', reply)" and k: "kept_books acc dev tx"
  shows "books_after acc reply dev'"
  using assms ledger_cong [of dev' dev acc]
  by (auto simp: finish_round_def andThen_eq_Inr kept_books_def books_after_def mem_write_eq_Inr status_bytes_def split: if_splits)

lemma app_round_books:
  assumes r: "app_round lib bs dev = Some (Inr (dev', reply))" and l: "ledger acc dev" "display dev = IdleScreen"
  shows "books_after (if starts_tx dev bs then [] else acc) reply dev'"
proof -
  obtain buf r1 where buf: "mem_write (G_io_apdu_buffer dev) 0 bs = Inr buf"
    and r1: "(if bs = [] then Some (Inr (dev\<lparr>G_io_apdu_buffer := buf\<rparr>, 0x6982, False, 0))
      else handleApdu lib (dev\<lparr>G_io_apdu_buffer := buf\<rparr>)) = Some (Inr r1)"
    and f: "finish_round r1 = Inr (dev', reply)"
    using r by (auto simp: app_round_def thenRun_eq_Inr runThen_eq_Inr Let_def)
  obtain dev1 sw wait tx where r1': "r1 = (dev1, sw, wait, tx)" by (cases r1) auto
  let ?dev = "dev\<lparr>G_io_apdu_buffer := buf\<rparr>"
  have l': "ledger acc ?dev" "display ?dev = IdleScreen" using l by (simp_all add: ledger_cong [of ?dev dev])
  have b: "in_buffer dev bs = G_io_apdu_buffer ?dev" using buf by (auto simp: in_buffer_def mem_write_eq_Inr)
  have "kept_books (if starts_tx dev bs then [] else acc) dev1 tx"
  proof (cases "bs = []")
    case True
    then show ?thesis using r1 r1' l' by (simp add: kept_books_def starts_tx_def)
  next
    case False
    then show ?thesis using r1 r1' handleApdu_books [OF _ l' False b] by simp
  qed
  then show ?thesis using finish_round_books f r1' by blast
qed

lemma sign_flow_books:
  assumes u: "user_action_sign_flow_ok lib dev = Some (Inr (dev', reply))" and d: "decided acc (txProcessingCtx dev)"
  shows "books_after acc reply dev'"
proof -
  obtain ctx st where p: "parseTx (lib_sha256 lib) (G_io_apdu_buffer dev) (txProcessingCtx dev) None 0 = Some (Inr (ctx, st))"
    using u by (auto simp: user_action_sign_flow_ok_def runThen_eq_Inr)
  note r = u [unfolded sign_flow_parsed [OF p refl]]
  note q = parse_decided [OF p d]
  have sent: "display dev2 = IdleScreen \<and> txProcessingCtx dev2 = txProcessingCtx dev1 \<and> (\<exists>a. reply = Some a \<and> length a = tx + 2)"
    if "user_answer code tx dev1 = Some (Inr (dev2, reply))" for code tx dev1 dev2 reply
    using that exchange_length [of tx code "G_io_apdu_buffer dev1"] by (auto simp: user_answer_def thenRun_eq_Inr yields_def)
  show ?thesis
  proof (cases st)
    case STREAM_FINISHED
    then obtain dev1 tx where h: "sign_hash_and_set_result lib (dev\<lparr>txProcessingCtx := ctx\<rparr>) = Some (Inr (dev1, tx))"
      and e: "user_answer 0x9000 tx dev1 = Some (Inr (dev', reply))"
      using r by (auto simp: Let_def runThen_eq_Inr)
    then show ?thesis using sign_hash_decided [OF h] sent [OF e] q STREAM_FINISHED by (simp add: books_after_def ledger_def Let_def)
  qed (use r q in \<open>auto simp: books_after_def ledger_def Let_def dest!: sent\<close>)
qed

lemma device_step_books:
  "device_step lib dev e reply dev' \<Longrightarrow> ledger acc dev \<Longrightarrow>
    books_after (case e of Command bs \<Rightarrow> if starts_tx dev bs then [] else acc
      | _ \<Rightarrow> if display dev = SingleActionFlow then acc @ [(e = Approve, txProcessingCtx dev)] else acc) reply dev'"
proof (induction rule: device_step.induct)
  case (step_command dev bs dev' reply)
  then show ?case unfolding event.case by (intro app_round_books)
next
  case (step_address_ok dev dev' answer)
  have "plain_answer dev (dev', answer)" using step_address_ok(2) user_answers(1) [of dev lib] by (simp add: yields_def)
  then show ?case using step_address_ok(1,3) ledger_plain [OF step_address_ok(3)] by (simp add: books_after_def plain_answer_def)
next
  case (step_address_cancel dev dev' answer)
  have "plain_answer dev (dev', answer)" using step_address_cancel(2) user_answers(2) [of dev] by (simp add: yields_def)
  then show ?case using step_address_cancel(1,3) ledger_plain [OF step_address_cancel(3)] by (simp add: books_after_def plain_answer_def)
next
  case (step_sign_ok dev dev' reply)
  have "decided (if display dev = SingleActionFlow then acc @ [(True, txProcessingCtx dev)] else acc) (txProcessingCtx dev)"
    using step_sign_ok(1,3) by (auto simp: signing_screen_def ledger_def Let_def)
  then show ?case using sign_flow_books [OF step_sign_ok(2)] by (simp split: if_splits)
next
  case (step_tx_cancel dev dev' answer)
  have "plain_answer dev (dev', answer)" using step_tx_cancel(2) user_answers(3) [of dev] by (simp add: yields_def)
  then show ?case using step_tx_cancel(1,3) by (auto simp: signing_screen_def books_after_def plain_answer_def ledger_def Let_def)
qed

section \<open>Histories\<close>

text \<open>
  A history lists what happened, with the state before it, the callback at the position of the user, and
  the answer; the decisions of a history are those taken since the transaction was started.
\<close>

type_synonym 'h history = "('h device_t \<times> input \<times> callback \<times> bytes option) list"

inductive move_run :: "'h device_library \<Rightarrow> 'h device_t \<Rightarrow> 'h history \<Rightarrow> 'h device_t \<Rightarrow> bool" for lib where
  move_end: "move_run lib dev [] dev"
| move_more: "device_move lib dev e cb reply dev1 \<Longrightarrow> move_run lib dev1 h dev' \<Longrightarrow>
    move_run lib dev ((dev, e, cb, reply) # h) dev'"

inductive_simps move_run_Nil [simp]: "move_run lib dev [] dev'"
inductive_simps move_run_Cons: "move_run lib dev (x # h) dev'"

definition note_all :: "'h decisions \<Rightarrow> 'h history \<Rightarrow> 'h decisions" where
  "note_all acc h = foldl (\<lambda>acc (dev, e, cb, _). noted dev e cb acc) acc h"

abbreviation decisions :: "'h history \<Rightarrow> 'h decisions" where
  "decisions \<equiv> note_all []"

lemma with_arg_state [simp]: "state (with_arg ctx a) = state ctx"
  by (simp add: with_arg_def)

lemma ledger_browsed: "browsed dev dev' \<Longrightarrow> ledger acc dev \<Longrightarrow> ledger acc dev'"
  by (cases "display dev") (auto simp: browsed_def ledger_def Let_def)

lemma decision_events: "decision cb = Some d \<Longrightarrow> d = Approve \<or> d = Reject"
  by (auto simp: decision_def split: if_splits)

lemma device_move_books:
  assumes m: "device_move lib dev e cb reply dev'" and l: "ledger acc dev"
  shows "books_after (noted dev e cb acc) reply dev'"
proof (cases e)
  case (Host bs)
  then show ?thesis using m device_step_books [OF _ l] by (fastforce simp: device_move_def noted_def)
next
  case (Turn b)
  then show ?thesis using m l ledger_browsed by (auto simp: device_move_def noted_def books_after_def)
next
  case Both
  show ?thesis
  proof (cases "decision cb")
    case None
    then show ?thesis using m l Both by (auto simp: device_move_def noted_def books_after_def switched_def ledger_def)
  next
    case (Some d)
    then have "device_step lib dev d reply dev'" using m Both by (simp add: device_move_def)
    from device_step_books [OF this l] show ?thesis
      using Both Some decision_events [OF Some] by (auto simp: noted_def split: if_splits)
  qed
qed

lemma history_books:
  "move_run lib dev (h @ [(dev1, e, cb, Some answer)]) dev' \<Longrightarrow> ledger acc dev \<Longrightarrow> length answer = 67 \<Longrightarrow>
    all_decided (note_all acc (h @ [(dev1, e, cb, Some answer)])) (txProcessingCtx dev')"
proof (induction h arbitrary: dev acc)
  case Nil
  then have "device_move lib dev e cb (Some answer) dev'" "dev1 = dev" by (auto simp: move_run_Cons)
  from device_move_books [OF this(1) Nil(2)] show ?case using Nil(3) \<open>dev1 = dev\<close> by (simp add: books_after_def note_all_def)
next
  case (Cons x h)
  obtain e1 cb1 reply1 dev2 where x: "x = (dev, e1, cb1, reply1)" "device_move lib dev e1 cb1 reply1 dev2"
    and r: "move_run lib dev2 (h @ [(dev1, e, cb, Some answer)]) dev'"
    using Cons.prems(1) by (auto simp: move_run_Cons)
  have "ledger (noted dev e1 cb1 acc) dev2" using device_move_books [OF x(2) Cons.prems(2)] by (simp add: books_after_def)
  from Cons.IH [OF r this Cons.prems(3)] show ?case by (simp add: x(1) note_all_def)
qed

lemma ledger_start: "display dev = IdleScreen \<Longrightarrow> state (txProcessingCtx dev) = TLV_NONE \<Longrightarrow> ledger [] dev"
  by (simp add: ledger_def)

text \<open>The devices with buttons have such histories, and so have the runs of the device.\<close>

lemma button_run_moves:
  "button_run lib fwd bwd fuel s es s' \<Longrightarrow> flow_fits s \<Longrightarrow>
    \<exists>h. move_run lib (fst s) h (fst s') \<and> map (\<lambda>(_, e, cb, _). (e, cb)) h = es"
proof (induction rule: button_run.induct)
  case (button_more s e reply s1 es s')
  note m = button_step_refines [OF button_more(1,4)]
  obtain h where "move_run lib (fst s1) h (fst s')" "map (\<lambda>(_, e, cb, _). (e, cb)) h = es"
    using button_more.IH m by blast
  then show ?case using move_more [OF conjunct2 [OF m]] by (intro exI [of _ "(fst s, e, callback_of lib (fst s) (snd s), reply) # h"]) simp
qed (use move_end in auto)

definition as_move :: "'h device_t \<times> event \<times> bytes option \<Rightarrow> 'h device_t \<times> input \<times> callback \<times> bytes option" where
  "as_move x = (case x of (dev, e, reply) \<Rightarrow> (case e of Command bs \<Rightarrow> (dev, Host bs, NoCallback, reply)
     | Approve \<Rightarrow> (dev, Both, SignFlowOk, reply) | Reject \<Rightarrow> (dev, Both, TxCancel, reply)))"

lemma device_run_moves: "device_run lib dev trace dev' \<Longrightarrow> move_run lib dev (map as_move trace) dev'"
proof (induction rule: device_run.induct)
  case (run_step dev e reply dev1 trace dev')
  have "case as_move (dev, e, reply) of (d, e', cb, r) \<Rightarrow> d = dev \<and> r = reply \<and> device_move lib dev e' cb reply dev1"
    using run_step(1) by (cases e) (simp_all add: as_move_def device_move_def decision_def)
  then show ?case using run_step.IH by (cases "as_move (dev, e, reply)") (auto simp: move_run_Cons)
qed (simp add: move_end)

lemma move_run_prefix: "move_run lib dev (h @ h') dev' \<Longrightarrow> \<exists>mid. move_run lib dev h mid"
  by (induction h arbitrary: dev) (fastforce simp: move_run_Cons intro: move_end)+

lemma move_run_snoc:
  "move_run lib dev h dev1 \<Longrightarrow> device_move lib dev1 e cb reply dev' \<Longrightarrow> move_run lib dev (h @ [(dev1, e, cb, reply)]) dev'"
  by (induction rule: move_run.induct) (simp_all add: move_more move_end)

lemma button_answer_ends_history:
  assumes "button_run lib fwd bwd fuel s es s1" and "flow_fits s" and "button_step lib fwd bwd fuel s1 e (Some a) s'"
  shows "\<exists>h cb. move_run lib (fst s) (h @ [(fst s1, e, cb, Some a)]) (fst s') \<and> map (\<lambda>(_, e, cb, _). (e, cb)) h = es"
  using button_run_moves [OF assms(1,2)] button_step_refines [OF assms(3) button_run_fits [OF assms(1,2)]] move_run_snoc by blast

text \<open>An answer of a run ends a history.\<close>

lemma answer_ends_history:
  assumes "device_run lib dev trace dev'" and "a \<in> set (answered trace)"
  shows "\<exists>h dev1 e cb mid. move_run lib dev (h @ [(dev1, e, cb, Some a)]) mid"
proof -
  obtain dev1 e where "(dev1, e, Some a) \<in> set trace" using assms(2) by (auto simp: answered_def split: option.splits)
  then obtain t1 t2 where t: "trace = t1 @ (dev1, e, Some a) # t2" by (meson split_list)
  obtain e' cb where m: "as_move (dev1, e, Some a) = (dev1, e', cb, Some a)" by (cases e) (auto simp: as_move_def)
  have "move_run lib dev ((map as_move t1 @ [(dev1, e', cb, Some a)]) @ map as_move t2) dev'"
    using device_run_moves [OF assms(1)] by (simp add: t m)
  from move_run_prefix [OF this] show ?thesis by blast
qed

end
