(* ===== verification/Eos_Looking.thy ===== *)
theory Eos_Looking
  imports Eos_Screens
begin

text \<open>
  Looking at the arguments of an action writes the text of one argument at a time into the context. The
  parser does not depend on it: it commutes with putting another argument there.
\<close>

section \<open>The parser\<close>

lemma with_arg_fields [simp]:
  "workBuffer (with_arg ctx a) = workBuffer ctx" "commandLength (with_arg ctx a) = commandLength ctx"
  "state (with_arg ctx a) = state ctx" "actionReady (with_arg ctx a) = actionReady ctx"
  "confirmProcessing (with_arg ctx a) = confirmProcessing ctx"
  "sha256 (with_arg ctx a) = sha256 ctx" "dataSha256 (with_arg ctx a) = dataSha256 ctx"
  "currentFieldLength (with_arg ctx a) = currentFieldLength ctx"
  "currentFieldPos (with_arg ctx a) = currentFieldPos ctx"
  "currentActionNumber (with_arg ctx a) = currentActionNumber ctx"
  "currentActionIndex (with_arg ctx a) = currentActionIndex ctx"
  "currentActionDataBufferLength (with_arg ctx a) = currentActionDataBufferLength ctx"
  "currentAutorizationIndex (with_arg ctx a) = currentAutorizationIndex ctx"
  "currentAutorizationNumber (with_arg ctx a) = currentAutorizationNumber ctx"
  "processingField (with_arg ctx a) = processingField ctx"
  "tlvBuffer (with_arg ctx a) = tlvBuffer ctx" "tlvBufferPos (with_arg ctx a) = tlvBufferPos ctx"
  "contractName (with_arg ctx a) = contractName ctx"
  "contractActionName (with_arg ctx a) = contractActionName ctx"
  "sizeBuffer (with_arg ctx a) = sizeBuffer ctx"
  "actionDataBuffer (with_arg ctx a) = actionDataBuffer ctx"
  "dataAllowed (with_arg ctx a) = dataAllowed ctx" "dataChecksum (with_arg ctx a) = dataChecksum ctx"
  "isKnownAction (with_arg ctx a) = isKnownAction ctx" "chunk_length (with_arg ctx a) = chunk_length ctx"
  "size_value (with_arg ctx a) = size_value ctx"
  "argumentCount (content (with_arg ctx a)) = argumentCount (content ctx)"
  by (simp_all add: with_arg_def isKnownAction_def chunk_length_def size_value_def)

text \<open>Every update that the parser makes commutes with the printing of an argument.\<close>

lemma with_arg_commute:
  "(with_arg ctx a)\<lparr>state := s\<rparr> = with_arg (ctx\<lparr>state := s\<rparr>) a"
  "(with_arg ctx a)\<lparr>actionReady := b\<rparr> = with_arg (ctx\<lparr>actionReady := b\<rparr>) a"
  "(with_arg ctx a)\<lparr>confirmProcessing := b\<rparr> = with_arg (ctx\<lparr>confirmProcessing := b\<rparr>) a"
  "(with_arg ctx a)\<lparr>sha256 := h\<rparr> = with_arg (ctx\<lparr>sha256 := h\<rparr>) a"
  "(with_arg ctx a)\<lparr>dataSha256 := h\<rparr> = with_arg (ctx\<lparr>dataSha256 := h\<rparr>) a"
  "(with_arg ctx a)\<lparr>currentFieldLength := k\<rparr> = with_arg (ctx\<lparr>currentFieldLength := k\<rparr>) a"
  "(with_arg ctx a)\<lparr>currentFieldPos := k\<rparr> = with_arg (ctx\<lparr>currentFieldPos := k\<rparr>) a"
  "(with_arg ctx a)\<lparr>currentAutorizationIndex := k\<rparr> = with_arg (ctx\<lparr>currentAutorizationIndex := k\<rparr>) a"
  "(with_arg ctx a)\<lparr>currentAutorizationNumber := k\<rparr> = with_arg (ctx\<lparr>currentAutorizationNumber := k\<rparr>) a"
  "(with_arg ctx a)\<lparr>currentActionIndex := k\<rparr> = with_arg (ctx\<lparr>currentActionIndex := k\<rparr>) a"
  "(with_arg ctx a)\<lparr>currentActionNumber := k\<rparr> = with_arg (ctx\<lparr>currentActionNumber := k\<rparr>) a"
  "(with_arg ctx a)\<lparr>currentActionDataBufferLength := k\<rparr> = with_arg (ctx\<lparr>currentActionDataBufferLength := k\<rparr>) a"
  "(with_arg ctx a)\<lparr>processingField := b\<rparr> = with_arg (ctx\<lparr>processingField := b\<rparr>) a"
  "(with_arg ctx a)\<lparr>tlvBufferPos := n\<rparr> = with_arg (ctx\<lparr>tlvBufferPos := n\<rparr>) a"
  "(with_arg ctx a)\<lparr>tlvBuffer := bs\<rparr> = with_arg (ctx\<lparr>tlvBuffer := bs\<rparr>) a"
  "(with_arg ctx a)\<lparr>sizeBuffer := bs\<rparr> = with_arg (ctx\<lparr>sizeBuffer := bs\<rparr>) a"
  "(with_arg ctx a)\<lparr>dataChecksum := bs\<rparr> = with_arg (ctx\<lparr>dataChecksum := bs\<rparr>) a"
  "(with_arg ctx a)\<lparr>actionDataBuffer := bs\<rparr> = with_arg (ctx\<lparr>actionDataBuffer := bs\<rparr>) a"
  "(with_arg ctx a)\<lparr>contractName := v\<rparr> = with_arg (ctx\<lparr>contractName := v\<rparr>) a"
  "(with_arg ctx a)\<lparr>contractActionName := v\<rparr> = with_arg (ctx\<lparr>contractActionName := v\<rparr>) a"
  "(with_arg ctx a)\<lparr>workBuffer := w\<rparr> = with_arg (ctx\<lparr>workBuffer := w\<rparr>) a"
  "(with_arg ctx a)\<lparr>commandLength := k\<rparr> = with_arg (ctx\<lparr>commandLength := k\<rparr>) a"
  "(with_arg ctx a)\<lparr>content := (content (with_arg ctx a))\<lparr>contract := t\<rparr>\<rparr> = with_arg (ctx\<lparr>content := (content ctx)\<lparr>contract := t\<rparr>\<rparr>) a"
  "(with_arg ctx a)\<lparr>content := (content (with_arg ctx a))\<lparr>action := t\<rparr>\<rparr> = with_arg (ctx\<lparr>content := (content ctx)\<lparr>action := t\<rparr>\<rparr>) a"
  "set_count m (with_arg ctx a) = with_arg (set_count m ctx) a"
  "add_count m (with_arg ctx a) = with_arg (add_count m ctx) a"
  "to_state s (with_arg ctx a) = with_arg (to_state s ctx) a"
  "after_action (with_arg ctx a) = with_arg (after_action ctx) a"
  "work_skip k (with_arg ctx a) = with_arg (work_skip k ctx) a"
  "advance k (with_arg ctx a) = with_arg (advance k ctx) a"
  by (cases ctx; simp add: with_arg_def set_count_def add_count_def to_state_def after_action_def work_skip_def advance_def Let_def)+

lemma work_read_with_arg [simp]: "work_read mem (with_arg ctx a) n = work_read mem ctx n"
  by (simp add: work_read_def)

definition unseen :: "('h txProcessingContext_t \<Rightarrow> 'h txProcessingContext_t result) \<Rightarrow> bool" where
  "unseen f \<longleftrightarrow> (\<forall>ctx a. f (with_arg ctx a) = andThen (f ctx) (\<lambda>c. Inr (with_arg c a)))"

lemma unseenI: "(\<And>ctx a. f (with_arg ctx a) = andThen (f ctx) (\<lambda>c. Inr (with_arg c a))) \<Longrightarrow> unseen f"
  by (simp add: unseen_def)

lemma unseenD: "unseen f \<Longrightarrow> f (with_arg ctx a) = andThen (f ctx) (\<lambda>c. Inr (with_arg c a))"
  by (simp add: unseen_def)

lemma with_arg_if: "(if b then with_arg x a else with_arg y a) = with_arg (if b then x else y) a"
  by simp

lemma unseen_counts:
  "unseen processTokenTransfer" "unseen processEosioDelegate" "unseen processEosioUndelegate"
  "unseen processEosioRefund" "unseen processEosioBuyRam" "unseen processEosioSellRam"
  "unseen processEosioVoteProducer" "unseen processEosioUpdateAuth" "unseen processEosioDeleteAuth"
  "unseen processEosioLinkAuth" "unseen processEosioUnlinkAuth" "unseen processEosioNewAccountAction"
  by (rule unseenI; simp add: processTokenTransfer_def processEosioDelegate_def processEosioUndelegate_def
      processEosioRefund_def processEosioBuyRam_def processEosioSellRam_def processEosioVoteProducer_def
      processEosioUpdateAuth_def processEosioDeleteAuth_def processEosioLinkAuth_def processEosioUnlinkAuth_def
      processEosioNewAccountAction_def Let_def andThen_assoc case_prod_unfold with_arg_commute andThen_if with_arg_if
      cong: if_cong)+

lemma unseen_count_arguments: "unseen count_arguments"
  by (rule unseenI) (simp add: count_arguments_def Let_def unseen_counts [THEN unseenD])

text \<open>The field functions.\<close>

definition store_unseen :: "'h store \<Rightarrow> bool" where
  "store_unseen store \<longleftrightarrow> (\<forall>bs. unseen (store bs))"

lemma stores_unseen:
  "store_unseen store_none" "store_unseen (store_size msg)" "store_unseen store_contract" "store_unseen store_action"
  "store_unseen store_data" "store_unseen (hashActionData ops)"
  by (simp_all add: store_unseen_def unseen_def store_none_def store_size_def store_contract_def store_action_def store_data_def
      hashActionData_def andThen_assoc with_arg_commute)

lemma receive_unseen:
  assumes "store_unseen store" and "\<And>n ctx a. check n (with_arg ctx a) = check n ctx"
  shows "unseen (receive ops mem check store)"
proof (rule unseenI)
  fix ctx :: "'a txProcessingContext_t" and a
  show "receive ops mem check store (with_arg ctx a) = andThen (receive ops mem check store ctx) (\<lambda>c. Inr (with_arg c a))"
    using assms by (simp add: receive_def Let_def hashTxData_def andThen_assoc with_arg_commute store_unseen_def unseenD)
qed

lemma checks_unseen [simp]: "checked msg n (with_arg ctx a) = checked msg n ctx" "no_check n (with_arg ctx a) = no_check n ctx"
  by (simp_all add: checked_def no_check_def)

lemma field_unseen:
  assumes "store_unseen store" and "\<And>n ctx a. check n (with_arg ctx a) = check n ctx" and "unseen finish"
  shows "unseen (\<lambda>ctx. andThen (receive ops mem check store ctx) (when_complete finish))"
  by (rule unseenI) (simp add: unseenD [OF receive_unseen [OF assms(1,2)]] andThen_assoc when_complete_def andThen_if unseenD [OF assms(3)] cong: if_cong)

lemma unseen_unknown: "unseen (processUnknownAction ops)"
  by (rule unseenI) (simp add: processUnknownAction_def with_arg_commute andThen_assoc case_prod_unfold)

lemma fields_unseen:
  "unseen (processField ops mem)" "unseen (processZeroSizeField ops mem)" "unseen (processActionListSizeField ops mem)"
  "unseen (processActionAccount ops mem)" "unseen (processActionName ops mem)"
  "unseen (processAuthorizationListSizeField ops mem)" "unseen (processAuthorizationPermission ops mem)"
  "unseen (processUnknownActionDataSize ops mem)" "unseen (processUnknownActionData ops mem)"
  unfolding processField_def [abs_def] processZeroSizeField_def [abs_def] processActionListSizeField_def [abs_def]
    processActionAccount_def [abs_def] processActionName_def [abs_def] processAuthorizationListSizeField_def [abs_def]
    processAuthorizationPermission_def [abs_def] processUnknownActionDataSize_def [abs_def] processUnknownActionData_def [abs_def]
  by (rule field_unseen [OF _ _ unseenI]; simp add: stores_unseen andThen_assoc with_arg_commute with_arg_if Let_def case_prod_unfold
      unseenD [OF unseen_unknown] cong: if_cong)+

lemma data_unseen: "unseen (processActionData ops mem)"
proof (rule unseenI)
  fix ctx :: "'a txProcessingContext_t" and a
  let ?f = "\<lambda>ctx. andThen (receive ops mem no_check store_data ctx)
       (when_complete (\<lambda>ctx.
          let ctx = ctx\<lparr>currentActionDataBufferLength := currentFieldLength ctx\<rparr> in
          andThen (count_arguments ctx) (\<lambda>ctx. Inr (after_action ctx))))"
  have "unseen ?f"
    by (rule field_unseen [OF stores_unseen(5) _ unseenI])
      (simp_all add: andThen_assoc with_arg_commute Let_def unseenD [OF unseen_count_arguments])
  from unseenD [OF this, of ctx a]
  show "processActionData ops mem (with_arg ctx a) = andThen (processActionData ops mem ctx) (\<lambda>c. Inr (with_arg c a))"
    unfolding processActionData_def by (simp only: with_arg_fields andThen_assoc)
qed

text \<open>The rounds of the parser, which also answer a status.\<close>

abbreviation (input) put_arg :: "actionArgument_t \<Rightarrow> 'h txProcessingContext_t \<times> 'b \<Rightarrow> 'h txProcessingContext_t \<times> 'b" where
  "put_arg a r \<equiv> (with_arg (fst r) a, snd r)"

lemma process_state_unseen:
  "process_state ops mem (with_arg ctx a) = andThen (process_state ops mem ctx) (\<lambda>r. Inr (put_arg a r))"
  by (cases "state ctx") (simp_all add: process_state_def Let_def fields_unseen [THEN unseenD] data_unseen [THEN unseenD] andThen_assoc)

lemma header_unseen [simp]: "header_byte b (with_arg ctx a) = header_byte b ctx"
  "header_store buf l (with_arg ctx a) = with_arg (header_store buf l ctx) a"
  by (simp_all add: header_byte_def header_store_def with_arg_commute)

lemma readTxByte_cases:
  "readTxByte mem ctx = andThen (LEDGER_ASSERT (commandLength ctx \<ge> 1) ''readTxByte Underflow'') (\<lambda>_.
     andThen (work_read mem ctx 1) (\<lambda>bs. Inr (hd bs, work_skip 1 ctx)))"
  by (simp add: readTxByte_def)

lemma read_tlv_unseen:
  "read_tlv mem (with_arg ctx a) = andThen (read_tlv mem ctx) (\<lambda>r. Inr (put_arg a r))"
proof (induction "unat (commandLength ctx)" arbitrary: ctx rule: less_induct)
  case less
  show ?case
  proof (cases "commandLength ctx = 0")
    case True
    then show ?thesis by (simp add: read_tlv_empty)
  next
    case nz: False
    show ?thesis
    proof (cases "readTxByte mem ctx")
      case (Inl e)
      then have "readTxByte mem (with_arg ctx a) = Inl e" by (auto simp: readTxByte_def andThen_eq_Inl)
      then show ?thesis using Inl nz by (subst (1 2) read_tlv.simps) simp
    next
      case (Inr r)
      then obtain b where b: "readTxByte mem ctx = Inr (b, work_skip 1 ctx)"
        and b': "readTxByte mem (with_arg ctx a) = Inr (b, work_skip 1 (with_arg ctx a))"
        by (auto simp: readTxByte_def andThen_eq_Inr)
      have "1 \<le> commandLength ctx" using nz by (simp add: word_le_nat_alt Suc_leI unat_gt_0 word_gt_0)
      then have "unat (commandLength (header_store buf l (work_skip 1 ctx))) < unat (commandLength ctx)" for buf l
        using nz by (simp add: header_store_def work_skip_length unat_gt_0)
      note IH = less [OF this]
      show ?thesis
        using IH nz
        by (simp add: read_tlv_step [OF nz b] read_tlv_step [OF _ b'] with_arg_commute andThen_assoc case_prod_unfold Let_def andThen_if
            cong: if_cong)
    qed
  qed
qed

lemma andThen_status: "andThen (case s of Inl x \<Rightarrow> f x | Inr y \<Rightarrow> g y) h = (case s of Inl x \<Rightarrow> andThen (f x) h | Inr y \<Rightarrow> andThen (g y) h)"
  by (cases s) simp_all

lemma tx_round_unseen:
  "tx_round ops mem (with_arg ctx a) = andThen (tx_round ops mem ctx) (\<lambda>r. Inr (put_arg a r))"
  by (simp add: tx_round_def read_tlv_unseen process_state_unseen with_arg_commute andThen_assoc case_prod_unfold andThen_if andThen_status
      cong: if_cong sum.case_cong)

text \<open>The parser answers the same and ends in the same state, but for the argument that is on the screen.\<close>

lemma processTxInternal_unseen:
  assumes "processTxInternal ops mem ctx = Some r"
  shows "processTxInternal ops mem (with_arg ctx a) = Some (andThen r (\<lambda>r. Inr (put_arg a r)))"
proof -
  have "\<forall>a. processTxInternal ops mem (with_arg ctx a) = Some (andThen r (\<lambda>r. Inr (put_arg a r)))"
  proof (rule processTxInternal.raw_induct [OF _ assms], intro allI)
    fix parse ops mem ctx r a
    assume later: "\<And>ops mem ctx r. parse ops mem ctx = Some r \<Longrightarrow>
        \<forall>a. processTxInternal ops mem (with_arg ctx a) = Some (andThen r (\<lambda>r. Inr (put_arg a r)))"
      and now: "(case tx_round ops mem ctx of Inl e \<Rightarrow> Some (Inl e) | Inr (ctx', None) \<Rightarrow> parse ops mem ctx'
        | Inr (ctx', Some status) \<Rightarrow> Some (Inr (ctx', status))) = Some r"
    show "processTxInternal ops mem (with_arg ctx a) = Some (andThen r (\<lambda>r. Inr (put_arg a r)))"
      using now later by (subst processTxInternal.simps) (auto simp: tx_round_unseen split: sum.splits option.splits prod.splits)
  qed
  then show ?thesis ..
qed

lemma parseTx_unseen:
  assumes "parseTx ops mem ctx buffer len = Some r"
  shows "parseTx ops mem (with_arg ctx a) buffer len = Some (andThen r (\<lambda>r. Inr (put_arg a r)))"
  using processTxInternal_unseen [OF assms [unfolded parseTx_def], of a]
  by (cases "commandLength ctx = 0") (simp_all add: parseTx_def with_arg_commute)

end
