(* ===== verification/Eos_Browsing.thy ===== *)
theory Eos_Browsing
  imports Eos_Approvals Eos_Looking
begin

text \<open>
  The device does not depend on the argument on its screen either: a history in which the user also turns to
  other screens has the same answers as the history without the turns.
\<close>


section \<open>The device\<close>

text \<open>The device with another argument on its screen.\<close>

definition showing :: "actionArgument_t \<Rightarrow> 'h device_t \<Rightarrow> 'h device_t" where
  "showing a dev = dev\<lparr>txProcessingCtx := with_arg (txProcessingCtx dev) a\<rparr>"

lemma showing_fields [simp]:
  "G_io_apdu_buffer (showing a dev) = G_io_apdu_buffer dev" "tmpCtx (showing a dev) = tmpCtx dev"
  "N_storage (showing a dev) = N_storage dev" "display (showing a dev) = display dev"
  "txProcessingCtx (showing a dev) = with_arg (txProcessingCtx dev) a" "in_buffer (showing a dev) bs = in_buffer dev bs"
  by (simp_all add: showing_def in_buffer_def)

lemma showing_commute:
  "(showing a dev)\<lparr>G_io_apdu_buffer := buf\<rparr> = showing a (dev\<lparr>G_io_apdu_buffer := buf\<rparr>)"
  "(showing a dev)\<lparr>tmpCtx := t\<rparr> = showing a (dev\<lparr>tmpCtx := t\<rparr>)"
  "(showing a dev)\<lparr>N_storage := s\<rparr> = showing a (dev\<lparr>N_storage := s\<rparr>)"
  "(showing a dev)\<lparr>display := d\<rparr> = showing a (dev\<lparr>display := d\<rparr>)"
  "(showing a dev)\<lparr>txProcessingCtx := with_arg ctx a\<rparr> = showing a (dev\<lparr>txProcessingCtx := ctx\<rparr>)"
  by (simp_all add: showing_def)

lemma initTxContext_arg: "initTxContext ops (content (with_arg ctx a)) allowed = with_arg (initTxContext ops (content ctx) allowed) a"
  by (simp add: initTxContext_def with_arg_def)

lemma sign_hash_showing:
  "sign_hash_and_set_result lib dev = Some (Inr (dev', tx)) \<Longrightarrow>
    sign_hash_and_set_result lib (showing a dev) = Some (Inr (showing a dev', tx))"
  by (auto simp: sign_hash_and_set_result_def thenRun_eq_Inr runThen_eq_Inr Let_def showing_commute with_arg_commute split: prod.splits)

lemma sign_start_showing:
  "sign_start lib off len (showing a dev) = andThen (sign_start lib off len dev)
     (\<lambda>r. Inr (case r of Inl (d, sw) \<Rightarrow> Inl (showing a d, sw) | Inr (d, at, n) \<Rightarrow> Inr (showing a d, at, n)))"
  by (simp add: sign_start_def Let_def andThen_assoc showing_commute andThen_if initTxContext_arg cong: if_cong)

lemma sign_parse_showing:
  assumes "sign_parse lib off len dev = Some (Inr (dev', rep))"
  shows "sign_parse lib off len (showing a dev) = Some (Inr (showing a dev', rep))"
proof -
  obtain ctx st where p: "parseTx (lib_sha256 lib) (G_io_apdu_buffer dev) (txProcessingCtx dev) (Some off) (ucast len) = Some (Inr (ctx, st))"
    using assms by (auto simp: sign_parse_def runThen_eq_Inr)
  note p' = parseTx_unseen [OF this, of a]
  let ?d = "dev\<lparr>txProcessingCtx := ctx\<rparr>"
  have e: "showing a dev\<lparr>txProcessingCtx := with_arg ctx a\<rparr> = showing a ?d" by (simp add: showing_commute)
  have r1: "sign_parse lib off len (showing a dev) = (case st of
       STREAM_CONFIRM_PROCESSING \<Rightarrow> Some (Inr (showing a ?d\<lparr>display := MultipleActionFlow\<rparr>, SWO_SUCCESS, True, 0))
     | STREAM_ACTION_READY \<Rightarrow> Some (Inr (showing a ?d\<lparr>display := SingleActionFlow\<rparr>, SWO_SUCCESS, True, 0))
     | STREAM_FINISHED \<Rightarrow> runThen (sign_hash_and_set_result lib (showing a ?d)) (\<lambda>(dev, tx). Some (Inr (dev, SWO_SUCCESS, False, tx)))
     | STREAM_PROCESSING \<Rightarrow> Some (Inr (showing a ?d, SWO_SUCCESS, False, 0))
     | STREAM_FAULT \<Rightarrow> Some (Inr (showing a ?d, 0x6A80, False, 0)))"
    using p' e by (intro sign_parse_parsed [where ctx = "with_arg ctx a"]) simp_all
  note r = sign_parse_parsed [OF p refl]
  show ?thesis
  proof (cases st)
    case STREAM_FINISHED
    then obtain d1 tx where h: "sign_hash_and_set_result lib ?d = Some (Inr (d1, tx))" "dev' = d1" "rep = (SWO_SUCCESS, False, tx)"
      using assms r by (auto simp: runThen_eq_Inr)
    then show ?thesis using r1 STREAM_FINISHED sign_hash_showing [OF h(1), of a] by (simp add: runThen_def)
  qed (use assms r r1 in \<open>auto simp: showing_commute\<close>)
qed

lemma handleSign_showing:
  assumes "handleSign lib p1 p2 off len dev = Some (Inr (dev', rep))"
  shows "handleSign lib p1 p2 off len (showing a dev) = Some (Inr (showing a dev', rep))"
proof -
  obtain r where r: "(if p1 = P1_FIRST then sign_start lib off len dev
              else if p1 \<noteq> P1_MORE then Inr (Inl (dev, 0x6B00)) else Inr (Inr (dev, off, len))) = Inr r"
    and s: "(case r of
       Inl (dev, sw) \<Rightarrow> Some (Inr (dev, sw, False, 0))
     | Inr (dev, buffer_at, dataLength) \<Rightarrow>
         if p2 \<noteq> 0 then Some (Inr (dev, 0x6B00, False, 0))
         else if state (txProcessingCtx dev) = TLV_NONE then Some (Inr (dev, 0x6985, False, 0))
         else sign_parse lib buffer_at dataLength dev) = Some (Inr (dev', rep))"
    using assms unfolding handleSign_def thenRun_eq_Inr by blast
  have "(if p1 = P1_FIRST then sign_start lib off len (showing a dev)
              else if p1 \<noteq> P1_MORE then Inr (Inl (showing a dev, 0x6B00)) else Inr (Inr (showing a dev, off, len)))
     = Inr (case r of Inl (d, sw) \<Rightarrow> Inl (showing a d, sw) | Inr (d, at, n) \<Rightarrow> Inr (showing a d, at, n))"
    using r by (auto simp: sign_start_showing split: if_splits)
  then have h: "handleSign lib p1 p2 off len (showing a dev) = (case r of
       Inl (dev, sw) \<Rightarrow> Some (Inr (showing a dev, sw, False, 0))
     | Inr (dev, buffer_at, dataLength) \<Rightarrow>
         if p2 \<noteq> 0 then Some (Inr (showing a dev, 0x6B00, False, 0))
         else if state (txProcessingCtx dev) = TLV_NONE then Some (Inr (showing a dev, 0x6985, False, 0))
         else sign_parse lib buffer_at dataLength (showing a dev))"
    by (cases r) (simp_all add: handleSign_def case_prod_unfold)
  show ?thesis
  proof (cases r)
    case (Inl x)
    then show ?thesis using s h by (cases x) simp
  next
    case (Inr x)
    obtain d at n where x: "x = (d, at, n)" by (cases x)
    show ?thesis
    proof (cases "p2 \<noteq> 0 \<or> state (txProcessingCtx d) = TLV_NONE")
      case True
      then show ?thesis using s h Inr x by auto
    next
      case False
      then show ?thesis using s h Inr x sign_parse_showing [of lib at n d dev' rep a] by simp
    qed
  qed
qed

text \<open>A handler that leaves the transaction alone commutes step by step.\<close>

definition same_shown :: "actionArgument_t \<Rightarrow> ('h device_t \<times> 'b) result \<Rightarrow> ('h device_t \<times> 'b) result \<Rightarrow> bool" where
  "same_shown a m' m \<longleftrightarrow> m' = andThen m (\<lambda>(d, rep). Inr (showing a d, rep))"

lemma same_shown_intros:
  "(\<And>x. same_shown a (f x) (g x)) \<Longrightarrow> same_shown a (andThen m f) (andThen m g)"
  "same_shown a x y \<Longrightarrow> same_shown a u v \<Longrightarrow> same_shown a (if b then x else u) (if b then y else v)"
  "(\<And>x y. p = (x, y) \<Longrightarrow> same_shown a (k x y) (l x y)) \<Longrightarrow> same_shown a (case p of (x, y) \<Rightarrow> k x y) (case p of (x, y) \<Rightarrow> l x y)"
  "d' = showing a d \<Longrightarrow> same_shown a (Inr (d', rep)) (Inr (d, rep))"
proof -
  assume "\<And>x. same_shown a (f x) (g x)"
  then show "same_shown a (andThen m f) (andThen m g)" by (cases m) (simp_all add: same_shown_def)
qed (auto simp: same_shown_def split: prod.splits)

lemma other_handlers_showing:
  "same_shown a (handleGetPublicKey lib p1 p2 off (showing a dev)) (handleGetPublicKey lib p1 p2 off dev)"
  "same_shown a (handleGetAppConfiguration lib (showing a dev)) (handleGetAppConfiguration lib dev)"
  "same_shown a (user_action_address_ok lib (showing a dev)) (user_action_address_ok lib dev)"
  "same_shown a (user_action_address_cancel (showing a dev)) (user_action_address_cancel dev)"
  "same_shown a (user_action_tx_cancel (showing a dev)) (user_action_tx_cancel dev)"
  unfolding handleGetPublicKey_def handleGetAppConfiguration_def user_action_address_ok_def user_action_address_cancel_def
    user_action_tx_cancel_def Let_def showing_fields
  by (intro same_shown_intros; simp add: showing_commute)+

lemma same_shownD: "same_shown a m' m \<Longrightarrow> m = Inr (d, rep) \<Longrightarrow> m' = Inr (showing a d, rep)"
  by (simp add: same_shown_def)

lemma handleApdu_showing:
  assumes "handleApdu lib dev = Some (Inr (dev', rep))"
  shows "handleApdu lib (showing a dev) = Some (Inr (showing a dev', rep))"
proof -
  let ?b = "G_io_apdu_buffer dev"
  have key: "handleGetPublicKey lib p1 p2 off dev = Inr (dev', rep) \<Longrightarrow> handleGetPublicKey lib p1 p2 off (showing a dev) = Inr (showing a dev', rep)"
    and config: "handleGetAppConfiguration lib dev = Inr (dev', rep) \<Longrightarrow> handleGetAppConfiguration lib (showing a dev) = Inr (showing a dev', rep)"
    for p1 p2 off
    by (erule same_shownD [OF other_handlers_showing(1)], erule same_shownD [OF other_handlers_showing(2)])
  have r: "mem_read ?b 0 5 = Inr (take 5 ?b)" using assms by (cases "5 \<le> length ?b") (simp_all add: handleApdu_def Let_def mem_read_def)
  have h: "handleApdu lib d = (if ?b ! 0 \<noteq> CLA then Some (Inr (d, 0x6E00, False, 0))
      else if ?b ! 1 = INS_GET_PUBLIC_KEY then Some (handleGetPublicKey lib (?b ! 2) (?b ! 3) 5 d)
      else if ?b ! 1 = INS_SIGN then handleSign lib (?b ! 2) (?b ! 3) 5 (ucast (?b ! 4)) d
      else if ?b ! 1 = INS_GET_APP_CONFIGURATION then Some (handleGetAppConfiguration lib d)
      else Some (Inr (d, 0x6D00, False, 0)))" if "G_io_apdu_buffer d = ?b" for d :: "'a device_t"
    using that r by (simp add: handleApdu_def Let_def)
  note now = h [OF refl] and shown = h [OF showing_fields(1), of a]
  consider "?b ! 0 \<noteq> CLA" | "?b ! 0 = CLA" "?b ! 1 = INS_GET_PUBLIC_KEY"
    | "?b ! 0 = CLA" "?b ! 1 \<noteq> INS_GET_PUBLIC_KEY" "?b ! 1 = INS_SIGN"
    | "?b ! 0 = CLA" "?b ! 1 \<noteq> INS_GET_PUBLIC_KEY" "?b ! 1 \<noteq> INS_SIGN" "?b ! 1 = INS_GET_APP_CONFIGURATION"
    | "?b ! 0 = CLA" "?b ! 1 \<noteq> INS_GET_PUBLIC_KEY" "?b ! 1 \<noteq> INS_SIGN" "?b ! 1 \<noteq> INS_GET_APP_CONFIGURATION" by blast
  then show ?thesis
  proof cases
    case 1
    then show ?thesis using assms unfolding now shown by simp
  next
    case 2
    then show ?thesis using assms key unfolding now shown by simp
  next
    case 3
    then have n: "\<not> ?b ! 0 \<noteq> CLA" "?b ! 1 \<noteq> INS_GET_PUBLIC_KEY" by simp_all
    show ?thesis using assms handleSign_showing unfolding now shown if_not_P [OF n(1)] if_not_P [OF n(2)] if_P [OF 3(3)] by blast
  next
    case 4
    then have n: "\<not> ?b ! 0 \<noteq> CLA" by simp
    have "handleGetAppConfiguration lib dev = Inr (dev', rep)"
      using assms unfolding now if_not_P [OF n] if_not_P [OF 4(2)] if_not_P [OF 4(3)] if_P [OF 4(4)] by simp
    from config [OF this] show ?thesis
      unfolding shown if_not_P [OF n] if_not_P [OF 4(2)] if_not_P [OF 4(3)] if_P [OF 4(4)] by simp
  next
    case 5
    then show ?thesis using assms unfolding now shown by simp
  qed
qed

lemma app_round_showing:
  assumes "app_round lib bs dev = Some (Inr (dev', reply))"
  shows "app_round lib bs (showing a dev) = Some (Inr (showing a dev', reply))"
proof -
  obtain buf r where buf: "mem_write (G_io_apdu_buffer dev) 0 bs = Inr buf"
    and r: "(if bs = [] then Some (Inr (dev\<lparr>G_io_apdu_buffer := buf\<rparr>, 0x6982, False, 0))
      else handleApdu lib (dev\<lparr>G_io_apdu_buffer := buf\<rparr>)) = Some (Inr r)" and f: "finish_round r = Inr (dev', reply)"
    using assms by (auto simp: app_round_def thenRun_eq_Inr runThen_eq_Inr Let_def)
  obtain d rep where rep: "r = (d, rep)" by (cases r)
  have r': "(if bs = [] then Some (Inr (showing a (dev\<lparr>G_io_apdu_buffer := buf\<rparr>), 0x6982, False, 0))
      else handleApdu lib (showing a (dev\<lparr>G_io_apdu_buffer := buf\<rparr>))) = Some (Inr (showing a d, rep))"
    using r rep handleApdu_showing [of lib "dev\<lparr>G_io_apdu_buffer := buf\<rparr>" d rep a] by (simp split: if_splits)
  have "finish_round (showing a d, rep) = Inr (showing a dev', reply)"
    using f rep by (auto simp: finish_round_def andThen_eq_Inr showing_commute split: prod.splits)
  then show ?thesis using r' by (simp add: app_round_def buf Let_def showing_commute)
qed

lemma sign_flow_showing:
  assumes "user_action_sign_flow_ok lib dev = Some (Inr (dev', reply))"
  shows "user_action_sign_flow_ok lib (showing a dev) = Some (Inr (showing a dev', reply))"
proof -
  obtain ctx st where p: "parseTx (lib_sha256 lib) (G_io_apdu_buffer dev) (txProcessingCtx dev) None 0 = Some (Inr (ctx, st))"
    using assms by (auto simp: user_action_sign_flow_ok_def runThen_eq_Inr)
  note p' = parseTx_unseen [OF this, of a]
  let ?d = "dev\<lparr>txProcessingCtx := ctx\<rparr>"
  have e: "showing a dev\<lparr>txProcessingCtx := with_arg ctx a\<rparr> = showing a ?d" by (simp add: showing_commute)
  have send: "user_answer code tx (showing a d) = Some (Inr (showing a d', x))" if "user_answer code tx d = Some (Inr (d', x))" for code tx d d' x
    using that by (auto simp: user_answer_def thenRun_eq_Inr showing_commute)
  have r1: "user_action_sign_flow_ok lib (showing a dev) = (case st of
       STREAM_ACTION_READY \<Rightarrow> Some (Inr (showing a ?d\<lparr>display := SingleActionFlow\<rparr>, None))
     | STREAM_PROCESSING \<Rightarrow> user_answer 0x9000 0 (showing a ?d)
     | STREAM_FINISHED \<Rightarrow> runThen (sign_hash_and_set_result lib (showing a ?d)) (\<lambda>(dev, tx). user_answer 0x9000 tx dev)
     | STREAM_CONFIRM_PROCESSING \<Rightarrow> user_answer 0x6A80 0 (showing a ?d)
     | STREAM_FAULT \<Rightarrow> user_answer 0x6A80 0 (showing a ?d))"
    using p' e by (intro sign_flow_parsed [where ctx = "with_arg ctx a"]) simp_all
  note r = sign_flow_parsed [OF p refl]
  show ?thesis
  proof (cases st)
    case STREAM_FINISHED
    then obtain d1 tx where h: "sign_hash_and_set_result lib ?d = Some (Inr (d1, tx))" "user_answer 0x9000 tx d1 = Some (Inr (dev', reply))"
      using assms r by (auto simp: runThen_eq_Inr)
    then show ?thesis using r1 STREAM_FINISHED sign_hash_showing [OF h(1), of a] send by (simp add: runThen_def)
  qed (use assms r r1 send in \<open>auto simp: showing_commute\<close>)
qed

lemma device_step_showing:
  "device_step lib dev e reply dev' \<Longrightarrow> device_step lib (showing a dev) e reply (showing a dev')"
proof (induction rule: device_step.induct)
  case step_command
  then show ?case by (intro device_step.step_command) (simp_all add: app_round_showing)
next
  case (step_address_ok dev dev' answer)
  then show ?case using other_handlers_showing(3) [THEN same_shownD, OF step_address_ok(2)] by (intro device_step.step_address_ok) simp_all
next
  case (step_address_cancel dev dev' answer)
  then show ?case using other_handlers_showing(4) [THEN same_shownD, OF step_address_cancel(2)] by (intro device_step.step_address_cancel) simp_all
next
  case step_sign_ok
  then show ?case by (intro device_step.step_sign_ok) (simp_all add: sign_flow_showing)
next
  case (step_tx_cancel dev dev' answer)
  then show ?case using other_handlers_showing(5) [THEN same_shownD, OF step_tx_cancel(2)] by (intro device_step.step_tx_cancel) simp_all
qed

section \<open>Histories without the turns\<close>

lemma browsed_showing: "browsed dev dev' \<longleftrightarrow> (\<exists>a. dev' = showing a dev)"
  by (simp add: browsed_def showing_def)

lemma showing_showing [simp]: "showing a (showing b dev) = showing a dev"
  by (simp add: showing_def)

lemma showing_same: "showing (arg (content (txProcessingCtx dev))) dev = dev"
  by (simp add: showing_def with_arg_def)

lemma browsed_sym: "browsed dev dev' \<Longrightarrow> browsed dev' dev"
  using browsed_showing showing_showing showing_same by metis

lemma switched_showing: "switched (showing a dev) = showing a (switched dev)"
  by (simp add: switched_def showing_def)

lemma device_move_showing:
  assumes "device_move lib dev e cb reply dev'" and "\<forall>b. e \<noteq> Turn b"
  shows "device_move lib (showing a dev) e cb reply (showing a dev')"
  using assms device_step_showing [of lib dev _ reply dev' a]
  by (cases e; cases "decision cb") (auto simp: device_move_def switched_showing)

text \<open>What the host and the user see of a history, and the history without the turns.\<close>

definition happened :: "'h history \<Rightarrow> (input \<times> callback \<times> bytes option) list" where
  "happened h = map snd h"

definition turned :: "input \<times> callback \<times> bytes option \<Rightarrow> bool" where
  "turned x \<longleftrightarrow> (case fst x of Turn b \<Rightarrow> True | _ \<Rightarrow> False)"

lemma turns_removed:
  "move_run lib dev h dev' \<Longrightarrow>
    \<exists>h' dev''. move_run lib (showing a dev) h' dev'' \<and> browsed dev'' dev' \<and> happened h' = filter (\<lambda>x. \<not> turned x) (happened h)"
proof (induction arbitrary: a rule: move_run.induct)
  case (move_end dev)
  have "browsed dev (showing a dev)" by (auto simp: browsed_showing)
  then show ?case using move_run.move_end browsed_sym
    by (intro exI [of _ "[]"] exI [of _ "showing a dev"]) (simp add: happened_def)
next
  case (move_more dev e cb reply dev1 h dev')
  show ?case
  proof (cases "\<exists>b. e = Turn b")
    case True
    then obtain b where b: "e = Turn b" "browsed dev dev1" using move_more(1) by (auto simp: device_move_def)
    then have "showing a dev1 = showing a dev" by (auto simp: browsed_showing)
    then obtain h' dev'' where "move_run lib (showing a dev) h' dev''" "browsed dev'' dev'" "happened h' = filter (\<lambda>x. \<not> turned x) (happened h)"
      using move_more.IH [of a] by auto
    then show ?thesis using b(1) by (intro exI [of _ h'] exI [of _ dev'']) (simp add: happened_def turned_def)
  next
    case False
    obtain h' dev'' where h': "move_run lib (showing a dev1) h' dev''" "browsed dev'' dev'" "happened h' = filter (\<lambda>x. \<not> turned x) (happened h)"
      using move_more.IH [of a] by blast
    have "device_move lib (showing a dev) e cb reply (showing a dev1)" using device_move_showing [OF move_more(1)] False by blast
    from move_run.move_more [OF this h'(1)] show ?thesis
      using h'(2,3) False
      by (intro exI [of _ "(showing a dev, e, cb, reply) # h'"] exI [of _ dev'']) (cases e; simp add: happened_def turned_def)
  qed
qed

lemma history_without_turns:
  assumes "move_run lib dev h dev'"
  shows "\<exists>h' dev''. move_run lib dev h' dev'' \<and> browsed dev'' dev' \<and> happened h' = filter (\<lambda>x. \<not> turned x) (happened h)"
  using turns_removed [OF assms, of "arg (content (txProcessingCtx dev))"] unfolding showing_same .

end
