(* ===== verification/Eos_Nbgl.thy ===== *)
theory Eos_Nbgl
  imports Eos_Screens Eos_Config
begin

text \<open>
  \<^verbatim>\<open>src/ui_nbgl.c\<close>: the screens of the devices with a touch screen. A review is a list of pairs of an item
  and a value, which the library asks for one by one, when it is about to draw a page. A pair holds pointers;
  the library draws the page after it has got all pairs of the page, so the texts of arguments lie in a
  ring of copies. The number \<open>m\<close> of copies, \<^verbatim>\<open>NB_MAX_DISPLAYED_PAIRS_IN_REVIEW\<close>, is the library's.
\<close>

section \<open>State\<close>

text \<open>What a pointer of a pair points to.\<close>

datatype text_ref = Literal bytes | ContractText | ActionText | BackupLabel nat | BackupData nat | ReviewAction

record nbgl_contentTagValue_t =
  item :: text_ref
  pairValue :: text_ref
  centeredInfo :: bool

datatype pair_callback = SinglePairs | MultiPairs

text \<open>The page that the library was last told to show.\<close>

datatype status_type = STATUS_TYPE_ADDRESS_VERIFIED | STATUS_TYPE_ADDRESS_REJECTED | STATUS_TYPE_TRANSACTION_SIGNED
  | STATUS_TYPE_TRANSACTION_REJECTED

datatype use_case = HomeAndSettings | AddressReview | ReviewStatus status_type | Review | ReviewStreamingStart
  | ReviewStreamingContinue | ReviewStreamingFinish

record nbgl_contentSwitch_t =
  initState :: bool
  switchText :: bytes
  subText :: bytes
  switchToken :: int

text \<open>\<open>infosList\<close> is the list of the names and contents on the page of information.\<close>

record nbgl_t =
  use_case :: use_case
  switches :: nbgl_contentSwitch_t
  infosList :: "(bytes \<times> bytes) list"
  nbPairs :: u8
  pairCallback :: pair_callback
  bkp_args :: "actionArgument_t list"
  review_action :: bytes
  review_subtitle :: bytes

text \<open>What a choice of the user calls.\<close>

datatype user_action = user_action_sign_flow | user_action_cancel | user_action_address | user_action_address_no

section \<open>Home, settings and addresses\<close>

definition controlsCallback :: "int \<Rightarrow> int \<Rightarrow> internalStorage_t \<times> nbgl_t \<Rightarrow> internalStorage_t \<times> nbgl_t" where
  "controlsCallback first_user_token token s =
     (if token \<noteq> first_user_token then s
      else let storage = toogle_data_allowed (fst s) in (storage, (snd s)\<lparr>switches := (switches (snd s))\<lparr>initState := is_data_allowed storage\<rparr>\<rparr>))"

definition ui_idle_nbgl :: "int \<Rightarrow> bytes \<Rightarrow> internalStorage_t \<Rightarrow> nbgl_t \<Rightarrow> nbgl_t" where
  "ui_idle_nbgl first_user_token version storage u =
     u\<lparr>switches := \<lparr>initState = is_data_allowed storage, switchText = cstr ''Contract data'',
         subText = cstr ''Allow contract data in transactions'', switchToken = first_user_token\<rparr>,
       infosList := [(cstr ''Version'', version)],
       use_case := HomeAndSettings\<rparr>"

definition display_address_callback :: "bool \<Rightarrow> user_action" where
  "display_address_callback confirm = (if confirm then user_action_address else user_action_address_no)"

definition ui_display_public_key_flow_nbgl :: "nbgl_t \<Rightarrow> nbgl_t" where
  "ui_display_public_key_flow_nbgl u = u\<lparr>use_case := AddressReview\<rparr>"

definition ui_display_public_key_done_nbgl :: "bool \<Rightarrow> nbgl_t \<Rightarrow> nbgl_t" where
  "ui_display_public_key_done_nbgl validated u =
     u\<lparr>use_case := ReviewStatus (if validated then STATUS_TYPE_ADDRESS_VERIFIED else STATUS_TYPE_ADDRESS_REJECTED)\<rparr>"

section \<open>Reviews\<close>

definition set_pair :: "text_ref \<Rightarrow> text_ref \<Rightarrow> nbgl_contentTagValue_t" where
  "set_pair i v = \<lparr>item = i, pairValue = v, centeredInfo = False\<rparr>"

text \<open>The copy of an argument: both of its arrays, at a place of the ring.\<close>

definition backup :: "nat \<Rightarrow> actionArgument_t \<Rightarrow> actionArgument_t list \<Rightarrow> actionArgument_t list result" where
  "backup i a args = (if i < length args then Inr (args[i := a]) else Inl OutOfBounds)"

definition get_single_action_review_pair :: "(bytes \<Rightarrow> bytes option) \<Rightarrow> nat \<Rightarrow> u8 \<Rightarrow> nbgl_t \<times> 'h txProcessingContext_t
    \<Rightarrow> (nbgl_contentTagValue_t \<times> nbgl_t \<times> 'h txProcessingContext_t) result" where
  "get_single_action_review_pair ripemd160 m index s =
     (case s of (u, ctx) \<Rightarrow>
        if index = 0 then Inr (set_pair (Literal (cstr ''Contract'')) ContractText, u, ctx)
        else if index = 1 then Inr (set_pair (Literal (cstr ''Action'')) ActionText, u, ctx)
        else
          andThen (printArgument ripemd160 (index - 2) ctx) (\<lambda>ctx.
          let bkp_index = unat index mod m in
          andThen (backup bkp_index (arg (content ctx)) (bkp_args u)) (\<lambda>args.
            Inr (set_pair (BackupLabel bkp_index) (BackupData bkp_index), u\<lparr>bkp_args := args\<rparr>, ctx))))"

definition get_multi_action_review_pair :: "(bytes \<Rightarrow> bytes option) \<Rightarrow> nat \<Rightarrow> u8 \<Rightarrow> nbgl_t \<times> 'h txProcessingContext_t
    \<Rightarrow> (nbgl_contentTagValue_t \<times> nbgl_t \<times> 'h txProcessingContext_t) result" where
  "get_multi_action_review_pair ripemd160 m index s =
     (case s of (u, ctx) \<Rightarrow>
        if index = 0 then
          andThen (snprintf (review_action u) 10
            (int_text (sint (currentActionIndex ctx)) @ cstr '' of '' @ int_text (sint (currentActionNumber ctx)))) (\<lambda>r.
            Inr ((set_pair (Literal (cstr ''Review action'')) ReviewAction)\<lparr>centeredInfo := True\<rparr>, u\<lparr>review_action := r\<rparr>, ctx))
        else get_single_action_review_pair ripemd160 m (index - 1) (u, ctx))"

text \<open>The choices, and the page or the call that follows.\<close>

definition review_choice_single :: "bool \<Rightarrow> user_action" where
  "review_choice_single confirm = (if confirm then user_action_sign_flow else user_action_cancel)"

definition review_choice_multi :: "bool \<Rightarrow> nbgl_t \<times> 'h txProcessingContext_t \<Rightarrow> nbgl_t \<times> user_action option" where
  "review_choice_multi confirm s =
     (case s of (u, ctx) \<Rightarrow>
        if confirm then
          if currentActionIndex ctx = currentActionNumber ctx then (u\<lparr>use_case := ReviewStreamingFinish\<rparr>, None)
          else (u, Some user_action_sign_flow)
        else (u, Some user_action_cancel))"

definition ui_display_single_action_sign_flow_nbgl :: "'h txProcessingContext_t \<Rightarrow> nbgl_t \<Rightarrow> nbgl_t" where
  "ui_display_single_action_sign_flow_nbgl ctx u =
     (if currentActionNumber ctx = 1 then
        u\<lparr>nbPairs := argumentCount (content ctx) + 2, pairCallback := SinglePairs, use_case := Review\<rparr>
      else
        u\<lparr>nbPairs := argumentCount (content ctx) + 3, pairCallback := MultiPairs, use_case := ReviewStreamingContinue\<rparr>)"

definition ui_display_action_sign_done_nbgl :: "parserStatus_e \<Rightarrow> bool \<Rightarrow> nbgl_t \<Rightarrow> nbgl_t" where
  "ui_display_action_sign_done_nbgl status validated u =
     (if status = STREAM_FINISHED then
        u\<lparr>use_case := ReviewStatus (if validated then STATUS_TYPE_TRANSACTION_SIGNED else STATUS_TYPE_TRANSACTION_REJECTED)\<rparr>
      else u)"

definition ui_display_multiple_action_sign_flow_nbgl :: "'h txProcessingContext_t \<Rightarrow> nbgl_t \<Rightarrow> nbgl_t result" where
  "ui_display_multiple_action_sign_flow_nbgl ctx u =
     andThen (snprintf (review_subtitle u) 20
       (cstr ''With '' @ int_text (sint (currentActionNumber ctx)) @ cstr '' actions'')) (\<lambda>r.
       Inr (u\<lparr>review_subtitle := r, use_case := ReviewStreamingStart\<rparr>))"

section \<open>Drawing a page\<close>

definition get_pair :: "(bytes \<Rightarrow> bytes option) \<Rightarrow> nat \<Rightarrow> u8 \<Rightarrow> nbgl_t \<times> 'h txProcessingContext_t
    \<Rightarrow> (nbgl_contentTagValue_t \<times> nbgl_t \<times> 'h txProcessingContext_t) result" where
  "get_pair ripemd160 m index s = (if pairCallback (fst s) = SinglePairs then get_single_action_review_pair ripemd160 m index s
     else get_multi_action_review_pair ripemd160 m index s)"

text \<open>The library gets \<open>k\<close> pairs of a page from the index \<open>i\<close> on.\<close>

fun get_pairs :: "(bytes \<Rightarrow> bytes option) \<Rightarrow> nat \<Rightarrow> nat \<Rightarrow> nat \<Rightarrow> nbgl_t \<times> 'h txProcessingContext_t
    \<Rightarrow> (nbgl_contentTagValue_t list \<times> nbgl_t \<times> 'h txProcessingContext_t) result" where
  "get_pairs ripemd160 m i 0 s = Inr ([], s)"
| "get_pairs ripemd160 m i (Suc k) s =
     andThen (get_pair ripemd160 m (of_nat i) s) (\<lambda>(p, s).
     andThen (get_pairs ripemd160 m (i + 1) k s) (\<lambda>(ps, s). Inr (p # ps, s)))"

text \<open>The texts behind the pointers when the page is drawn.\<close>

definition read_ref :: "nbgl_t \<times> 'h txProcessingContext_t \<Rightarrow> text_ref \<Rightarrow> bytes" where
  "read_ref s r = (case s of (u, ctx) \<Rightarrow> (case r of
       Literal t \<Rightarrow> t
     | ContractText \<Rightarrow> c_string (contract (content ctx))
     | ActionText \<Rightarrow> c_string (action (content ctx))
     | BackupLabel i \<Rightarrow> c_string (label (bkp_args u ! i))
     | BackupData i \<Rightarrow> c_string (data (bkp_args u ! i))
     | ReviewAction \<Rightarrow> c_string (review_action u)))"

definition draw :: "nbgl_t \<times> 'h txProcessingContext_t \<Rightarrow> nbgl_contentTagValue_t list \<Rightarrow> (bytes \<times> bytes) list" where
  "draw s ps = map (\<lambda>p. (read_ref s (item p), read_ref s (pairValue p))) ps"
section \<open>The pages of a review\<close>

text \<open>The list of the pairs of an action, and the pointers that stand for them.\<close>

definition position_text :: "'h txProcessingContext_t \<Rightarrow> bytes" where
  "position_text ctx = int_text (sint (currentActionIndex ctx)) @ cstr '' of '' @ int_text (sint (currentActionNumber ctx))"

definition pair_list :: "pair_callback \<Rightarrow> 'h txProcessingContext_t \<Rightarrow> screen list \<Rightarrow> (bytes \<times> bytes) list" where
  "pair_list cb ctx scr = (if cb = MultiPairs then [(cstr ''Review action'', take 9 (position_text ctx))] else [])
     @ [(cstr ''Contract'', c_string (contract (content ctx))), (cstr ''Action'', c_string (action (content ctx)))]
     @ map read_screen scr"

definition behind :: "pair_callback \<Rightarrow> nat" where
  "behind cb = (if cb = MultiPairs then 1 else 0)"

definition single_pair_at :: "nat \<Rightarrow> nat \<Rightarrow> nbgl_contentTagValue_t" where
  "single_pair_at m j = (if j = 0 then set_pair (Literal (cstr ''Contract'')) ContractText
     else if j = 1 then set_pair (Literal (cstr ''Action'')) ActionText
     else set_pair (BackupLabel (j mod m)) (BackupData (j mod m)))"

definition pair_at :: "pair_callback \<Rightarrow> nat \<Rightarrow> nat \<Rightarrow> nbgl_contentTagValue_t" where
  "pair_at cb m i = (if i < behind cb then (set_pair (Literal (cstr ''Review action'')) ReviewAction)\<lparr>centeredInfo := True\<rparr>
     else single_pair_at m (i - behind cb))"

text \<open>While the pairs from \<open>lo\<close> to \<open>hi\<close> are on a page, their copies are in the ring.\<close>

definition slots_held :: "nat \<Rightarrow> screen list \<Rightarrow> actionArgument_t list \<Rightarrow> nat \<Rightarrow> nat \<Rightarrow> bool" where
  "slots_held m scr args lo hi \<longleftrightarrow> (\<forall>j. lo \<le> j \<and> j < hi \<and> 2 \<le> j \<longrightarrow> args ! (j mod m) = show_screen (scr ! (j - 2)))"

definition page_sizes :: "nat \<Rightarrow> nbgl_t \<Rightarrow> bool" where
  "page_sizes m u \<longleftrightarrow> length (bkp_args u) = m \<and> length (review_action u) = 10"

definition on_page :: "nat \<Rightarrow> 'h txProcessingContext_t \<Rightarrow> screen list \<Rightarrow> nat \<Rightarrow> nat \<Rightarrow> nbgl_t \<times> 'h txProcessingContext_t \<Rightarrow> bool" where
  "on_page m ctx scr lo hi s \<longleftrightarrow> (\<exists>a. snd s = with_arg ctx a) \<and> page_sizes m (fst s)
     \<and> slots_held m scr (bkp_args (fst s)) (lo - behind (pairCallback (fst s))) (hi - behind (pairCallback (fst s)))
     \<and> (lo < behind (pairCallback (fst s)) \<and> 0 < hi \<longrightarrow> c_string (review_action (fst s)) = take 9 (position_text ctx))"

lemma slots_held_step:
  assumes "slots_held m scr args lo j" and "j < lo + m" and "length args = m"
  shows "slots_held m scr (args[j mod m := show_screen (scr ! (j - 2))]) lo (Suc j)"
  unfolding slots_held_def
proof (intro allI impI, elim conjE)
  fix i assume i: "lo \<le> i" "i < Suc j" "2 \<le> i"
  have m: "0 < m" using assms(2) i by linarith
  show "args[j mod m := show_screen (scr ! (j - 2))] ! (i mod m) = show_screen (scr ! (i - 2))"
  proof (cases "i = j")
    case True
    then show ?thesis using assms(3) m by simp
  next
    case False
    then have "j - i < m" "0 < j - i" using i assms(2) by auto
    then have "i mod m \<noteq> j mod m" using i False by (metis less_Suc_eq less_imp_le_nat mod_eq_dvd_iff_nat nat_dvd_not_less)
    then show ?thesis using assms(1) i False by (simp add: slots_held_def)
  qed
qed

lemma word_index: "j \<le> 255 \<Longrightarrow> unat (of_nat j :: u8) = j"
  by (simp add: unat_of_nat)

lemma single_pair_step:
  assumes p: "prints h ctx scr" and j: "j < length scr + 2" "j \<le> 255" "j < lo + m" and l: "length (bkp_args u) = m"
    and held: "slots_held m scr (bkp_args u) lo j" and lo: "lo \<le> j"
  shows "\<exists>args b. get_single_action_review_pair h m (of_nat j) (u, with_arg ctx a) = Inr (single_pair_at m j, u\<lparr>bkp_args := args\<rparr>, with_arg ctx b)
    \<and> length args = m \<and> slots_held m scr args lo (Suc j)"
proof -
  have e: "(of_nat j :: u8) = 0 \<longleftrightarrow> j = 0" "(of_nat j :: u8) = 1 \<longleftrightarrow> j = 1"
    using word_index [OF j(2)] by (auto simp: word_unat_eq_iff)
  show ?thesis
  proof (cases "j < 2")
    case True
    then have "slots_held m scr (bkp_args u) lo (Suc j)" using held by (simp add: slots_held_def)
    moreover have "u\<lparr>bkp_args := bkp_args u\<rparr> = u" by simp
    moreover have "j = 0 \<or> j = 1" using True by arith
    ultimately show ?thesis using l
      by (intro exI [of _ "bkp_args u"] exI [of _ a]) (auto simp: get_single_action_review_pair_def e single_pair_at_def)
  next
    case False
    then have ne: "(of_nat j :: u8) \<noteq> 0" "(of_nat j :: u8) \<noteq> 1" by (simp_all add: e)
    have k: "of_nat (j - 2) = (of_nat j :: u8) - 2" using False by (simp add: of_nat_diff)
    have "j - 2 < length scr" using j(1) False by simp
    then have "printArgument h (of_nat j - 2) (with_arg ctx a) = Inr (with_arg ctx (show_screen (scr ! (j - 2))))"
      using p unfolding prints_def k [symmetric] by blast
    moreover have "j mod m < m" using j(3) lo by simp
    ultimately have "get_single_action_review_pair h m (of_nat j) (u, with_arg ctx a)
      = Inr (single_pair_at m j, u\<lparr>bkp_args := (bkp_args u)[j mod m := show_screen (scr ! (j - 2))]\<rparr>,
          with_arg ctx (show_screen (scr ! (j - 2))))"
      unfolding get_single_action_review_pair_def prod.case if_not_P [OF ne(1)] if_not_P [OF ne(2)]
      using False l by (simp add: word_index [OF j(2)] Let_def backup_def single_pair_at_def)
    then show ?thesis using slots_held_step [OF held j(3) l] l
      by (intro exI [of _ "(bkp_args u)[j mod m := show_screen (scr ! (j - 2))]"] exI [of _ "show_screen (scr ! (j - 2))"]) simp
  qed
qed
lemma position_length: "length (position_text ctx) \<le> 26"
  using length_index_text32 [of "currentActionIndex ctx"] length_index_text32 [of "currentActionNumber ctx"]
  by (simp add: position_text_def cstr_def)

lemma position_written:
  assumes "length buf = 10"
  shows "\<exists>r. snprintf buf 10 (position_text ctx) = Inr r \<and> length r = 10 \<and> c_string r = take 9 (position_text ctx)"
proof -
  have "0 \<notin> set (take 9 (position_text ctx))"
    using int_text_printable by (auto simp: position_text_def cstr_def dest!: in_set_takeD)
  then show ?thesis
    using text_written [of "take 9 (position_text ctx)" 10 buf] assms by (simp add: snprintf_def)
qed

text \<open>Getting the next pair of a page keeps the texts of the pairs before it.\<close>

lemma pair_step:
  assumes p: "prints h ctx scr" and i: "i < length (pair_list (pairCallback u) ctx scr)" "i \<le> 255" "i < lo + m" "lo \<le> i"
    and page: "on_page m ctx scr lo i (u, c)"
  shows "\<exists>u' c'. get_pair h m (of_nat i) (u, c) = Inr (pair_at (pairCallback u) m i, u', c')
    \<and> on_page m ctx scr lo (Suc i) (u', c') \<and> pairCallback u' = pairCallback u"
proof -
  let ?d = "behind (pairCallback u)"
  obtain a where c: "c = with_arg ctx a" and s: "page_sizes m u"
    and held: "slots_held m scr (bkp_args u) (lo - ?d) (i - ?d)"
    and head: "lo < ?d \<and> 0 < i \<longrightarrow> c_string (review_action u) = take 9 (position_text ctx)"
    using page by (auto simp: on_page_def)
  show ?thesis
  proof (cases "i < ?d")
    case True
    then have z: "i = 0" "lo = 0" and cb: "pairCallback u = MultiPairs" using i(4) by (auto simp: behind_def split: if_splits)
    obtain r where r: "snprintf (review_action u) 10 (position_text ctx) = Inr r" "length r = 10" "c_string r = take 9 (position_text ctx)"
      using position_written [of "review_action u" ctx] s by (auto simp: page_sizes_def)
    have n: "currentActionIndex (with_arg ctx a) = currentActionIndex ctx" "currentActionNumber (with_arg ctx a) = currentActionNumber ctx"
      by (simp_all add: with_arg_def)
    have "get_pair h m (of_nat i) (u, c) = Inr (pair_at (pairCallback u) m i, u\<lparr>review_action := r\<rparr>, c)"
      using r(1) cb by (simp add: get_pair_def get_multi_action_review_pair_def z c pair_at_def behind_def n position_text_def)
    moreover have "on_page m ctx scr lo (Suc i) (u\<lparr>review_action := r\<rparr>, c)"
      using s r cb unfolding on_page_def by (auto simp: c z page_sizes_def slots_held_def behind_def)
    ultimately show ?thesis by auto
  next
    case False
    define j where "j = i - ?d"
    have j: "j < length scr + 2" "j \<le> 255" "j < lo - ?d + m" "lo - ?d \<le> j"
      using i False by (auto simp: j_def pair_list_def behind_def split: if_splits)
    have l: "length (bkp_args u) = m" using s by (simp add: page_sizes_def)
    from single_pair_step [OF p j(1,2,3) l held [folded j_def] j(4), of a]
    obtain args b where g: "get_single_action_review_pair h m (of_nat j) (u, with_arg ctx a)
        = Inr (single_pair_at m j, u\<lparr>bkp_args := args\<rparr>, with_arg ctx b)" "length args = m"
      "slots_held m scr args (lo - ?d) (Suc j)" by blast
    have "get_pair h m (of_nat i) (u, c) = get_single_action_review_pair h m (of_nat j) (u, with_arg ctx a)"
    proof (cases "pairCallback u")
      case MultiPairs
      then have "i \<noteq> 0" and ij: "of_nat i - 1 = (of_nat j :: u8)" using False by (simp_all add: j_def behind_def of_nat_diff)
      then have "(of_nat i :: u8) \<noteq> 0" using word_index [OF i(2)] by (auto simp: word_unat_eq_iff)
      then show ?thesis by (simp add: get_pair_def MultiPairs get_multi_action_review_pair_def c ij)
    qed (simp add: get_pair_def c j_def behind_def)
    moreover have "on_page m ctx scr lo (Suc i) (u\<lparr>bkp_args := args\<rparr>, with_arg ctx b)"
    proof -
      have "Suc i - ?d = Suc j" using False by (simp add: j_def)
      moreover have "lo < ?d \<and> 0 < Suc i \<longrightarrow> c_string (review_action u) = take 9 (position_text ctx)"
        using head False by auto
      ultimately show ?thesis using g(2,3) s unfolding on_page_def by (auto simp: page_sizes_def)
    qed
    ultimately show ?thesis using g(1) False by (simp add: pair_at_def j_def [symmetric])
  qed
qed

lemma get_pairs_eq:
  assumes p: "prints h ctx scr"
  shows "i + k \<le> length (pair_list (pairCallback u) ctx scr) \<Longrightarrow> i + k \<le> 256 \<Longrightarrow> i + k \<le> lo + m \<Longrightarrow> lo \<le> i \<Longrightarrow>
    on_page m ctx scr lo i (u, c) \<Longrightarrow>
    \<exists>u' c'. get_pairs h m i k (u, c) = Inr (map (pair_at (pairCallback u) m) [i ..< i + k], u', c')
      \<and> on_page m ctx scr lo (i + k) (u', c') \<and> pairCallback u' = pairCallback u"
proof (induction k arbitrary: i u c)
  case (Suc k)
  have i: "i < length (pair_list (pairCallback u) ctx scr)" "i \<le> 255" "i < lo + m" using Suc.prems(1-3) by simp_all
  from pair_step [OF p i Suc.prems(4,5)] obtain u1 c1 where 1: "get_pair h m (of_nat i) (u, c) = Inr (pair_at (pairCallback u) m i, u1, c1)"
    "on_page m ctx scr lo (Suc i) (u1, c1)" "pairCallback u1 = pairCallback u" by blast
  have "Suc i + k \<le> length (pair_list (pairCallback u1) ctx scr)" "Suc i + k \<le> 256" "Suc i + k \<le> lo + m" "lo \<le> Suc i"
    using Suc.prems(1-4) 1(3) by simp_all
  from Suc.IH [OF this 1(2)] obtain u2 c2 where 2: "get_pairs h m (Suc i) k (u1, c1)
      = Inr (map (pair_at (pairCallback u1) m) [Suc i ..< Suc i + k], u2, c2)"
    "on_page m ctx scr lo (Suc i + k) (u2, c2)" "pairCallback u2 = pairCallback u1" by blast
  have "[i ..< i + Suc k] = i # [Suc i ..< Suc i + k]" by (simp add: upt_rec [of i])
  then show ?case using 1 2 by simp
qed simp

text \<open>What the page shows once all of its pairs were got.\<close>

lemma read_pair:
  assumes page: "on_page m ctx scr lo hi (u, c)" and i: "lo \<le> i" "i < hi" and n: "i < length (pair_list (pairCallback u) ctx scr)"
  shows "(read_ref (u, c) (item (pair_at (pairCallback u) m i)), read_ref (u, c) (pairValue (pair_at (pairCallback u) m i)))
    = pair_list (pairCallback u) ctx scr ! i"
proof -
  let ?d = "behind (pairCallback u)"
  obtain a where c: "c = with_arg ctx a" and held: "slots_held m scr (bkp_args u) (lo - ?d) (hi - ?d)"
    and head: "lo < ?d \<and> 0 < hi \<longrightarrow> c_string (review_action u) = take 9 (position_text ctx)"
    using page by (auto simp: on_page_def)
  let ?list = "[(cstr ''Contract'', c_string (contract (content ctx))), (cstr ''Action'', c_string (action (content ctx)))]
     @ map read_screen scr"
  show ?thesis
  proof (cases "i < ?d")
    case True
    then have "pairCallback u = MultiPairs" "i = 0" by (simp_all add: behind_def split: if_splits)
    then show ?thesis using head True i by (simp add: pair_at_def set_pair_def read_ref_def pair_list_def behind_def)
  next
    case False
    define j where "j = i - ?d"
    have list: "pair_list (pairCallback u) ctx scr ! i = ?list ! j" and j: "j < length scr + 2"
      using False n by (simp_all add: pair_list_def behind_def j_def split: if_splits)
    have slot: "bkp_args u ! (j mod m) = show_screen (scr ! (j - 2))" if "2 \<le> j"
    proof -
      have "lo - ?d \<le> j" unfolding j_def using i(1) by (rule diff_le_mono)
      moreover have "j < hi - ?d" unfolding j_def using i(2) False by (intro diff_less_mono) simp_all
      ultimately show ?thesis using held [unfolded slots_held_def, rule_format, of j] that by simp
    qed
    have "(read_ref (u, c) (item (single_pair_at m j)), read_ref (u, c) (pairValue (single_pair_at m j))) = ?list ! j"
    proof (cases "j < 2")
      case True
      then have "j = 0 \<or> j = 1" by arith
      then show ?thesis by (auto simp: single_pair_at_def set_pair_def read_ref_def c)
    next
      case False
      then have "?list ! j = read_screen (scr ! (j - 2))" using j by (simp add: nth_append numeral_2_eq_2)
      moreover have "single_pair_at m j = set_pair (BackupLabel (j mod m)) (BackupData (j mod m))"
        using False by (simp add: single_pair_at_def)
      ultimately show ?thesis using slot False by (simp add: set_pair_def read_ref_def read_screen_def)
    qed
    then show ?thesis using False unfolding list by (simp add: pair_at_def j_def)
  qed
qed

text \<open>Every page of at most \<open>m\<close> pairs shows its part of the list, whatever was drawn before.\<close>

lemma page_shows:
  assumes p: "prints h ctx scr" and s: "page_sizes m u"
    and list: "xs = pair_list (pairCallback u) ctx scr" "length xs \<le> 255" and k: "i + k \<le> length xs" "k \<le> m"
  shows "\<exists>ps u' c'. get_pairs h m i k (u, with_arg ctx a) = Inr (ps, u', c') \<and> draw (u', c') ps = take k (drop i xs)
    \<and> page_sizes m u' \<and> pairCallback u' = pairCallback u \<and> (\<exists>b. c' = with_arg ctx b)"
proof -
  have "on_page m ctx scr i i (u, with_arg ctx a)" using s by (auto simp: on_page_def slots_held_def behind_def)
  from get_pairs_eq [OF p _ _ _ _ this, of k] k list obtain u' c' where g:
    "get_pairs h m i k (u, with_arg ctx a) = Inr (map (pair_at (pairCallback u) m) [i ..< i + k], u', c')"
    "on_page m ctx scr i (i + k) (u', c')" "pairCallback u' = pairCallback u" by auto
  have "draw (u', c') (map (pair_at (pairCallback u) m) [i ..< i + k]) = map (nth xs) [i ..< i + k]"
    unfolding draw_def map_map using read_pair [OF g(2)] k(1) by (auto simp: g(3) list(1))
  moreover have "map (nth xs) [i ..< i + k] = take k (drop i xs)"
    using k(1) by (intro nth_equalityI) simp_all
  moreover have "page_sizes m u'" "\<exists>b. c' = with_arg ctx b" using g(2) by (auto simp: on_page_def)
  ultimately show ?thesis using g by auto
qed

lemma review_opens:
  assumes "prints h ctx scr"
  shows "pairCallback (ui_display_single_action_sign_flow_nbgl ctx u) = (if currentActionNumber ctx = 1 then SinglePairs else MultiPairs)"
    and "unat (nbPairs (ui_display_single_action_sign_flow_nbgl ctx u))
      = length (pair_list (pairCallback (ui_display_single_action_sign_flow_nbgl ctx u)) ctx scr) mod 256"
    and "page_sizes m (ui_display_single_action_sign_flow_nbgl ctx u) = page_sizes m u"
proof -
  have n: "argumentCount (content ctx) = of_nat (length scr)" using assms by (simp add: prints_def)
  show "pairCallback (ui_display_single_action_sign_flow_nbgl ctx u) = (if currentActionNumber ctx = 1 then SinglePairs else MultiPairs)"
    "page_sizes m (ui_display_single_action_sign_flow_nbgl ctx u) = page_sizes m u"
    by (simp_all add: ui_display_single_action_sign_flow_nbgl_def page_sizes_def)
  have "unat (2 + of_nat (length scr) :: u8) = (length scr + 2) mod 256" "unat (of_nat (length scr) + 3 :: u8) = (length scr + 3) mod 256"
    using unat_of_nat [of "length scr + 2", where 'a = 8] unat_of_nat [of "length scr + 3", where 'a = 8] by simp_all
  then show "unat (nbPairs (ui_display_single_action_sign_flow_nbgl ctx u))
      = length (pair_list (pairCallback (ui_display_single_action_sign_flow_nbgl ctx u)) ctx scr) mod 256"
    by (simp add: ui_display_single_action_sign_flow_nbgl_def n pair_list_def ac_simps)
qed
text \<open>The user goes through the pages in any order; a page is its first index and its number of pairs.\<close>

fun draw_pages :: "(bytes \<Rightarrow> bytes option) \<Rightarrow> nat \<Rightarrow> (nat \<times> nat) list \<Rightarrow> nbgl_t \<times> 'h txProcessingContext_t
    \<Rightarrow> (bytes \<times> bytes) list list result" where
  "draw_pages ripemd160 m [] s = Inr []"
| "draw_pages ripemd160 m ((i, k) # pages) s =
     andThen (get_pairs ripemd160 m i k s) (\<lambda>(ps, s).
     andThen (draw_pages ripemd160 m pages s) (\<lambda>rest. Inr (draw s ps # rest)))"

definition pages_of :: "nat \<Rightarrow> 'a list \<Rightarrow> (nat \<times> nat) list \<Rightarrow> bool" where
  "pages_of m xs pages \<longleftrightarrow> (\<forall>(i, k) \<in> set pages. i + k \<le> length xs \<and> k \<le> m)"

lemma pages_show:
  assumes p: "prints h ctx scr" and xs: "length (pair_list cb ctx scr) \<le> 255"
  shows "pages_of m (pair_list cb ctx scr) pages \<Longrightarrow> page_sizes m u \<Longrightarrow> pairCallback u = cb \<Longrightarrow>
    draw_pages h m pages (u, with_arg ctx a) = Inr (map (\<lambda>(i, k). take k (drop i (pair_list cb ctx scr))) pages)"
proof (induction pages arbitrary: u a)
  case (Cons page pages)
  obtain i k where page: "page = (i, k)" by (cases page)
  have k: "i + k \<le> length (pair_list cb ctx scr)" "k \<le> m" and rest: "pages_of m (pair_list cb ctx scr) pages"
    using Cons.prems(1) by (simp_all add: pages_of_def page)
  obtain ps u' c' b where g: "get_pairs h m i k (u, with_arg ctx a) = Inr (ps, u', c')"
    "draw (u', c') ps = take k (drop i (pair_list cb ctx scr))" "page_sizes m u'" "pairCallback u' = cb" "c' = with_arg ctx b"
    using page_shows [OF p Cons.prems(2) _ xs k, of a] Cons.prems(3) by auto
  show ?case using Cons.IH [OF rest g(3,4), of b] g by (simp add: page)
qed simp

text \<open>An action of a transaction under review.\<close>

lemma action_pages:
  assumes d: "digest_32 ops" and ok: "act_ok ops ripemd160 allowed a" and p: "presents ops ripemd160 n i a c"
    and s: "page_sizes m u" and n: "n < 2 ^ 32"
    and u0: "u0 = ui_display_single_action_sign_flow_nbgl c u"
    and xs: "xs = pair_list (if n = 1 then SinglePairs else MultiPairs) c (body_screens ops ripemd160 (act_body a))"
    and l: "length xs \<le> 255" and pages: "pages_of m xs pages"
  shows "unat (nbPairs u0) = length xs \<and> draw_pages ripemd160 m pages (u0, c) = Inr (map (\<lambda>(i, k). take k (drop i xs)) pages)"
proof -
  note sh = action_shown [OF d ok p]
  note opens = review_opens [OF sh(1), where u = u]
  have "(currentActionNumber c = 1) = (n = 1)"
    using p n by (simp add: presents_def word_unat_eq_iff unat_of_nat)
  then have cb: "pairCallback u0 = (if n = 1 then SinglePairs else MultiPairs)" using opens(1) by (simp add: u0)
  have "unat (nbPairs u0) = length xs" using opens(2) l cb unfolding u0 xs by simp
  moreover have "draw_pages ripemd160 m pages (u0, with_arg c (arg (content c)))
      = Inr (map (\<lambda>(i, k). take k (drop i xs)) pages)"
    using pages_show [OF sh(1) l [unfolded xs] pages [unfolded xs] _ cb] opens(3) [where m = m] s by (simp add: u0 xs)
  moreover have "with_arg c (arg (content c)) = c" by (simp add: with_arg_def)
  ultimately show ?thesis by simp
qed

section \<open>The switch of the setting\<close>

text \<open>The switch on the settings page shows the stored setting, from the opening of the page on, after any touches.\<close>

definition switch_true :: "internalStorage_t \<times> nbgl_t \<Rightarrow> bool" where
  "switch_true s \<longleftrightarrow> initState (switches (snd s)) = is_data_allowed (fst s)"

lemma switch_opens: "switch_true (storage, ui_idle_nbgl t version storage u)"
  by (simp add: switch_true_def ui_idle_nbgl_def)

lemma switch_touched:
  assumes "switch_true s"
  shows "switch_true (controlsCallback t token s)"
    and "is_data_allowed (fst (controlsCallback t token s)) = (is_data_allowed (fst s) \<noteq> (token = t))"
  using assms data_setting.switch_on by (auto simp: switch_true_def controlsCallback_def Let_def)

end
