(* ===== verification/Eos_Desktop.thy ===== *)
theory Eos_Desktop
  imports Eos_Looking Eos_Main
begin

text \<open>
  The desktop program of \<^verbatim>\<open>desktop/main.c\<close>, which prints a transaction: it is followed from the hexadecimal
  text to the last line, and its own transactions are those of the specification.
\<close>

unbundle bit_operations_syntax

section \<open>The program\<close>

text \<open>What \<^verbatim>\<open>puts\<close> and \<^verbatim>\<open>printf\<close> write; \<^verbatim>\<open>puts\<close> reads up to the zero byte, which must be in the array.\<close>

definition puts :: "bytes \<Rightarrow> bytes result" where
  "puts m = andThen (strlen m) (\<lambda>n. Inr (take n m @ [10]))"

text \<open>\<^verbatim>\<open>sscanf (pos, "%2hhx", &b)\<close> on two hexadecimal digits, which is all that the program gives it.\<close>

definition hex_digit_value :: "u8 \<Rightarrow> nat option" where
  "hex_digit_value c =
     (if 48 \<le> c \<and> c \<le> 57 then Some (unat c - 48)
      else if 97 \<le> c \<and> c \<le> 102 then Some (unat c - 87)
      else if 65 \<le> c \<and> c \<le> 70 then Some (unat c - 55) else None)"

definition sscanf_2hhx :: "bytes \<Rightarrow> u8 option" where
  "sscanf_2hhx s =
     (case s of
        c # d # _ \<Rightarrow> Option.bind (hex_digit_value c) (\<lambda>v. map_option (\<lambda>w. of_nat (16 * v + w)) (hex_digit_value d))
      | _ \<Rightarrow> None)"

text \<open>The loop, with the number of rounds left.\<close>

fun hex_to_bytes_loop :: "nat \<Rightarrow> bytes \<Rightarrow> nat \<Rightarrow> bytes \<Rightarrow> bytes result" where
  "hex_to_bytes_loop 0 pos count buffer = Inr buffer"
| "hex_to_bytes_loop (Suc n) pos count buffer =
     andThen (case sscanf_2hhx pos of None \<Rightarrow> Inr buffer | Some b \<Rightarrow> mem_write buffer count [b])
       (hex_to_bytes_loop n (drop 2 pos) (Suc count))"

definition hex_to_bytes :: "bytes \<Rightarrow> nat \<Rightarrow> bytes \<Rightarrow> nat \<Rightarrow> (int \<times> bytes) result" where
  "hex_to_bytes hex hex_len buffer buffer_len =
     (if hex_len mod 2 \<noteq> 0 then Inr (-1, buffer)
      else if hex_len div 2 \<noteq> buffer_len then Inr (-1, buffer)
      else andThen (hex_to_bytes_loop (hex_len div 2) hex 0 buffer) (\<lambda>buffer. Inr (0, buffer)))"

text \<open>
  The program is built for a desktop, where a plain \<^verbatim>\<open>char\<close> is signed; on the devices, whose parser it shares, it is
  not. The one place where that matters is the number of arguments, which is a \<^verbatim>\<open>char\<close>: the sum that
  \<^verbatim>\<open>processEosioUpdateAuth\<close> makes in it overflows from 128 on. Up to 127, which is all that is claimed below,
  the two are the same.
\<close>

definition count_no_overflow_signed :: "u8 \<Rightarrow> u32 \<Rightarrow> u8 option" where
  "count_no_overflow_signed a b = (if sint a + uint b < 2 ^ 7 then Some (a + ucast b) else None)"

lemma sint_char: "unat (a :: u8) < 128 \<Longrightarrow> sint a = int (unat a)"
  by (simp add: sint_uint signed_take_bit_int_eq_self uint_nat del: of_nat_unat)

lemma char_count_signed:
  assumes a: "unat a < 128" and c: "unat c < 128"
  shows "count_no_overflow_signed a b = Some c \<longleftrightarrow> count_no_overflow a b = Some c"
proof -
  have u: "sint a + uint b < 2 ^ 7 \<longleftrightarrow> unat a + unat b < 128"
    unfolding sint_char [OF a] uint_nat [of b] by (simp del: of_nat_unat flip: of_nat_add)
  have s: "unat (a + ucast b) = unat a + unat b" if "unat a + unat b < 2 ^ 8"
  proof -
    have "unat (ucast b :: u8) = unat b" using that by (simp add: unsigned_ucast_eq take_bit_nat_eq_self)
    then show ?thesis using that by (simp add: unat_word_ariths)
  qed
  show ?thesis
    unfolding count_no_overflow_signed_def count_no_overflow_def u
    using s c by (auto split: if_splits)
qed

text \<open>One action: what is printed, and the context afterwards.\<close>

fun print_arguments :: "(bytes \<Rightarrow> bytes option) \<Rightarrow> nat \<Rightarrow> u8 \<Rightarrow> 'h txProcessingContext_t \<Rightarrow> (bytes \<times> 'h txProcessingContext_t) result" where
  "print_arguments ripemd160 0 i ctx = Inr ([], ctx)"
| "print_arguments ripemd160 (Suc n) i ctx =
     andThen (printArgument ripemd160 i ctx) (\<lambda>ctx.
     andThen (puts (label (arg (content ctx)))) (\<lambda>l.
     andThen (puts (data (arg (content ctx)))) (\<lambda>d.
     andThen (print_arguments ripemd160 n (i + 1) ctx) (\<lambda>(out, ctx).
       Inr (l @ d @ [10, 10] @ out, ctx)))))"

definition onActionReady :: "(bytes \<Rightarrow> bytes option) \<Rightarrow> 'h txProcessingContext_t \<Rightarrow> (bytes \<times> 'h txProcessingContext_t) result" where
  "onActionReady ripemd160 ctx =
     andThen (puts (contract (content ctx))) (\<lambda>c.
     andThen (puts (action (content ctx))) (\<lambda>a.
     andThen (print_arguments ripemd160 (nat (sint (argumentCount (content ctx)))) 0 ctx) (\<lambda>(out, ctx').
       Inr (cstr ''--------------- Confirm action #'' @ int_text (sint (currentActionIndex ctx)) @ cstr '' ---------------'' @ [10]
         @ cstr ''Contract'' @ [10] @ c @ [10, 10] @ cstr ''Action'' @ [10] @ a @ [10, 10] @ out, ctx'))))"

text \<open>The loop of \<^verbatim>\<open>main\<close>: what it prints, and the context at the end, unless it failed.\<close>

partial_function (option) main_loop :: "'h hash_ops \<Rightarrow> (bytes \<Rightarrow> bytes option) \<Rightarrow> bytes \<Rightarrow> 'h txProcessingContext_t
    \<Rightarrow> parserStatus_e \<Rightarrow> (bytes \<times> 'h txProcessingContext_t option) result option" where
  "main_loop ops ripemd160 buffer ctx status =
     (if status = STREAM_FAULT then Some (Inr (cstr ''FAILED'', None))
      else
        case (if status = STREAM_ACTION_READY then onActionReady ripemd160 ctx else Inr ([], ctx)) of
          Inl e \<Rightarrow> Some (Inl e)
        | Inr (out, ctx) \<Rightarrow>
            Option.bind (parseTx ops buffer ctx (Some 0) (of_nat (length buffer))) (\<lambda>r. case r of
                Inl e \<Rightarrow> Some (Inl e)
              | Inr (ctx, status) \<Rightarrow>
                  if status = STREAM_FINISHED then Some (Inr (out, Some ctx))
                  else Option.bind (main_loop ops ripemd160 buffer ctx status) (\<lambda>r. case r of
                      Inl e \<Rightarrow> Some (Inl e)
                    | Inr (out', end) \<Rightarrow> Some (Inr (out @ out', end)))))"

text \<open>The hash of the desktop's \<^verbatim>\<open>cx.c\<close>: the new state, and the digest after the last part.\<close>

definition CX_LAST :: u8 where "CX_LAST = 1"

definition cx_sha256_init :: "'h hash_ops \<Rightarrow> 'h" where
  "cx_sha256_init ops = hash_init ops"

definition cx_hash :: "'h hash_ops \<Rightarrow> 'h \<Rightarrow> u8 \<Rightarrow> bytes \<Rightarrow> ('h \<times> bytes option) option" where
  "cx_hash ops x flag bs =
     Option.bind (hash_update ops x bs) (\<lambda>x.
       if flag AND CX_LAST \<noteq> 0 then map_option (\<lambda>(digest, x). (x, Some digest)) (hash_final ops x) else Some (x, None))"

text \<open>\<^verbatim>\<open>printf ("%x", b)\<close>: no leading zero.\<close>

definition hex_short :: "u8 \<Rightarrow> bytes" where
  "hex_short b = (if unat b < 16 then [hex_digits ! unat b] else map (nth hex_digits) (nibbles b))"

text \<open>The global content is zero; \<open>stack\<close> is what the array on the stack holds at first.\<close>

definition global_content :: txProcessingContent_t where
  "global_content = \<lparr>argumentCount = 0, contract = zeros 14, action = zeros 14, arg = \<lparr>label = zeros 32, data = zeros 128\<rparr>\<rparr>"

definition desktop_main :: "'h hash_ops \<Rightarrow> (bytes \<Rightarrow> bytes option) \<Rightarrow> (nat \<Rightarrow> u8) \<Rightarrow> bytes \<Rightarrow> (bytes \<times> int) result option" where
  "desktop_main ops ripemd160 stack tx =
     (let buffer = map stack [0 ..< length tx div 2] in
      thenRun (hex_to_bytes tx (length tx) buffer (length buffer)) (\<lambda>(_, buffer).
      runThen (parseTx ops buffer (initTxContext ops global_content 1) (Some 0) (of_nat (length buffer))) (\<lambda>(ctx, status).
      runThen (main_loop ops ripemd160 buffer ctx status) (\<lambda>(out, end).
        case end of
          None \<Rightarrow> Some (Inr (out, 1))
        | Some ctx \<Rightarrow>
            thenRun (CX_ASSERT (cx_hash ops (sha256 ctx) CX_LAST [])) (\<lambda>(_, d).
            thenRun (case d of None \<Rightarrow> Inr (zeros 32) | Some d \<Rightarrow> mem_write (zeros 32) 0 d) (\<lambda>digest.
              Some (Inr (out @ cstr ''Digest: '' @ concat (map hex_short digest) @ [10], 0))))))))"

section \<open>Hexadecimal text\<close>

lemma hex_digit_value_digit: "k < 16 \<Longrightarrow> hex_digit_value (hex_digits ! k) = Some k"
proof -
  have "\<forall>k \<in> {0 ..< 16}. hex_digit_value (hex_digits ! k) = Some k"
    by (simp add: hex_digit_value_def hex_digits_def cstr_def atLeastLessThan_nat_numeral)
  then show "k < 16 \<Longrightarrow> hex_digit_value (hex_digits ! k) = Some k" by simp
qed

lemma sscanf_digits: "sscanf_2hhx (map (nth hex_digits) (nibbles c) @ s) = Some c"
proof -
  have n: "unat c div 16 < 16" "unat c mod 16 < 16" using nibbles_less [of c] by (auto simp: nibbles_def)
  have "(of_nat (16 * (unat c div 16) + unat c mod 16) :: u8) = c" by (simp only: mult_div_mod_eq) simp
  then show ?thesis using n by (simp only: sscanf_2hhx_def nibbles_def hex_digit_value_digit list.map append.simps list.case bind.simps option.map)
qed

lemma hex_to_bytes_loop_eq:
  assumes "count + length bs \<le> length buffer"
  shows "hex_to_bytes_loop (length bs) (hex_string bs) count buffer = Inr (take count buffer @ bs @ drop (count + length bs) buffer)"
  using assms
proof (induction bs arbitrary: count buffer)
  case (Cons b bs)
  have h: "hex_string (b # bs) = map (nth hex_digits) (nibbles b) @ hex_string bs" by (simp add: hex_string_def)
  have d: "drop 2 (hex_string (b # bs)) = hex_string bs" by (simp add: h nibbles_def numeral_2_eq_2)
  have w: "mem_write buffer count [b] = Inr (take count buffer @ [b] @ drop (Suc count) buffer)"
    using Cons.prems by (simp add: mem_write_def)
  have "hex_to_bytes_loop (length bs) (hex_string bs) (Suc count) (take count buffer @ [b] @ drop (Suc count) buffer)
    = Inr (take count buffer @ (b # bs) @ drop (count + length (b # bs)) buffer)"
    using Cons.IH [of "Suc count" "take count buffer @ [b] @ drop (Suc count) buffer"] Cons.prems by (simp add: min_def add.commute)
  then show ?case by (simp add: d w) (simp add: h sscanf_digits w)
qed simp

lemma hex_to_bytes_eq:
  assumes "length buffer = length bs"
  shows "hex_to_bytes (hex_string bs) (length (hex_string bs)) buffer (length buffer) = Inr (0, bs)"
  using hex_to_bytes_loop_eq [of 0 bs buffer] assms by (simp add: hex_to_bytes_def)

section \<open>What is printed for an action\<close>

definition screen_lines :: "screen \<Rightarrow> bytes" where
  "screen_lines s = (case read_screen s of (l, d) \<Rightarrow> l @ [10] @ d @ [10] @ [10, 10])"

definition action_lines :: "nat \<Rightarrow> bytes \<Rightarrow> bytes \<Rightarrow> screen list \<Rightarrow> bytes" where
  "action_lines i c a scr =
     cstr ''--------------- Confirm action #'' @ int_text (int (Suc i)) @ cstr '' ---------------'' @ [10]
       @ cstr ''Contract'' @ [10] @ c @ [10] @ [10, 10] @ cstr ''Action'' @ [10] @ a @ [10] @ [10, 10]
       @ concat (map screen_lines scr)"

definition screen_fits :: "screen \<Rightarrow> bool" where
  "screen_fits s \<longleftrightarrow> length (fst s) < 32 \<and> length (snd s) < 128"

lemma puts_padded: "length txt < n \<Longrightarrow> puts (padded n txt) = Inr (c_string (padded n txt) @ [10])"
proof -
  assume l: "length txt < n"
  then have z: "0 \<in> set (padded n txt)" by (simp add: padded_def zeros_def)
  have "take (length (c_string m)) m = c_string m" for m by (simp add: c_string_def takeWhile_eq_take [symmetric] flip: takeWhile_eq_take)
  then show ?thesis using z by (simp add: puts_def strlen_def flip: c_string_def)
qed

lemma print_arguments_eq:
  assumes p: "prints h ctx scr" and f: "\<forall>s \<in> set scr. screen_fits s"
  shows "k + n = length scr \<Longrightarrow>
    \<exists>a'. print_arguments h n (of_nat k) (with_arg ctx a) = Inr (concat (map screen_lines (drop k scr)), with_arg ctx a')"
proof (induction n arbitrary: k a)
  case 0
  then show ?case by auto
next
  case (Suc n)
  let ?s = "scr ! k"
  have k: "k < length scr" using Suc.prems by simp
  have one: "printArgument h (of_nat k) (with_arg ctx a) = Inr (with_arg ctx (show_screen ?s))" using p k by (simp add: prints_def)
  have fit: "length (fst ?s) < 32" "length (snd ?s) < 128" using f k by (simp_all add: screen_fits_def)
  obtain a' where rest: "print_arguments h n (of_nat (Suc k)) (with_arg ctx (show_screen ?s)) = Inr (concat (map screen_lines (drop (Suc k) scr)), with_arg ctx a')"
    using Suc.IH [of "Suc k"] Suc.prems by auto
  have d: "drop k scr = ?s # drop (Suc k) scr" using k by (simp add: Cons_nth_drop_Suc)
  have p: "puts (label (show_screen ?s)) = Inr (fst (read_screen ?s) @ [10])" "puts (data (show_screen ?s)) = Inr (snd (read_screen ?s) @ [10])"
    using fit by (simp_all add: show_screen_def shown_def puts_padded read_screen_def)
  have i: "(of_nat k :: u8) + 1 = of_nat (Suc k)" by simp
  show ?case
    unfolding print_arguments.simps one andThen.simps with_arg_simps p i rest prod.case d
    by (intro exI [of _ a']) (simp add: screen_lines_def [of ?s] case_prod_unfold)
qed

text \<open>Every screen of an action fits, with its zero byte.\<close>

lemma name_screen_fits: "length l < 32 \<Longrightarrow> screen_fits (l, name_text v)"
  using length_name_text [of v] by (simp add: screen_fits_def)

lemma quantity_screen_fits: "length l < 32 \<Longrightarrow> quantity_fine q \<Longrightarrow> screen_fits (l, quantity_shown q)"
  using length_asset_text [of "unat (symbol_precision (snd q))" "fst q" "snd q"]
  by (simp add: screen_fits_def quantity_fine_def asset_fine_def quantity_shown_def asset_shown_def)

lemma number_screen_fits: "length l < 32 \<Longrightarrow> n < 10 ^ 20 \<Longrightarrow> screen_fits (l, dec_string n)"
  using length_dec_string [of n 20] by (simp add: screen_fits_def)

lemma key_screen_fits: "length l < 32 \<Longrightarrow> key_fine h k \<Longrightarrow> screen_fits (l, key_text h k)"
  using key_screen.text_fits [of k h] by (simp add: screen_fits_def key_fine_def)

lemma nth_label_length: "length pre + length post < 27 \<Longrightarrow> i \<le> 255 \<Longrightarrow> length (nth_label pre i post) < 32"
  using length_dec_string [of "i + 1" 3] by (simp add: nth_label_def)

lemma two_screens_fit:
  "(\<And>i. i < length xs \<Longrightarrow> screen_fits (f i (xs ! i)) \<and> screen_fits (g i (xs ! i))) \<Longrightarrow> \<forall>s \<in> set (two_screens f g xs). screen_fits s"
  by (auto simp: two_screens_def in_set_enumerate_eq)

lemma weight_fits:
  "length l < 32 \<Longrightarrow> screen_fits (l, dec_string (unat (w :: u16)))"
  "length l < 32 \<Longrightarrow> screen_fits (l, dec_string (unat (v :: u32)))"
  "length l < 32 \<Longrightarrow> screen_fits (l, dec_string (unat (u :: u64)))"
proof -
  have "unat w < 2 ^ 16" using unsigned_less [of w] by simp
  moreover have "unat v < 2 ^ 32" using unsigned_less [of v] by simp
  moreover have "unat u < 2 ^ 64" using unsigned_less [of u] by simp
  ultimately have "unat w < 10 ^ 20" "unat v < 10 ^ 20" "unat u < 10 ^ 20" by simp_all
  then show "length l < 32 \<Longrightarrow> screen_fits (l, dec_string (unat w))" "length l < 32 \<Longrightarrow> screen_fits (l, dec_string (unat v))"
    "length l < 32 \<Longrightarrow> screen_fits (l, dec_string (unat u))"
    by (simp_all add: number_screen_fits)
qed

lemma section_screens_fit:
  assumes "length (authority_bytes auth) \<le> 487" and "authority_fine h auth"
  shows "\<forall>s \<in> set (key_screens h (auth_keys auth) @ account_screens (auth_accounts auth) @ delay_screens (auth_delays auth)). screen_fits s"
proof -
  let ?b = "UpdateAuth 0 0 0 auth"
  have n: "length (auth_keys auth) \<le> 127" "length (auth_accounts auth) \<le> 127" "length (auth_delays auth) \<le> 127"
    using action_screens_size(2) [of h ?b] assms by simp_all
  have l: "length (nth_label ''Key #'' i '''') < 32" "length (nth_label ''Key #'' i '' Weight'') < 32"
    "length (nth_label ''Account #'' i '''') < 32" "length (nth_label ''Account #'' i '' Weight'') < 32"
    "length (nth_label ''Delay #'' i '''') < 32" "length (nth_label ''Delay #'' i '' Weight'') < 32" if "i < 127" for i
    using that by (simp_all add: nth_label_length)
  have p: "length (name_text v @ cstr ''@'' @ name_text w) < 128" for v w
    using length_name_text [of v] length_name_text [of w] by simp
  have k: "key_fine h (fst (auth_keys auth ! i))" if "i < length (auth_keys auth)" for i
    using assms(2) that by (simp add: authority_fine_def list_all_length)
  have "\<forall>s \<in> set (key_screens h (auth_keys auth)). screen_fits s"
    unfolding key_screens_def by (intro two_screens_fit conjI key_screen_fits weight_fits l k) (use n in auto)
  moreover have "\<forall>s \<in> set (account_screens (auth_accounts auth)). screen_fits s"
  proof -
    have "screen_fits (nth_label ''Account #'' i '''', name_text v @ cstr ''@'' @ name_text w)" if "i < 127" for i v w
      using p l(3) [OF that] by (simp add: screen_fits_def del: length_append)
    then show ?thesis unfolding account_screens_def by (intro two_screens_fit conjI weight_fits l) (use n in auto)
  qed
  moreover have "\<forall>s \<in> set (delay_screens (auth_delays auth)). screen_fits s"
    unfolding delay_screens_def by (intro two_screens_fit conjI weight_fits l) (use n in auto)
  ultimately show ?thesis by auto
qed

lemma action_screens_fit:
  assumes "action_fine h b"
  shows "\<forall>s \<in> set (action_screens h b). screen_fits s"
proof (cases b)
  case (UpdateAuth account permission parent auth)
  then show ?thesis using assms section_screens_fit [of auth h]
    by (simp add: name_screen_fits weight_fits ball_Un) (simp add: screen_fits_def)
next
  case (VoteProducer voter proxy producers)
  have "length (producer_label i n) < 32" for i n using length_producer_label [of i n] by simp
  then show ?thesis using VoteProducer by (auto simp: name_screen_fits)
qed (use assms in \<open>simp_all add: name_screen_fits quantity_screen_fits key_screen_fits weight_fits\<close>, auto simp: screen_fits_def)

lemma body_screens_fit:
  assumes "act_ok ops h allowed a" and "digest_32 ops"
  shows "\<forall>s \<in> set (body_screens ops h (act_body a)). screen_fits s"
proof (cases "act_body a")
  case (Decoded b)
  then show ?thesis using assms action_screens_fit [of h b] by (simp add: act_ok_def body_ok_def body_screens_def)
next
  case (Opaque name bs)
  then obtain c where c: "hash_of ops (leb_bytes (length bs) @ bs) = Some c" using assms by (auto simp: act_ok_def body_ok_def)
  then have "length c = 32" using assms(2) by (auto simp: hash_of_def digest_32_def bind_eq_Some_conv)
  then show ?thesis using c Opaque by (simp add: body_screens_def unknown_screens_def screen_fits_def)
qed

lemma onActionReady_eq:
  assumes d: "digest_32 ops" and ok: "act_ok ops h allowed a" and p: "presents ops h n i a c" and i: "i < 2 ^ 31 - 1"
    and few: "length (body_screens ops h (act_body a)) < 128"
  shows "\<exists>x. onActionReady h c = Inr (action_lines i (name_text (act_account a)) (name_text (body_name (act_body a)))
    (body_screens ops h (act_body a)), with_arg c x)"
proof -
  let ?scr = "body_screens ops h (act_body a)"
  have pr: "prints h c ?scr" using action_shown(1) [OF d ok p] .
  have c: "contract (content c) = padded 14 (name_text (act_account a))" "action (content c) = padded 14 (name_text (body_name (act_body a)))"
    "currentActionIndex c = of_nat (Suc i)" "length ?scr = unat (argumentCount (content c))"
    using p pr by (simp_all add: presents_def prints_def)
  have names: "puts (padded 14 (name_text v)) = Inr (name_text v @ [10])" for v
    using name_text_printable [of v] length_name_text [of v] by (simp add: puts_padded c_string_padded)
  have s: "sint (currentActionIndex c) = int (Suc i)"
  proof -
    have "signed_take_bit 31 (int (Suc i)) = int (Suc i)" using i by (intro signed_take_bit_int_eq_self) simp_all
    then show ?thesis unfolding c(3) by (simp only: signed_of_nat) simp
  qed
  have w: "with_arg c (arg (content c)) = c" by (simp add: with_arg_def)
  have n: "nat (sint (argumentCount (content c))) = length ?scr" using few c(4) by (simp add: sint_char)
  obtain x where "print_arguments h (length ?scr) 0 c = Inr (concat (map screen_lines ?scr), with_arg c x)"
    using print_arguments_eq [OF pr body_screens_fit [OF ok d], of 0 "length ?scr" "arg (content c)"] unfolding w by auto
  then show ?thesis by (auto simp: onActionReady_def n c(1,2) names s action_lines_def)
qed

section \<open>The loop follows the session\<close>

text \<open>One call of the parser, with the whole text as the command that it may or may not load.\<close>

lemma parse_consumes:
  assumes ok: "stream_ok mem ctx" and cmd: "command_ok mem buffer len" and d: "digest_32 ops"
    and c: "consume ops ctx (input_bytes mem ctx buffer len) = Some (c, r, st)"
  shows "\<exists>c'. parseTx ops mem ctx buffer len = Some (Inr (c', st)) \<and> blank c' = c \<and> bytes_left mem c' = r
    \<and> (st \<noteq> STREAM_FAULT \<longrightarrow> stream_ok mem c')"
proof -
  let ?start = "if commandLength ctx = 0 then ctx\<lparr>workBuffer := buffer, commandLength := len\<rparr> else ctx"
  have "abstracted mem (parseTx ops mem ctx buffer len) = Some (c, r, st)" using parseTx_refines [OF ok cmd d] c by simp
  then obtain c' where c': "parseTx ops mem ctx buffer len = Some (Inr (c', st))" "blank c' = c" "bytes_left mem c' = r"
    by (auto simp: abstracted_def split: option.splits sum.splits)
  have len: "buffer = None \<Longrightarrow> len = 0" using cmd by (simp add: command_ok_def)
  have ok': "stream_ok mem ?start"
    using ok cmd len by (cases buffer) (auto simp: stream_ok_def chunk_ok_def buffers_ok_def position_ok_def command_ok_def)
  have p: "processTxInternal ops mem ?start = Some (Inr (c', st))" using c'(1) by (simp add: parseTx_def)
  have "st \<noteq> STREAM_FAULT \<longrightarrow> stream_ok mem c'"
    using processTxInternal_returns [OF ok' d] p by (auto simp: kept_ok_def)
  then show ?thesis using c' by blast
qed

text \<open>Unless the parser waits for bytes, it answers without them.\<close>

lemma consume_flags:
  assumes "length bs < 2 ^ 32"
  shows "confirmProcessing c \<Longrightarrow> consume ops c bs = Some (blank (c\<lparr>confirmProcessing := False\<rparr>), bs, STREAM_CONFIRM_PROCESSING)"
    and "\<not> confirmProcessing c \<Longrightarrow> actionReady c \<Longrightarrow> consume ops c bs = Some (blank (c\<lparr>actionReady := False\<rparr>), bs, STREAM_ACTION_READY)"
    and "\<not> confirmProcessing c \<Longrightarrow> \<not> actionReady c \<Longrightarrow> state c = TLV_DONE \<Longrightarrow> consume ops c bs = Some (blank c, bs, STREAM_FINISHED)"
proof -
  have n: "length bs - unat (of_nat (length bs) :: u32) = 0" using assms by (simp add: unat_of_nat_small)
  show "confirmProcessing c \<Longrightarrow> consume ops c bs = Some (blank (c\<lparr>confirmProcessing := False\<rparr>), bs, STREAM_CONFIRM_PROCESSING)"
    using n processTxInternal_round(3) [of ops bs "load bs c" "load bs (c\<lparr>confirmProcessing := False\<rparr>)" STREAM_CONFIRM_PROCESSING]
    by (auto simp: consume_eq_Some tx_round_def load_def set_chunk_commute)
  show "\<not> confirmProcessing c \<Longrightarrow> actionReady c \<Longrightarrow> consume ops c bs = Some (blank (c\<lparr>actionReady := False\<rparr>), bs, STREAM_ACTION_READY)"
    using n processTxInternal_round(3) [of ops bs "load bs c" "load bs (c\<lparr>actionReady := False\<rparr>)" STREAM_ACTION_READY]
    by (auto simp: consume_eq_Some tx_round_def load_def set_chunk_commute)
  show "\<not> confirmProcessing c \<Longrightarrow> \<not> actionReady c \<Longrightarrow> state c = TLV_DONE \<Longrightarrow> consume ops c bs = Some (blank c, bs, STREAM_FINISHED)"
    using n processTxInternal_round(3) [of ops bs "load bs c" "load bs c" STREAM_FINISHED]
    by (auto simp: consume_eq_Some tx_round_def load_def)
qed

lemma consume_nothing_any:
  assumes "consume ops c [] = Some (c', r, st)" and "st \<noteq> STREAM_PROCESSING" and "length bs < 2 ^ 32"
  shows "r = [] \<and> consume ops c bs = Some (c', bs, st)"
proof -
  have "confirmProcessing c \<or> actionReady c \<or> state c = TLV_DONE"
  proof (rule ccontr)
    assume "\<not> ?thesis"
    then have "waiting (blank c)" by (simp add: waiting_def blank_def)
    from consume_nothing [OF this, of ops] show False using assms(1,2) by simp
  qed
  then show ?thesis
    using assms(1) consume_flags [of "[]" c ops] consume_flags [OF assms(3), of c ops] by auto
qed

text \<open>
  What the loop prints for the stops of a session, when the parser's next answer is the first of them: the
  actions that are ready. The bytes that are left are those of the session, unless it does not need any.
\<close>

definition told :: "('h txProcessingContext_t \<Rightarrow> bytes) \<Rightarrow> (parserStatus_e \<times> 'h txProcessingContext_t) list \<Rightarrow> bytes" where
  "told f log = concat (map (\<lambda>(st, c). if st = STREAM_ACTION_READY then f c else []) log)"

definition tells :: "(bytes \<Rightarrow> bytes option) \<Rightarrow> ('h txProcessingContext_t \<Rightarrow> bytes) \<Rightarrow> 'h txProcessingContext_t \<Rightarrow> bool" where
  "tells h f c \<longleftrightarrow> (\<forall>c'. blank c' = c \<longrightarrow> (\<forall>a. \<exists>x. onActionReady h (with_arg c' a) = Inr (f c, with_arg c' x)))"

lemma blank_arg: "blank (with_arg c a) = with_arg (blank c) a"
  by (simp add: blank_def set_chunk_def with_arg_def)

lemma consume_arg:
  assumes "consume ops c bs = Some (c', r, st)"
  shows "consume ops (with_arg c a) bs = Some (with_arg c' a, r, st)"
proof -
  obtain d where d: "processTxInternal ops bs (load bs c) = Some (Inr (d, st))" "c' = blank d" "r = drop (length bs - unat (commandLength d)) bs"
    using assms by (auto simp: consume_eq_Some)
  have "load bs (with_arg c a) = with_arg (load bs c) a" by (simp add: load_def set_chunk_def with_arg_def)
  then show ?thesis using processTxInternal_unseen [OF d(1), of a] d(2,3) by (simp add: consume_eq_Some blank_arg)
qed

lemma stream_ok_arg [simp]: "stream_ok mem (with_arg c a) = stream_ok mem c"
  by (simp add: stream_ok_def buffers_ok_def chunk_ok_def position_ok_def content_ok_def)

lemma input_bytes_arg [simp]: "input_bytes mem (with_arg c a) w n = input_bytes mem c w n" "bytes_left mem (with_arg c a) = bytes_left mem c"
  by (cases "workBuffer c"; simp add: input_bytes_def bytes_left_def)+

text \<open>The parser's next call in the program.\<close>

lemma parse_step:
  assumes ok: "stream_ok mem ctx" and m: "length mem < 2 ^ 32" and d: "digest_32 ops" and b: "blank ctx = with_arg (blank c) a"
    and bs: "bs = [] \<or> input_bytes mem ctx (Some 0) (of_nat (length mem)) = bs"
    and c: "consume ops c bs = Some (c1, r, st)" and st: "st \<noteq> STREAM_PROCESSING" "st \<noteq> STREAM_FAULT"
  shows "\<exists>ctx1. parseTx ops mem ctx (Some 0) (of_nat (length mem)) = Some (Inr (ctx1, st)) \<and> blank ctx1 = with_arg c1 a
    \<and> stream_ok mem ctx1 \<and> (r = [] \<or> input_bytes mem ctx1 (Some 0) (of_nat (length mem)) = r)"
proof -
  let ?n = "of_nat (length mem) :: u32" and ?in = "input_bytes mem ctx (Some 0) (of_nat (length mem))"
  have cmd: "command_ok mem (Some 0) ?n" using m by (simp add: command_ok_def unat_of_nat_small)
  have l: "length ?in < 2 ^ 32"
    using m by (auto simp: input_bytes_def command_bytes_def bytes_left_def split: option.splits)
  obtain r' where r': "consume ops c ?in = Some (c1, r', st)" "r = [] \<or> r' = r"
    using bs c consume_nothing_any [OF _ st(1) l] by blast
  have "consume ops ctx ?in = Some (with_arg c1 a, r', st)"
    using consume_arg [OF r'(1), of a] b by (metis consume_blank blank_arg)
  from parse_consumes [OF ok cmd d this] obtain ctx1 where p: "parseTx ops mem ctx (Some 0) ?n = Some (Inr (ctx1, st))"
    "blank ctx1 = with_arg c1 a" "bytes_left mem ctx1 = r'" "stream_ok mem ctx1" using st(2) by auto
  have "r = [] \<or> input_bytes mem ctx1 (Some 0) ?n = r"
    using r'(2) p(3) by (auto simp: input_bytes_def bytes_left_def split: option.splits)
  then show ?thesis using p by blast
qed

definition next_call :: "'h hash_ops \<Rightarrow> (bytes \<Rightarrow> bytes option) \<Rightarrow> bytes \<Rightarrow> 'h txProcessingContext_t
    \<Rightarrow> (bytes \<times> 'h txProcessingContext_t option) result option" where
  "next_call ops h mem ctx = runThen (parseTx ops mem ctx (Some 0) (of_nat (length mem))) (\<lambda>(ctx, status).
     if status = STREAM_FINISHED then Some (Inr ([], Some ctx)) else main_loop ops h mem ctx status)"

lemma main_loop_next:
  "status \<noteq> STREAM_FAULT \<Longrightarrow> main_loop ops h mem ctx status =
     thenRun (if status = STREAM_ACTION_READY then onActionReady h ctx else Inr ([], ctx)) (\<lambda>(out, ctx).
     runThen (next_call ops h mem ctx) (\<lambda>(out', end). Some (Inr (out @ out', end))))"
  by (subst main_loop.simps)
    (auto simp: next_call_def thenRun_def runThen_def bind_assoc split: sum.splits option.splits if_splits intro!: Option.bind_cong)

lemma program_follows:
  assumes m: "length mem < 2 ^ 32" and d: "digest_32 ops"
  shows "session ops c cs log \<Longrightarrow> cs = [bs] \<Longrightarrow> log \<noteq> [] \<Longrightarrow> fst (last log) = STREAM_FINISHED \<Longrightarrow>
    \<forall>(st, c) \<in> set log. st = STREAM_ACTION_READY \<longrightarrow> tells h f c \<Longrightarrow>
    stream_ok mem ctx \<Longrightarrow> blank ctx = with_arg (blank c) a \<Longrightarrow>
    bs = [] \<or> input_bytes mem ctx (Some 0) (of_nat (length mem)) = bs \<Longrightarrow>
    \<exists>ctx' x. next_call ops h mem ctx = Some (Inr (told f log, Some ctx')) \<and> blank ctx' = with_arg (snd (last log)) x"
proof (induction c cs log arbitrary: bs ctx a rule: session.induct)
  case (session_review c bs' c1 r status cs log)
  have st: "status \<noteq> STREAM_PROCESSING" "status \<noteq> STREAM_FAULT" "status \<noteq> STREAM_FINISHED"
    using session_review.hyps(2) by (auto simp: asks_def)
  have l: "log \<noteq> []" "fst (last log) = STREAM_FINISHED" using session_review.prems(3) st by (auto split: if_splits)
  have cs: "cs = []" "bs' = bs" using session_review.prems(1) by simp_all
  have c1: "consume ops c bs = Some (c1, r, status)" using session_review.hyps(1) cs by simp
  from parse_step [OF session_review.prems(5) m d session_review.prems(6,7) this st(1,2)]
  obtain ctx1 where p: "parseTx ops mem ctx (Some 0) (of_nat (length mem)) = Some (Inr (ctx1, status))" "blank ctx1 = with_arg c1 a"
    "stream_ok mem ctx1" "r = [] \<or> input_bytes mem ctx1 (Some 0) (of_nat (length mem)) = r" by blast
  have b1: "blank c1 = c1" using c1 by (auto simp: consume_eq_Some)
  obtain x where x: "(if status = STREAM_ACTION_READY then onActionReady h ctx1 else Inr ([], ctx1))
      = Inr (if status = STREAM_ACTION_READY then f c1 else [], with_arg ctx1 x)"
  proof (cases "status = STREAM_ACTION_READY")
    case True
    let ?c = "with_arg ctx1 (arg (content c1))"
    have "blank ?c = with_arg c1 (arg (content c1))" using p(2) by (simp add: blank_arg)
    then have "blank ?c = c1" by (simp add: with_arg_def)
    moreover have "tells h f c1" using session_review.prems(4) True by simp
    ultimately obtain y where "onActionReady h (with_arg ?c (arg (content ctx1))) = Inr (f c1, with_arg ?c y)"
      unfolding tells_def by blast
    moreover have "with_arg ?c (arg (content ctx1)) = ctx1" by (simp add: with_arg_def)
    ultimately show ?thesis using True that [of y] by (simp only: if_True simp_thms with_arg_simps)
  next
    case False
    have "ctx1 = with_arg ctx1 (arg (content ctx1))" by (simp add: with_arg_def)
    then show ?thesis using False that by metis
  qed
  have bx: "blank (with_arg ctx1 x) = with_arg (blank c1) x" using p(2) b1 by (simp add: blank_arg)
  obtain ctx' y where n: "next_call ops h mem (with_arg ctx1 x) = Some (Inr (told f log, Some ctx'))" "blank ctx' = with_arg (snd (last log)) y"
    using session_review.IH [OF _ l _ _ bx, of r] session_review.prems(4) p(3,4) cs by auto
  have "next_call ops h mem ctx = main_loop ops h mem ctx1 status" using p(1) st by (simp add: next_call_def runThen_def)
  also have "\<dots> = Some (Inr (told f ((status, c1) # log), Some ctx'))"
    unfolding main_loop_next [OF st(2)] x using n(1) by (simp add: runThen_def told_def)
  finally show ?case using n(2) l by auto
next
  case (session_stop c bs' c1 r status cs)
  have st: "status = STREAM_FINISHED" using session_stop.prems(3) by simp
  have "consume ops c bs = Some (c1, r, status)" using session_stop.hyps(1) session_stop.prems(1) by simp
  from parse_step [OF session_stop.prems(5) m d session_stop.prems(6,7) this] st
  obtain ctx1 where "parseTx ops mem ctx (Some 0) (of_nat (length mem)) = Some (Inr (ctx1, status))" "blank ctx1 = with_arg c1 a" by auto
  then show ?case using st by (auto simp: next_call_def runThen_def told_def)
qed auto

section \<open>The program on a transaction\<close>

lemma holds_blank: "holds_action (blank c) b = holds_action c b" "isKnownAction (blank c) = isKnownAction c"
  "content (blank c) = content c" "dataAllowed (blank c) = dataAllowed c" "dataChecksum (blank c) = dataChecksum c"
  "currentActionNumber (blank c) = currentActionNumber c" "currentActionIndex (blank c) = currentActionIndex c"
  by (simp_all add: blank_def set_chunk_def holds_action_def isKnownAction_def)

lemma presents_same: "presents ops h n i a (blank c) = presents ops h n i a c" "presents ops h n i a (with_arg c x) = presents ops h n i a c"
  unfolding presents_def with_arg_holds holds_blank with_arg_fields with_arg_simps by (rule refl)+

lemma desktop_prints:
  assumes law: "incremental ops" and d: "digest_32 ops" and ok: "tx_ok ops h True t" and n: "length (tx_actions t) < 2 ^ 31"
    and hash: "hash_update ops (hash_init ops) (signed_bytes t) = Some s" "hash_final ops s = Some (digest, s')"
    and len: "length (encoding t) < 2 ^ 32" and few: "\<forall>a \<in> set (tx_actions t). length (body_screens ops h (act_body a)) < 128"
  shows "desktop_main ops h stack (hex_string (encoding t)) = Some (Inr (
      concat (map (\<lambda>(i, a). action_lines i (name_text (act_account a)) (name_text (body_name (act_body a))) (body_screens ops h (act_body a)))
        (enumerate 0 (tx_actions t)))
      @ cstr ''Digest: '' @ concat (map hex_short digest) @ [10], 0))"
proof -
  let ?e = "encoding t" and ?N = "length (tx_actions t)"
  let ?ctx = "initTxContext ops global_content 1"
  define f where "f = (\<lambda>c :: 'a txProcessingContext_t. case onActionReady h c of Inr (out, _) \<Rightarrow> out | Inl _ \<Rightarrow> [])"
  have content: "content_ok global_content" by (simp add: content_ok_def global_content_def)
  have ok': "tx_ok ops h ((1 :: u8) = 1) t" using ok by simp
  obtain start reviews c where log: "session ops ?ctx [?e] (start @ reviews @ [(STREAM_FINISHED, c)])"
    "opening_reviews ?N start" "reviews_of ops h ?N 0 (tx_actions t) reviews" "sha256 c = s"
    using transaction_session [OF law d content ok' refl hash(1) len] by blast
  let ?log = "start @ reviews @ [(STREAM_FINISHED, c)]"
  have acts: "tx_actions t \<noteq> []" "\<forall>a \<in> set (tx_actions t). act_ok ops h True a" using ok by (simp_all add: tx_ok_def list_all_iff)
  have r: "length reviews = ?N" "\<And>i. i < ?N \<Longrightarrow> \<exists>c'. reviews ! i = (STREAM_ACTION_READY, c') \<and> presents ops h ?N i (tx_actions t ! i) c'"
    using log(3) by (auto simp: reviews_of_nth)
  have one: "tells h f c'" and fc: "f c' = action_lines i (name_text (act_account a)) (name_text (body_name (act_body a))) (body_screens ops h (act_body a))"
    if i: "i < ?N" and a: "a = tx_actions t ! i" and c': "reviews ! i = (STREAM_ACTION_READY, c')" for i a c'
  proof -
    have p: "presents ops h ?N i a c'" and ok: "act_ok ops h True a" using r(2) [OF i] c' a acts(2) i by auto
    have i': "i < 2 ^ 31 - 1" using i n by simp
    have f: "length (body_screens ops h (act_body a)) < 128" using few i a by simp
    note now = onActionReady_eq [OF d ok _ i' f]
    show fc: "f c' = action_lines i (name_text (act_account a)) (name_text (body_name (act_body a))) (body_screens ops h (act_body a))"
      using now [OF p] by (auto simp: f_def)
    have "presents ops h ?N i a (with_arg c1 x)" if "blank c1 = c'" for c1 x
      using p presents_same that by metis
    then show "tells h f c'" unfolding tells_def fc using now by (metis with_arg_simps(4))
  qed
  have tells: "\<forall>(st, c') \<in> set ?log. st = STREAM_ACTION_READY \<longrightarrow> tells h f c'"
  proof -
    have "st \<noteq> STREAM_ACTION_READY" if "(st, c') \<in> set start" for st c' using log(2) that by (auto simp: opening_reviews_def split: if_splits)
    moreover have "tells h f c'" if m: "(st, c') \<in> set reviews" for st c'
    proof -
      obtain i where i: "i < ?N" "reviews ! i = (st, c')" using m r(1) by (auto simp: in_set_conv_nth)
      then show ?thesis using one [OF i(1) refl] r(2) [OF i(1)] by auto
    qed
    ultimately show ?thesis by auto
  qed
  have told: "told f ?log = concat (map (\<lambda>(i, a). action_lines i (name_text (act_account a)) (name_text (body_name (act_body a))) (body_screens ops h (act_body a)))
        (enumerate 0 (tx_actions t)))"
  proof -
    have s: "told f start = []" using log(2) by (auto simp: opening_reviews_def told_def split: if_splits)
    have "map (\<lambda>(st, c). if st = STREAM_ACTION_READY then f c else []) reviews
      = map (\<lambda>(i, a). action_lines i (name_text (act_account a)) (name_text (body_name (act_body a))) (body_screens ops h (act_body a)))
        (enumerate 0 (tx_actions t))"
    proof (rule nth_equalityI)
      fix i assume "i < length (map (\<lambda>(st, c). if st = STREAM_ACTION_READY then f c else []) reviews)"
      then have i: "i < ?N" using r(1) by simp
      obtain c' where c': "reviews ! i = (STREAM_ACTION_READY, c')" using r(2) [OF i] by blast
      show "map (\<lambda>(st, c). if st = STREAM_ACTION_READY then f c else []) reviews ! i
        = map (\<lambda>(i, a). action_lines i (name_text (act_account a)) (name_text (body_name (act_body a))) (body_screens ops h (act_body a)))
          (enumerate 0 (tx_actions t)) ! i"
        using fc [OF i refl c'] c' i r(1) by (simp add: nth_enumerate_eq)
    qed (simp add: r(1))
    then show ?thesis using s by (simp add: told_def)
  qed
  obtain c1 r1 st where first: "consume ops ?ctx ?e = Some (c1, r1, st)" "st \<noteq> STREAM_PROCESSING" "st \<noteq> STREAM_FAULT" "st \<noteq> STREAM_FINISHED"
  proof -
    have "reviews \<noteq> []" using r(1) acts(1) by auto
    then have l: "?log \<noteq> []" "tl ?log \<noteq> []" by (cases start; cases reviews; simp)+
    obtain x where x: "consume ops ?ctx ?e = Some x" 
      using log(1) session_None [of ops ?ctx ?e "[]" ?log] by (cases "consume ops ?ctx ?e") blast+
    obtain c1 r1 st where "x = (c1, r1, st)" by (cases x)
    note x = x [unfolded this]
    have "asks st"
      using session_Cons [OF x, of "[]" ?log] log(1) l asks_stops(1) [of st] by (auto simp del: append_is_Nil_conv)
    then show ?thesis using that [OF x] by (auto simp: asks_def)
  qed
  have z: "commandLength ?ctx = 0" by (simp add: initTxContext_def)
  have ctx: "stream_ok ?e ?ctx" "blank ?ctx = with_arg (blank ?ctx) (arg (content ?ctx))"
    "input_bytes ?e ?ctx (Some 0) (of_nat (length ?e)) = ?e"
  proof -
    show "stream_ok ?e ?ctx" using fresh_rest_ok [OF content, of ops 1] rest_ok_stream [OF z] by simp
    show "blank ?ctx = with_arg (blank ?ctx) (arg (content ?ctx))" by (simp add: with_arg_def blank_def set_chunk_def)
    show "input_bytes ?e ?ctx (Some 0) (of_nat (length ?e)) = ?e"
      using len z by (simp add: input_bytes_def command_bytes_def unat_of_nat_small)
  qed
  obtain ctx1 where p: "parseTx ops ?e ?ctx (Some 0) (of_nat (length ?e)) = Some (Inr (ctx1, st))"
    using parse_step [OF ctx(1) len d ctx(2) disjI2 [OF ctx(3)] first(1-3)] by blast
  obtain ctx' x where run: "next_call ops h ?e ?ctx = Some (Inr (told f ?log, Some ctx'))" "blank ctx' = with_arg c x"
    using program_follows [OF len d log(1) refl _ _ tells ctx(1,2) disjI2 [OF ctx(3)]] by auto
  have "sha256 (blank ctx') = s" using run(2) log(4) by simp
  then have sha: "sha256 ctx' = s" by (simp add: blank_def)
  have loop: "main_loop ops h ?e ctx1 st = Some (Inr (told f ?log, Some ctx'))"
    using run(1) p first(4) by (simp add: next_call_def runThen_def)
  have dg: "length digest = 32" using d hash(2) by (auto simp: digest_32_def)
  have "hex_to_bytes (hex_string ?e) (length (hex_string ?e)) (map stack [0 ..< length (hex_string ?e) div 2])
      (length (map stack [0 ..< length (hex_string ?e) div 2])) = Inr (0, ?e)"
    by (rule hex_to_bytes_eq) simp
  moreover have "cx_hash ops (sha256 ctx') CX_LAST [] = Some (s', Some digest)"
    using law hash(2) sha by (simp add: cx_hash_def CX_LAST_def incremental_def)
  ultimately show ?thesis
    using p loop dg
    by (simp add: desktop_main_def Let_def runThen_def told mem_write_def)
qed

section \<open>The transactions of the program\<close>

text \<open>The texts of the transactions in the program.\<close>

definition tx_vote :: bytes where
  "tx_vote = cstr (''0420cf057bbfb72640471fd910bcb67639c22df9f92470936cddc1ade0e2f2e7dc4f0404d0d3495b0402271904''
     @ ''04f0f48eb204010004010004010004010004010104080000000000ea305504087015d289deaa32dd0401010408''
     @ ''10fc7566d15cfd45040800000000a8ed32320402a1010481a110fc7566d15cfd4500000000000000001280a932''
     @ ''d3e5a9d8351030555d4db7b23b10f0a42ed25cfd45206952ea2e413055204dba2a63693055104208c1386c3055''
     @ ''e0b3bbb4656d3055500f9bee3975305590293dd37577305500118d472d833055202932c94c833055301b9a744e''
     @ ''83305550cf55d3a888305570d5be0a239330558021a2b761b7305580af9134fbb830551029adee50dd3055e0b3''
     @ ''dbe632ec305504010004200000000000000000000000000000000000000000000000000000000000000000'')"

definition tx_proxy :: bytes where
  "tx_proxy = cstr (''0420cf057bbfb72640471fd910bcb67639c22df9f92470936cddc1ade0e2f2e7dc4f0404a0a9495b0402271904''
     @ ''04f0f48eb204010004010004010004010004010104080000000000ea305504087015d289deaa32dd0401010408''
     @ ''10fc7566d15cfd45040800000000a8ed3232040111041110fc7566d15cfd4520fc7566d15cfd45000401000420''
     @ ''0000000000000000000000000000000000000000000000000000000000000000'')"

definition tx_update_auth :: bytes where
  "tx_update_auth = cstr (''0420cf057bbfb72640471fd910bcb67639c22df9f92470936cddc1ade0e2f2e7dc4f0404a0a9495b0402271904''
     @ ''04f0f48eb204010004010004010004010004010104080000000000ea305504080040cbdaa86c52d50401010408''
     @ ''10fc7566d15cfd45040800000000a8ed32320402970104819710fc7566d15cfd4500000000a8ed323200000000''
     @ ''80ab26a701000000020003b6d4fb38dba56d59623c5e2be38b0cdf63f7958cd61d27b1044271bb04cb63c70100''
     @ ''000260520ba1782b60f9a658aff7b6d8536cf9088d509608bca5aae66dc171cba90301000250fc7566d15cfd45''
     @ ''00000000a8ed3232010000000000000040380000000080ab26a70100022800000001000c000000010004010004''
     @ ''200000000000000000000000000000000000000000000000000000000000000000'')"

definition tx_delete_auth :: bytes where
  "tx_delete_auth = cstr (''0420cf057bbfb72640471fd910bcb67639c22df9f92470936cddc1ade0e2f2e7dc4f0404a0a9495b0402271904''
     @ ''04f0f48eb204010004010004010004010004010104080000000000ea305504080040cbdaa8aca24a0401010408''
     @ ''10fc7566d15cfd45040800000000a8ed3232040110041010fc7566d15cfd4500000000a8ed3232040100042000''
     @ ''00000000000000000000000000000000000000000000000000000000000000'')"

definition tx_arbitrary :: bytes where
  "tx_arbitrary = cstr (''0420cf057bbfb72640471fd910bcb67639c22df9f92470936cddc1ade0e2f2e7dc4f0404d0d3495b0402271904''
     @ ''04f0f48eb20401000401000401000401000401010408003232374f8a285d0408000098d46564ae390401010408''
     @ ''10fc7566d15cfd45040800000000a8ed3232040105040504746573740401000420000000000000000000000000''
     @ ''0000000000000000000000000000000000000000'')"

definition tx_newaccount :: bytes where
  "tx_newaccount = cstr (''0420cf057bbfb72640471fd910bcb67639c22df9f92470936cddc1ade0e2f2e7dc4f0404a0a9495b0402271904''
     @ ''04f0f48eb204010004010004010004010004010304080000000000ea3055040800409e9a2264b89a0401010408''
     @ ''10fc7566d15cfd45040800000000a8ed3232040166046610fc7566d15cfd450000f02a5e230f3d010000000100''
     @ ''03b6d4fb38dba56d59623c5e2be38b0cdf63f7958cd61d27b1044271bb04cb63c70100000001000000010003b6''
     @ ''d4fb38dba56d59623c5e2be38b0cdf63f7958cd61d27b1044271bb04cb63c70100000004080000000000ea3055''
     @ ''040800b0cafe4873bd3e040101040810fc7566d15cfd45040800000000a8ed3232040114041410fc7566d15cfd''
     @ ''450000f02a5e230f3d0010000004080000000000ea3055040800003f2a1ba6a24a040101040810fc7566d15cfd''
     @ ''45040800000000a8ed3232040131043110fc7566d15cfd450000f02a5e230f3d102700000000000004454f5300''
     @ ''000000881300000000000004454f53000000000104010004200000000000000000000000000000000000000000''
     @ ''000000000000000000000000'')"

definition tx_sellram :: bytes where
  "tx_sellram = cstr (''0420cf057bbfb72640471fd910bcb67639c22df9f92470936cddc1ade0e2f2e7dc4f0404a0a9495b0402271904''
     @ ''04f0f48eb204010004010004010004010004010104080000000000ea30550408000000409a1ba3c20401010408''
     @ ''10fc7566d15cfd45040800000000a8ed3232040110041010fc7566d15cfd450004000000000000040100042000''
     @ ''00000000000000000000000000000000000000000000000000000000000000'')"

text \<open>The transactions that these texts encode; all are signed by the active permission of one account.\<close>

definition desktop_chain :: bytes where
  "desktop_chain = [0xcf, 0x5, 0x7b, 0xbf, 0xb7, 0x26, 0x40, 0x47, 0x1f, 0xd9, 0x10, 0xbc, 0xb6, 0x76, 0x39, 0xc2, 0x2d, 0xf9, 0xf9, 0x24, 0x70, 0x93, 0x6c, 0xdd, 0xc1, 0xad, 0xe0, 0xe2, 0xf2, 0xe7, 0xdc, 0x4f]"

definition desktop_tx :: "u32 \<Rightarrow> (u64 \<times> act_body) list \<Rightarrow> transaction" where
  "desktop_tx expiration acts = \<lparr>tx_chain_id = desktop_chain, tx_expiration = expiration, tx_ref_block_num = 0x1927,
     tx_ref_block_prefix = 0xb28ef4f0, tx_max_net = 0, tx_max_cpu = 0, tx_delay = 0,
     tx_actions = map (\<lambda>(account, body). \<lparr>act_account = account, act_auths = [(0x45fd5cd16675fc10, 0x3232eda800000000)], act_body = body\<rparr>) acts,
     tx_free_data = zeros 32\<rparr>"

definition desktop_key :: bytes where
  "desktop_key = [0x3, 0xb6, 0xd4, 0xfb, 0x38, 0xdb, 0xa5, 0x6d, 0x59, 0x62, 0x3c, 0x5e, 0x2b, 0xe3, 0x8b, 0xc, 0xdf, 0x63, 0xf7, 0x95, 0x8c, 0xd6, 0x1d, 0x27, 0xb1, 0x4, 0x42, 0x71, 0xbb, 0x4, 0xcb, 0x63, 0xc7]"

definition vote_tx :: transaction where
  "vote_tx = desktop_tx 0x5b49d3d0 [(EOSIO, Decoded (VoteProducer 0x45fd5cd16675fc10 0 [0x35d8a9e5d332a980, 0x3bb2b74d5d553010, 0x45fd5cd22ea4f010, 0x5530412eea526920, 0x553069632aba4d20, 0x55306c38c1084210, 0x55306d65b4bbb3e0, 0x55307539ee9b0f50, 0x55307775d33d2990, 0x5530832d478d1100, 0x5530834cc9322920, 0x5530834e749a1b30, 0x553088a8d355cf50, 0x553093230abed570, 0x5530b761b7a22180, 0x5530b8fb3491af80, 0x5530dd50eead2910, 0x5530ec32e6dbb3e0]))]"

definition proxy_tx :: transaction where
  "proxy_tx = desktop_tx 0x5b49a9a0 [(EOSIO, Decoded (VoteProducer 0x45fd5cd16675fc10 0x45fd5cd16675fc20 []))]"

definition updateauth_tx :: transaction where
  "updateauth_tx = desktop_tx 0x5b49a9a0 [(EOSIO, Decoded (UpdateAuth 0x45fd5cd16675fc10 0x3232eda800000000 0xa726ab8000000000 \<lparr>threshold = 1,
     auth_keys = [(desktop_key, 1), ([0x2, 0x60, 0x52, 0xb, 0xa1, 0x78, 0x2b, 0x60, 0xf9, 0xa6, 0x58, 0xaf, 0xf7, 0xb6, 0xd8, 0x53, 0x6c, 0xf9, 0x8, 0x8d, 0x50, 0x96, 0x8, 0xbc, 0xa5, 0xaa, 0xe6, 0x6d, 0xc1, 0x71, 0xcb, 0xa9, 0x3], 1)],
     auth_accounts = [(0x45fd5cd16675fc50, 0x3232eda800000000, 1), (0x3840000000000000, 0xa726ab8000000000, 1)], auth_delays = [(0x28, 1), (0xc, 1)]\<rparr>))]"

definition deleteauth_tx :: transaction where
  "deleteauth_tx = desktop_tx 0x5b49a9a0 [(EOSIO, Decoded (DeleteAuth 0x45fd5cd16675fc10 0x3232eda800000000))]"

definition arbitrary_tx :: transaction where
  "arbitrary_tx = desktop_tx 0x5b49d3d0 [(0x5d288a4f37323200, Opaque 0x39ae6465d4980000 [0x4, 0x74, 0x65, 0x73, 0x74])]"

definition newaccount_tx :: transaction where
  "newaccount_tx = desktop_tx 0x5b49a9a0 [(EOSIO, Decoded (NewAccount 0x45fd5cd16675fc10 0x3d0f235e2af00000 desktop_key desktop_key)), 
     (EOSIO, Decoded (BuyRamBytes 0x45fd5cd16675fc10 0x3d0f235e2af00000 0x1000)), 
     (EOSIO, Decoded (Delegate 0x45fd5cd16675fc10 0x3d0f235e2af00000 (10000, 0x534f4504) (5000, 0x534f4504) 1))]"

definition sellram_tx :: transaction where
  "sellram_tx = desktop_tx 0x5b49a9a0 [(EOSIO, Decoded (SellRam 0x45fd5cd16675fc10 0x400))]"


text \<open>Each text is the encoding of its transaction, in hexadecimal.\<close>

lemma zeros_numeral: "zeros (numeral k) = 0 # zeros (pred_numeral k)"
  "zeros (Suc 0) = [0]"
  unfolding zeros_def by (simp only: numeral_eq_Suc replicate_Suc) simp

lemmas encoding_simps = desktop_tx_def desktop_chain_def desktop_key_def encoding_def tx_fields_def header_fields_def
  action_fields_def auth_fields_def fields_bytes_def field_def tlv_header_def leb_bytes.simps le_bytes_numeral zeros_numeral
  EOSIO_def action_names authority_bytes_def authority_lists_bytes_def list_bytes_def key_entry_def account_entry_def
  delay_entry_def one_key_def asset_bytes_def quantity_bytes_def

lemmas hex_simps = hex_string_def nibbles_def hex_digits_def cstr_def

lemma tx_vote_encoded: "tx_vote = hex_string (encoding vote_tx)"
proof -
  have "encoding vote_tx = [4, 32, 207, 5, 123, 191, 183, 38, 64, 71, 31, 217, 16, 188, 182, 118, 57, 194, 45, 249, 249, 36, 112, 147, 108, 221, 193, 173, 224, 226, 242, 231, 220, 79, 4, 4, 208, 211, 73, 91, 4, 2, 39, 25, 4, 4, 240, 244, 142, 178, 4, 1, 0, 4, 1, 0, 4, 1, 0, 4, 1, 0, 4, 1, 1, 4, 8, 0, 0, 0, 0, 0, 234, 48, 85, 4, 8, 112, 21, 210, 137, 222, 170, 50, 221, 4, 1, 1, 4, 8, 16, 252, 117, 102, 209, 92, 253, 69, 4, 8, 0, 0, 0, 0, 168, 237, 50, 50, 4, 2, 161, 1, 4, 129, 161, 16, 252, 117, 102, 209, 92, 253, 69, 0, 0, 0, 0, 0, 0, 0, 0, 18, 128, 169, 50, 211, 229, 169, 216, 53, 16, 48, 85, 93, 77, 183, 178, 59, 16, 240, 164, 46, 210, 92, 253, 69, 32, 105, 82, 234, 46, 65, 48, 85, 32, 77, 186, 42, 99, 105, 48, 85, 16, 66, 8, 193, 56, 108, 48, 85, 224, 179, 187, 180, 101, 109, 48, 85, 80, 15, 155, 238, 57, 117, 48, 85, 144, 41, 61, 211, 117, 119, 48, 85, 0, 17, 141, 71, 45, 131, 48, 85, 32, 41, 50, 201, 76, 131, 48, 85, 48, 27, 154, 116, 78, 131, 48, 85, 80, 207, 85, 211, 168, 136, 48, 85, 112, 213, 190, 10, 35, 147, 48, 85, 128, 33, 162, 183, 97, 183, 48, 85, 128, 175, 145, 52, 251, 184, 48, 85, 16, 41, 173, 238, 80, 221, 48, 85, 224, 179, 219, 230, 50, 236, 48, 85, 4, 1, 0, 4, 32, 0, 0, 0, 0, 0, 0, 0, 0, 0, 0, 0, 0, 0, 0, 0, 0, 0, 0, 0, 0, 0, 0, 0, 0, 0, 0, 0, 0, 0, 0, 0, 0]"
    by (simp add: vote_tx_def encoding_simps)
  then show ?thesis by (simp add: tx_vote_def hex_simps)
qed

lemma tx_proxy_encoded: "tx_proxy = hex_string (encoding proxy_tx)"
proof -
  have "encoding proxy_tx = [4, 32, 207, 5, 123, 191, 183, 38, 64, 71, 31, 217, 16, 188, 182, 118, 57, 194, 45, 249, 249, 36, 112, 147, 108, 221, 193, 173, 224, 226, 242, 231, 220, 79, 4, 4, 160, 169, 73, 91, 4, 2, 39, 25, 4, 4, 240, 244, 142, 178, 4, 1, 0, 4, 1, 0, 4, 1, 0, 4, 1, 0, 4, 1, 1, 4, 8, 0, 0, 0, 0, 0, 234, 48, 85, 4, 8, 112, 21, 210, 137, 222, 170, 50, 221, 4, 1, 1, 4, 8, 16, 252, 117, 102, 209, 92, 253, 69, 4, 8, 0, 0, 0, 0, 168, 237, 50, 50, 4, 1, 17, 4, 17, 16, 252, 117, 102, 209, 92, 253, 69, 32, 252, 117, 102, 209, 92, 253, 69, 0, 4, 1, 0, 4, 32, 0, 0, 0, 0, 0, 0, 0, 0, 0, 0, 0, 0, 0, 0, 0, 0, 0, 0, 0, 0, 0, 0, 0, 0, 0, 0, 0, 0, 0, 0, 0, 0]"
    by (simp add: proxy_tx_def encoding_simps)
  then show ?thesis by (simp add: tx_proxy_def hex_simps)
qed

lemma tx_update_auth_encoded: "tx_update_auth = hex_string (encoding updateauth_tx)"
proof -
  have "encoding updateauth_tx = [4, 32, 207, 5, 123, 191, 183, 38, 64, 71, 31, 217, 16, 188, 182, 118, 57, 194, 45, 249, 249, 36, 112, 147, 108, 221, 193, 173, 224, 226, 242, 231, 220, 79, 4, 4, 160, 169, 73, 91, 4, 2, 39, 25, 4, 4, 240, 244, 142, 178, 4, 1, 0, 4, 1, 0, 4, 1, 0, 4, 1, 0, 4, 1, 1, 4, 8, 0, 0, 0, 0, 0, 234, 48, 85, 4, 8, 0, 64, 203, 218, 168, 108, 82, 213, 4, 1, 1, 4, 8, 16, 252, 117, 102, 209, 92, 253, 69, 4, 8, 0, 0, 0, 0, 168, 237, 50, 50, 4, 2, 151, 1, 4, 129, 151, 16, 252, 117, 102, 209, 92, 253, 69, 0, 0, 0, 0, 168, 237, 50, 50, 0, 0, 0, 0, 128, 171, 38, 167, 1, 0, 0, 0, 2, 0, 3, 182, 212, 251, 56, 219, 165, 109, 89, 98, 60, 94, 43, 227, 139, 12, 223, 99, 247, 149, 140, 214, 29, 39, 177, 4, 66, 113, 187, 4, 203, 99, 199, 1, 0, 0, 2, 96, 82, 11, 161, 120, 43, 96, 249, 166, 88, 175, 247, 182, 216, 83, 108, 249, 8, 141, 80, 150, 8, 188, 165, 170, 230, 109, 193, 113, 203, 169, 3, 1, 0, 2, 80, 252, 117, 102, 209, 92, 253, 69, 0, 0, 0, 0, 168, 237, 50, 50, 1, 0, 0, 0, 0, 0, 0, 0, 64, 56, 0, 0, 0, 0, 128, 171, 38, 167, 1, 0, 2, 40, 0, 0, 0, 1, 0, 12, 0, 0, 0, 1, 0, 4, 1, 0, 4, 32, 0, 0, 0, 0, 0, 0, 0, 0, 0, 0, 0, 0, 0, 0, 0, 0, 0, 0, 0, 0, 0, 0, 0, 0, 0, 0, 0, 0, 0, 0, 0, 0]"
    by (simp add: updateauth_tx_def encoding_simps)
  then show ?thesis by (simp add: tx_update_auth_def hex_simps)
qed

lemma tx_delete_auth_encoded: "tx_delete_auth = hex_string (encoding deleteauth_tx)"
proof -
  have "encoding deleteauth_tx = [4, 32, 207, 5, 123, 191, 183, 38, 64, 71, 31, 217, 16, 188, 182, 118, 57, 194, 45, 249, 249, 36, 112, 147, 108, 221, 193, 173, 224, 226, 242, 231, 220, 79, 4, 4, 160, 169, 73, 91, 4, 2, 39, 25, 4, 4, 240, 244, 142, 178, 4, 1, 0, 4, 1, 0, 4, 1, 0, 4, 1, 0, 4, 1, 1, 4, 8, 0, 0, 0, 0, 0, 234, 48, 85, 4, 8, 0, 64, 203, 218, 168, 172, 162, 74, 4, 1, 1, 4, 8, 16, 252, 117, 102, 209, 92, 253, 69, 4, 8, 0, 0, 0, 0, 168, 237, 50, 50, 4, 1, 16, 4, 16, 16, 252, 117, 102, 209, 92, 253, 69, 0, 0, 0, 0, 168, 237, 50, 50, 4, 1, 0, 4, 32, 0, 0, 0, 0, 0, 0, 0, 0, 0, 0, 0, 0, 0, 0, 0, 0, 0, 0, 0, 0, 0, 0, 0, 0, 0, 0, 0, 0, 0, 0, 0, 0]"
    by (simp add: deleteauth_tx_def encoding_simps)
  then show ?thesis by (simp add: tx_delete_auth_def hex_simps)
qed

lemma tx_arbitrary_encoded: "tx_arbitrary = hex_string (encoding arbitrary_tx)"
proof -
  have "encoding arbitrary_tx = [4, 32, 207, 5, 123, 191, 183, 38, 64, 71, 31, 217, 16, 188, 182, 118, 57, 194, 45, 249, 249, 36, 112, 147, 108, 221, 193, 173, 224, 226, 242, 231, 220, 79, 4, 4, 208, 211, 73, 91, 4, 2, 39, 25, 4, 4, 240, 244, 142, 178, 4, 1, 0, 4, 1, 0, 4, 1, 0, 4, 1, 0, 4, 1, 1, 4, 8, 0, 50, 50, 55, 79, 138, 40, 93, 4, 8, 0, 0, 152, 212, 101, 100, 174, 57, 4, 1, 1, 4, 8, 16, 252, 117, 102, 209, 92, 253, 69, 4, 8, 0, 0, 0, 0, 168, 237, 50, 50, 4, 1, 5, 4, 5, 4, 116, 101, 115, 116, 4, 1, 0, 4, 32, 0, 0, 0, 0, 0, 0, 0, 0, 0, 0, 0, 0, 0, 0, 0, 0, 0, 0, 0, 0, 0, 0, 0, 0, 0, 0, 0, 0, 0, 0, 0, 0]"
    by (simp add: arbitrary_tx_def encoding_simps)
  then show ?thesis by (simp add: tx_arbitrary_def hex_simps)
qed

lemma tx_newaccount_encoded: "tx_newaccount = hex_string (encoding newaccount_tx)"
proof -
  have "encoding newaccount_tx = [4, 32, 207, 5, 123, 191, 183, 38, 64, 71, 31, 217, 16, 188, 182, 118, 57, 194, 45, 249, 249, 36, 112, 147, 108, 221, 193, 173, 224, 226, 242, 231, 220, 79, 4, 4, 160, 169, 73, 91, 4, 2, 39, 25, 4, 4, 240, 244, 142, 178, 4, 1, 0, 4, 1, 0, 4, 1, 0, 4, 1, 0, 4, 1, 3, 4, 8, 0, 0, 0, 0, 0, 234, 48, 85, 4, 8, 0, 64, 158, 154, 34, 100, 184, 154, 4, 1, 1, 4, 8, 16, 252, 117, 102, 209, 92, 253, 69, 4, 8, 0, 0, 0, 0, 168, 237, 50, 50, 4, 1, 102, 4, 102, 16, 252, 117, 102, 209, 92, 253, 69, 0, 0, 240, 42, 94, 35, 15, 61, 1, 0, 0, 0, 1, 0, 3, 182, 212, 251, 56, 219, 165, 109, 89, 98, 60, 94, 43, 227, 139, 12, 223, 99, 247, 149, 140, 214, 29, 39, 177, 4, 66, 113, 187, 4, 203, 99, 199, 1, 0, 0, 0, 1, 0, 0, 0, 1, 0, 3, 182, 212, 251, 56, 219, 165, 109, 89, 98, 60, 94, 43, 227, 139, 12, 223, 99, 247, 149, 140, 214, 29, 39, 177, 4, 66, 113, 187, 4, 203, 99, 199, 1, 0, 0, 0, 4, 8, 0, 0, 0, 0, 0, 234, 48, 85, 4, 8, 0, 176, 202, 254, 72, 115, 189, 62, 4, 1, 1, 4, 8, 16, 252, 117, 102, 209, 92, 253, 69, 4, 8, 0, 0, 0, 0, 168, 237, 50, 50, 4, 1, 20, 4, 20, 16, 252, 117, 102, 209, 92, 253, 69, 0, 0, 240, 42, 94, 35, 15, 61, 0, 16, 0, 0, 4, 8, 0, 0, 0, 0, 0, 234, 48, 85, 4, 8, 0, 0, 63, 42, 27, 166, 162, 74, 4, 1, 1, 4, 8, 16, 252, 117, 102, 209, 92, 253, 69, 4, 8, 0, 0, 0, 0, 168, 237, 50, 50, 4, 1, 49, 4, 49, 16, 252, 117, 102, 209, 92, 253, 69, 0, 0, 240, 42, 94, 35, 15, 61, 16, 39, 0, 0, 0, 0, 0, 0, 4, 69, 79, 83, 0, 0, 0, 0, 136, 19, 0, 0, 0, 0, 0, 0, 4, 69, 79, 83, 0, 0, 0, 0, 1, 4, 1, 0, 4, 32, 0, 0, 0, 0, 0, 0, 0, 0, 0, 0, 0, 0, 0, 0, 0, 0, 0, 0, 0, 0, 0, 0, 0, 0, 0, 0, 0, 0, 0, 0, 0, 0]"
    by (simp add: newaccount_tx_def encoding_simps)
  then show ?thesis by (simp add: tx_newaccount_def hex_simps)
qed

lemma tx_sellram_encoded: "tx_sellram = hex_string (encoding sellram_tx)"
proof -
  have "encoding sellram_tx = [4, 32, 207, 5, 123, 191, 183, 38, 64, 71, 31, 217, 16, 188, 182, 118, 57, 194, 45, 249, 249, 36, 112, 147, 108, 221, 193, 173, 224, 226, 242, 231, 220, 79, 4, 4, 160, 169, 73, 91, 4, 2, 39, 25, 4, 4, 240, 244, 142, 178, 4, 1, 0, 4, 1, 0, 4, 1, 0, 4, 1, 0, 4, 1, 1, 4, 8, 0, 0, 0, 0, 0, 234, 48, 85, 4, 8, 0, 0, 0, 64, 154, 27, 163, 194, 4, 1, 1, 4, 8, 16, 252, 117, 102, 209, 92, 253, 69, 4, 8, 0, 0, 0, 0, 168, 237, 50, 50, 4, 1, 16, 4, 16, 16, 252, 117, 102, 209, 92, 253, 69, 0, 4, 0, 0, 0, 0, 0, 0, 4, 1, 0, 4, 32, 0, 0, 0, 0, 0, 0, 0, 0, 0, 0, 0, 0, 0, 0, 0, 0, 0, 0, 0, 0, 0, 0, 0, 0, 0, 0, 0, 0, 0, 0, 0, 0]"
    by (simp add: sellram_tx_def encoding_simps)
  then show ?thesis by (simp add: tx_sellram_def hex_simps)
qed

end
