(* ===== verification/Eos_Fuzz.thy ===== *)
theory Eos_Fuzz
  imports Eos_Reviews Eos_Main
begin

text \<open>
  The fuzzing harness: the function that the fuzzer calls, and the stand-in for \<^verbatim>\<open>strlcat\<close>.
\<close>

section \<open>The target of the fuzzer\<close>

text \<open>The loop; a status at which \<^verbatim>\<open>LLVMFuzzerTestOneInput\<close> returns ends it.\<close>

partial_function (option) fuzz_loop :: "'h hash_ops \<Rightarrow> bytes \<Rightarrow> 'h txProcessingContext_t \<Rightarrow> parserStatus_e
    \<Rightarrow> 'h txProcessingContext_t result option" where
  "fuzz_loop ops dat ctx status =
     (if status = STREAM_CONFIRM_PROCESSING \<or> status = STREAM_ACTION_READY \<or> status = STREAM_PROCESSING \<or> status = STREAM_FAULT
      then Some (Inr ctx)
      else
        Option.bind (parseTx ops dat ctx (Some 0) (of_nat (length dat))) (\<lambda>r. case r of
            Inl e \<Rightarrow> Some (Inl e)
          | Inr (ctx, status) \<Rightarrow> if status = STREAM_FINISHED then Some (Inr ctx) else fuzz_loop ops dat ctx status))"

definition LLVMFuzzerTestOneInput :: "'h hash_ops \<Rightarrow> txProcessingContent_t \<Rightarrow> bytes \<Rightarrow> (int \<times> 'h txProcessingContext_t) result option" where
  "LLVMFuzzerTestOneInput ops txContent dat =
     runThen (parseTx ops dat (initTxContext ops txContent 1) (Some 0) (of_nat (length dat))) (\<lambda>(ctx, status).
     if 0 < length dat then runThen (fuzz_loop ops dat ctx status) (\<lambda>ctx. Some (Inr (0, ctx)))
     else Some (Inr (0, ctx)))"

text \<open>The first call of the parser never answers that it has finished.\<close>

lemma first_parse_stops:
  assumes "parseTx ops mem (initTxContext ops contents allowed) buffer len = Some (Inr (c, st))"
  shows "st \<noteq> STREAM_FINISHED" and "st = STREAM_ACTION_READY \<Longrightarrow> currentActionIndex c = 1"
proof -
  let ?ctx = "initTxContext ops contents allowed"
  have "book 0 ?ctx" by (rule book_start)
  then have b: "book 0 (set_chunk buffer len ?ctx)" by (simp add: accounting.inv_chunk)
  have p: "processTxInternal ops mem (set_chunk buffer len ?ctx) = Some (Inr (c, st))"
    using assms by (simp add: parseTx_def set_chunk_def initTxContext_def)
  note e = accounting.processTxInternal_inv [OF p b]
  show "st \<noteq> STREAM_FINISHED"
  proof
    assume "st = STREAM_FINISHED"
    then show False using e by (auto simp: accounting.ended_def book_def state_order)
  qed
  assume "st = STREAM_ACTION_READY"
  then obtain b where "c = b\<lparr>actionReady := False\<rparr>" "actionReady b" "book 0 b" using e by (auto simp: accounting.ended_def)
  then have "unat (currentActionIndex c) = 1" by (simp add: book_def split: if_splits)
  then show "currentActionIndex c = 1" by (metis unat_1 word_unat_eq_iff)
qed

text \<open>So the fuzzer calls the parser once, whatever it is given.\<close>

lemma fuzzer_parses_once:
  "LLVMFuzzerTestOneInput ops contents dat =
     runThen (parseTx ops dat (initTxContext ops contents 1) (Some 0) (of_nat (length dat))) (\<lambda>(ctx, status). Some (Inr (0, ctx)))"
proof -
  let ?p = "parseTx ops dat (initTxContext ops contents 1) (Some 0) (of_nat (length dat))"
  show ?thesis
  proof (cases "\<exists>c st. ?p = Some (Inr (c, st))")
    case True
    then obtain c st where p: "?p = Some (Inr (c, st))" by blast
    have "fuzz_loop ops dat c st = Some (Inr c)"
      using first_parse_stops(1) [OF p] by (subst fuzz_loop.simps) (cases st; simp)
    then show ?thesis by (simp add: LLVMFuzzerTestOneInput_def p runThen_def)
  next
    case False
    then consider "?p = None" | e where "?p = Some (Inl e)" by (metis option.exhaust sum.exhaust prod.exhaust)
    then show ?thesis by cases (simp_all add: LLVMFuzzerTestOneInput_def runThen_def)
  qed
qed

text \<open>It returns, on every input of the size that a chunk can have.\<close>

lemma fuzzer_returns:
  assumes "digest_32 ops" and "content_ok contents" and "length dat < 2 ^ 32"
  shows "\<exists>r. LLVMFuzzerTestOneInput ops contents dat = Some r \<and> (\<forall>x. r = Inr x \<longrightarrow> fst x = 0)"
proof -
  have "rest_ok (initTxContext ops contents 1)" by (rule fresh_rest_ok [OF assms(2)])
  then have "stream_ok dat (initTxContext ops contents 1)"
    using rest_ok_stream [of "initTxContext ops contents 1" dat] by (simp add: initTxContext_def)
  moreover have "0 + unat (of_nat (length dat) :: u32) \<le> length dat" using assms(3) by (simp add: unat_of_nat_small)
  ultimately obtain r where "parseTx ops dat (initTxContext ops contents 1) (Some 0) (of_nat (length dat)) = Some r"
    using parseTx_returns assms(1) by blast
  then show ?thesis unfolding fuzzer_parses_once by (cases r) (auto simp: runThen_def)
qed

section \<open>The stand-in for strlcat\<close>

text \<open>The destination and the result; \<open>src\<close> is the text in front of the zero byte.\<close>

definition strlcat_mock :: "bytes \<Rightarrow> bytes \<Rightarrow> nat \<Rightarrow> (bytes \<times> nat) result" where
  "strlcat_mock dst src room =
     andThen (strlen dst) (\<lambda>ld.
     let ls = length src in
     if ld \<ge> room then Inr (dst, 0)
     else
       let ls = (if ld + ls \<ge> room then room - ld - 1 else ls) in
       andThen (mem_write dst ld (take ls src @ [0])) (\<lambda>dst. Inr (dst, ld + ls)))"

lemma strlcat_mock_writes: "andThen (strlcat_mock dst src n) (\<lambda>(dst, _). Inr dst) = strlcat dst src n"
  by (cases "strlen dst") (auto simp: strlcat_mock_def strlcat_def Let_def andThen_assoc)

end
