(* ===== verification/Eos_Overrun.thy ===== *)
theory Eos_Overrun
  imports Eos_Chunks
begin

text \<open>
  The one access outside an array: the rounds that a call of the parser goes through, and what a round that
  leaves an array is about to write.
\<close>

section \<open>The rounds of a call\<close>

inductive rounds :: "'h hash_ops \<Rightarrow> bytes \<Rightarrow> 'h txProcessingContext_t \<Rightarrow> 'h txProcessingContext_t \<Rightarrow> bool"
  for ops mem where
  rounds_end: "rounds ops mem ctx ctx"
| rounds_more: "tx_round ops mem ctx = Inr (ctx1, None) \<Longrightarrow> rounds ops mem ctx1 ctx2 \<Longrightarrow> rounds ops mem ctx ctx2"

text \<open>A call that ends with an error has gone to the round that has it.\<close>

lemma processTxInternal_fails:
  assumes "stream_ok mem ctx" and d: "digest_32 ops"
  shows "processTxInternal ops mem ctx = Some (Inl e) \<Longrightarrow>
    \<exists>c. rounds ops mem ctx c \<and> stream_ok mem c \<and> tx_round ops mem c = Inl e"
  using assms(1)
proof (induction "unat (commandLength ctx)" arbitrary: ctx rule: less_induct)
  case less
  show ?case
  proof (cases "tx_round ops mem ctx")
    case (Inl e')
    then have "e' = e" using less.prems(1) by (subst (asm) processTxInternal.simps) simp
    then show ?thesis using Inl less.prems(2) rounds_end by blast
  next
    case (Inr p)
    obtain c r where p: "p = (c, r)" by (cases p)
    have none: "r = None" using less.prems(1) Inr p by (subst (asm) processTxInternal.simps) (cases r; simp)
    have "round_post mem ctx (c, r)" using tx_round_ends [OF less.prems(2) d] Inr p by (simp add: ends_unless_def)
    then have c: "stream_ok mem c" "unat (commandLength c) < unat (commandLength ctx)" by (simp_all add: round_post_def none)
    have "processTxInternal ops mem c = Some (Inl e)"
      using less.prems(1) Inr p none by (subst (asm) processTxInternal.simps) simp
    from less.hyps [OF c(2) this c(1)] Inr p none show ?thesis by (blast intro: rounds_more)
  qed
qed

section \<open>What overruns a name\<close>

text \<open>The context in which the round calls the function of the field: after its header, if that is still to come.\<close>

definition at_field :: "bytes \<Rightarrow> 'h txProcessingContext_t \<Rightarrow> 'h txProcessingContext_t option" where
  "at_field mem ctx =
     (if processingField ctx then Some ctx
      else case read_tlv mem ctx of
        Inr (c, Inr True) \<Rightarrow> Some (c\<lparr>currentFieldPos := 0, tlvBufferPos := 0, processingField := True\<rparr>)
      | _ \<Rightarrow> None)"

text \<open>Nine to twelve bytes of an account or action name, where the array has eight.\<close>

definition overruns_name :: "bytes \<Rightarrow> 'h txProcessingContext_t \<Rightarrow> bool" where
  "overruns_name mem ctx \<longleftrightarrow>
     (case at_field mem ctx of
        None \<Rightarrow> False
      | Some c \<Rightarrow> name_state (state c)
          \<and> 8 < unat (currentFieldPos c) + unat (chunk_length c) \<and> unat (currentFieldPos c) + unat (chunk_length c) \<le> 12)"

lemma name_store_overruns:
  assumes "store_contract bs ctx = Inl OutOfBounds \<or> store_action bs ctx = Inl OutOfBounds"
    and "unat (currentFieldPos ctx) \<le> 8" and "unat (currentFieldPos ctx) + length bs < 2 ^ 32"
  shows "8 < unat (currentFieldPos ctx) + length bs \<and> unat (currentFieldPos ctx) + length bs \<le> 12"
proof -
  have "of_nat (length bs) \<le> 12 - currentFieldPos ctx \<longleftrightarrow> unat (currentFieldPos ctx) + length bs \<le> 12"
    using assms(2,3) by (intro of_nat_le_12) simp_all
  then show ?thesis
    using assms(1,2)
    by (auto simp: store_contract_def store_action_def LEDGER_ASSERT_def mem_write_def split: if_splits)
qed

lemma receive_overruns:
  assumes f: "in_field mem ctx" and p: "unat (currentFieldPos ctx) \<le> 8"
    and store: "store = store_contract \<or> store = store_action"
    and r: "receive ops mem (checked msg) store ctx = Inl OutOfBounds"
  shows "8 < unat (currentFieldPos ctx) + unat (chunk_length ctx) \<and> unat (currentFieldPos ctx) + unat (chunk_length ctx) \<le> 12"
proof -
  have lt: "currentFieldPos ctx < currentFieldLength ctx" using r by (simp add: receive_def split: if_splits)
  have le: "currentFieldPos ctx \<le> currentFieldLength ctx" and c: "chunk_ok mem ctx" using f by (simp_all add: in_field_def)
  obtain bs where bs: "work_read mem ctx (unat (chunk_length ctx)) = Inr bs" "length bs = unat (chunk_length ctx)"
    using work_read_chunk [OF c chunk_length_le(1)] by blast
  have "unat (currentFieldPos ctx + chunk_length ctx) = unat (currentFieldPos ctx) + length bs"
    using chunk_length_position(1) [OF le] bs(2) by simp
  then have room: "unat (currentFieldPos ctx) + length bs < 2 ^ 32"
    using u32_room [of "currentFieldPos ctx + chunk_length ctx"] by simp
  have chk: "checked msg (chunk_length ctx) ctx = Inr ()" by (rule checked_ok [OF chunk_length_le(1)])
  obtain h where "hash_update ops (sha256 ctx) bs = Some h" "store bs (ctx\<lparr>sha256 := h\<rparr>) = Inl OutOfBounds"
    using r lt bs(1) chk
    by (cases "hash_update ops (sha256 ctx) bs"; cases "store bs (ctx\<lparr>sha256 := the (hash_update ops (sha256 ctx) bs)\<rparr>)")
      (simp_all add: receive_def Let_def hashTxData_def)
  then show ?thesis using name_store_overruns [of bs "ctx\<lparr>sha256 := h\<rparr>"] store p room bs(2) by auto
qed


lemma process_state_overruns:
  assumes f: "in_field mem ctx" and s: "size_state (state ctx) \<Longrightarrow> unat (currentFieldPos ctx) \<le> 12"
    and n: "name_state (state ctx) \<Longrightarrow> unat (currentFieldPos ctx) \<le> 8" and d: "digest_32 ops"
    and o: "process_state ops mem ctx = Inl OutOfBounds"
  shows "name_state (state ctx) \<and> 8 < unat (currentFieldPos ctx) + unat (chunk_length ctx)
    \<and> unat (currentFieldPos ctx) + unat (chunk_length ctx) \<le> 12"
proof -
  have name: "name_state (state ctx)" using process_state_ends [OF f s n d] o by (auto simp: ends_unless_def)
  then consider "processActionAccount ops mem ctx = Inl OutOfBounds" | "processActionName ops mem ctx = Inl OutOfBounds"
    using o by (cases "processActionAccount ops mem ctx"; cases "processActionName ops mem ctx")
      (auto simp: process_state_def name_state_def)
  then show ?thesis
  proof cases
    case 1
    then have "receive ops mem (checked ''processActionAccount'') store_contract ctx = Inl OutOfBounds"
      by (cases "receive ops mem (checked ''processActionAccount'') store_contract ctx")
        (auto simp: processActionAccount_def when_complete_def name_to_string_ends Let_def split: if_splits)
    from receive_overruns [OF f n [OF name] _ this] name show ?thesis by simp
  next
    case 2
    then have "receive ops mem (checked ''processActionName'') store_action ctx = Inl OutOfBounds"
      by (cases "receive ops mem (checked ''processActionName'') store_action ctx")
        (auto simp: processActionName_def when_complete_def name_to_string_ends Let_def split: if_splits)
    from receive_overruns [OF f n [OF name] _ this] name show ?thesis by simp
  qed
qed

lemma tx_round_overruns:
  assumes ok: "stream_ok mem ctx" and d: "digest_32 ops" and o: "tx_round ops mem ctx = Inl OutOfBounds"
  shows "overruns_name mem ctx"
proof -
  have go: "\<not> confirmProcessing ctx" "\<not> actionReady ctx" "state ctx \<noteq> TLV_DONE" "commandLength ctx \<noteq> 0"
    using o by (auto simp: tx_round_def split: if_splits)
  show ?thesis
  proof (cases "processingField ctx")
    case True
    have f: "in_field mem ctx" using ok True by (auto simp: stream_ok_def position_ok_def in_field_def intro: order.strict_implies_order)
    have p: "size_state (state ctx) \<Longrightarrow> unat (currentFieldPos ctx) \<le> 12" "name_state (state ctx) \<Longrightarrow> unat (currentFieldPos ctx) \<le> 8"
      using ok True by (simp_all add: stream_ok_def position_ok_def word_le_nat_alt)
    have "process_state ops mem ctx = Inl OutOfBounds" using o go True by (simp add: tx_round_def)
    from process_state_overruns [OF f p d this] show ?thesis by (simp add: overruns_name_def at_field_def True)
  next
    case False
    have h: "ends (header_read mem ctx) (read_tlv mem ctx)"
      using ok False by (intro read_tlv_ends) (simp_all add: stream_ok_def buffers_ok_def position_ok_def)
    obtain x where x: "read_tlv mem ctx = Inr x"
      using o go False h by (cases "read_tlv mem ctx") (auto simp: tx_round_def ends_def)
    obtain c r where cr: "x = (c, r)" by (cases x)
    have hr: "header_read mem ctx (c, r)" using h x cr by (simp add: ends_def)
    let ?c = "c\<lparr>currentFieldPos := 0, tlvBufferPos := 0, processingField := True\<rparr>"
    have r: "r = Inr True" and o': "process_state ops mem ?c = Inl OutOfBounds"
      using o go False x cr by (auto simp: tx_round_def split: sum.splits if_splits)
    have "same_but_header ctx c" "chunk_ok mem c" "length (tlvBuffer c) = 5" using hr by (simp_all add: header_read_def)
    then have b: "buffers_ok c" using ok by (cases ctx; cases c; simp add: same_but_header_def stream_ok_def buffers_ok_def)
    then have f: "in_field mem ?c" using hr by (simp add: in_field_def buffers_ok_def chunk_ok_def header_read_def)
    from process_state_overruns [OF f _ _ d o'] show ?thesis by (simp add: overruns_name_def at_field_def False x cr r)
  qed
qed

text \<open>So a call of the parser stays inside its arrays, or has come to a round that overruns a name.\<close>

lemma parseTx_overruns:
  assumes ok: "stream_ok mem ctx" and len: "off + unat len \<le> length mem" and d: "digest_32 ops"
    and o: "parseTx ops mem ctx (Some off) len = Some (Inl OutOfBounds)"
  shows "\<exists>c. rounds ops mem (if commandLength ctx = 0 then set_chunk (Some off) len ctx else ctx) c
    \<and> stream_ok mem c \<and> overruns_name mem c"
proof -
  let ?start = "if commandLength ctx = 0 then set_chunk (Some off) len ctx else ctx"
  have "stream_ok mem ?start"
    using ok len by (cases "commandLength ctx = 0") (simp_all add: set_chunk_def stream_ok_def buffers_ok_def chunk_ok_def position_ok_def)
  moreover have "processTxInternal ops mem ?start = Some (Inl OutOfBounds)" using o by (simp only: parseTx_def set_chunk_def)
  ultimately show ?thesis using processTxInternal_fails [OF _ d] tx_round_overruns [OF _ d] by blast
qed

end
