(* ===== verification/Eos_Loops.thy ===== *)
theory Eos_Loops
  imports Eos_Actions
begin

text \<open>
  The loops of \<^verbatim>\<open>parseUpdateAuth\<close> on any data: they come to the entry that is asked for, so that no run of the
  function is cut short by the bound of their models.
\<close>

section \<open>Results of functions on any data\<close>

text \<open>
  \<open>inside_or_out r\<close>: a value, a failed assertion or an access outside an array, and nothing else. The rules follow
  the code.
\<close>

definition inside_or_out :: "'a result \<Rightarrow> bool" where
  "inside_or_out r \<longleftrightarrow> stops_cleanly r \<or> r = Inl OutOfBounds"

lemma inside_or_out_simps [simp]:
  "inside_or_out (Inr x)" "inside_or_out (Inl OutOfBounds)" "inside_or_out (LEDGER_ASSERT b m)" "inside_or_out (CX_ASSERT c)"
  "inside_or_out (mem_get xs i)" "inside_or_out (mem_read xs i n)" "inside_or_out (mem_write xs i ys)" "inside_or_out (strlen bs)"
  by (simp_all add: inside_or_out_def mem_get_def mem_read_def mem_write_def strlen_def)

lemma inside_or_out_andThen:
  "inside_or_out m \<Longrightarrow> (\<And>x. inside_or_out (f x)) \<Longrightarrow> inside_or_out (andThen m f)"
  by (cases m rule: stops_cleanly.cases) (simp_all add: inside_or_out_def)

lemma inside_or_out_prod: "(\<And>a b. inside_or_out (f a b)) \<Longrightarrow> inside_or_out (case p of (a, b) \<Rightarrow> f a b)"
  by (cases p) simp

lemma inside_or_out_if: "(b \<Longrightarrow> inside_or_out m) \<Longrightarrow> (\<not> b \<Longrightarrow> inside_or_out n) \<Longrightarrow> inside_or_out (if b then m else n)"
  by simp

lemma inside_or_out_sum:
  "(\<And>a. inside_or_out (f a)) \<Longrightarrow> (\<And>b. inside_or_out (g b)) \<Longrightarrow> inside_or_out (case s of Inl a \<Rightarrow> f a | Inr b \<Rightarrow> g b)"
  by (cases s) simp_all

lemmas follow_code = inside_or_out_andThen inside_or_out_prod inside_or_out_if inside_or_out_sum

lemma not_cut_short: "inside_or_out r \<Longrightarrow> r \<noteq> Inl OutOfFuel"
  by (auto simp: inside_or_out_def)

lemma variant32_loop_any: "inside_or_out (variant32_loop mem p len i v by)"
proof (induction mem p len i v "by" rule: variant32_loop.induct)
  case (1 mem p len i v "by")
  show ?case
    using 1 by (subst variant32_loop.simps) (cases "mem_get mem p"; auto simp: Let_def inside_or_out_def mem_get_def split: if_splits)
qed

lemma unpack_variant32_any [simp]: "inside_or_out (unpack_variant32 mem off len)"
  by (simp add: unpack_variant32_def variant32_loop_any)

lemma texts_any [simp]:
  "inside_or_out (snprintf buf n s)" "inside_or_out (strlcat dst src n)" "inside_or_out (arg_with_label f arg)"
  "inside_or_out (buffer_to_name_type mem off sz)" "inside_or_out (name_to_string v out off sz)"
  unfolding snprintf_def strlcat_def arg_with_label_def buffer_to_name_type_def name_to_string_def Let_def
  by (intro follow_code; simp)+

lemma key_any [simp]:
  "inside_or_out (b58enc bin n out sz)" "inside_or_out (compressed_public_key_to_wif h mem off n out sz)"
proof -
  show b: "inside_or_out (b58enc bin n out sz)" for bin n out sz
    unfolding b58enc_def Let_def by (intro follow_code; simp)
  show "inside_or_out (compressed_public_key_to_wif h mem off n out sz)"
    unfolding compressed_public_key_to_wif_def Let_def by (intro follow_code; simp add: b)
qed

lemma fields_any [simp]:
  "inside_or_out (parseNameField mem off len f arg)" "inside_or_out (parsePublicKeyField h mem off len f arg)"
  "inside_or_out (parseUint16Field mem off len f arg)" "inside_or_out (parseUint32Field mem off len f arg)"
  "inside_or_out (parseStringField mem off len f arg)"
  unfolding parseNameField_def parsePublicKeyField_def parseUint16Field_def parseUint32Field_def parseStringField_def Let_def
  by (intro follow_code; simp)+

lemma permission_any [simp]: "inside_or_out (parsePermissionField mem off len f arg)"
  unfolding parsePermissionField_def Let_def by (intro follow_code; simp)

lemma arg_of_any [simp]: "inside_or_out r \<Longrightarrow> inside_or_out (arg_of r)"
  unfolding arg_of_def by (intro follow_code; simp)

lemma entries_any [simp]:
  "inside_or_out (key_first h i mem p len arg)" "inside_or_out (key_second i mem p len arg)"
  "inside_or_out (account_first i mem p len arg)" "inside_or_out (account_second i mem p len arg)"
  "inside_or_out (delay_first i mem p len arg)" "inside_or_out (delay_second i mem p len arg)"
  by (simp_all add: key_first_def key_second_def account_first_def account_second_def delay_first_def delay_second_def)

section \<open>The loops\<close>

text \<open>Under the guard of its section a loop comes to the argument: it shows argument \<open>e\<close> of entry \<open>d\<close>.\<close>

context argument_loop
begin

lemma comes_to_argument:
  assumes "unat argIndex \<le> unat argNum" and "unat argNum < unat argIndex + 2 * unat tot" and "128 \<le> fuel"
    and "d = (unat argNum - unat argIndex) div 2" and "e = (unat argNum - unat argIndex) mod 2"
  shows "loop fuel 0 argIndex tot mem p len argNum arg =
    andThen ((if e = 0 then first else second) (of_nat d) mem (p + d * width) (len - of_nat (d * width)) arg) (\<lambda>a. Inr (Inl a))"
proof -
  have lt: "unat argNum < 256" by simp
  have a: "unat argNum = unat argIndex + 2 * d + e" "e < 2" using assms(1,4,5) by simp_all
  then have "d < 128" "d < unat tot" using assms(2) lt by linarith+
  then show ?thesis using reaches [OF a, of 0 tot fuel] assms(3) by simp
qed

end

text \<open>The guard in 32 bits, and what it says of the numbers.\<close>

lemma section_guard_numbers:
  fixes start tot :: u32 and argNum :: u8
  assumes "start < ucast argNum" and "ucast argNum \<le> start + tot * 2"
  shows "unat (ucast (start + 1) :: u8) \<le> unat argNum" and "unat argNum < unat (ucast (start + 1) :: u8) + 2 * unat tot"
proof -
  have n: "unat (ucast argNum :: u32) = unat argNum" by (simp add: unsigned_ucast_eq take_bit_nat_eq_self)
  have s: "unat start < unat argNum" using assms(1) n by (simp add: word_less_nat_alt)
  have lt: "unat argNum < 256" by simp
  have "Suc (unat start) < 256" using s lt by linarith
  moreover from this have "unat (start + 1) = unat start + 1" by (simp add: unat_word_ariths)
  ultimately have i: "unat (ucast (start + 1) :: u8) = unat start + 1" by (simp add: unsigned_ucast_eq take_bit_nat_eq_self)
  have "unat argNum \<le> unat (start + tot * 2)" using assms(2) n by (simp add: word_le_nat_alt)
  also have "\<dots> \<le> unat start + unat (tot * 2)" by (simp add: unat_word_ariths)
  also have "\<dots> \<le> unat start + 2 * unat tot" by (simp add: unat_word_ariths)
  finally show "unat argNum < unat (ucast (start + 1) :: u8) + 2 * unat tot" using i by simp
  show "unat (ucast (start + 1) :: u8) \<le> unat argNum" using i s by simp
qed

lemma loops_any:
  assumes "start < ucast argNum" and "ucast argNum \<le> start + tot * 2"
  shows "inside_or_out (updateAuth_keys h 256 0 (ucast (start + 1)) tot mem p len argNum arg)"
    and "inside_or_out (updateAuth_accounts 256 0 (ucast (start + 1)) tot mem p len argNum arg)"
    and "inside_or_out (updateAuth_delays 256 0 (ucast (start + 1)) tot mem p len argNum arg)"
  using keys_loop.comes_to_argument [OF section_guard_numbers [OF assms] _ refl refl, of 256 h]
    accounts_loop.comes_to_argument [OF section_guard_numbers [OF assms] _ refl refl, of 256]
    delays_loop.comes_to_argument [OF section_guard_numbers [OF assms] _ refl refl, of 256]
  by (simp_all add: inside_or_out_andThen)

lemma delay_section_any: "inside_or_out (updateAuth_delay_section totalKeys totalAccounts mem p len argNum arg)"
  unfolding updateAuth_delay_section_def Let_def
  by (intro follow_code; (elim conjE)?; (rule loops_any)?; simp)

lemma account_section_any: "inside_or_out (updateAuth_account_section totalKeys mem p len argNum arg)"
  unfolding updateAuth_account_section_def Let_def
  by (intro follow_code; (elim conjE)?; (rule loops_any)?; simp add: delay_section_any)

lemma key_section_any: "inside_or_out (updateAuth_key_section h mem p len argNum arg)"
proof -
  have three: "(ucast (3 :: u32) + 1 :: u8) = ucast (3 + 1 :: u32)" by simp
  show ?thesis
    unfolding updateAuth_key_section_def Let_def three
    by (intro follow_code; (elim conjE)?; (rule loops_any)?; simp add: account_section_any)
qed

lemma parseUpdateAuth_any: "inside_or_out (parseUpdateAuth h mem p len argNum arg)"
  unfolding parseUpdateAuth_def Let_def
  by (intro follow_code; simp add: key_section_any)

end
