(* ===== verification/Eos_Dispatch.thy ===== *)
theory Eos_Dispatch
  imports Eos_Screens
begin

text \<open>
  The kinds of actions by the texts of their names: the constants of \<^verbatim>\<open>eos_stream.h\<close> are numbers, and what they
  stand for is in their text only.
\<close>

text \<open>The name of a kind on the chain, the function that counts its arguments, and the one that prints them.\<close>

definition named_actions :: "(bytes \<Rightarrow> bytes option)
    \<Rightarrow> (string \<times> ('h txProcessingContext_t \<Rightarrow> 'h txProcessingContext_t result) \<times> action_parser) list" where
  "named_actions ripemd160 =
    [(''transfer'', processTokenTransfer, parseTokenTransfer),
     (''delegatebw'', processEosioDelegate, parseDelegate),
     (''undelegatebw'', processEosioUndelegate, parseUndelegate),
     (''refund'', processEosioRefund, parseRefund),
     (''buyram'', processEosioBuyRam, parseBuyRam),
     (''buyrambytes'', processEosioBuyRam, parseBuyRamBytes),
     (''sellram'', processEosioSellRam, parseSellRam),
     (''voteproducer'', processEosioVoteProducer, parseVoteProducer),
     (''updateauth'', processEosioUpdateAuth, parseUpdateAuth ripemd160),
     (''deleteauth'', processEosioDeleteAuth, parseDeleteAuth),
     (''linkauth'', processEosioLinkAuth, parseLinkAuth),
     (''unlinkauth'', processEosioUnlinkAuth, parseUnlinkAuth),
     (''newaccount'', processEosioNewAccountAction, parseNewAccount ripemd160)]"

text \<open>A transfer is one on every contract, as every token has its own; the others are actions of \<open>eosio\<close>.\<close>

definition named :: "'h txProcessingContext_t \<Rightarrow> string \<Rightarrow> bool" where
  "named ctx n \<longleftrightarrow> name_text (contractActionName ctx) = cstr n
     \<and> (n = ''transfer'' \<or> name_text (contractName ctx) = cstr ''eosio'')"

lemma name_texts:
  "name_text EOSIO_TOKEN_TRANSFER = cstr ''transfer''" "name_text EOSIO = cstr ''eosio''"
  "name_text EOSIO_DELEGATEBW = cstr ''delegatebw''" "name_text EOSIO_UNDELEGATEBW = cstr ''undelegatebw''"
  "name_text EOSIO_VOTEPRODUCER = cstr ''voteproducer''" "name_text EOSIO_BUYRAM = cstr ''buyram''"
  "name_text EOSIO_BUYRAMBYTES = cstr ''buyrambytes''" "name_text EOSIO_SELLRAM = cstr ''sellram''"
  "name_text EOSIO_UPDATE_AUTH = cstr ''updateauth''" "name_text EOSIO_DELETE_AUTH = cstr ''deleteauth''"
  "name_text EOSIO_REFUND = cstr ''refund''" "name_text EOSIO_LINK_AUTH = cstr ''linkauth''"
  "name_text EOSIO_UNLINK_AUTH = cstr ''unlinkauth''" "name_text EOSIO_NEW_ACCOUNT = cstr ''newaccount''"
  by (simp_all add: name_text_def name_digits_def action_names fixed_digits_numeral charmap_def rstrip_def cstr_def)

lemma name_text_eq: "name_text v = name_text w \<longleftrightarrow> v = w"
  by (metis name_value_name_text)

lemma name_text_is: "name_text c = cstr n \<Longrightarrow> name_text v = cstr n \<longleftrightarrow> v = c"
  by (metis name_text_eq)

lemmas named_is = name_texts [THEN name_text_is]

text \<open>The test for a known action is on these texts, and so are the two choices.\<close>

lemma known_named: "isKnownAction ctx \<longleftrightarrow> (\<exists>(n, count, show) \<in> set (named_actions h). named ctx n)"
  by (auto simp: isKnownAction_def named_actions_def named_def named_is)

lemma named_dispatch:
  assumes "(n, count, show) \<in> set (named_actions h)" and "named ctx n"
  shows "count_arguments ctx = count ctx
    \<and> printArgument h i ctx = andThen (show (actionDataBuffer ctx) 0 (currentActionDataBufferLength ctx) i (arg (content ctx)))
        (\<lambda>a. Inr (with_arg ctx a))"
  using assms unfolding named_actions_def list.set
  by (elim insertE emptyE; simp add: named_def named_is count_arguments_def printArgument_def with_arg_def action_names)

end
