(* ===== verification/Spec2Isabelle.thy ===== *)
theory Spec2Isabelle
  imports Eos_Browsing Eos_Nbgl Eos_Desktop Eos_Fuzz Eos_Overrun Eos_Loops Eos_Dispatch
begin

text \<open>
  A verification of the EOS application for Ledger devices: the code that parses a transaction
  coming from the host, shows its actions to the user and signs its hash.

  \<^bold>\<open>The program.\<close> The host sends a transaction as a sequence of fields, each behind a DER tag and
  length, cut into commands anywhere. The parser (\<^verbatim>\<open>src/eos_stream.c\<close>) hashes every byte of every
  field, keeps the data of the current action and stops at each action for the user's review. The
  review prints one argument at a time: \<^verbatim>\<open>printArgument\<close> calls the function of the action
  (\<^verbatim>\<open>src/eos_parse_token.c\<close>, \<^verbatim>\<open>src/eos_parse_eosio.c\<close>, \<^verbatim>\<open>src/eos_parse_unknown.c\<close>), which calls the function
  of the argument's type (\<^verbatim>\<open>src/eos_parse.c\<close>), which decodes the binary format and prints it
  (\<^verbatim>\<open>src/eos_types.c\<close>, \<^verbatim>\<open>src/eos_utils.c\<close>).

  \<^bold>\<open>The theories.\<close>

  \<^item> \<open>Eos_Prelude\<close>: machine words, arrays with checked accesses, C strings, and results: a function
    that may stop or run into undefined behaviour returns \<open>fail + 'a\<close>. \<open>Assertion\<close> is a failed
    \<^verbatim>\<open>LEDGER_ASSERT\<close> or \<^verbatim>\<open>CX_ASSERT\<close>; \<open>OutOfBounds\<close>, \<open>SignedOverflow\<close> and \<open>DivisionByZero\<close> are undefined
    behaviour of C. \<open>ends P r\<close> says that \<open>r\<close> ends cleanly and that a value satisfies \<open>P\<close>.
  \<^item> \<open>Eos_Radix\<close>: numerals and texts in an alphabet (locale \<open>alphabet\<close>).
  \<^item> \<open>Eos_Utils\<close>, \<open>Eos_Base58\<close>: \<^verbatim>\<open>eos_utils.c\<close>: decimal and hexadecimal text, field headers,
    signature conversion, Base58.
  \<^item> \<open>Eos_Types\<close>: \<^verbatim>\<open>eos_types.c\<close>: variable-length integers, names, symbols, assets, key text.
  \<^item> \<open>Eos_Parse\<close>: \<^verbatim>\<open>eos_parse.c\<close>: the argument functions. Locale \<open>field_parser\<close> is what they share: a
    width, a check, a label and a rendering that depends on the field only; \<open>text_field\<close> extends
    it with the text that is on the screen.
  \<^item> \<open>Eos_Actions\<close>: the action functions, and the specification they are checked against: the
    datatype \<open>eos_action\<close>, its serialisation \<open>action_bytes\<close> and its screens \<open>action_screens\<close>. The
    locales \<open>argument_loop\<close> and \<open>entry_loop\<close> serve the three loops of \<^verbatim>\<open>parseUpdateAuth\<close>, whose fuel
    of 256 rounds is enough because the loop index is an eight-bit number.
  \<^item> \<open>Eos_Loops\<close>: these loops on any data: they come to the entry asked for, and \<^verbatim>\<open>parseUpdateAuth\<close> is never cut
    short (property \<open>updateAuth_loops_end\<close>).
  \<^item> \<open>Eos_Context\<close>: the state of the parser, the functions that count arguments, the dispatch.
  \<^item> \<open>Eos_Stream\<close>: the parser. Locale \<open>field_store\<close> is the contract of the places where the bytes of a
    field go; the invariant is \<open>stream_ok\<close>. \<^verbatim>\<open>processTxInternal\<close> is a \<open>partial_function\<close>, with
    \<open>None\<close> for a run that does not return; it is proved to return.
  \<^item> \<open>Eos_Overrun\<close>: the rounds of a call (\<open>rounds\<close>, an inductive relation), and the one access outside an array that
    they can come to, a name of nine to twelve bytes (\<open>overruns_name\<close>; property \<open>parser_returns\<close>).
  \<^item> \<open>Eos_Chunks\<close>, \<open>Eos_Resume\<close>: what the parser does depends on the bytes of the chunks, not on where
    they lie, nor on where the host cuts them.
  \<^item> \<open>Eos_Session\<close>: \<open>consume\<close>, the parser without its buffer, which \<^verbatim>\<open>parseTx\<close> refines; a session is the
    sequence of its reviews (\<open>session\<close>, an inductive relation).
  \<^item> \<open>Eos_Transaction\<close>: the datatype \<open>transaction\<close>, its encoding in fields, and its session. The
    context-free data are any 32 bytes, as for the parser; the protocol document wants them zero.
  \<^item> \<open>Eos_Reviews\<close>: invariants of sessions on any bytes. Locale \<open>review_invariant\<close> carries an invariant
    from the operations of the parser to its sessions.
  \<^item> \<open>Eos_Config\<close>: \<^verbatim>\<open>config.c\<close>; locale \<open>switch\<close> is the contract of a setting.
  \<^item> \<open>Eos_Nonce\<close>: \<^verbatim>\<open>rng_rfc6979\<close>, and the sequence of candidates of RFC 6979. The code does not reduce the hash
    modulo the order, as the RFC does (\<open>bits2octets\<close>): its candidates are those of the RFC for a hash below the order
    (property \<open>nonce_chosen\<close>), and those that start from the hash itself (\<open>seeded\<close>) in any case, which is what the
    signatures of the other properties are made with. The outer loop may run for
    ever (a \<open>partial_function\<close>); it ends at the first accepted candidate.
  \<^item> \<open>Eos_Main\<close>: \<^verbatim>\<open>main.c\<close>: the commands, the user's decisions, the signature. The globals are the record
    \<open>device_t\<close>; the device's library is the record \<open>device_library\<close>.
  \<^item> \<open>Eos_Signature\<close>: the signature that the device returns.
  \<^item> \<open>Eos_Device\<close>: the device as a state machine of commands and decisions (\<open>device_step\<close>, \<open>device_run\<close>),
    which follows a session of the parser and signs.
  \<^item> \<open>Eos_Commands\<close>: refused commands, public keys, rejected reviews, a command shorter than its path
    (property \<open>short_command_reads_outside\<close>).
  \<^item> \<open>Eos_Screens\<close>: what a review shows, for both user interfaces.
  \<^item> \<open>Eos_Dispatch\<close>: the thirteen kinds of actions by the texts of their names.
  \<^item> \<open>Eos_Looking\<close>: the parser does not depend on the argument that was printed last.
  \<^item> \<open>Eos_Bagl\<close>: \<^verbatim>\<open>ui_bagl.c\<close>: the flows of the devices with buttons. Entering a step runs its function, which
    may move on; two rounds of fuel are enough for a press of a button (property \<open>review_walks\<close>).
  \<^item> \<open>Eos_Buttons\<close>: the device together with its flows (\<open>button_step\<close>), which refines \<open>device_step\<close>.
  \<^item> \<open>Eos_Approvals\<close>: histories of commands and presses (\<open>move_run\<close>), and the ledger of the user's decisions,
    an invariant of the device that ties them to the answers (property \<open>signature_needs_decisions\<close>).
  \<^item> \<open>Eos_Browsing\<close>: nor does the device: the turns to other screens can be left out of a history.
  \<^item> \<open>Eos_Nbgl\<close>: \<^verbatim>\<open>ui_nbgl.c\<close>: the pairs of the devices with a touch screen, and the ring of copies
    behind a page. Where a function has the name of one of \<^verbatim>\<open>ui_bagl.c\<close> it ends in \<open>_nbgl\<close>.
  \<^item> \<open>Eos_Desktop\<close>: \<^verbatim>\<open>desktop/main.c\<close>, a program that prints a transaction, from its hexadecimal text to the
    digest. Its loop may run for ever (a \<open>partial_function\<close>) and ends on every accepted transaction; each of the
    program's own seven transactions is the encoding of a \<open>transaction\<close>. It runs where a plain \<^verbatim>\<open>char\<close> is signed.
  \<^item> \<open>Eos_Fuzz\<close>: \<^verbatim>\<open>fuzz/fuzztest.c\<close>, the function that the fuzzer calls, and the stand-in for \<^verbatim>\<open>strlcat\<close>.
  \<^item> This theory: the properties.

  \<^bold>\<open>Conventions.\<close> A pointer into an array is the array and a position in it; an access outside the
  array is \<open>OutOfBounds\<close>. Unsigned arithmetic is word arithmetic and wraps; signed arithmetic is on
  \<open>int\<close> with its range checked, but for the shift of a byte to the top of a path index (\<open>read_path\<close>), where the
  bits are taken as the compilers take them. A plain \<^verbatim>\<open>char\<close> is unsigned, as on the devices; where it is signed, in
  the desktop and the fuzzing program, the one difference is the counter of arguments from 128 on
  (\<open>count_no_overflow_signed\<close>), which the property of the desktop program keeps away from and that of the fuzzing
  program does not depend on. SHA-256 (\<open>hash_ops\<close>) and RIPEMD-160 belong to the device's library and
  are parameters; \<open>digest_32\<close> (a digest has 32 bytes) and \<open>incremental\<close> (feeding bytes in two parts is
  feeding them in one) are what is assumed of them where a property says so.

  The library of the device is read by its documentation only. HMAC, key derivation and ECDSA are fields of
  \<open>device_library\<close>; \<open>hmac_total\<close> (HMAC does not fail and has 32 bytes) and \<open>signature_of\<close> (the library signs
  with the nonces that are tried, and one of them gives a canonical signature) are assumed where a property
  says so. A flow starts with its first step and runs the function of a step when it comes to it;
  \<open>flow_order\<close> is the order of its steps. The touch library gets the pairs of a page in their order and draws
  the page afterwards.

  \<^bold>\<open>Not modelled.\<close> The other stand-ins of \<^verbatim>\<open>fuzz/os_mocks.c\<close>, which answer constants or initialise the hash states of
  the device's library. Icons, and the layout of screens, are data of that library. An exception of the library ends
  a run here; \<^verbatim>\<open>app_main\<close> would answer it with a status. Opening a transaction with the touch screen goes through
  the library's own pages, of which only the callbacks are modelled.
\<close>


section \<open>Concrete inputs for the witnesses\<close>

text \<open>A hash library on bytes: it collects what it is fed, and its digest is all zero.\<close>

definition sample_ops :: "bytes hash_ops" where
  "sample_ops = \<lparr>hash_init = [], hash_update = (\<lambda>h bs. Some (h @ bs)), hash_final = (\<lambda>h. Some (zeros 32, h))\<rparr>"

definition sample_content :: txProcessingContent_t where
  "sample_content = \<lparr>argumentCount = 0, contract = zeros 14, action = zeros 14,
     arg = \<lparr>label = zeros 32, data = zeros 128\<rparr>\<rparr>"

definition sample_ripemd160 :: "bytes \<Rightarrow> bytes option" where
  "sample_ripemd160 bs = Some (take 20 bs)"

text \<open>A context that has received the whole of an action.\<close>

definition sample_context :: "eos_action \<Rightarrow> bytes txProcessingContext_t" where
  "sample_context a = (initTxContext sample_ops sample_content 0)
     \<lparr>contractName := EOSIO, contractActionName := action_name a,
      actionDataBuffer := padded 512 (action_bytes a),
      currentActionDataBufferLength := of_nat (length (action_bytes a))\<rparr>"

definition sample_key :: bytes where
  "sample_key = 2 # replicate 32 7"

definition sample_update :: eos_action where
  "sample_update = UpdateAuth 5 6 0 \<lparr>threshold = 2, auth_keys = [(sample_key, 1)],
     auth_accounts = [(5, 6, 1)], auth_delays = [(10, 1)]\<rparr>"

lemma sample_ops_ok: "digest_32 sample_ops" "incremental sample_ops"
  by (auto simp: sample_ops_def digest_32_def incremental_def)

lemma sample_update_bytes:
  "action_bytes sample_update = u64_bytes 5 @ u64_bytes 6 @ u64_bytes 0 @ u32_bytes 2 @ [1, 0] @ sample_key
     @ [1, 0, 1] @ u64_bytes 5 @ u64_bytes 6 @ [1, 0, 1] @ u32_bytes 10 @ [1, 0]"
  by (simp add: sample_update_def authority_bytes_def authority_lists_bytes_def list_bytes_def
      key_entry_def account_entry_def delay_entry_def leb_bytes.simps le_bytes_numeral)

lemma sample_update_fine: "action_fine sample_ripemd160 sample_update"
  by (simp add: sample_update_def authority_fine_def key_fine_def key_ok_def sample_ripemd160_def sample_key_def
      authority_bytes_def authority_lists_bytes_def list_bytes_def key_entry_def account_entry_def
      delay_entry_def leb_bytes.simps)

lemma sample_update_held: "holds_action (sample_context sample_update) sample_update"
proof -
  have "length (action_bytes sample_update) = 91"
    unfolding sample_update_bytes by (simp add: sample_key_def)
  then show ?thesis
    by (simp add: holds_action_def sample_context_def padded_def sample_update_def)
qed

text \<open>A transaction with two actions: the application can decode the first one only.\<close>

definition sample_tx :: transaction where
  "sample_tx = \<lparr>tx_chain_id = zeros 32, tx_expiration = 7, tx_ref_block_num = 8, tx_ref_block_prefix = 9,
     tx_max_net = 0, tx_max_cpu = 0, tx_delay = 0,
     tx_actions = [\<lparr>act_account = EOSIO, act_auths = [(5, 6)], act_body = Decoded (Refund 5)\<rparr>,
       \<lparr>act_account = 5, act_auths = [(5, 6), (7, 6)], act_body = Opaque 0 [1, 2, 3]\<rparr>],
     tx_free_data = zeros 32\<rparr>"

lemma sample_tx_ok: "tx_ok sample_ops sample_ripemd160 True sample_tx"
proof -
  have "\<not> decodable 5 0"
    by (auto simp: decodable_def EOSIO_def action_names elim!: action_name.elims dest!: sym [of 0])
  then show ?thesis
    by (simp add: sample_tx_def tx_ok_def act_ok_def body_ok_def hash_of_def sample_ops_def EOSIO_def)
qed

lemma sample_tx_length: "length (encoding sample_tx) < 2 ^ 32"
  by (simp add: sample_tx_def encoding_def tx_fields_def header_fields_def action_fields_def auth_fields_def
      fields_bytes_def field_def tlv_header_def leb_bytes.simps)

lemma sample_contents_ok: "content_ok sample_content"
  by (simp add: content_ok_def sample_content_def)

text \<open>
  A device library: the HMAC of anything is zero, every path has the same key, and every nonce gives the
  same signature.
\<close>

definition sample_lib :: "bytes device_library" where
  "sample_lib = \<lparr>lib_sha256 = sample_ops, lib_ripemd160 = sample_ripemd160,
     lib_hmac = (\<lambda>_ _. Some (zeros 32)),
     lib_derive = (\<lambda>_. Some (replicate 64 1, replicate 32 2)),
     lib_private_key = Some,
     lib_public_key = (\<lambda>_. Some (4 # replicate 32 7 @ replicate 32 8)),
     lib_ecdsa_sign = (\<lambda>_ _ _. Some (der_signature (replicate 32 1) (replicate 32 2), True)),
     lib_as_transaction = (\<lambda>_. \<lparr>pathLength = 0, bip32Path = replicate 10 0, transactionHash = zeros 32\<rparr>),
     lib_as_public_key = (\<lambda>_. \<lparr>publicKey = zeros 65, address = zeros 60, chainCode = zeros 32, getChaincode = False\<rparr>),
     lib_version = (1, 4, 6)\<rparr>"

definition sample_device :: "bytes device_t" where
  "sample_device = \<lparr>G_io_apdu_buffer = zeros 260,
     txProcessingCtx = (initTxContext sample_ops sample_content 0)\<lparr>state := TLV_NONE\<rparr>,
     tmpCtx = PublicKeyMember (lib_as_public_key sample_lib \<lparr>pathLength = 0, bip32Path = [], transactionHash = []\<rparr>),
     N_storage = \<lparr>storedDataAllowed = 1, initialized = 1\<rparr>, display = IdleScreen\<rparr>"

definition sample_path :: "u32 list" where
  "sample_path = [0x8000002C, 0x800000C2, 0x80000000, 0, 0]"

definition sample_signature :: signature where
  "sample_signature = (replicate 32 1, replicate 32 2, True)"

lemma sample_path_ok: "path_ok sample_path"
  by (simp add: sample_path_def path_ok_def MAX_BIP32_PATH_def)

lemma sample_hmac: "hmac_total (lib_hmac sample_lib) (\<lambda>_ _. zeros 32)"
  by (simp add: sample_lib_def hmac_total_def)

lemma sample_hashes: "lib_sha256 sample_lib = sample_ops" "lib_ripemd160 sample_lib = sample_ripemd160"
  by (simp_all add: sample_lib_def)

lemma sample_canonical: "canonical_signature sample_signature"
proof -
  have *: "canonical_half (be_nat (replicate 32 b))" if "b AND 0x80 = 0" "b \<noteq> 0" for b :: u8
  proof -
    have l: "length (replicate 32 b) = 32" by simp
    show ?thesis unfolding canonical_half_bytes [OF l] using that by simp
  qed
  show ?thesis using * [of 1] * [of 2] by (simp add: canonical_signature_def sample_signature_def)
qed

lemma sample_signature_chosen: "signature_of sample_lib (\<lambda>_ _. zeros 32) sample_path digest sample_signature"
proof -
  let ?H = "\<lambda>_ _. zeros 32 :: bytes" and ?d = "replicate 32 1 :: bytes"
  have t: "fst (rfc_generate ?H s) = zeros 32" for s by (simp add: rfc_generate_def)
  have "zeros 32 = 0 # zeros 31" using replicate_Suc [of 31 "0 :: u8"] by (simp add: zeros_def)
  then have "some_byte_below (zeros 32) SECP256K1_N" by (simp add: some_byte_below_def SECP256K1_N_def)
  then have "chosen sample_lib ?H ?d digest (rfc_generate ?H (seeded ?H ?d digest)) 0 sample_signature"
    using sample_canonical
    by (simp add: chosen_def accepted_def t signs_def sample_signature_def magnitude_def sample_lib_def)
  moreover have "take 32 (replicate 64 1) = ?d" by simp
  ultimately show ?thesis
    unfolding signature_of_def
    by (intro exI [of _ "replicate 64 1"] exI [of _ "replicate 32 2"] exI [of _ ?d] exI [of _ 0]) (simp add: sample_lib_def)
qed

lemma sample_at_rest: "at_rest sample_lib sample_device"
  using sample_contents_ok
  by (simp add: at_rest_def sample_device_def sample_lib_def transaction_member_def initTxContext_def MAX_BIP32_PATH_def)

text \<open>A review that the sample transaction leads to, and the two user interfaces.\<close>

lemma sample_review: "\<exists>c. presents sample_ops sample_ripemd160 2 0 \<lparr>act_account = EOSIO, act_auths = [(5, 6)], act_body = Decoded (Refund 5)\<rparr> c"
proof -
  have h: "hash_update sample_ops (hash_init sample_ops) (signed_bytes sample_tx) = Some (signed_bytes sample_tx)"
    by (simp add: sample_ops_def)
  have n: "2 = length (tx_actions sample_tx)" by (simp add: sample_tx_def)
  obtain reviews where "reviews_of sample_ops sample_ripemd160 2 0 (tx_actions sample_tx) reviews"
    using transaction_session [OF sample_ops_ok(2,1) sample_contents_ok _ n h sample_tx_length, of sample_ripemd160 1] sample_tx_ok
    by auto
  then show ?thesis by (auto simp: sample_tx_def)
qed

lemma sample_act_ok: "act_ok sample_ops sample_ripemd160 True \<lparr>act_account = EOSIO, act_auths = [(5, 6)], act_body = Decoded (Refund 5)\<rparr>"
  using sample_tx_ok by (simp add: tx_ok_def sample_tx_def)

definition sample_ux :: ux_t where
  "sample_ux = \<lparr>ux_flow = ux_idle_flow, ux_at = 2, ux_step = 0, ux_step_count = 0, actionCounter = zeros 32,
     confirmLabel = zeros 32, confirm_text1 = zeros 16, confirm_text2 = zeros 16\<rparr>"

definition sample_nbgl :: nbgl_t where
  "sample_nbgl = \<lparr>use_case = HomeAndSettings,
     switches = \<lparr>initState = False, switchText = [], subText = [], switchToken = 0\<rparr>, infosList = [], nbPairs = 0, pairCallback = SinglePairs,
     bkp_args = replicate 4 \<lparr>label = zeros 32, data = zeros 128\<rparr>, review_action = zeros 10, review_subtitle = zeros 20\<rparr>"

section \<open>Properties: the device\<close>

text \<open>
  C1. End to end: when the host sends the encoding of a transaction that the application accepts, behind the
  path of a key and cut into commands as it likes, and the user approves every review, the device answers
  9000 to every command but the last one and the signature of the hash of the signed bytes to that one; and
  the user was shown the announcement of several actions, if there are several, and then each action in turn.
\<close>

theorem transaction_signed:
  assumes "hmac_total (lib_hmac lib) H" and "incremental (lib_sha256 lib)" and "digest_32 (lib_sha256 lib)"
    and "at_rest lib dev" and "path_ok path"
    and "tx_ok (lib_sha256 lib) ripemd160 (setting dev = 1) t" and "n = length (tx_actions t)"
    and "hash_update (lib_sha256 lib) (hash_init (lib_sha256 lib)) (signed_bytes t) = Some h"
    and "hash_final (lib_sha256 lib) h = Some (digest, sha)" and "length digest = 32" and "signature_of lib H path digest sig"
    and "bs @ concat cs = encoding t" and "length (encoding t) < 2 ^ 32"
    and "length (path_bytes path @ bs) \<le> 255" and "\<forall>bs \<in> set cs. length bs \<le> 255"
  shows "\<exists>trace dev' k. device_run lib dev trace dev' \<and> k \<le> length cs
    \<and> sent trace = first_apdu path bs # map more_apdu (take k cs)
    \<and> answered trace = replicate k ok_bytes @ [signature_bytes sig @ ok_bytes]
    \<and> map fst (approved trace) = review_screens n
    \<and> (\<forall>i < n. presents (lib_sha256 lib) ripemd160 n i (tx_actions t ! i) (snd (approved trace ! (length (review_screens n) - n + i))))"
  using device_signs_transaction [OF assms] .

lemma sample_commands:
  "take 200 (encoding sample_tx) @ concat [drop 200 (encoding sample_tx)] = encoding sample_tx"
  "length (path_bytes sample_path @ take 200 (encoding sample_tx)) \<le> 255"
  "\<forall>bs \<in> set [drop 200 (encoding sample_tx)]. length bs \<le> 255"
proof -
  show "take 200 (encoding sample_tx) @ concat [drop 200 (encoding sample_tx)] = encoding sample_tx" by simp
  have "length (path_bytes sample_path) = 21" by (simp add: length_path_bytes sample_path_def)
  then show "length (path_bytes sample_path @ take 200 (encoding sample_tx)) \<le> 255" by simp
  have "length (encoding sample_tx) \<le> 455"
    by (simp add: sample_tx_def encoding_def tx_fields_def header_fields_def action_fields_def auth_fields_def
        fields_bytes_def field_def tlv_header_def leb_bytes.simps)
  then show "\<forall>bs \<in> set [drop 200 (encoding sample_tx)]. length bs \<le> 255" by simp
qed

lemma sample_allows: "tx_ok (lib_sha256 sample_lib) sample_ripemd160 (setting sample_device = 1) sample_tx"
  using sample_tx_ok by (simp add: sample_hashes setting_def sample_device_def is_data_allowed_def)

lemma sample_digest:
  "hash_update (lib_sha256 sample_lib) (hash_init (lib_sha256 sample_lib)) (signed_bytes sample_tx) = Some (signed_bytes sample_tx)"
  "hash_final (lib_sha256 sample_lib) (signed_bytes sample_tx) = Some (zeros 32, signed_bytes sample_tx)"
  by (simp_all add: sample_hashes sample_ops_def)

lemma transaction_signed_witness:
  "\<exists>trace dev' k. device_run sample_lib sample_device trace dev'
     \<and> answered trace = replicate k ok_bytes @ [signature_bytes sample_signature @ ok_bytes]
     \<and> map fst (approved trace) = [MultipleActionFlow, SingleActionFlow, SingleActionFlow]"
proof -
  have n: "2 = length (tx_actions sample_tx)" by (simp add: sample_tx_def)
  have ops: "incremental (lib_sha256 sample_lib)" "digest_32 (lib_sha256 sample_lib)"
    using sample_ops_ok by (simp_all add: sample_hashes)
  have z: "length (zeros 32) = 32" by simp
  have r: "review_screens 2 = [MultipleActionFlow, SingleActionFlow, SingleActionFlow]"
    by (simp add: review_screens_def numeral_2_eq_2)
  show ?thesis
    using transaction_signed [OF sample_hmac ops sample_at_rest sample_path_ok sample_allows n sample_digest z
        sample_signature_chosen sample_commands(1) sample_tx_length sample_commands(2,3)] unfolding r
    by (elim exE conjE) (intro exI conjI; assumption)
qed

text \<open>
  C2. What a signature takes: whatever commands the host sends, and whatever the user presses, from a device
  that has begun no transaction on, an answer of 67 bytes, which is the length of a signature with its status
  and of no other answer, comes only after the user has decided on the reviews of the first, the second and
  every further action, in this order, of the transaction that was started last; and every one of these
  actions was one that the application decodes, unless the setting allowed others when the transaction began.
\<close>

theorem signature_needs_decisions:
  assumes "display dev = IdleScreen" and "state (txProcessingCtx dev) = TLV_NONE"
    and "move_run lib dev (h @ [(dev1, e, cb, Some answer)]) dev2" and "length answer = 67"
    and "ds = decisions (h @ [(dev1, e, cb, Some answer)])"
    and "n = max 1 (unat (currentActionNumber (txProcessingCtx dev2)))"
  shows "map (\<lambda>(decision, c). unat (currentActionIndex c)) ds = [1 ..< Suc n]
    \<and> (\<forall>(decision, c) \<in> set ds. isKnownAction c \<or> dataAllowed c = 1)"
  using history_books [OF assms(3) ledger_start [OF assms(1,2)] assms(4)] assms(5,6)
  by (simp add: all_decided_def in_order_def)

lemma signature_needs_decisions_witness:
  "\<exists>h dev1 e cb dev2 n. move_run sample_lib sample_device
       (h @ [(dev1, e, cb, Some (signature_bytes sample_signature @ ok_bytes))]) dev2
     \<and> map (\<lambda>(decision, c). unat (currentActionIndex c))
         (decisions (h @ [(dev1, e, cb, Some (signature_bytes sample_signature @ ok_bytes))])) = 1 # [2 ..< Suc n]"
proof -
  have n: "2 = length (tx_actions sample_tx)" by (simp add: sample_tx_def)
  have ops: "incremental (lib_sha256 sample_lib)" "digest_32 (lib_sha256 sample_lib)"
    using sample_ops_ok by (simp_all add: sample_hashes)
  have z: "length (zeros 32) = 32" by simp
  let ?a = "signature_bytes sample_signature @ ok_bytes"
  obtain trace dev' k where "device_run sample_lib sample_device trace dev'" "answered trace = replicate k ok_bytes @ [?a]"
    using device_signs_transaction [OF sample_hmac ops sample_at_rest sample_path_ok sample_allows n sample_digest z
        sample_signature_chosen sample_commands(1) sample_tx_length sample_commands(2,3)] by blast
  then obtain h dev1 e cb dev2 where r: "move_run sample_lib sample_device (h @ [(dev1, e, cb, Some ?a)]) dev2"
    using answer_ends_history [of sample_lib sample_device trace dev' ?a] by auto
  have "display sample_device = IdleScreen" "state (txProcessingCtx sample_device) = TLV_NONE" "length ?a = 67"
    by (simp_all add: sample_device_def sample_signature_def signature_bytes_def)
  from conjunct1 [OF signature_needs_decisions [OF this(1,2) r this(3) refl refl]]
  have "map (\<lambda>(decision, c). unat (currentActionIndex c)) (decisions (h @ [(dev1, e, cb, Some ?a)]))
    = [1 ..< Suc (max 1 (unat (currentActionNumber (txProcessingCtx dev2))))]" .
  moreover have "[1 ..< Suc (max 1 m)] = 1 # [2 ..< Suc (max 1 m)]" for m
    using upt_conv_Cons [of 1 "Suc (max 1 m)"] by (simp add: less_Suc_eq_le del: upt_Suc One_nat_def flip: one_add_one)
  ultimately have "map (\<lambda>(decision, c). unat (currentActionIndex c)) (decisions (h @ [(dev1, e, cb, Some ?a)]))
    = 1 # [2 ..< Suc (max 1 (unat (currentActionNumber (txProcessingCtx dev2))))]" by simp
  then show ?thesis using r by (intro exI conjI)
qed

text \<open>
  C3. A rejection does not stop a signature: the host that answers every rejection with an empty command gets
  the signature of a transaction that the user never approved, neither as a whole nor any of its actions.
\<close>

theorem rejection_does_not_stop:
  assumes "hmac_total (lib_hmac lib) H" and "incremental (lib_sha256 lib)" and "digest_32 (lib_sha256 lib)"
    and "at_rest lib dev" and "path_ok path" and "tx_ok (lib_sha256 lib) ripemd160 (setting dev = 1) t"
    and "hash_update (lib_sha256 lib) (hash_init (lib_sha256 lib)) (signed_bytes t) = Some h"
    and "hash_final (lib_sha256 lib) h = Some (digest, sha)" and "length digest = 32" and "signature_of lib H path digest sig"
    and "bs @ concat cs = encoding t" and "length (encoding t) < 2 ^ 32"
    and "length (path_bytes path @ bs) \<le> 255" and "\<forall>bs \<in> set cs. length bs \<le> 255"
  shows "\<exists>trace dev'. device_run lib dev trace dev' \<and> approved trace = []
    \<and> set (sent trace) \<subseteq> insert (first_apdu path bs) (more_apdu ` insert [] (set cs))
    \<and> answered trace \<noteq> [] \<and> last (answered trace) = signature_bytes sig @ ok_bytes"
proof -
  have "content_ok (content (txProcessingCtx dev))" using assms(4) by (simp add: at_rest_def)
  from transaction_finishes [OF assms(2,3) this assms(6-12)]
  obtain log where "session (lib_sha256 lib) (fresh_context lib dev) (bs # cs) log" "finishing lib H path sig log" by blast
  then show ?thesis using signed_without_approval [OF assms(1,3,4,5)] assms(13,14) by blast
qed

lemma rejection_does_not_stop_witness:
  "\<exists>trace dev'. device_run sample_lib sample_device trace dev' \<and> approved trace = []
     \<and> last (answered trace) = signature_bytes sample_signature @ ok_bytes"
proof -
  have ops: "incremental (lib_sha256 sample_lib)" "digest_32 (lib_sha256 sample_lib)"
    using sample_ops_ok by (simp_all add: sample_hashes)
  have z: "length (zeros 32) = 32" by simp
  show ?thesis
    using rejection_does_not_stop [OF sample_hmac ops sample_at_rest sample_path_ok sample_allows sample_digest z
        sample_signature_chosen sample_commands(1) sample_tx_length sample_commands(2,3)] by blast
qed

section \<open>Properties: whole transactions\<close>

text \<open>
  C4. A whole transaction: when the host sends the encoding of a
  transaction that the application accepts, cut into any commands, and the user approves, the parser stops
  once to announce several actions, then once for each action in turn with exactly that action in the
  context, and then reports the end with the hash of exactly the signed bytes of the transaction.
\<close>

theorem transaction_reviewed:
  assumes "incremental ops" and "digest_32 ops" and "content_ok contents"
    and "tx_ok ops ripemd160 (allowed = 1) t" and "n = length (tx_actions t)"
    and "hash_update ops (hash_init ops) (signed_bytes t) = Some h"
    and "length (encoding t) < 2 ^ 32" and "cs \<noteq> []" and "concat cs = encoding t"
  shows "\<exists>start reviews c.
    session ops (initTxContext ops contents allowed) cs (start @ reviews @ [(STREAM_FINISHED, c)])
    \<and> opening_reviews n start \<and> length reviews = n
    \<and> (\<forall>i < n. \<exists>c'. reviews ! i = (STREAM_ACTION_READY, c') \<and> presents ops ripemd160 n i (tx_actions t ! i) c')
    \<and> sha256 c = h"
proof -
  have ok: "rest_ok (initTxContext ops contents allowed)"
    using assms(3) by (rule fresh_rest_ok)
  obtain b bs where cs: "cs = b # bs" using assms(8) by (cases cs) auto
  obtain start reviews c where *: "session ops (initTxContext ops contents allowed) [encoding t]
      (start @ reviews @ [(STREAM_FINISHED, c)])" "opening_reviews n start"
    "reviews_of ops ripemd160 n 0 (tx_actions t) reviews" "sha256 c = h"
    using transaction_session [OF assms(1-7)] by (elim exE conjE)
  have "session ops (initTxContext ops contents allowed) cs (start @ reviews @ [(STREAM_FINISHED, c)])"
    using session_chunks [OF ok assms(7) [folded assms(9), unfolded cs] assms(1,2)] *(1) assms(9) unfolding cs by simp
  then show ?thesis using *(2-4) assms(5) unfolding reviews_of_nth by auto
qed

lemma transaction_reviewed_witness:
  "\<exists>start reviews c. session sample_ops (initTxContext sample_ops sample_content 1)
     [take 100 (encoding sample_tx), drop 100 (encoding sample_tx)] (start @ reviews @ [(STREAM_FINISHED, c)])
   \<and> length reviews = 2 \<and> sha256 c = signed_bytes sample_tx"
proof -
  have "hash_update sample_ops (hash_init sample_ops) (signed_bytes sample_tx) = Some (signed_bytes sample_tx)"
    by (simp add: sample_ops_def)
  moreover have "2 = length (tx_actions sample_tx)" by (simp add: sample_tx_def)
  ultimately show ?thesis
    using transaction_reviewed [OF sample_ops_ok(2,1) sample_contents_ok _ _ _ sample_tx_length, of sample_ripemd160 1 2
        "signed_bytes sample_tx" "[take 100 (encoding sample_tx), drop 100 (encoding sample_tx)]"] sample_tx_ok by auto
qed

text \<open>
  C5. Nothing is signed that was not reviewed: in every session that starts with a fresh context, on any
  bytes whatever, the parser stops for the actions in their order, once for each, and when it reports the
  end of the transaction it has stopped for as many actions as the transaction announced (for one when it
  announced none).
\<close>

theorem reviews_complete:
  assumes "session ops (initTxContext ops contents allowed) cs log" and "digest_32 ops" and "content_ok contents"
    and "\<forall>bs \<in> set cs. length bs < 2 ^ 32"
  shows "map (\<lambda>c. unat (currentActionIndex c)) (reviewed log) = [1 ..< Suc (length (reviewed log))]
    \<and> (\<forall>c. (STREAM_FINISHED, c) \<in> set log \<longrightarrow> length (reviewed log) = max 1 (unat (currentActionNumber c)))"
  using session_book [OF assms(2,1) fresh_rest_ok [OF assms(3)] book_start assms(4)] by blast

lemma reviews_complete_witness:
  "\<exists>log. session sample_ops (initTxContext sample_ops sample_content 1) [encoding sample_tx] log
     \<and> map (\<lambda>c. unat (currentActionIndex c)) (reviewed log) = [1 ..< 3]"
proof -
  have h: "hash_update sample_ops (hash_init sample_ops) (signed_bytes sample_tx) = Some (signed_bytes sample_tx)"
    by (simp add: sample_ops_def)
  have n: "2 = length (tx_actions sample_tx)" by (simp add: sample_tx_def)
  obtain start reviews c where s: "session sample_ops (initTxContext sample_ops sample_content 1) [encoding sample_tx]
      (start @ reviews @ [(STREAM_FINISHED, c)])" "opening_reviews 2 start"
    "reviews_of sample_ops sample_ripemd160 2 0 (tx_actions sample_tx) reviews"
    using transaction_session [OF sample_ops_ok(2,1) sample_contents_ok _ n h sample_tx_length, of sample_ripemd160 1] sample_tx_ok
    by auto
  have "length (reviewed (start @ reviews @ [(STREAM_FINISHED, c)])) = 2"
    using s(2,3) by (auto simp: opening_reviews_def sample_tx_def reviewed_def)
  moreover have "\<forall>bs \<in> set [encoding sample_tx]. length bs < 2 ^ 32" using sample_tx_length by simp
  ultimately show ?thesis
    using reviews_complete [OF s(1) sample_ops_ok(1) sample_contents_ok] s(1) by (metis numeral_3_eq_3 numeral_2_eq_2)
qed

text \<open>
  C6. With the setting off, the user is never asked to approve an action that the application cannot decode:
  in every session on any bytes, each action under review is of a known kind, or the setting was on when
  the transaction began.
\<close>

theorem unknown_actions_need_the_setting:
  assumes "session ops (initTxContext ops contents allowed) cs log" and "digest_32 ops" and "content_ok contents"
    and "\<forall>bs \<in> set cs. length bs < 2 ^ 32" and "c \<in> set (reviewed log)"
  shows "isKnownAction c \<or> allowed = 1"
  using session_vetted [OF assms(2,1) fresh_rest_ok [OF assms(3)] vetted_start assms(4,5)] .

text \<open>With the setting off, on the desktop program's transaction of three actions.\<close>

lemma unknown_actions_need_the_setting_witness:
  "\<exists>log c. session sample_ops (initTxContext sample_ops sample_content 0) [encoding newaccount_tx] log
     \<and> c \<in> set (reviewed log) \<and> isKnownAction c"
proof -
  have h: "hash_update sample_ops (hash_init sample_ops) (signed_bytes newaccount_tx) = Some (signed_bytes newaccount_tx)"
    by (simp add: sample_ops_def)
  have n: "3 = length (tx_actions newaccount_tx)" by (simp add: newaccount_tx_def desktop_tx_def)
  have ok: "tx_ok sample_ops sample_ripemd160 ((0 :: u8) = 1) newaccount_tx"
    by (simp add: newaccount_tx_def desktop_tx_def desktop_chain_def desktop_key_def tx_ok_def act_ok_def body_ok_def EOSIO_def
        key_fine_def key_ok_def sample_ripemd160_def quantity_fine_def asset_fine_def symbol_precision_def
        authority_one_key)
  have "2 * length (encoding newaccount_tx) = length tx_newaccount" by (simp add: tx_newaccount_encoded)
  then have l: "length (encoding newaccount_tx) < 2 ^ 32" by (simp add: tx_newaccount_def)
  obtain start reviews c where s: "session sample_ops (initTxContext sample_ops sample_content 0) [encoding newaccount_tx]
      (start @ reviews @ [(STREAM_FINISHED, c)])" "reviews_of sample_ops sample_ripemd160 3 0 (tx_actions newaccount_tx) reviews"
    using transaction_session [OF sample_ops_ok(2,1) sample_contents_ok ok n h l] by auto
  obtain c' rest where "reviews = (STREAM_ACTION_READY, c') # rest"
    using s(2) by (auto simp: newaccount_tx_def desktop_tx_def)
  then have c': "c' \<in> set (reviewed (start @ reviews @ [(STREAM_FINISHED, c)]))"
    by (simp add: reviewed_def)
  have "\<forall>bs \<in> set [encoding newaccount_tx]. length bs < 2 ^ 32" using l by simp
  from unknown_actions_need_the_setting [OF s(1) sample_ops_ok(1) sample_contents_ok this c'] s(1) c'
  show ?thesis by auto
qed

text \<open>
  C7. The host may cut the bytes of a transaction into commands as it likes: the reviews, their contexts and
  the end of a session depend on the bytes only.
\<close>

theorem commands_immaterial:
  assumes "rest_ok ctx" and "incremental ops" and "digest_32 ops" and "cs \<noteq> []" and "ds \<noteq> []"
    and "concat cs = concat ds" and "length (concat cs) < 2 ^ 32"
  shows "session ops ctx cs log = session ops ctx ds log"
  using assms by (cases cs; cases ds) (metis session_chunks)+

lemma commands_immaterial_witness:
  "\<forall>log. session sample_ops (initTxContext sample_ops sample_content 0) [[4], [1, 7]] log
     = session sample_ops (initTxContext sample_ops sample_content 0) [[4, 1], [7]] log"
proof (intro allI, rule commands_immaterial)
  show "rest_ok (initTxContext sample_ops sample_content 0)"
    using sample_contents_ok by (rule fresh_rest_ok)
qed (simp_all add: sample_ops_ok)

text \<open>
  C8. The parser with its buffer, its place in it and its count of what is left implements \<open>consume\<close>, which
  knows the bytes only: a call with a new command, or the approval of a review with bytes left over, gives the
  context, the bytes left and the status that \<open>consume\<close> gives on those bytes.
\<close>

theorem parser_refines:
  assumes "stream_ok mem ctx" and "command_ok mem buffer len" and "digest_32 ops"
  shows "abstracted mem (parseTx ops mem ctx buffer len) = consume ops (blank ctx) (input_bytes mem ctx buffer len)"
  using parseTx_refines [OF assms] by simp

lemma parser_refines_witness:
  "abstracted [9, 4, 1, 7] (parseTx sample_ops [9, 4, 1, 7] (initTxContext sample_ops sample_content 0) (Some 1) 3)
     = consume sample_ops (blank (initTxContext sample_ops sample_content 0)) [4, 1, 7]"
  using parser_refines [OF initTxContext_ok [OF sample_contents_ok], of "[9, 4, 1, 7]" "Some 1" 3 sample_ops sample_ops 0]
  by (simp add: sample_ops_ok command_ok_def input_bytes_def command_bytes_def initTxContext_def)

section \<open>Properties: the commands and the screens\<close>

text \<open>
  C9. The screens of the devices with buttons: the review of an action is the list of its title, the
  contract, the action, one screen for each argument and the two decisions; the right button goes through
  all of it, one screen at a time, and the left button goes back.
\<close>

theorem review_walks:
  assumes "flow_order 8 fwd bwd" and "digest_32 ops" and "act_ok ops ripemd160 allowed a"
    and "presents ops ripemd160 n i a c" and "ux_sizes u" and "i < n" and "n < 2 ^ 31"
    and "xs = review_list (if 1 < n then cstr ''Action #'' @ int_text (int (Suc i)) else cstr ''Transaction'')
      (name_text (act_account a)) (name_text (body_name (act_body a))) (body_screens ops ripemd160 (act_body a)) (Suc i = n)"
  shows "\<exists>u0. ui_display_single_action_sign_flow c u = Inr u0 \<and> (\<forall>pos < length xs.
    \<exists>s. walk ripemd160 fwd bwd (Suc (Suc k)) pos (u0, c) = Some (Inr s) \<and> seen s = xs ! pos
      \<and> (pos \<noteq> 0 \<longrightarrow> (\<exists>s'. press ripemd160 fwd bwd (Suc (Suc k)) LeftButton s = Some (Inr s') \<and> seen s' = xs ! (pos - 1))))"
  using action_walk [OF assms] .

lemma review_walks_witness:
  "\<exists>(c :: bytes txProcessingContext_t) u0 s. ui_display_single_action_sign_flow c sample_ux = Inr u0
     \<and> walk sample_ripemd160 Suc (\<lambda>i. i - 1) 2 4 (u0, c) = Some (Inr s) \<and> seen s = (cstr ''Accept'', cstr ''& review next'')"
proof -
  obtain c where c: "presents sample_ops sample_ripemd160 2 0 \<lparr>act_account = EOSIO, act_auths = [(5, 6)], act_body = Decoded (Refund 5)\<rparr> c"
    using sample_review by blast
  have o: "flow_order 8 Suc (\<lambda>i. i - 1)" by (simp add: flow_order_def)
  have u: "ux_sizes sample_ux" by (simp add: ux_sizes_def sample_ux_def)
  have n: "(0 :: nat) < 2" "(2 :: nat) < 2 ^ 31" by simp_all
  let ?xs = "review_list (if 1 < (2 :: nat) then cstr ''Action #'' @ int_text (int (Suc 0)) else cstr ''Transaction'')
    (name_text EOSIO) (name_text (body_name (Decoded (Refund 5)))) (body_screens sample_ops sample_ripemd160 (Decoded (Refund 5)))
    (Suc 0 = 2)"
  have xs: "4 < length ?xs" "?xs ! 4 = (cstr ''Accept'', cstr ''& review next'')"
    by (simp_all add: review_list_def body_screens_def)
  obtain u0 s where r: "ui_display_single_action_sign_flow c sample_ux = Inr u0"
    "walk sample_ripemd160 Suc (\<lambda>i. i - 1) (Suc (Suc 0)) 4 (u0, c) = Some (Inr s)" "seen s = ?xs ! 4"
    using review_walks [OF o sample_ops_ok(1) sample_act_ok c u n refl, of 0] xs(1) by auto
  have "walk sample_ripemd160 Suc (\<lambda>i. i - 1) 2 4 (u0, c) = Some (Inr s)"
    using r(2) by (simp only: numeral_2_eq_2)
  moreover have "seen s = (cstr ''Accept'', cstr ''& review next'')" using r(3) xs(2) by simp
  ultimately show ?thesis using r(1) by blast
qed

text \<open>
  C10. The screens of the devices with a touch screen: as long as the list of an action's pairs has at most
  255 entries, the review announces their number, and every page shows its part of the list, whatever pages were
  drawn before, although the device keeps copies of only as many arguments as fit a page.
\<close>

theorem pages_show_review:
  assumes "digest_32 ops" and "act_ok ops ripemd160 allowed a" and "presents ops ripemd160 n i a c"
    and "page_sizes m u" and "n < 2 ^ 32" and "u0 = ui_display_single_action_sign_flow_nbgl c u"
    and "xs = pair_list (if n = 1 then SinglePairs else MultiPairs) c (body_screens ops ripemd160 (act_body a))"
    and "length xs \<le> 255" and "pages_of m xs pages"
  shows "unat (nbPairs u0) = length xs \<and> draw_pages ripemd160 m pages (u0, c) = Inr (map (\<lambda>(i, k). take k (drop i xs)) pages)"
  using action_pages [OF assms] .

lemma pages_show_review_witness:
  "\<exists>(c :: bytes txProcessingContext_t) page. draw_pages sample_ripemd160 4 [(2, 2), (0, 2), (2, 2)]
     (ui_display_single_action_sign_flow_nbgl c sample_nbgl, c) = Inr [page, take 2 (pair_list MultiPairs c []), page]"
proof -
  obtain c where c: "presents sample_ops sample_ripemd160 2 0 \<lparr>act_account = EOSIO, act_auths = [(5, 6)], act_body = Decoded (Refund 5)\<rparr> c"
    using sample_review by blast
  have s: "page_sizes 4 sample_nbgl" by (simp add: page_sizes_def sample_nbgl_def)
  let ?xs = "pair_list (if (2 :: nat) = 1 then SinglePairs else MultiPairs) c
    (body_screens sample_ops sample_ripemd160 (Decoded (Refund 5)))"
  have l: "length ?xs = 4" by (simp add: pair_list_def body_screens_def)
  then have p: "pages_of 4 ?xs [(2, 2), (0, 2), (2, 2)]" by (simp add: pages_of_def)
  have n: "(2 :: nat) < 2 ^ 32" and l': "length ?xs \<le> 255" using l by simp_all
  have "take 2 (drop 0 ?xs) = take 2 (pair_list MultiPairs c [])" by (simp add: pair_list_def numeral_2_eq_2)
  moreover have "draw_pages sample_ripemd160 4 [(2, 2), (0, 2), (2, 2)] (ui_display_single_action_sign_flow_nbgl c sample_nbgl, c)
      = Inr [take 2 (drop 2 ?xs), take 2 (drop 0 ?xs), take 2 (drop 2 ?xs)]"
    using pages_show_review [OF sample_ops_ok(1) sample_act_ok c s n refl, of ?xs "[(2, 2), (0, 2), (2, 2)]"] l' p
    unfolding list.map prod.case act.simps by blast
  ultimately show ?thesis by metis
qed

text \<open>
  C11. The device with its buttons refines the device: the flow on the screen is always the one for what the
  device waits for, a command and a press of both buttons on a decision are the steps of the device of that
  name, and nothing else the user presses changes it, but for the text of the argument on the screen and the
  setting, which the settings flow switches when nothing is under review.
\<close>

theorem buttons_refine_device:
  assumes "button_step lib fwd bwd fuel (dev, u) e reply (dev', u')" and "flow_fits (dev, u)"
  shows "flow_fits (dev', u') \<and> device_move lib dev e (callback_of lib dev u) reply dev'"
  using button_step_refines [OF assms] by simp

lemma sample_settings:
  "callback_of sample_lib sample_device sample_ux = DisplaySettings" "flow_fits (sample_device, sample_ux)"
  by (simp_all add: callback_of_eq callbacks_def sample_ux_def flow_fits_def sample_device_def ux_sizes_def)

lemma sample_settings_open:
  "\<exists>l. button_step sample_lib (\<lambda>_. Suc) (\<lambda>_ i. i - 1) 2 (sample_device, sample_ux) Both None
     (sample_device, sample_ux\<lparr>confirmLabel := l, ux_flow := ux_settings_flow, ux_at := 0\<rparr>) \<and> length l = 32"
proof -
  obtain l where l: "strlcpy (confirmLabel sample_ux) (cstr ''Allowed'') 32 = Inr l" "length l = 32"
    by (simp add: strlcpy_def mem_write_def sample_ux_def cstr_def)
  have "display_settings (N_storage sample_device) sample_ux
    = Inr (sample_ux\<lparr>confirmLabel := l, ux_flow := ux_settings_flow, ux_at := 0\<rparr>)"
    using l by (simp add: display_settings_def ux_flow_init_def sample_device_def is_data_allowed_def)
  then show ?thesis using press_settings [OF sample_settings(1)] l(2) by blast
qed

lemma buttons_refine_device_witness:
  "\<exists>u'. flow_fits (sample_device, u') \<and> ux_flow u' = ux_settings_flow
     \<and> device_move sample_lib sample_device Both DisplaySettings None sample_device"
proof -
  obtain l where "button_step sample_lib (\<lambda>_. Suc) (\<lambda>_ i. i - 1) 2 (sample_device, sample_ux) Both None
     (sample_device, sample_ux\<lparr>confirmLabel := l, ux_flow := ux_settings_flow, ux_at := 0\<rparr>)"
    using sample_settings_open by blast
  from buttons_refine_device [OF this sample_settings(2)] show ?thesis
    unfolding sample_settings(1) by (intro exI [of _ "sample_ux\<lparr>confirmLabel := l, ux_flow := ux_settings_flow, ux_at := 0\<rparr>"]) simp
qed

text \<open>
  C12. Looking changes nothing: in every history of commands and presses, the turns to other screens can be left
  out. The same commands and presses are left, with the same answers to the host; only the argument that is on
  the screen at the end may be another one.
\<close>

theorem browsing_changes_nothing:
  assumes "move_run lib dev h dev'"
  shows "\<exists>h' dev''. move_run lib dev h' dev'' \<and> browsed dev'' dev' \<and> happened h' = filter (\<lambda>x. \<not> turned x) (happened h)"
  using history_without_turns [OF assms] .

lemma browsing_changes_nothing_witness:
  "\<exists>h' dev''. move_run sample_lib sample_device h' dev'' \<and> happened h' = [(Host [0xD4, 4, 0x80, 0, 0], NoCallback, Some [0x69, 0x85])]"
proof -
  have r: "refusal 0xD4 4 0x80 0 0 (state (txProcessingCtx sample_device) \<noteq> TLV_NONE) = Some 0x6985"
    by (simp add: refusal_def sample_device_def)
  have b: "in_buffer sample_device [0xD4, 4, 0x80, 0, 0] = [0xD4, 4, 0x80, 0, 0] @ zeros 255"
    by (simp add: in_buffer_def sample_device_def)
  have z: "zeros 255 ! 0 = 0" by (simp add: zeros_def)
  have l: "260 \<le> length (G_io_apdu_buffer sample_device)" "display sample_device = IdleScreen" by (simp_all add: sample_device_def)
  obtain dev' where c: "device_step sample_lib sample_device (Command [0xD4, 4, 0x80, 0, 0]) (Some [0x69, 0x85]) dev'"
    using device_refuses [of sample_device "[0xD4, 4, 0x80, 0, 0]" "0x6985" sample_lib] r b z l by (auto simp: status_bytes_def)
  then have "device_move sample_lib sample_device (Host [0xD4, 4, 0x80, 0, 0]) NoCallback (Some [0x69, 0x85]) dev'"
    by (simp add: device_move_def)
  moreover have "device_move sample_lib sample_device (Turn RightButton) NoCallback None sample_device"
    by (simp add: device_move_def browsed_same)
  ultimately have "move_run sample_lib sample_device [(sample_device, Turn RightButton, NoCallback, None),
      (sample_device, Host [0xD4, 4, 0x80, 0, 0], NoCallback, Some [0x69, 0x85])] dev'"
    using move_more [OF _ move_more [OF _ move_end]] by blast
  from browsing_changes_nothing [OF this] show ?thesis by (auto simp: happened_def turned_def)
qed

text \<open>
  C13. The setting is the user's: in every run of commands and presses, the setting for data that cannot be
  decoded is what it was at the beginning, switched as often as the user pressed both buttons on the switch.
\<close>

theorem setting_is_the_users:
  assumes "button_run lib fwd bwd fuel s es s'" and "flow_fits s"
  shows "is_data_allowed (N_storage (fst s')) = (is_data_allowed (N_storage (fst s)) \<noteq> odd (switch_count es))"
  using button_run_setting [OF assms] .

lemma setting_is_the_users_witness:
  "\<exists>s'. button_run sample_lib (\<lambda>_. Suc) (\<lambda>_ i. i - 1) 2 (sample_device, sample_ux)
     [(Both, DisplaySettings), (Both, SwitchContractData)] s' \<and> \<not> is_data_allowed (N_storage (fst s'))"
proof -
  obtain l where s: "button_step sample_lib (\<lambda>_. Suc) (\<lambda>_ i. i - 1) 2 (sample_device, sample_ux) Both None
     (sample_device, sample_ux\<lparr>confirmLabel := l, ux_flow := ux_settings_flow, ux_at := 0\<rparr>)" and l: "length l = 32"
    using sample_settings_open by blast
  let ?u = "sample_ux\<lparr>confirmLabel := l, ux_flow := ux_settings_flow, ux_at := 0\<rparr>"
  have c: "callback_of sample_lib sample_device ?u = SwitchContractData"
    by (simp add: callback_of_eq callbacks_def)
  have t: "toogle_data_allowed (N_storage sample_device) = \<lparr>storedDataAllowed = 0, initialized = 1\<rparr>"
    by (simp add: toogle_data_allowed_def is_data_allowed_def sample_device_def)
  obtain s u' where "switch_settings_contract_data (N_storage sample_device) ?u = Inr (s, u')"
    using l by (simp add: t is_data_allowed_def switch_settings_contract_data_def display_settings_def strlcpy_def mem_write_def cstr_def Let_def)
  from button_more [OF press_switch [OF c this] button_end]
  have "button_run sample_lib (\<lambda>_. Suc) (\<lambda>_ i. i - 1) 2 (sample_device, ?u) [(Both, SwitchContractData)]
      (sample_device\<lparr>N_storage := s\<rparr>, u')"
    by (simp add: c)
  from button_more [OF s this]
  have run: "button_run sample_lib (\<lambda>_. Suc) (\<lambda>_ i. i - 1) 2 (sample_device, sample_ux)
      [(Both, DisplaySettings), (Both, SwitchContractData)] (sample_device\<lparr>N_storage := s\<rparr>, u')"
    by (simp add: sample_settings(1))
  have "is_data_allowed (N_storage sample_device)" by (simp add: sample_device_def is_data_allowed_def)
  then show ?thesis using setting_is_the_users [OF run sample_settings(2)] run by (auto simp: switch_count_def)
qed

text \<open>
  C14. The command for a public key answers the point, the text of its compressed form and, if the command
  asks for it, the chain code; when the command asks for a confirmation, that text is on the screen, the
  approval gives the same answer and the rejection gives 6985.
\<close>

theorem public_key_answer:
  assumes "display dev = IdleScreen" and "260 \<le> length (G_io_apdu_buffer dev)" and "path_ok path"
    and "p2 = 0 \<or> p2 = 1" and "has_key lib path X Y code check"
    and "length (address (public_key_member lib (tmpCtx dev))) = 60"
    and "A = key_answer X Y (wif_text (compressed X Y) check) (if p2 = 1 then code else [])"
  shows "(\<exists>dev'. device_step lib dev (Command (key_apdu 0 p2 path)) (Some (A @ ok_bytes)) dev')
    \<and> (\<exists>dev1 dev2 dev3. device_step lib dev (Command (key_apdu 1 p2 path)) None dev1 \<and> display dev1 = PublicKeyFlow
        \<and> c_string (address (public_key_member lib (tmpCtx dev1))) = wif_text (compressed X Y) check
        \<and> device_step lib dev1 Approve (Some (A @ ok_bytes)) dev2 \<and> device_step lib dev1 Reject (Some [0x69, 0x85]) dev3)"
  using key_command [OF assms] by blast

lemma public_key_answer_witness:
  "\<exists>dev' addr. device_step sample_lib sample_device (Command (key_apdu 0 1 sample_path))
     (Some (key_answer (replicate 32 7) (replicate 32 8) addr (replicate 32 2) @ ok_bytes)) dev'"
proof -
  let ?X = "replicate 32 7 :: bytes" and ?Y = "replicate 32 8 :: bytes"
  have "has_key sample_lib sample_path ?X ?Y (replicate 32 2) (take 20 (compressed ?X ?Y))"
    by (simp add: has_key_def sample_lib_def sample_ripemd160_def compressed_def)
  from public_key_answer [OF _ _ sample_path_ok _ this _ refl, of sample_device 1] show ?thesis
    by (simp add: sample_device_def sample_lib_def public_key_member_def) blast
qed

text \<open>
  C15. Refused commands: a command with a wrong class, instruction or parameter, with a path of no or more
  than ten indices, or that continues a transaction that was not begun, is answered with its status and two
  bytes only, and neither the setting nor, but for a first command, the transaction and the key path change.
\<close>

theorem commands_refused:
  assumes "260 \<le> length (G_io_apdu_buffer dev)" and "bs \<noteq> []" and "length bs \<le> 260" and "display dev = IdleScreen"
    and "refusal (in_buffer dev bs ! 0) (in_buffer dev bs ! 1) (in_buffer dev bs ! 2) (in_buffer dev bs ! 3) (in_buffer dev bs ! 5)
      (state (txProcessingCtx dev) \<noteq> TLV_NONE) = Some sw"
  shows "\<exists>dev'. device_step lib dev (Command bs) (Some (status_bytes sw)) dev'
    \<and> N_storage dev' = N_storage dev \<and> display dev' = IdleScreen
    \<and> (in_buffer dev bs ! 1 = 4 \<and> in_buffer dev bs ! 2 = 0 \<or> txProcessingCtx dev' = txProcessingCtx dev \<and> tmpCtx dev' = tmpCtx dev)"
  using device_refuses [OF assms] .

lemma commands_refused_witness:
  "\<exists>dev'. device_step sample_lib sample_device (Command [0xD4, 4, 0x80, 0, 0]) (Some [0x69, 0x85]) dev'"
proof -
  have "refusal 0xD4 4 0x80 0 0 (state (txProcessingCtx sample_device) \<noteq> TLV_NONE) = Some 0x6985"
    by (simp add: refusal_def sample_device_def)
  moreover have "in_buffer sample_device [0xD4, 4, 0x80, 0, 0] = [0xD4, 4, 0x80, 0, 0] @ zeros 255"
    by (simp add: in_buffer_def sample_device_def)
  moreover have "zeros 255 ! 0 = 0" by (simp add: zeros_def)
  moreover have "260 \<le> length (G_io_apdu_buffer sample_device)" "display sample_device = IdleScreen"
    by (simp_all add: sample_device_def)
  ultimately show ?thesis
    using commands_refused [of sample_device "[0xD4, 4, 0x80, 0, 0]" "0x6985" sample_lib]
    by (auto simp: status_bytes_def)
qed

text \<open>
  C16. The nonce: for a hash below the order, the generator returns the first candidate of RFC 6979 that passes
  its test. It passes over candidates only that are not below the order, so that a result from 1 to below the
  order is the nonce of the RFC. (For other hashes the candidates are not those of the RFC, which reduces the
  hash: \<open>bits2octets_same\<close> in \<open>Eos_Nonce\<close>.)
\<close>

theorem nonce_chosen:
  assumes "hmac_total hmac H" and "length q = 32" and "length V = 33" and "length K = 32" and "length h1 = 32"
    and "32 \<le> length rnd" and "be_nat h1 < be_nat q" and "t = rfc_generate H (rfc_setup H q x h1)"
    and "accepted q ((rfc_next H ^^ n) t)" and "\<forall>m < n. \<not> accepted q ((rfc_next H ^^ m) t)"
    and "k = fst ((rfc_next H ^^ n) t)"
  shows "(\<exists>V' K'. rng_rfc6979 hmac rnd h1 (Some x) q 32 V K = Some (Inr (k @ drop 32 rnd, V', K'))
      \<and> holds_state V' K' ((rfc_next H ^^ n) t))
    \<and> (\<forall>m < n. be_nat q \<le> be_nat (fst ((rfc_next H ^^ m) t)))
    \<and> (be_nat k \<in> {1 ..< be_nat q} \<longrightarrow> rfc_nonce H q t k)"
proof -
  have "0 < be_nat q" using assms(7) by linarith
  then have "bits2octets q h1 = h1" using bits2octets_same [OF assms(5)] assms(7) by blast
  then have t: "t = rfc_generate H (seeded H x h1)" using assms(8) by (simp add: rfc_setup_def)
  have not_below: "be_nat q \<le> be_nat (fst ((rfc_next H ^^ m) t))" if "m < n" for m
  proof -
    have "length (fst ((rfc_next H ^^ m) t)) = length q"
      using assms(1,2,8) by (cases m) (simp_all add: rfc_next_def rfc_generate_def hmac_total_def)
    then show ?thesis using below_some_byte assms(10) that unfolding accepted_def by (meson not_less)
  qed
  then have "be_nat k \<in> {1 ..< be_nat q} \<longrightarrow> rfc_nonce H q t k"
    using assms(11) unfolding rfc_nonce_def by (metis atLeastLessThan_iff not_less)
  then show ?thesis using rng_rfc6979_first [OF assms(1-6) t assms(9,10)] not_below assms(11) by blast
qed

lemma nonce_chosen_witness:
  "(\<exists>V' K'. rng_rfc6979 (\<lambda>_ _. Some (replicate 32 7)) (zeros 100) (zeros 32) (Some [1, 2]) SECP256K1_N 32 (zeros 33) (zeros 32)
     = Some (Inr (replicate 32 7 @ zeros 68, V', K')))
   \<and> rfc_nonce (\<lambda>_ _. replicate 32 7) SECP256K1_N
       (rfc_generate (\<lambda>_ _. replicate 32 7) (rfc_setup (\<lambda>_ _. replicate 32 7) SECP256K1_N [1, 2] (zeros 32))) (replicate 32 7)"
proof -
  let ?H = "\<lambda>_ _. replicate 32 7 :: bytes"
  let ?t = "rfc_generate ?H (rfc_setup ?H SECP256K1_N [1, 2] (zeros 32))"
  have h: "hmac_total (\<lambda>_ _. Some (replicate 32 7)) ?H" by (simp add: hmac_total_def)
  have q: "length SECP256K1_N = 32" by (rule SECP256K1_N_length)
  have t: "fst ?t = replicate 32 7" by (simp add: rfc_generate_def)
  have r: "replicate 32 7 = 7 # replicate 31 (7 :: u8)" using replicate_Suc [of 31 "7 :: u8"] by simp
  then have "some_byte_below (replicate 32 7) SECP256K1_N" by (simp add: some_byte_below_def SECP256K1_N_def)
  then have a: "accepted SECP256K1_N ((rfc_next ?H ^^ 0) ?t)" by (simp add: accepted_def t)
  have k: "replicate 32 7 = fst ((rfc_next ?H ^^ 0) ?t)" by (simp add: t)
  have "be_nat (zeros 32) = 0" by (simp add: zeros_def)
  then have b: "be_nat (zeros 32) < be_nat SECP256K1_N" by (simp add: SECP256K1_N_def be_val_def)
  have "replicate 32 (7 :: u8) = [7, 7, 7, 7, 7, 7, 7, 7, 7, 7, 7, 7, 7, 7, 7, 7, 7, 7, 7, 7, 7, 7, 7, 7, 7, 7, 7, 7, 7, 7, 7, 7]"
    by (simp add: numeral_eq_Suc)
  then have in_range: "be_nat (replicate 32 7) \<in> {1 ..< be_nat SECP256K1_N}"
    by (simp add: SECP256K1_N_def be_val_def)
  have "length (zeros 33) = 33" "length (zeros 32) = 32" "32 \<le> length (zeros 100)" and z: "drop 32 (zeros 100) = zeros 68" by simp_all
  then show ?thesis
    using nonce_chosen [OF h q _ _ _ _ b refl a _ k, of "zeros 33" "zeros 32" "zeros 100"] in_range unfolding z by blast
qed

section \<open>Properties: what the user reviews\<close>

text \<open>
  C17. When the context holds a complete action of a kind the application knows, and the action is
  one the screen can carry, \<^verbatim>\<open>printArgument\<close> puts exactly the \<open>i\<close>-th screen that the specification gives for
  it (label and text of the decoded value) into the content: every byte of both arrays is
  determined by the signed bytes, and nothing else of the context changes.
\<close>

theorem action_is_displayed:
  assumes "holds_action ctx a" and "action_fine ripemd160 a"
    and "i < length (action_screens ripemd160 a)"
  shows "printArgument ripemd160 (of_nat i) ctx =
    Inr (ctx\<lparr>content := (content ctx)\<lparr>arg := show_screen (action_screens ripemd160 a ! i)\<rparr>\<rparr>)"
  using assms by (rule printArgument_shows)

lemma action_is_displayed_witness:
  "printArgument sample_ripemd160 (of_nat 6) (sample_context sample_update) =
    Inr ((sample_context sample_update)\<lparr>content := sample_content
      \<lparr>arg := show_screen (cstr ''Account #1'', name_text 5 @ cstr ''@'' @ name_text 6)\<rparr>\<rparr>)"
proof -
  have "6 < length (action_screens sample_ripemd160 sample_update)"
    by (simp add: sample_update_def key_screens_def account_screens_def delay_screens_def two_screens_def)
  moreover have "action_screens sample_ripemd160 sample_update ! 6
      = (cstr ''Account #1'', name_text 5 @ cstr ''@'' @ name_text 6)"
    by (simp add: sample_update_def key_screens_def account_screens_def delay_screens_def two_screens_def
        nth_label_def cstr_def dec_string_def dec_digits.simps digit_def)
  moreover have "content (sample_context sample_update) = sample_content"
    by (simp add: sample_context_def initTxContext_def)
  ultimately show ?thesis
    using action_is_displayed [OF sample_update_held sample_update_fine] by metis
qed

text \<open>
  C18. The number of arguments that the parser counts for a complete action is the number of its
  screens, and that number fits the counter, so that no argument is left out of the review.
\<close>

theorem action_is_counted:
  assumes "holds_action ctx a" and "action_fine ripemd160 a"
  shows "length (action_screens ripemd160 a) < 256 \<and>
    count_arguments ctx = Inr (set_count (of_nat (length (action_screens ripemd160 a))) ctx)"
  using assms length_action_screens count_arguments_counts by blast

lemma action_is_counted_witness:
  "count_arguments (sample_context sample_update) = Inr (set_count 10 (sample_context sample_update))"
proof -
  have "length (action_screens sample_ripemd160 sample_update) = 10"
    by (simp add: sample_update_def key_screens_def account_screens_def delay_screens_def two_screens_def)
  then show ?thesis
    using action_is_counted [OF sample_update_held sample_update_fine] by simp
qed

text \<open>
  C19. The dispatch by name: the actions that the application knows are those whose name on the chain is one of
  thirteen, \<^verbatim>\<open>transfer\<close> on any contract and the others on \<^verbatim>\<open>eosio\<close>; for each of them the function that belongs to
  this name counts the arguments and the one that belongs to it prints them one by one; for any other action
  what is printed comes from the checksum of its data, or nothing is printed when the setting is off.
\<close>

theorem known_actions:
  "(isKnownAction ctx \<longleftrightarrow> (\<exists>(n, count, show) \<in> set (named_actions ripemd160). named ctx n))
    \<and> (\<forall>(n, count, show) \<in> set (named_actions ripemd160). named ctx n \<longrightarrow> count_arguments ctx = count ctx
        \<and> (\<forall>i. printArgument ripemd160 i ctx =
            andThen (show (actionDataBuffer ctx) 0 (currentActionDataBufferLength ctx) i (arg (content ctx))) (\<lambda>a. Inr (with_arg ctx a))))
    \<and> (\<not> isKnownAction ctx \<longrightarrow> (\<forall>i. printArgument ripemd160 i ctx =
        andThen (if dataAllowed ctx = 1 then parseUnknownAction (dataChecksum ctx) 0 32 i (arg (content ctx)) else Inr (arg (content ctx)))
          (\<lambda>a. Inr (with_arg ctx a))))"
  using known_named [of ctx ripemd160] named_dispatch [of _ _ _ ripemd160 ctx] unknown_prints [of ctx ripemd160]
  unfolding print_unknown_def by blast

lemma known_actions_witness:
  "\<forall>i. printArgument sample_ripemd160 i (sample_context sample_update) =
     andThen (parseUpdateAuth sample_ripemd160 (actionDataBuffer (sample_context sample_update)) 0
       (currentActionDataBufferLength (sample_context sample_update)) i (arg sample_content))
     (\<lambda>a. Inr (with_arg (sample_context sample_update) a))"
proof -
  have "named (sample_context sample_update) ''updateauth''"
    by (simp add: named_def name_texts sample_context_def sample_update_def)
  moreover have "(''updateauth'', processEosioUpdateAuth, parseUpdateAuth sample_ripemd160) \<in> set (named_actions sample_ripemd160)"
    by (simp add: named_actions_def)
  moreover have "content (sample_context sample_update) = sample_content"
    by (simp add: sample_context_def initTxContext_def)
  ultimately show ?thesis
    using known_actions [of "sample_context sample_update" sample_ripemd160, THEN conjunct2, THEN conjunct1] by fastforce
qed

section \<open>Properties: the harnesses\<close>



text \<open>
  C21. The fuzzer parses once: whatever bytes it is given, it calls the parser once and returns 0; its loop
  never goes round, so that it stops at the first review and prints no argument.
\<close>

theorem fuzzer_stops_at_first_review:
  "LLVMFuzzerTestOneInput ops contents bs =
     runThen (parseTx ops bs (initTxContext ops contents 1) (Some 0) (of_nat (length bs))) (\<lambda>(ctx, status). Some (Inr (0, ctx)))"
  using fuzzer_parses_once .

section \<open>Properties: the streaming parser\<close>

text \<open>
  C22. The parser always returns: whatever the host sends in a command, the loop of
  \<^verbatim>\<open>processTxInternal\<close> ends, the context it leaves satisfies the invariant again unless the status is
  \<^verbatim>\<open>STREAM_FAULT\<close>, and it accesses no array outside its bounds but in one case: its rounds have come to a field
  that is an account or action name, in a context that satisfies the invariant, and its next bytes reach beyond
  the eight bytes of the name, to the ninth at least and the twelfth at most.
\<close>

theorem parser_returns:
  assumes "stream_ok mem ctx" and "off + unat len \<le> length mem" and "digest_32 ops"
  shows "\<exists>r. parseTx ops mem ctx (Some off) len = Some r
    \<and> (stops_cleanly r
       \<or> r = Inl OutOfBounds
         \<and> (\<exists>c. rounds ops mem (if commandLength ctx = 0 then set_chunk (Some off) len ctx else ctx) c
              \<and> stream_ok mem c \<and> overruns_name mem c))
    \<and> (\<forall>ctx' status. r = Inr (ctx', status) \<longrightarrow> status \<noteq> STREAM_FAULT \<longrightarrow> stream_ok mem ctx')"
proof -
  obtain r where r: "parseTx ops mem ctx (Some off) len = Some r" "ends_unless True (kept_ok mem) r"
    using parseTx_returns [OF assms] by blast
  then have "stops_cleanly r \<or> r = Inl OutOfBounds" by (auto simp: ends_unless_def)
  moreover have "\<forall>ctx' status. r = Inr (ctx', status) \<longrightarrow> status \<noteq> STREAM_FAULT \<longrightarrow> stream_ok mem ctx'"
    using r(2) by (fastforce simp: ends_unless_def kept_ok_def)
  ultimately show ?thesis using r(1) parseTx_overruns [OF assms] by blast
qed

lemma parser_returns_witness:
  "\<exists>r. parseTx sample_ops [0x04, 0x01, 7, 0x04] (initTxContext sample_ops sample_content 0) (Some 0) 4 = Some r"
proof -
  have "stream_ok [0x04, 0x01, 7, 0x04] (initTxContext sample_ops sample_content 0)"
    by (rule initTxContext_ok) (simp add: content_ok_def sample_content_def)
  from parser_returns [OF this, of 0 4 sample_ops] sample_ops_ok show ?thesis by auto
qed

text \<open>
  C23. A round of the loop, error paths included: in every state but those of the two names it ends
  cleanly. Either it returns a status, with the invariant kept, or it goes on after it has used up
  some of the chunk, with the invariant kept.
\<close>

theorem round_is_safe:
  assumes "stream_ok mem ctx" and "digest_32 ops" and "\<not> name_state (state ctx)"
  shows "stops_cleanly (tx_round ops mem ctx) \<and>
    (\<forall>ctx'. tx_round ops mem ctx = Inr (ctx', None) \<longrightarrow>
       stream_ok mem ctx' \<and> unat (commandLength ctx') < unat (commandLength ctx)) \<and>
    (\<forall>ctx' status. tx_round ops mem ctx = Inr (ctx', Some status) \<longrightarrow> status \<noteq> STREAM_FAULT \<longrightarrow>
       stream_ok mem ctx' \<and> unat (commandLength ctx') \<le> unat (commandLength ctx))"
  using tx_round_ends [OF assms(1,2)] assms(3) by (fastforce simp: ends_unless_def round_post_def)

lemma round_is_safe_witness:
  "stops_cleanly (tx_round sample_ops [0x04, 0x01, 7] ((initTxContext sample_ops sample_content 0)
     \<lparr>workBuffer := Some 0, commandLength := 3\<rparr>))"
proof -
  have "stream_ok [0x04, 0x01, 7] ((initTxContext sample_ops sample_content 0)
      \<lparr>workBuffer := Some 0, commandLength := 3\<rparr>)"
    by (simp add: stream_ok_def buffers_ok_def chunk_ok_def position_ok_def initTxContext_def
        content_ok_def sample_content_def)
  then show ?thesis
    by (rule round_is_safe [OF _ sample_ops_ok(1), THEN conjunct1]) (simp add: initTxContext_def name_state_def)
qed

text \<open>
  C24. The exception is real: an account or action name of nine to twelve bytes passes the assertion
  of \<^verbatim>\<open>processActionAccount\<close> and \<^verbatim>\<open>processActionName\<close>, which compares with the size of another buffer,
  and its bytes are written past the end of the eight bytes of the name.
\<close>

theorem long_name_overflows:
  assumes "name_state (state ctx)" and "currentFieldPos ctx = 0"
    and "8 < currentFieldLength ctx" and "currentFieldLength ctx \<le> 12"
    and "chunk_ok mem ctx" and "currentFieldLength ctx \<le> commandLength ctx"
    and "\<forall>bs. hash_update ops (sha256 ctx) bs \<noteq> None"
  shows "process_state ops mem ctx = Inl OutOfBounds"
proof -
  have n: "chunk_length ctx = currentFieldLength ctx" using assms(2,6) by (simp add: chunk_length_def not_less [symmetric])
  obtain bs where bs: "work_read mem ctx (unat (currentFieldLength ctx)) = Inr bs"
    "length bs = unat (currentFieldLength ctx)"
    using work_read_chunk [OF assms(5,6)] by blast
  obtain h where h: "hash_update ops (sha256 ctx) bs = Some h" using assms(7) by blast
  have l: "8 < length bs" "length bs \<le> 12"
    using assms(3,4) bs(2) by (simp_all add: word_less_nat_alt word_le_nat_alt)
  have o: "of_nat (length bs) = currentFieldLength ctx" by (simp add: bs(2))
  have p: "0 < currentFieldLength ctx" "\<not> length bs \<le> 8" using assms(3) l by (simp_all add: word_less_nat_alt)
  note r = receive_def n bs(1) hashTxData_def h p mem_write_def checked_def o
  from assms(1) consider "state ctx = TLV_ACTION_ACCOUNT" | "state ctx = TLV_ACTION_NAME"
    by (auto simp: name_state_def)
  then show ?thesis
    using assms(2,4,6)
    by cases (simp_all add: process_state_def processActionAccount_def processActionName_def
        store_contract_def store_action_def r)
qed

lemma long_name_overflows_witness:
  "process_state sample_ops (zeros 9) ((initTxContext sample_ops sample_content 0)
     \<lparr>state := TLV_ACTION_NAME, currentFieldLength := 9, workBuffer := Some 0, commandLength := 9\<rparr>)
   = Inl OutOfBounds"
  by (rule long_name_overflows)
    (simp_all add: initTxContext_def name_state_def chunk_ok_def sample_ops_def)

text \<open>
  C25. Counting the arguments ends cleanly on any data at all, and changes nothing but the count: a
  truncated or malformed action stops the application or is counted, but never leads the count
  outside the data buffer.
\<close>

theorem counting_is_safe:
  assumes "length (actionDataBuffer ctx) = 512" and "unat (currentActionDataBufferLength ctx) \<le> 512"
  shows "stops_cleanly (count_arguments ctx) \<and>
    (\<forall>ctx'. count_arguments ctx = Inr ctx' \<longrightarrow> (\<exists>n. ctx' = set_count n ctx))"
  using count_arguments_any [OF assms] by (auto simp: ends_def counted_def)

lemma counting_is_safe_witness:
  "stops_cleanly (count_arguments ((sample_context (Refund 0))
     \<lparr>contractActionName := EOSIO_UPDATE_AUTH, currentActionDataBufferLength := 30\<rparr>))"
  by (rule counting_is_safe [THEN conjunct1]) (simp_all add: sample_context_def padded_def)

text \<open>
  C26. A first command that is shorter than its path: the length of the data behind the path wraps, and when what
  lies there in the buffer is the header of a field that is longer than the rest of the buffer, the parser reads
  beyond the end of \<^verbatim>\<open>G_io_apdu_buffer\<close>.
\<close>

theorem short_command_reads_outside:
  assumes "length (G_io_apdu_buffer dev) = 260" and "bs \<noteq> []" and "length bs \<le> 260"
    and "in_buffer dev bs = [CLA, INS_SIGN, P1_FIRST, 0, lc, of_nat n] @ path @ tlv_header k @ rest"
    and "length path = 4 * n" and "1 \<le> n" and "n \<le> 10" and "unat lc < 1 + 4 * n" and "length rest < k" and "k < 2 ^ 24"
  shows "app_round lib bs dev = Some (Inl OutOfBounds)"
  using short_command_reads [OF assms] .

lemma short_command_reads_outside_witness:
  "app_round sample_lib [0xD4, 4, 0, 0, 1, 1, 0, 0, 0, 0, 0x04, 0x82, 16, 0] sample_device = Some (Inl OutOfBounds)"
proof -
  let ?bs = "[0xD4, 4, 0, 0, 1, 1, 0, 0, 0, 0, 0x04, 0x82, 16, 0] :: bytes"
  have "in_buffer sample_device ?bs = [CLA, INS_SIGN, P1_FIRST, 0, 1, of_nat 1] @ [0, 0, 0, 0] @ tlv_header 4096 @ zeros 246"
    by (simp add: in_buffer_def sample_device_def tlv_header_def command_codes)
  from short_command_reads_outside [OF _ _ _ this] show ?thesis by (simp add: sample_device_def)
qed

section \<open>Properties: the formats\<close>

text \<open>
  C27. Names: the text of a name is its canonical base-32 form with the trailing dots dropped, and it
  determines the value, so two accounts never look the same on the screen.
\<close>

theorem name_roundtrip:
  assumes "13 \<le> sz" and "13 \<le> length out"
  shows "name_to_string v out 0 sz = Inr (length (name_text v), name_text v @ drop (length (name_text v)) out)
    \<and> name_value (name_text v) = v"
  using name_to_string_eq [of sz 0 out v] assms name_value_name_text by simp

lemma name_roundtrip_witness:
  "name_to_string EOSIO (zeros 14) 0 14 = Inr (5, padded 14 (cstr ''eosio''))"
proof -
  have "name_digits EOSIO = [10, 20, 24, 14, 20, 0, 0, 0, 0, 0, 0, 0, 0]"
    by (simp add: name_digits_def EOSIO_def fixed_digits_numeral)
  then have "name_text EOSIO = cstr ''eosio''"
    by (simp add: name_text_def charmap_def rstrip_def cstr_def)
  then show ?thesis
    using name_roundtrip [of 14 "zeros 14" EOSIO] by (simp add: padded_def cstr_def zeros_def)
qed

text \<open>
  C28. Amounts: for an amount that is not negative and a precision of at most 18, the text is the
  integer part, a point, exactly the digits of the precision and the letters of the symbol; and the digits
  give the amount back.
\<close>

theorem asset_roundtrip:
  assumes "p = unat (symbol_precision (symbol asset))" and "p \<le> 18"
    and "sint (amount asset) = int n" and "t = asset_text p n (symbol_text (symbol asset))"
    and "length t \<le> length out"
  shows "asset_to_string asset out = Inr (length t, t @ drop (length t) out)
    \<and> decode digit (dec_string (n div 10 ^ p) @ fraction_text p n) = n"
  using asset_to_string_eq [OF assms(1-3)] assms(4,5) decode_asset_digits by simp

lemma asset_roundtrip_witness:
  "asset_to_string \<lparr>amount = 12345, symbol = 0x534F4504\<rparr> (zeros 128)
     = Inr (10, padded 128 (cstr ''1.2345 EOS''))"
proof -
  have p: "unat (symbol_precision 0x534F4504) = 4" by (simp add: symbol_precision_def)
  have s: "symbol_text 0x534F4504 = cstr ''EOS''"
    by (simp add: symbol_text_def symbol_bytes_def c_string_def le_bytes_numeral cstr_def)
  have t: "asset_text 4 12345 (cstr ''EOS'') = cstr ''1.2345 EOS''"
    by (simp add: asset_text_def fraction_text_def dec_string_def dec_digits.simps digit_def cstr_def
        fixed_digits_numeral)
  show ?thesis
    using asset_roundtrip [of 4 "\<lparr>amount = 12345, symbol = 0x534F4504\<rparr>" 12345 "cstr ''1.2345 EOS''" "zeros 128"]
    by (simp add: p s t padded_def)
qed

text \<open>
  C29. An amount with a precision above 18 makes the power of ten overflow the signed 64-bit
  integer: no amount of that precision is printed by defined behaviour.
\<close>

theorem asset_precision_overflows:
  assumes "18 < unat (symbol_precision (symbol asset))"
  shows "asset_to_string asset out = Inl SignedOverflow"
  using asset_pow10_overflow [OF assms] by (simp add: asset_to_string_def Let_def)

lemma asset_precision_overflows_witness:
  "asset_to_string \<lparr>amount = 1, symbol = 0x534F4513\<rparr> (zeros 128) = Inl SignedOverflow"
  by (rule asset_precision_overflows) (simp add: symbol_precision_def)

text \<open>
  C30. Symbols: \<^verbatim>\<open>is_valid_symbol\<close> accepts exactly one to seven capital letters followed by zero bytes.
\<close>

theorem valid_symbols:
  "is_valid_symbol sy \<longleftrightarrow> (\<exists>letters. letters \<noteq> [] \<and> length letters \<le> 7 \<and> list_all capital letters
     \<and> symbol_bytes sy = letters @ zeros (7 - length letters))"
proof
  let ?c = "c_string (symbol_bytes sy)"
  have split: "symbol_bytes sy = ?c @ drop (length ?c) (symbol_bytes sy)"
    by (simp add: c_string_def flip: dropWhile_eq_drop)
  have l: "length (symbol_bytes sy) = 7" by (simp add: symbol_bytes_def)
  have le: "length ?c \<le> 7" using l length_takeWhile_le [of _ "symbol_bytes sy"] by (simp add: c_string_def)
  assume "is_valid_symbol sy"
  then have v: "?c \<noteq> []" "list_all capital ?c" "list_all (\<lambda>c. c = 0) (drop (length ?c) (symbol_bytes sy))"
    by (simp_all add: is_valid_symbol_eq valid_symbol_bytes_def)
  have "drop (length ?c) (symbol_bytes sy) = zeros (7 - length ?c)"
    using v(3) l by (simp add: list_all_iff zeros_def replicate_eqI)
  with split v le show "\<exists>letters. letters \<noteq> [] \<and> length letters \<le> 7 \<and> list_all capital letters
      \<and> symbol_bytes sy = letters @ zeros (7 - length letters)" by metis
next
  assume "\<exists>letters. letters \<noteq> [] \<and> length letters \<le> 7 \<and> list_all capital letters
      \<and> symbol_bytes sy = letters @ zeros (7 - length letters)"
  then obtain letters where s: "symbol_bytes sy = letters @ zeros (7 - length letters)"
    "letters \<noteq> []" "list_all capital letters" by blast
  have "0 \<notin> set letters" using s(3) by (auto simp: list_all_iff capital_def)
  then have "c_string (symbol_bytes sy) = letters"
    unfolding s(1) c_string_def by (cases "7 - length letters") (auto simp: zeros_def takeWhile_append)
  then show "is_valid_symbol sy"
    using s by (simp add: is_valid_symbol_eq valid_symbol_bytes_def zeros_def list_all_iff)
qed

text \<open>
  C31. Keys: \<^verbatim>\<open>compressed_public_key_to_wif\<close> writes the prefix and the Base58 form of the 33 key bytes
  followed by the first four bytes of their RIPEMD-160 digest, and no other key has that text.
\<close>

theorem key_text_faithful:
  assumes "length key = 33" and "33 \<le> keyLength" and "ripemd160 key = Some check" and "4 \<le> length check"
    and "57 \<le> outLength" and "outLength \<le> length out" and "outLength * 138 < 2 ^ 32"
  shows "compressed_public_key_to_wif ripemd160 key 0 keyLength out outLength
      = Inr (length (wif_text key check) + 1, padded outLength (wif_text key check) @ drop outLength out)
    \<and> (\<forall>key' check'. length key' = 33 \<longrightarrow> wif_text key' check' = wif_text key check \<longrightarrow> key' = key)"
proof -
  have "compressed_public_key_to_wif ripemd160 key 0 keyLength out outLength
      = Inr (length (wif_text key check) + 1, padded outLength (wif_text key check) @ drop outLength out)"
    by (rule compressed_public_key_to_wif_eq) (use assms in simp_all)
  moreover have "key' = key" if "length key' = 33" "wif_text key' check' = wif_text key check" for key' check'
    using wif_text_inj [OF that(1) assms(1) that(2)] .
  ultimately show ?thesis by blast
qed

lemma key_text_faithful_witness:
  "compressed_public_key_to_wif sample_ripemd160 sample_key 0 33 (zeros 60) 60
     = Inr (length (wif_text sample_key (take 20 sample_key)) + 1,
         padded 60 (wif_text sample_key (take 20 sample_key)) @ drop 60 (zeros 60))"
  using key_text_faithful [of sample_key 33 sample_ripemd160 "take 20 sample_key" 60 "zeros 60"]
  by (simp add: sample_key_def sample_ripemd160_def)

text \<open>
  An uncompressed public key is shown as its compressed form: the prefix carries the parity of
  the second coordinate, which the last byte decides.
\<close>

theorem uncompressed_key_text:
  assumes "length X = 32" and "length Y = 32" and "33 \<le> keyLength" and "40 \<le> outLength"
  shows "public_key_to_wif ripemd160 (0x04 # X @ Y) keyLength out outLength
    = compressed_public_key_to_wif ripemd160 ((if odd (be_nat Y) then 0x03 else 0x02) # X) 0 33 out outLength"
  using assms by (rule public_key_to_wif_eq)

lemma uncompressed_key_text_witness:
  "public_key_to_wif sample_ripemd160 (0x04 # zeros 32 @ zeros 32) 65 (zeros 60) 60
     = compressed_public_key_to_wif sample_ripemd160 (0x02 # zeros 32) 0 33 (zeros 60) 60"
  using uncompressed_key_text [of "zeros 32" "zeros 32" 65 60 sample_ripemd160 "zeros 60"]
  by (simp add: zeros_def be_val_def numeral_eq_Suc)

text \<open>
  C32. \<^verbatim>\<open>b58enc\<close> writes the Base58 numeral of its input, with one leading \<^verbatim>\<open>1\<close> for every leading zero
  byte, or reports the size it needs; the text determines the input.
\<close>

theorem b58enc_correct:
  assumes "length bin * 138 < 2 ^ 32" and "length (b58_string bin) < length b58"
  shows "b58enc bin (length bin) b58 b58sz =
      Inr (if b58sz \<le> length (b58_string bin) then (False, b58, length (b58_string bin) + 1)
           else (True, b58_string bin @ 0 # drop (length (b58_string bin) + 1) b58, length (b58_string bin) + 1))
    \<and> (\<forall>other. b58_string other = b58_string bin \<longrightarrow> other = bin)"
  using b58enc_eq [of bin "length bin" bin] assms b58_string_inj by auto

lemma b58enc_correct_witness:
  "b58enc [0, 255] 2 (zeros 8) 8 = Inr (True, cstr ''15Q'' @ zeros 5, 4)"
proof -
  have s: "b58_string [0, 255] = cstr ''15Q''"
    by (simp add: b58_string_def leading_zeros_def be_val_def b58_numeral.simps BASE58ALPHABET_def cstr_def)
  show ?thesis
    using b58enc_correct [of "[0, 255]" "zeros 8" 8, THEN conjunct1]
    by (simp add: s zeros_def cstr_def flip: numeral_2_eq_2) (simp add: numeral_eq_Suc)
qed

text \<open>
  C33. \<^verbatim>\<open>unpack_variant32\<close> reads back every 32-bit number from its LEB128 form, whatever follows it,
  and uses exactly the bytes of that form.
\<close>

theorem variant32_roundtrip:
  assumes "v < 2 ^ 32" and "length (leb_bytes v) \<le> unat len"
    and "min 5 (max 1 (unat len)) \<le> length (leb_bytes v @ rest)"
  shows "unpack_variant32 (leb_bytes v @ rest) 0 len = Inr (length (leb_bytes v), of_nat v)"
  by (rule unpack_variant32_leb_bytes) (use assms in simp_all)

lemma variant32_roundtrip_witness:
  "unpack_variant32 (leb_bytes 300 @ zeros 10) 0 12 = Inr (2, 300)"
  using variant32_roundtrip [of 300 12 "zeros 10"] by (simp add: leb_bytes.simps)

text \<open>
  C34. The header of a field: \<^verbatim>\<open>tlvTryDecode\<close> decodes the DER header of every length below
  \<open>2 ^ 24\<close>, asks for more bytes on every shorter beginning of it, and reads nothing behind it.
\<close>

theorem tlv_header_roundtrip:
  assumes "n < 2 ^ 24"
  shows "tlvTryDecode (tlv_header n @ rest) (of_nat (length (tlv_header n))) fl = Inr (True, of_nat n, True)
    \<and> (\<forall>k. 0 < k \<and> k < length (tlv_header n) \<longrightarrow>
         tlvTryDecode (take k (tlv_header n) @ rest) (of_nat k) fl = Inr (False, fl, True))"
  using tlvTryDecode_header [OF assms] tlvTryDecode_prefix by blast

lemma tlv_header_roundtrip_witness:
  "tlvTryDecode [0x04, 0x82, 1, 44, 7] 4 9 = Inr (True, 300, True)"
  using tlv_header_roundtrip [of 300 "[7]" 9] by (simp add: tlv_header_def)

text \<open>
  C35. \<^verbatim>\<open>tlvTryDecode\<close> never reads outside the bytes it is given, on any input.
\<close>

theorem tlv_decode_safe:
  assumes "unat n \<le> length buffer" and "0 < n"
  shows "\<exists>decoded len valid. tlvTryDecode buffer n fl = Inr (decoded, len, valid)"
  using assms by (rule tlvTryDecode_safe)

lemma tlv_decode_safe_witness: "\<exists>decoded len valid. tlvTryDecode [4, 0x84] 2 0 = Inr (decoded, len, valid)"
  using tlv_decode_safe [of 2 "[4, 0x84]" 0] by simp

text \<open>
  C36. \<^verbatim>\<open>check_canonical\<close> accepts exactly the signatures whose two halves are at least
  \<open>2 ^ 247\<close> and below \<open>2 ^ 255\<close>: no half has its top bit set, and none needs fewer than 32 bytes in DER.
\<close>

theorem canonical_signatures:
  assumes "length r = 32" and "length s = 32"
  shows "check_canonical (r @ s @ rest) = Inr (canonical_half (be_nat r) \<and> canonical_half (be_nat s))"
  using assms by (rule check_canonical_eq)

lemma canonical_signatures_witness:
  "check_canonical ((1 # zeros 31) @ (0x80 # zeros 31) @ []) = Inr (canonical_half (be_nat (1 # zeros 31))
     \<and> canonical_half (be_nat (0x80 # zeros 31)))"
  by (rule canonical_signatures) simp_all

text \<open>
  C37. \<^verbatim>\<open>ecdsa_der_to_sig\<close> turns the DER form of two positive integers of at most 32 bytes into
  their big-endian forms of 32 bytes, with the value of both kept.
\<close>

theorem der_signature_decoded:
  assumes "magnitude r" and "magnitude s" and "64 \<le> length sig"
  shows "ecdsa_der_to_sig (der_signature r s @ rest) sig = Inr (1, pad32 r @ pad32 s @ drop 64 sig)
    \<and> length (pad32 r) = 32 \<and> length (pad32 s) = 32
    \<and> be_nat (pad32 r) = be_nat r \<and> be_nat (pad32 s) = be_nat s"
  using ecdsa_der_to_sig_eq [OF assms] assms by (simp add: magnitude_def)

lemma der_signature_decoded_witness:
  "ecdsa_der_to_sig (der_signature [0x80, 1] [5] @ []) (zeros 100)
     = Inr (1, pad32 [0x80, 1] @ pad32 [5] @ drop 64 (zeros 100))"
  by (rule der_signature_decoded [THEN conjunct1]) (simp_all add: magnitude_def)

text \<open>
  C38. \<^verbatim>\<open>ui64toa\<close> writes the decimal numeral of every 64-bit number into a buffer with room for it, and
  the numeral determines the number.
\<close>

theorem decimal_roundtrip:
  assumes "length (dec_string (unat i)) < length b"
  shows "ui64toa i b = Inr (dec_string (unat i) @ 0 # drop (Suc (length (dec_string (unat i)))) b)
    \<and> decode digit (dec_string (unat i)) = unat i"
  using ui64toa_eq [OF assms] by (simp add: decode_dec_string)

lemma decimal_roundtrip_witness: "ui64toa 1205 (zeros 8) = Inr (cstr ''1205'' @ 0 # zeros 3)"
proof -
  have d: "dec_string 1205 = cstr ''1205''" by (simp add: dec_string_def dec_digits.simps digit_def cstr_def)
  have "length (dec_string (unat (1205 :: u64))) < length (zeros 8)" by (simp add: d)
  from decimal_roundtrip [OF this] show ?thesis by (simp add: d zeros_def cstr_def)
qed

text \<open>
  C39. \<^verbatim>\<open>i64toa\<close> writes the decimal numeral of every number that fits 64 signed bits, with a minus
  sign before a negative one; the smallest of them overflows when it is negated.
\<close>

theorem signed_decimal:
  assumes "- (2 ^ 63) \<le> i" and "i < 2 ^ 63" and "21 < length b"
  shows "i64toa i b =
    (if 0 \<le> i then Inr (dec_string (nat i) @ 0 # drop (Suc (length (dec_string (nat i)))) b)
     else if - (2 ^ 63) < i then
       Inr (cstr ''-'' @ dec_string (nat (- i)) @ 0 # drop (2 + length (dec_string (nat (- i)))) b)
     else Inl SignedOverflow)"
proof -
  have l: "length (dec_string n) \<le> 19" if "n < 2 ^ 63" for n
    using length_dec_string [of n 19] that by simp
  have "length (dec_string (nat i)) \<le> 19" "length (dec_string (nat (- i))) \<le> 19" if "- (2 ^ 63) < i"
    using assms that by (auto intro!: l)
  then show ?thesis
    using assms i64toa_nonneg [of i b] i64toa_neg [of i b] i64toa_min [of b] by force
qed

lemma signed_decimal_witness: "i64toa (- (2 ^ 63)) (zeros 64) = Inl SignedOverflow"
  using signed_decimal [of "- (2 ^ 63)" "zeros 64"] by simp

text \<open>
  \<^verbatim>\<open>array_hexstr\<close> writes two hexadecimal digits for every byte, and they determine the bytes.
\<close>

theorem hexstr_correct:
  assumes "2 * length bin < length strbuf"
  shows "array_hexstr strbuf bin (length bin)
      = Inr (hex_string bin @ 0 # drop (2 * length bin + 1) strbuf)
    \<and> (\<forall>other. hex_string other = hex_string bin \<longrightarrow> other = bin)"
  using array_hexstr_eq [of "length bin" bin strbuf] assms hex_string_inj by auto

lemma hexstr_correct_witness: "array_hexstr (zeros 6) [0x2a, 0xf0] 2 = Inr (cstr ''2af0'' @ zeros 2)"
proof -
  have h: "hex_string [0x2a, 0xf0] = cstr ''2af0''"
    by (simp add: hex_string_def nibbles_def hex_digits_def cstr_def)
  show ?thesis
    using hexstr_correct [of "[0x2a, 0xf0]" "zeros 6", THEN conjunct1]
    by (simp add: h zeros_def numeral_2_eq_2)
qed

text \<open>
  A memo: \<^verbatim>\<open>parseStringField\<close> shows the string behind its LEB128 length and reports what it used up.
\<close>

theorem string_field_shown:
  assumes "length s \<le> 127" and "length (leb_bytes (length s)) + length s \<le> unat inLength"
    and "unat inLength \<le> length (leb_bytes (length s) @ s @ rest)" and "length fieldName \<le> 32"
  shows "parseStringField (leb_bytes (length s) @ s @ rest) 0 inLength fieldName a =
    Inr (shown fieldName s, length (leb_bytes (length s)) + length s, length s)"
  by (rule parseStringField_eq) (use assms in simp_all)

lemma string_field_shown_witness:
  "parseStringField [2, 0x68, 0x69, 0xff] 0 3 (cstr ''Memo'') \<lparr>label = zeros 32, data = zeros 128\<rparr>
     = Inr (shown (cstr ''Memo'') [0x68, 0x69], 3, 2)"
  using string_field_shown [of "[0x68, 0x69]" 3 "[0xff]" "cstr ''Memo''" "\<lparr>label = zeros 32, data = zeros 128\<rparr>"]
  by (simp add: leb_bytes.simps cstr_def)

text \<open>
  The fixed-size argument functions read their own field only and leave nothing of what was on the
  screen before: the screens they make depend on the bytes of the field and its label.
\<close>

theorem nothing_stale_on_screen:
  assumes "length fieldName \<le> 32" and "off + width \<le> length mem" and "off' + width \<le> length mem'"
    and "take width (drop off mem) = take width (drop off' mem')"
    and "(parse, width) \<in> {(parseNameField, 8), (parsePublicKeyField ripemd160, 33), (parseUint16Field, 2),
      (parseUint32Field, 4), (parseUInt64Field, 8), (parseAssetField, 16), (parsePermissionField, 16)}"
  shows "parse mem off inLength fieldName a = parse mem' off' inLength fieldName a'"
  using assms(5)
  by (elim insertE emptyE; simp only: prod.inject; elim conjE; simp only:;
      metis assms(1-4) name_field.reads_only_field name_field.arg_irrelevant
        key_field.reads_only_field key_field.arg_irrelevant uint16_field.reads_only_field uint16_field.arg_irrelevant
        uint32_field.reads_only_field uint32_field.arg_irrelevant uint64_field.reads_only_field
        uint64_field.arg_irrelevant asset_field.reads_only_field asset_field.arg_irrelevant
        permission_field.reads_only_field permission_field.arg_irrelevant)

lemma nothing_stale_on_screen_witness:
  "parseNameField (1 # zeros 8) 1 8 (cstr ''To'') \<lparr>label = zeros 32, data = zeros 128\<rparr>
     = parseNameField (zeros 8) 0 8 (cstr ''To'') \<lparr>label = padded 32 (cstr ''From''), data = zeros 128\<rparr>"
  by (rule nothing_stale_on_screen [where width = 8]) (simp_all add: cstr_def zeros_def)

text \<open>
  C40. The loops of \<^verbatim>\<open>parseUpdateAuth\<close> over keys, permissions and delays end: under the guard that the code puts
  before each of them, 128 rounds bring it to the entry that owns the argument asked for, and it shows the first
  or the second argument of that entry. And so \<^verbatim>\<open>parseUpdateAuth\<close> as a whole ends, on any data and for any
  argument: it returns, or fails an assertion, or reads outside the data; never is one of its loops cut short.
\<close>

theorem updateAuth_loops_end:
  assumes "unat argIndex \<le> unat argNum" and "unat argNum < unat argIndex + 2 * unat tot" and "128 \<le> fuel"
    and "d = (unat argNum - unat argIndex) div 2" and "e = (unat argNum - unat argIndex) mod 2"
  shows "updateAuth_keys ripemd160 fuel 0 argIndex tot mem p len argNum a =
      andThen ((if e = 0 then key_first ripemd160 else key_second) (of_nat d) mem (p + d * 36) (len - of_nat (d * 36)) a) (\<lambda>x. Inr (Inl x))
    \<and> updateAuth_accounts fuel 0 argIndex tot mem p len argNum a =
      andThen ((if e = 0 then account_first else account_second) (of_nat d) mem (p + d * 18) (len - of_nat (d * 18)) a) (\<lambda>x. Inr (Inl x))
    \<and> updateAuth_delays fuel 0 argIndex tot mem p len argNum a =
      andThen ((if e = 0 then delay_first else delay_second) (of_nat d) mem (p + d * 6) (len - of_nat (d * 6)) a) (\<lambda>x. Inr (Inl x))
    \<and> (stops_cleanly (parseUpdateAuth ripemd160 mem q n i a) \<or> parseUpdateAuth ripemd160 mem q n i a = Inl OutOfBounds)"
  using keys_loop.comes_to_argument [OF assms] accounts_loop.comes_to_argument [OF assms] delays_loop.comes_to_argument [OF assms]
    parseUpdateAuth_any [of ripemd160 mem q n i a]
  unfolding inside_or_out_def by blast

lemma updateAuth_loops_end_witness:
  "updateAuth_delays 256 0 4 3 (zeros 40) 0 40 9 \<lparr>label = zeros 32, data = zeros 128\<rparr> =
     andThen (delay_second 2 (zeros 40) 12 28 \<lparr>label = zeros 32, data = zeros 128\<rparr>) (\<lambda>x. Inr (Inl x))"
  using updateAuth_loops_end [of 4 9 3 256 2 1] by simp

end
